(* ===== verification/Prelude.thy ===== *)
theory Prelude
  imports Main "HOL-Library.Word" "HOL-Library.Monad_Syntax"
begin

text \<open>
  Shared vocabulary of the development: the machine-integer types, the C string and byte-buffer
  operations the sources call from the standard library (\<open>string.h\<close>, \<open>stdio.h\<close>,
  \<open>stdlib.h\<close>), decimal printing and reading, little-endian integers, and the generic lemmas
  about them that the component theories use.

  A C string is a \<^typ>\<open>string\<close> that holds no NUL character (\<open>nonul\<close>); a byte buffer is a
  \<^typ>\<open>char list\<close> in which NUL may occur, and \<open>cstr\<close> reads the C string at its start.
  A \<open>char *\<close> that points into a string is the suffix it points at, a \<open>char *\<close> that
  may be NULL is a \<^typ>\<open>string option\<close>.

  A result of type \<open>'a option\<close> of an operation is its partiality: \<open>None\<close> stands for a call
  that has no defined outcome (it dereferences NULL, writes outside an object or loops for ever),
  and never for an error the code reports, which is an ordinary value.
\<close>

section \<open>Types and fact collections\<close>

type_synonym u8 = "8 word"
type_synonym u32 = "32 word"
type_synonym u64 = "64 word"
type_synonym bytes = "char list"

named_theorems str_simps \<open>rules that evaluate the C string operations\<close>
named_theorems path_simps \<open>rules about the file names the programs build\<close>

section \<open>C strings and buffers\<close>

abbreviation nul :: char where
  "nul \<equiv> CHR 0x00"

definition nonul :: "char list \<Rightarrow> bool" where
  "nonul s \<longleftrightarrow> nul \<notin> set s"

text \<open>The C string that starts at the head of a buffer.\<close>

definition cstr :: "bytes \<Rightarrow> string" where
  "cstr bs = takeWhile (\<lambda>c. c \<noteq> nul) bs"

text \<open>\<open>strchr (s, c)\<close> for \<open>c\<close> not NUL: the suffix that starts at the first \<open>c\<close>.\<close>

definition strchr :: "string \<Rightarrow> char \<Rightarrow> string option" where
  "strchr s c = (case dropWhile (\<lambda>x. x \<noteq> c) s of [] \<Rightarrow> None | t \<Rightarrow> Some t)"

text \<open>\<open>strstr (s, t)\<close>: the suffix that starts at the first occurrence of \<open>t\<close>.\<close>

fun strstr :: "string \<Rightarrow> string \<Rightarrow> string option" where
  "strstr [] t = (if t = [] then Some [] else None)"
| "strstr (c # s) t = (if take (length t) (c # s) = t then Some (c # s) else strstr s t)"

text \<open>Whether \<open>strncmp (s, t, n) == 0\<close>.\<close>

definition strncmp_eq :: "string \<Rightarrow> string \<Rightarrow> nat \<Rightarrow> bool" where
  "strncmp_eq s t n \<longleftrightarrow> take n s = take n t"

text \<open>The difference \<open>q - p\<close> of two pointers into one string, \<open>q\<close> not before \<open>p\<close>.\<close>

definition ptr_diff :: "string \<Rightarrow> string \<Rightarrow> nat" where
  "ptr_diff q p = length p - length q"

text \<open>\<open>memcpy (buf + off, data, strlen data)\<close>.\<close>

definition overwrite :: "'a list \<Rightarrow> nat \<Rightarrow> 'a list \<Rightarrow> 'a list" where
  "overwrite buf off data = take off buf @ data @ drop (off + length data) buf"

abbreviation cr :: char where
  "cr \<equiv> CHR 0x0D"

abbreviation lf :: char where
  "lf \<equiv> CHR 0x0A"

section \<open>Decimal numbers\<close>

definition digit_char :: "nat \<Rightarrow> char" where
  "digit_char d = char_of (48 + d)"

definition char_digit :: "char \<Rightarrow> nat" where
  "char_digit c = of_char c - 48"

definition is_digit :: "char \<Rightarrow> bool" where
  "is_digit c \<longleftrightarrow> 48 \<le> (of_char c :: nat) \<and> (of_char c :: nat) \<le> 57"

text \<open>What \<open>printf\<close> writes for \<open>%d\<close>, \<open>%u\<close>, \<open>%lu\<close>, \<open>%zu\<close> on a number that is not negative.\<close>

fun dec :: "nat \<Rightarrow> string" where
  "dec n = (if n < 10 then [digit_char n] else dec (n div 10) @ [digit_char (n mod 10)])"

declare dec.simps [simp del]

text \<open>The value of a run of digits.\<close>

definition undec :: "string \<Rightarrow> nat" where
  "undec s = foldl (\<lambda>n c. 10 * n + char_digit c) 0 s"

text \<open>\<open>strtol (s, &end, 10)\<close>: the number, limited to the range of a \<open>long\<close>, and the rest.
  White space and a sign may come first; without a digit the result is 0 and the whole string.\<close>

definition is_space :: "char \<Rightarrow> bool" where
  "is_space c \<longleftrightarrow> c \<in> {CHR '' '', CHR 0x09, CHR 0x0A, CHR 0x0B, CHR 0x0C, CHR 0x0D}"

definition strtol :: "string \<Rightarrow> int \<times> string" where
  "strtol s =
     (let t = dropWhile is_space s;
          neg = (t \<noteq> [] \<and> hd t = CHR ''-'');
          u = (if t \<noteq> [] \<and> (hd t = CHR ''-'' \<or> hd t = CHR ''+'') then tl t else t);
          ds = takeWhile is_digit u;
          n = int (undec ds)
      in if ds = [] then (0, s)
         else (if neg then max (- (2 ^ 63)) (- n) else min (2 ^ 63 - 1) n, dropWhile is_digit u))"

text \<open>The conversion of a \<open>long\<close> to an \<open>int\<close>, which keeps the low 32 bits.\<close>

definition to_int32 :: "int \<Rightarrow> int" where
  "to_int32 n = (n + 2 ^ 31) mod 2 ^ 32 - 2 ^ 31"

section \<open>Little-endian integers\<close>

definition le32 :: "nat \<Rightarrow> bytes" where
  "le32 n = [char_of (n mod 256), char_of (n div 256 mod 256),
             char_of (n div 65536 mod 256), char_of (n div 16777216 mod 256)]"

definition of_le32 :: "bytes \<Rightarrow> nat" where
  "of_le32 bs = of_char (bs ! 0) + 256 * of_char (bs ! 1) + 65536 * of_char (bs ! 2)
     + 16777216 * of_char (bs ! 3)"

section \<open>Lemmas on strings\<close>

lemma nonul_Nil [simp, str_simps]: "nonul []"
  by (simp add: nonul_def)

lemma nonul_Cons [simp, str_simps]: "nonul (c # s) \<longleftrightarrow> c \<noteq> nul \<and> nonul s"
  by (auto simp: nonul_def)

lemma nonul_append [simp, str_simps]: "nonul (s @ t) \<longleftrightarrow> nonul s \<and> nonul t"
  by (auto simp: nonul_def)

lemma cstr_nonul: "nonul (cstr bs)"
  unfolding nonul_def cstr_def by (metis (mono_tags, lifting) set_takeWhileD)

lemma cstr_append_nul [simp]: "nonul s \<Longrightarrow> cstr (s @ nul # t) = s"
  by (induction s) (auto simp: cstr_def)

lemma cstr_id [simp]: "nonul s \<Longrightarrow> cstr s = s"
  by (induction s) (auto simp: cstr_def)

lemma length_cstr: "length (cstr bs) \<le> length bs"
  by (simp add: cstr_def length_takeWhile_le)

lemma dropWhile_until [simp]: "c \<notin> set s \<Longrightarrow> dropWhile (\<lambda>x. x \<noteq> c) (s @ c # t) = c # t"
  by (induction s) auto

lemma dropWhile_absent [simp]: "c \<notin> set s \<Longrightarrow> dropWhile (\<lambda>x. x \<noteq> c) s = []"
  by (induction s) auto

lemma takeWhile_until [simp]: "c \<notin> set s \<Longrightarrow> takeWhile (\<lambda>x. x \<noteq> c) (s @ c # t) = s"
  by (induction s) auto

lemma strchr_append [simp]: "c \<notin> set s \<Longrightarrow> strchr (s @ c # t) c = Some (c # t)"
  by (induction s) (auto simp: strchr_def)

lemma strchr_here [simp]: "strchr (c # t) c = Some (c # t)"
  by (simp add: strchr_def)

lemma strchr_None [simp]: "c \<notin> set s \<Longrightarrow> strchr s c = None"
  by (induction s) (auto simp: strchr_def)

lemma strchr_eq_None_iff: "strchr s c = None \<longleftrightarrow> c \<notin> set s"
proof
  assume "strchr s c = None"
  then have "dropWhile (\<lambda>x. x \<noteq> c) s = []"
    by (simp add: strchr_def split: list.splits)
  then show "c \<notin> set s" by (auto simp: dropWhile_eq_Nil_conv)
qed simp

lemma strchr_SomeD:
  assumes "strchr s c = Some t"
  shows "\<exists>p r. s = p @ t \<and> c \<notin> set p \<and> t = c # r"
proof -
  from assms have t: "t = dropWhile (\<lambda>x. x \<noteq> c) s" and ne: "t \<noteq> []"
    by (auto simp: strchr_def split: list.splits)
  then have "hd t = c" using hd_dropWhile [of "\<lambda>x. x \<noteq> c" s] by auto
  with ne obtain r where "t = c # r" by (cases t) auto
  moreover have "s = takeWhile (\<lambda>x. x \<noteq> c) s @ t" using t by simp
  moreover have "c \<notin> set (takeWhile (\<lambda>x. x \<noteq> c) s)" by (metis (mono_tags, lifting) set_takeWhileD)
  ultimately show ?thesis by blast
qed

lemma ptr_diff_append [simp]: "ptr_diff t (s @ t) = length s"
  by (simp add: ptr_diff_def)

lemma ptr_diff_Cons_append [simp]: "ptr_diff t (c # s @ t) = Suc (length s)"
  by (simp add: ptr_diff_def)

lemma strstr_prefix [simp]: "strstr (t @ s) t = Some (t @ s)"
  by (cases t; cases s) auto

lemma strstr_skip: "t \<noteq> [] \<Longrightarrow> hd t \<notin> set p \<Longrightarrow> strstr (p @ s) t = strstr s t"
  by (induction p) (auto simp: take_Cons' neq_Nil_conv)

lemma strstr_first [simp]: "t \<noteq> [] \<Longrightarrow> hd t \<notin> set p \<Longrightarrow> strstr (p @ t @ s) t = Some (t @ s)"
  by (simp add: strstr_skip)

lemma strncmp_eq_self [simp]: "strncmp_eq s s n"
  by (simp add: strncmp_eq_def)

lemma length_overwrite: "off + length data \<le> length buf \<Longrightarrow> length (overwrite buf off data) = length buf"
  by (simp add: overwrite_def)

section \<open>Lemmas on decimal numbers\<close>

lemma of_char_digit_char: "d < 10 \<Longrightarrow> (of_char (digit_char d) :: nat) = 48 + d"
  by (simp add: digit_char_def)

lemma char_digit_digit_char [simp]: "d < 10 \<Longrightarrow> char_digit (digit_char d) = d"
  by (simp add: char_digit_def of_char_digit_char)

lemma is_digit_digit_char [simp]: "d < 10 \<Longrightarrow> is_digit (digit_char d)"
  by (simp add: is_digit_def of_char_digit_char)

lemma undec_snoc [simp]: "undec (s @ [c]) = 10 * undec s + char_digit c"
  by (simp add: undec_def)

lemma undec_dec [simp]: "undec (dec n) = n"
proof (induction n rule: dec.induct)
  case (1 n)
  show ?case
  proof (cases "n < 10")
    case True
    then show ?thesis by (simp add: dec.simps [of n] undec_def)
  next
    case False
    with 1 show ?thesis by (simp add: dec.simps [of n])
  qed
qed

lemma dec_inj [simp]: "dec m = dec n \<longleftrightarrow> m = n"
  by (metis undec_dec)

lemma dec_digits: "list_all is_digit (dec n)"
proof (induction n rule: dec.induct)
  case (1 n)
  then show ?case by (cases "n < 10") (simp_all add: dec.simps [of n])
qed

lemma dec_Nil [simp]: "dec n \<noteq> []"
  by (subst dec.simps) simp

lemma not_digit_not_in_dec: "\<not> is_digit c \<Longrightarrow> c \<notin> set (dec n)"
  using dec_digits [of n] by (auto simp: list_all_iff)

lemma dec_nonul [simp]: "nonul (dec n)"
  using not_digit_not_in_dec [of nul n] by (simp add: nonul_def is_digit_def)

lemma length_dec_le: "n < 10 ^ k \<Longrightarrow> 0 < k \<Longrightarrow> length (dec n) \<le> k"
proof (induction n arbitrary: k rule: dec.induct)
  case (1 n)
  show ?case
  proof (cases "n < 10")
    case True
    with 1 show ?thesis by (simp add: dec.simps [of n])
  next
    case False
    with "1.prems" obtain j where k: "k = Suc j" and j: "0 < j"
      by (cases k; cases "k - 1") auto
    with "1.prems" have "n div 10 < 10 ^ j" by auto
    with False j "1.IH" have "length (dec (n div 10)) \<le> j" by blast
    with False k show ?thesis by (simp add: dec.simps [of n])
  qed
qed

text \<open>A decimal number is read back up to the first character that is no digit.\<close>

lemma takeWhile_dec [simp]: "\<not> is_digit c \<Longrightarrow> takeWhile is_digit (dec n @ c # t) = dec n"
  using dec_digits [of n] by (simp add: list_all_iff)

lemma dropWhile_dec [simp]: "\<not> is_digit c \<Longrightarrow> dropWhile is_digit (dec n @ c # t) = c # t"
  using dec_digits [of n] by (simp add: list_all_iff)

lemma takeWhile_dec_end [simp]: "takeWhile is_digit (dec n) = dec n"
  using dec_digits [of n] by (simp add: list_all_iff)

lemma dropWhile_dec_end [simp]: "dropWhile is_digit (dec n) = []"
  using dec_digits [of n] by (simp add: list_all_iff)

lemma hd_dec_digit: "is_digit (hd (dec n))"
  using dec_digits [of n] by (cases "dec n") auto

lemma digit_not_special:
  assumes "is_digit c"
  shows "\<not> is_space c" "c \<noteq> CHR ''-''" "c \<noteq> CHR ''+''"
  using assms by (auto simp: is_space_def is_digit_def)

text \<open>\<open>strtol\<close> reads back a number that was printed, up to the first character that is no digit.\<close>

lemma strtol_dec:
  assumes "n < 2 ^ 63" "t = [] \<or> \<not> is_digit (hd t)"
  shows "strtol (dec n @ t) = (int n, t)"
proof -
  obtain c ds where cs: "dec n = c # ds" by (cases "dec n") auto
  then have c: "is_digit c" using hd_dec_digit [of n] by simp
  have "takeWhile is_digit (dec n @ t) = dec n \<and> dropWhile is_digit (dec n @ t) = t"
    using assms(2) by (cases t) auto
  moreover have "int n \<le> 2 ^ 63 - 1" using assms(1) by simp
  moreover have "undec (c # ds) = n" using undec_dec [of n] cs by simp
  ultimately show ?thesis
    using digit_not_special [OF c] by (simp add: strtol_def Let_def cs)
qed

lemma to_int32_id [simp]: "0 \<le> n \<Longrightarrow> n < 2 ^ 31 \<Longrightarrow> to_int32 n = n"
  by (simp add: to_int32_def)

text \<open>A number followed by a separator determines both the number and what follows.\<close>

lemma dec_append_inj:
  assumes "\<not> is_digit c" "\<not> is_digit d"
  shows "dec m @ c # s = dec n @ d # t \<longleftrightarrow> m = n \<and> c = d \<and> s = t"
  by (metis assms takeWhile_dec dropWhile_dec dec_inj list.inject)

section \<open>Lemmas on little-endian integers\<close>

lemma length_le32 [simp]: "length (le32 n) = 4"
  by (simp add: le32_def)

lemma le32_digits:
  fixes n :: nat
  assumes "n < 4294967296"
  shows "n mod 256 + 256 * (n div 256 mod 256) + 65536 * (n div 65536 mod 256)
     + 16777216 * (n div 16777216 mod 256) = n"
proof -
  have d: "n div 65536 = n div 256 div 256" "n div 16777216 = n div 256 div 256 div 256"
    by (simp_all add: div_mult2_eq [symmetric])
  have lt: "n div 256 div 256 div 256 < 256" using assms by (simp add: div_mult2_eq [symmetric])
  have "n = 256 * (n div 256) + n mod 256" by simp
  moreover have "n div 256 = 256 * (n div 256 div 256) + n div 256 mod 256" by simp
  moreover have "n div 256 div 256 = 256 * (n div 256 div 256 div 256) + n div 256 div 256 mod 256"
    by simp
  ultimately show ?thesis unfolding d mod_less [OF lt] by linarith
qed

lemma of_le32_le32 [simp]: "n < 4294967296 \<Longrightarrow> of_le32 (le32 n @ t) = n"
  using le32_digits [of n] by (simp add: of_le32_def le32_def)

lemma of_le32_le32_end [simp]: "n < 4294967296 \<Longrightarrow> of_le32 (le32 n) = n"
  using of_le32_le32 [of n "[]"] by simp

section \<open>Fields of a list\<close>

text \<open>The pieces of a list between separators, empty ones included.\<close>

fun split_fields :: "('a \<Rightarrow> bool) \<Rightarrow> 'a list \<Rightarrow> 'a list list" where
  "split_fields sep [] = [[]]"
| "split_fields sep (x # xs) = (if sep x then [] # split_fields sep xs else (x # hd (split_fields sep xs)) # tl (split_fields sep xs))"

lemma fields_ne [simp]: "split_fields sep xs \<noteq> []"
  by (cases xs) simp_all

lemma fields_append_sep: "list_all (\<lambda>x. \<not> sep x) xs \<Longrightarrow> sep y \<Longrightarrow> split_fields sep (xs @ y # ys) = xs # split_fields sep ys"
  by (induction xs) auto

lemma fields_no_sep: "list_all (\<lambda>x. \<not> sep x) xs \<Longrightarrow> split_fields sep xs = [xs]"
  by (induction xs) auto

end
