(* ===== verification/Fsys.thy ===== *)
theory Fsys
  imports Prelude "HOL-Library.AList"
begin

text \<open>
  The part of the POSIX file system that the key-value servers of \<open>hw4\<close> use: \<open>stat\<close>,
  \<open>mkdir\<close>, \<open>open\<close>/\<open>fopen\<close> for reading and for writing (created, truncated
  or not), \<open>write\<close>/\<open>fwrite\<close> from the start of a file, \<open>remove\<close>,
  \<open>rename\<close> and \<open>readdir\<close>.

  The state is an association list of regular files, each with its bytes and its owner-write
  permission, and a list of directories. \<open>denied\<close> names the paths the process has no permission
  for (a file it may not open, a directory it may not change), so that every error return of the code
  can be reached; \<open>privileged\<close> says whether the process runs as root, which file modes do not
  bind. Operations return 0 or the \<open>errno\<close> of their failure. A full disk and an interrupted call
  are not modelled.
\<close>

section \<open>State\<close>

record fnode =
  content :: bytes
  writable :: bool

record fsys =
  file_list :: "(string \<times> fnode) list"
  dir_list :: "string list"
  denied :: "string \<Rightarrow> bool"
  privileged :: bool

definition EACCES :: int where "EACCES = 13"
definition ENOENT :: int where "ENOENT = 2"
definition EEXIST :: int where "EEXIST = 17"
definition ENOTEMPTY :: int where "ENOTEMPTY = 39"

lemmas errno_defs = EACCES_def ENOENT_def EEXIST_def ENOTEMPTY_def

definition fs_file :: "fsys \<Rightarrow> string \<Rightarrow> fnode option" where
  "fs_file fs p = map_of (file_list fs) p"

definition fs_dir :: "fsys \<Rightarrow> string \<Rightarrow> bool" where
  "fs_dir fs p \<longleftrightarrow> p \<in> set (dir_list fs)"

definition set_file :: "fsys \<Rightarrow> string \<Rightarrow> fnode \<Rightarrow> fsys" where
  "set_file fs p n = fs\<lparr>file_list := AList.update p n (file_list fs)\<rparr>"

definition del_file :: "fsys \<Rightarrow> string \<Rightarrow> fsys" where
  "del_file fs p = fs\<lparr>file_list := AList.delete p (file_list fs)\<rparr>"

text \<open>The directory part of a path: what stands before its last slash. A path without one lies in the
  working directory, and one whose only slash is the first in the root; both always exist.\<close>

definition parent :: "string \<Rightarrow> string" where
  "parent p = rev (tl (dropWhile (\<lambda>c. c \<noteq> CHR ''/'') (rev p)))"

definition parent_ok :: "fsys \<Rightarrow> string \<Rightarrow> bool" where
  "parent_ok fs p \<longleftrightarrow> (parent p = [] \<or> fs_dir fs (parent p)) \<and> \<not> denied fs (parent p)"

section \<open>Operations\<close>

definition fs_stat :: "fsys \<Rightarrow> string \<Rightarrow> bool" where
  "fs_stat fs p \<longleftrightarrow> fs_file fs p \<noteq> None \<or> fs_dir fs p"

definition fs_mkdir :: "fsys \<Rightarrow> string \<Rightarrow> int \<times> fsys" where
  "fs_mkdir fs d =
     (if fs_stat fs d then (EEXIST, fs)
      else if \<not> (parent d = [] \<or> fs_dir fs (parent d)) then (ENOENT, fs)
      else if denied fs (parent d) then (EACCES, fs)
      else (0, fs\<lparr>dir_list := d # dir_list fs\<rparr>))"

definition fs_open_read :: "fsys \<Rightarrow> string \<Rightarrow> bytes option" where
  "fs_open_read fs p = (if denied fs p then None else map_option content (fs_file fs p))"

text \<open>\<open>fs_open_write fs p trunc mode\<close> opens \<open>p\<close> for writing: an existing file must be writable
  and is emptied if \<open>trunc\<close>; a new file is created empty with owner-write permission \<open>mode\<close>.\<close>

definition fs_open_write :: "fsys \<Rightarrow> string \<Rightarrow> bool \<Rightarrow> bool \<Rightarrow> fsys option" where
  "fs_open_write fs p trunc mode =
     (if denied fs p \<or> fs_dir fs p then None
      else case fs_file fs p of
        None \<Rightarrow> if parent_ok fs p then Some (set_file fs p \<lparr>content = [], writable = mode\<rparr>) else None
      | Some n \<Rightarrow>
          if writable n \<or> privileged fs
          then Some (if trunc then set_file fs p (n\<lparr>content := []\<rparr>) else fs) else None)"

text \<open>Writing bytes at the start of an open file.\<close>

definition fs_write :: "fsys \<Rightarrow> string \<Rightarrow> bytes \<Rightarrow> fsys" where
  "fs_write fs p bs = (case fs_file fs p of
     None \<Rightarrow> fs | Some n \<Rightarrow> set_file fs p (n\<lparr>content := overwrite (content n) 0 bs\<rparr>))"

definition fs_readdir :: "fsys \<Rightarrow> string \<Rightarrow> string list" where
  "fs_readdir fs d = filter (\<lambda>p. parent p = d) (map fst (file_list fs) @ dir_list fs)"

definition fs_remove :: "fsys \<Rightarrow> string \<Rightarrow> int \<times> fsys" where
  "fs_remove fs p =
     (if denied fs (parent p) then (EACCES, fs)
      else if fs_file fs p \<noteq> None then (0, del_file fs p)
      else if fs_dir fs p then
        (if fs_readdir fs p = [] then (0, fs\<lparr>dir_list := removeAll p (dir_list fs)\<rparr>) else (ENOTEMPTY, fs))
      else (ENOENT, fs))"

definition fs_rename :: "fsys \<Rightarrow> string \<Rightarrow> string \<Rightarrow> int \<times> fsys" where
  "fs_rename fs p q = (case fs_file fs p of
     None \<Rightarrow> (ENOENT, fs)
   | Some n \<Rightarrow>
       if denied fs (parent p) \<or> denied fs (parent q) then (EACCES, fs)
       else if p = q then (0, fs)
       else (0, set_file (del_file fs p) q n))"

section \<open>Lemmas\<close>

lemma fs_file_set_file [simp]: "fs_file (set_file fs p n) q = (if q = p then Some n else fs_file fs q)"
  by (simp add: fs_file_def set_file_def update_conv')

lemma fs_file_del_file [simp]: "fs_file (del_file fs p) q = (if q = p then None else fs_file fs q)"
  by (simp add: fs_file_def del_file_def delete_conv')

lemma set_file_frame [simp]:
  "dir_list (set_file fs p n) = dir_list fs" "denied (set_file fs p n) = denied fs"
  "privileged (set_file fs p n) = privileged fs" "fs_dir (set_file fs p n) = fs_dir fs"
  by (simp_all add: set_file_def fs_dir_def fun_eq_iff)

lemma del_file_frame [simp]:
  "dir_list (del_file fs p) = dir_list fs" "denied (del_file fs p) = denied fs"
  "privileged (del_file fs p) = privileged fs" "fs_dir (del_file fs p) = fs_dir fs"
  by (simp_all add: del_file_def fs_dir_def fun_eq_iff)

lemma parent_join [simp]: "CHR ''/'' \<notin> set name \<Longrightarrow> parent (d @ CHR ''/'' # name) = d"
  by (simp add: parent_def)

lemma parent_join_rel: "CHR ''/'' \<notin> set name \<Longrightarrow> parent name = []"
  by (simp add: parent_def)

text \<open>A file just opened for writing, then written, holds exactly the bytes written if it was new or
  truncated.\<close>

lemma fs_create_write:
  assumes "fs_open_write fs p trunc mode = Some fs'" "fs_file fs p = None \<or> trunc"
  shows "\<exists>w. fs_write fs' p bs = set_file fs' p \<lparr>content = bs, writable = w\<rparr>
     \<and> (\<forall>q. q \<noteq> p \<longrightarrow> fs_file fs' q = fs_file fs q)
     \<and> (w = (case fs_file fs p of None \<Rightarrow> mode | Some n \<Rightarrow> writable n))
     \<and> fs_dir fs' = fs_dir fs \<and> denied fs' = denied fs \<and> privileged fs' = privileged fs"
proof (cases "fs_file fs p")
  case None
  with assms show ?thesis
    by (auto simp: fs_open_write_def fs_write_def overwrite_def split: if_splits)
next
  case (Some n)
  with assms show ?thesis
    by (cases n) (auto simp: fs_open_write_def fs_write_def overwrite_def split: if_splits)
qed

end
