(* ===== verification/KvConstants.thy ===== *)
theory KvConstants
  imports Prelude
begin

text \<open>
  The constants of \<open>hw4/src/kvconstants.h\<close>: length limits, error codes, error messages and
  endpoint paths, the message types and the two-phase-commit states. \<open>msgtype_code\<close> is the
  integer a C compiler gives an enumeration constant, which is what a log entry stores.
\<close>

definition MAX_KEYLEN :: nat where "MAX_KEYLEN = 1024"
definition MAX_VALLEN :: nat where "MAX_VALLEN = 1024"
definition MAX_FILENAME :: nat where "MAX_FILENAME = 1024"

definition MSG_COMMIT :: string where "MSG_COMMIT = ''commit''"
definition ERRMSG_NO_KEY :: string where "ERRMSG_NO_KEY = ''error: no key''"
definition ERRMSG_KEY_LEN :: string where "ERRMSG_KEY_LEN = ''error: improper key length''"
definition ERRMSG_VAL_LEN :: string where "ERRMSG_VAL_LEN = ''error: value too long''"
definition ERRMSG_INVALID_REQUEST :: string where "ERRMSG_INVALID_REQUEST = ''error: invalid request''"
definition ERRMSG_NOT_AT_CAPACITY :: string where
  "ERRMSG_NOT_AT_CAPACITY = ''error: follower_capacity not yet full''"
definition ERRMSG_FOLLOWER_CAPACITY :: string where
  "ERRMSG_FOLLOWER_CAPACITY = ''error: follower capacity already full''"
definition ERRMSG_GENERIC_ERROR :: string where
  "ERRMSG_GENERIC_ERROR = ''error: unable to process request''"
definition ERRMSG_END_OF_HANDLE_TPC :: string where
  "ERRMSG_END_OF_HANDLE_TPC = ''error: end of kserver_handle_tpc''"

definition COMMIT_PATH :: string where "COMMIT_PATH = MSG_COMMIT"
definition ABORT_PATH :: string where "ABORT_PATH = ''abort''"
definition REGISTER_PATH :: string where "REGISTER_PATH = ''register''"

definition ERRKEYLEN :: int where "ERRKEYLEN = -11"
definition ERRVALLEN :: int where "ERRVALLEN = -12"
definition ERRNOKEY :: int where "ERRNOKEY = -13"
definition ERRINVLDMSG :: int where "ERRINVLDMSG = -14"
definition ERRFILACCESS :: int where "ERRFILACCESS = -17"

definition GETMSG :: "int \<Rightarrow> string" where
  "GETMSG error = (if error = ERRKEYLEN then ERRMSG_KEY_LEN else if error = ERRVALLEN then ERRMSG_VAL_LEN
     else if error = ERRNOKEY then ERRMSG_NO_KEY else ERRMSG_GENERIC_ERROR)"

datatype msgtype_t = INDEX | GETREQ | PUTREQ | DELREQ | REGISTER | COMMIT | ABORT
  | GETRESP | SUCCESS | ERROR | VOTE | ACK | EMPTY

datatype tpc_state_t = TPC_INIT | TPC_WAIT | TPC_READY | TPC_ABORT | TPC_COMMIT

primrec msgtype_code :: "msgtype_t \<Rightarrow> nat" where
  "msgtype_code INDEX = 0" | "msgtype_code GETREQ = 1" | "msgtype_code PUTREQ = 2"
| "msgtype_code DELREQ = 3" | "msgtype_code REGISTER = 4" | "msgtype_code COMMIT = 5"
| "msgtype_code ABORT = 6" | "msgtype_code GETRESP = 7" | "msgtype_code SUCCESS = 8"
| "msgtype_code ERROR = 9" | "msgtype_code VOTE = 10" | "msgtype_code ACK = 11" | "msgtype_code EMPTY = 12"

definition msgtypes :: "msgtype_t list" where
  "msgtypes = [INDEX, GETREQ, PUTREQ, DELREQ, REGISTER, COMMIT, ABORT, GETRESP, SUCCESS, ERROR, VOTE, ACK, EMPTY]"

definition msgtype_of :: "nat \<Rightarrow> msgtype_t option" where
  "msgtype_of n = (if n < length msgtypes then Some (msgtypes ! n) else None)"

lemmas errcodes = ERRKEYLEN_def ERRVALLEN_def ERRNOKEY_def ERRINVLDMSG_def ERRFILACCESS_def
lemmas limits = MAX_KEYLEN_def MAX_VALLEN_def

lemma msgtype_of_code [simp]: "msgtype_of (msgtype_code t) = Some t"
  by (cases t) (simp_all add: msgtype_of_def msgtypes_def)

lemma msgtype_code_less: "msgtype_code t < 13"
  by (cases t) simp_all

lemma msgtype_code_inj [simp]: "msgtype_code s = msgtype_code t \<longleftrightarrow> s = t"
  by (metis msgtype_of_code option.inject)

text \<open>Enumeration constants compare as their integers do.\<close>

instantiation msgtype_t :: linorder
begin

definition less_eq_msgtype_t :: "msgtype_t \<Rightarrow> msgtype_t \<Rightarrow> bool" where
  "less_eq_msgtype_t s t \<longleftrightarrow> msgtype_code s \<le> msgtype_code t"

definition less_msgtype_t :: "msgtype_t \<Rightarrow> msgtype_t \<Rightarrow> bool" where
  "less_msgtype_t s t \<longleftrightarrow> msgtype_code s < msgtype_code t"

instance
  by standard (auto simp: less_eq_msgtype_t_def less_msgtype_t_def)

end

end
