(* ===== verification/Md5.thy ===== *)
theory Md5
  imports Prelude
begin

unbundle bit_operations_syntax

text \<open>
  The MD5 message digest of \<open>hw4/src/md5.c\<close> and the 64-bit string hash \<open>strhash64\<close> of
  \<open>hw4/src/kvconstants.h\<close> that the key-value store and the leader place keys with.

  The first section translates the code: the macros, the loop body of \<open>body\<close> round by round in
  the order of the source, the streaming interface \<open>MD5_Init\<close>, \<open>MD5_Update\<close>,
  \<open>MD5_Final\<close>. The second states the algorithm of RFC 1321 independently (round functions as the
  RFC writes them, rotations, index and shift tables, padding of the whole message). The lemmas show
  that the optimised macros are the RFC functions, that one pass of \<open>body\<close> is one RFC
  compression, and that the streaming interface computes the RFC digest of the concatenation of all
  the data it was given, however it was cut into pieces.
\<close>

section \<open>The code\<close>

type_synonym md5_chain = "u32 \<times> u32 \<times> u32 \<times> u32"

record MD5_CTX =
  ctx_lo :: u32
  ctx_hi :: u32
  ctx_a :: u32
  ctx_b :: u32
  ctx_c :: u32
  ctx_d :: u32
  ctx_buffer :: "u8 list"

definition md5_F :: "u32 \<Rightarrow> u32 \<Rightarrow> u32 \<Rightarrow> u32" where
  "md5_F x y z = z XOR (x AND (y XOR z))"

definition md5_G :: "u32 \<Rightarrow> u32 \<Rightarrow> u32 \<Rightarrow> u32" where
  "md5_G x y z = y XOR (z AND (x XOR y))"

definition md5_H :: "u32 \<Rightarrow> u32 \<Rightarrow> u32 \<Rightarrow> u32" where
  "md5_H x y z = (x XOR y) XOR z"

definition md5_H2 :: "u32 \<Rightarrow> u32 \<Rightarrow> u32 \<Rightarrow> u32" where
  "md5_H2 x y z = x XOR (y XOR z)"

definition md5_I :: "u32 \<Rightarrow> u32 \<Rightarrow> u32 \<Rightarrow> u32" where
  "md5_I x y z = y XOR (x OR NOT z)"

definition md5_STEP ::
  "(u32 \<Rightarrow> u32 \<Rightarrow> u32 \<Rightarrow> u32) \<Rightarrow> u32 \<Rightarrow> u32 \<Rightarrow> u32 \<Rightarrow> u32 \<Rightarrow> u32 \<Rightarrow> u32 \<Rightarrow> nat \<Rightarrow> u32" where
  "md5_STEP f a b c d x t s =
     (let a = a + (f b c d + x + t);
          a = push_bit s a OR drop_bit (32 - s) (a AND 0xffffffff)
      in a + b)"

definition md5_SET :: "u8 list \<Rightarrow> nat \<Rightarrow> u32" where
  "md5_SET ptr n =
     ucast (ptr ! (n * 4)) OR push_bit 8 (ucast (ptr ! (n * 4 + 1)))
     OR push_bit 16 (ucast (ptr ! (n * 4 + 2))) OR push_bit 24 (ucast (ptr ! (n * 4 + 3)))"

definition md5_round1 :: "(nat \<Rightarrow> u32) \<Rightarrow> md5_chain \<Rightarrow> md5_chain" where
  "md5_round1 X st = (case st of (a, b, c, d) \<Rightarrow>
     (let a = md5_STEP md5_F a b c d (X 0) 0xd76aa478 7;
      d = md5_STEP md5_F d a b c (X 1) 0xe8c7b756 12;
      c = md5_STEP md5_F c d a b (X 2) 0x242070db 17;
      b = md5_STEP md5_F b c d a (X 3) 0xc1bdceee 22;
      a = md5_STEP md5_F a b c d (X 4) 0xf57c0faf 7;
      d = md5_STEP md5_F d a b c (X 5) 0x4787c62a 12;
      c = md5_STEP md5_F c d a b (X 6) 0xa8304613 17;
      b = md5_STEP md5_F b c d a (X 7) 0xfd469501 22;
      a = md5_STEP md5_F a b c d (X 8) 0x698098d8 7;
      d = md5_STEP md5_F d a b c (X 9) 0x8b44f7af 12;
      c = md5_STEP md5_F c d a b (X 10) 0xffff5bb1 17;
      b = md5_STEP md5_F b c d a (X 11) 0x895cd7be 22;
      a = md5_STEP md5_F a b c d (X 12) 0x6b901122 7;
      d = md5_STEP md5_F d a b c (X 13) 0xfd987193 12;
      c = md5_STEP md5_F c d a b (X 14) 0xa679438e 17;
      b = md5_STEP md5_F b c d a (X 15) 0x49b40821 22
      in (a, b, c, d)))"

definition md5_round2 :: "(nat \<Rightarrow> u32) \<Rightarrow> md5_chain \<Rightarrow> md5_chain" where
  "md5_round2 X st = (case st of (a, b, c, d) \<Rightarrow>
     (let a = md5_STEP md5_G a b c d (X 1) 0xf61e2562 5;
      d = md5_STEP md5_G d a b c (X 6) 0xc040b340 9;
      c = md5_STEP md5_G c d a b (X 11) 0x265e5a51 14;
      b = md5_STEP md5_G b c d a (X 0) 0xe9b6c7aa 20;
      a = md5_STEP md5_G a b c d (X 5) 0xd62f105d 5;
      d = md5_STEP md5_G d a b c (X 10) 0x02441453 9;
      c = md5_STEP md5_G c d a b (X 15) 0xd8a1e681 14;
      b = md5_STEP md5_G b c d a (X 4) 0xe7d3fbc8 20;
      a = md5_STEP md5_G a b c d (X 9) 0x21e1cde6 5;
      d = md5_STEP md5_G d a b c (X 14) 0xc33707d6 9;
      c = md5_STEP md5_G c d a b (X 3) 0xf4d50d87 14;
      b = md5_STEP md5_G b c d a (X 8) 0x455a14ed 20;
      a = md5_STEP md5_G a b c d (X 13) 0xa9e3e905 5;
      d = md5_STEP md5_G d a b c (X 2) 0xfcefa3f8 9;
      c = md5_STEP md5_G c d a b (X 7) 0x676f02d9 14;
      b = md5_STEP md5_G b c d a (X 12) 0x8d2a4c8a 20
      in (a, b, c, d)))"

definition md5_round3 :: "(nat \<Rightarrow> u32) \<Rightarrow> md5_chain \<Rightarrow> md5_chain" where
  "md5_round3 X st = (case st of (a, b, c, d) \<Rightarrow>
     (let a = md5_STEP md5_H a b c d (X 5) 0xfffa3942 4;
      d = md5_STEP md5_H2 d a b c (X 8) 0x8771f681 11;
      c = md5_STEP md5_H c d a b (X 11) 0x6d9d6122 16;
      b = md5_STEP md5_H2 b c d a (X 14) 0xfde5380c 23;
      a = md5_STEP md5_H a b c d (X 1) 0xa4beea44 4;
      d = md5_STEP md5_H2 d a b c (X 4) 0x4bdecfa9 11;
      c = md5_STEP md5_H c d a b (X 7) 0xf6bb4b60 16;
      b = md5_STEP md5_H2 b c d a (X 10) 0xbebfbc70 23;
      a = md5_STEP md5_H a b c d (X 13) 0x289b7ec6 4;
      d = md5_STEP md5_H2 d a b c (X 0) 0xeaa127fa 11;
      c = md5_STEP md5_H c d a b (X 3) 0xd4ef3085 16;
      b = md5_STEP md5_H2 b c d a (X 6) 0x04881d05 23;
      a = md5_STEP md5_H a b c d (X 9) 0xd9d4d039 4;
      d = md5_STEP md5_H2 d a b c (X 12) 0xe6db99e5 11;
      c = md5_STEP md5_H c d a b (X 15) 0x1fa27cf8 16;
      b = md5_STEP md5_H2 b c d a (X 2) 0xc4ac5665 23
      in (a, b, c, d)))"

definition md5_round4 :: "(nat \<Rightarrow> u32) \<Rightarrow> md5_chain \<Rightarrow> md5_chain" where
  "md5_round4 X st = (case st of (a, b, c, d) \<Rightarrow>
     (let a = md5_STEP md5_I a b c d (X 0) 0xf4292244 6;
      d = md5_STEP md5_I d a b c (X 7) 0x432aff97 10;
      c = md5_STEP md5_I c d a b (X 14) 0xab9423a7 15;
      b = md5_STEP md5_I b c d a (X 5) 0xfc93a039 21;
      a = md5_STEP md5_I a b c d (X 12) 0x655b59c3 6;
      d = md5_STEP md5_I d a b c (X 3) 0x8f0ccc92 10;
      c = md5_STEP md5_I c d a b (X 10) 0xffeff47d 15;
      b = md5_STEP md5_I b c d a (X 1) 0x85845dd1 21;
      a = md5_STEP md5_I a b c d (X 8) 0x6fa87e4f 6;
      d = md5_STEP md5_I d a b c (X 15) 0xfe2ce6e0 10;
      c = md5_STEP md5_I c d a b (X 6) 0xa3014314 15;
      b = md5_STEP md5_I b c d a (X 13) 0x4e0811a1 21;
      a = md5_STEP md5_I a b c d (X 4) 0xf7537e82 6;
      d = md5_STEP md5_I d a b c (X 11) 0xbd3af235 10;
      c = md5_STEP md5_I c d a b (X 2) 0x2ad7d2bb 15;
      b = md5_STEP md5_I b c d a (X 9) 0xeb86d391 21
      in (a, b, c, d)))"

text \<open>The body of the do-while loop, on the 64 bytes at \<open>ptr\<close>.\<close>

definition md5_pass :: "md5_chain \<Rightarrow> u8 list \<Rightarrow> md5_chain" where
  "md5_pass st ptr = (case st of (saved_a, saved_b, saved_c, saved_d) \<Rightarrow>
     (let X = md5_SET ptr;
          (a, b, c, d) = md5_round4 X (md5_round3 X (md5_round2 X (md5_round1 X st)))
      in (a + saved_a, b + saved_b, c + saved_c, d + saved_d)))"

text \<open>The do-while loop. Its callers pass a positive multiple of 64, for which
  \<open>size -= 64\<close> does not wrap.\<close>

function md5_loop :: "md5_chain \<Rightarrow> u8 list \<Rightarrow> nat \<Rightarrow> md5_chain \<times> u8 list" where
  "md5_loop st ptr sz =
     (let st' = md5_pass st ptr; ptr' = drop 64 ptr in
      if sz \<le> 64 then (st', ptr') else md5_loop st' ptr' (sz - 64))"
  by pat_completeness auto
termination
  by (relation "measure (\<lambda>(st, ptr, sz). sz)") auto

declare md5_loop.simps [simp del]

definition md5_body :: "MD5_CTX \<Rightarrow> u8 list \<Rightarrow> nat \<Rightarrow> MD5_CTX \<times> u8 list" where
  "md5_body ctx data sz =
     (case md5_loop (ctx_a ctx, ctx_b ctx, ctx_c ctx, ctx_d ctx) data sz of
        ((a, b, c, d), ptr) \<Rightarrow> (ctx\<lparr>ctx_a := a, ctx_b := b, ctx_c := c, ctx_d := d\<rparr>, ptr))"

definition MD5_Init :: "MD5_CTX \<Rightarrow> MD5_CTX" where
  "MD5_Init ctx = ctx\<lparr>ctx_a := 0x67452301, ctx_b := 0xefcdab89, ctx_c := 0x98badcfe,
     ctx_d := 0x10325476, ctx_lo := 0, ctx_hi := 0\<rparr>"

text \<open>\<open>MD5_Update\<close> after the buffered bytes are dealt with: whole blocks straight from the data,
  the rest into the buffer.\<close>

definition md5_update_tail :: "MD5_CTX \<Rightarrow> u8 list \<Rightarrow> nat \<Rightarrow> MD5_CTX" where
  "md5_update_tail ctx data sz =
     (let (ctx, data, sz) =
        (if 64 \<le> sz
         then (case md5_body ctx data (64 * (sz div 64)) of (ctx', data') \<Rightarrow> (ctx', data', sz mod 64))
         else (ctx, data, sz))
      in ctx\<lparr>ctx_buffer := overwrite (ctx_buffer ctx) 0 (take sz data)\<rparr>)"

text \<open>The counters are computed on the \<open>unsigned long\<close> size and cut to 32 bits by the
  assignments; the byte counts after that are at most \<open>size\<close>.\<close>

definition MD5_Update :: "MD5_CTX \<Rightarrow> u8 list \<Rightarrow> u64 \<Rightarrow> MD5_CTX" where
  "MD5_Update ctx data lsize =
     (let saved_lo = ctx_lo ctx;
          lo = ucast ((ucast saved_lo + lsize) AND 0x1fffffff);
          hi = (if lo < saved_lo then ctx_hi ctx + 1 else ctx_hi ctx) + ucast (drop_bit 29 lsize);
          ctx = ctx\<lparr>ctx_lo := lo, ctx_hi := hi\<rparr>;
          used = unat (saved_lo AND 0x3f);
          sz = unat lsize
      in if used \<noteq> 0 then
           (let available = 64 - used in
            if sz < available then
              ctx\<lparr>ctx_buffer := overwrite (ctx_buffer ctx) used (take sz data)\<rparr>
            else
              (let ctx = ctx\<lparr>ctx_buffer := overwrite (ctx_buffer ctx) used (take available data)\<rparr>
               in md5_update_tail (fst (md5_body ctx (ctx_buffer ctx) 64))
                    (drop available data) (sz - available)))
         else md5_update_tail ctx data sz)"

text \<open>The four bytes a word is stored as, lowest first.\<close>

definition word_bytes :: "u32 \<Rightarrow> u8 list" where
  "word_bytes w = [ucast w, ucast (drop_bit 8 w), ucast (drop_bit 16 w), ucast (drop_bit 24 w)]"

text \<open>\<open>MD5_Final\<close> in two halves: the end marker with the block it may fill, then the zeros, the
  bit count, the last block and the digest. (The context is wiped afterwards and never read again.)\<close>

definition md5_final_mark :: "MD5_CTX \<Rightarrow> MD5_CTX \<times> nat \<times> nat" where
  "md5_final_mark ctx =
     (let used = unat (ctx_lo ctx AND 0x3f);
          ctx = ctx\<lparr>ctx_buffer := overwrite (ctx_buffer ctx) used [0x80]\<rparr>;
          used = used + 1;
          available = 64 - used
      in if available < 8 then
           (let ctx = ctx\<lparr>ctx_buffer := overwrite (ctx_buffer ctx) used (replicate available 0)\<rparr>
            in (fst (md5_body ctx (ctx_buffer ctx) 64), 0, 64))
         else (ctx, used, available))"

definition md5_final_digest :: "MD5_CTX \<Rightarrow> nat \<Rightarrow> nat \<Rightarrow> u8 list" where
  "md5_final_digest ctx used available =
     (let ctx = ctx\<lparr>ctx_buffer := overwrite (ctx_buffer ctx) used (replicate (available - 8) 0)\<rparr>;
          ctx = ctx\<lparr>ctx_lo := push_bit 3 (ctx_lo ctx)\<rparr>;
          ctx = ctx\<lparr>ctx_buffer := overwrite (ctx_buffer ctx) 56 (word_bytes (ctx_lo ctx))\<rparr>;
          ctx = ctx\<lparr>ctx_buffer := overwrite (ctx_buffer ctx) 60 (word_bytes (ctx_hi ctx))\<rparr>;
          ctx = fst (md5_body ctx (ctx_buffer ctx) 64)
      in word_bytes (ctx_a ctx) @ word_bytes (ctx_b ctx) @ word_bytes (ctx_c ctx) @ word_bytes (ctx_d ctx))"

definition MD5_Final :: "MD5_CTX \<Rightarrow> u8 list" where
  "MD5_Final ctx = (case md5_final_mark ctx of (ctx, used, available) \<Rightarrow> md5_final_digest ctx used available)"

text \<open>A little-endian 64-bit load, and the hash of \<open>kvconstants.h\<close>. The context on the stack is
  not initialised; \<open>garbage\<close> is what it holds.\<close>

definition load_u64 :: "u8 list \<Rightarrow> u64" where
  "load_u64 bs = foldr (\<lambda>b w. push_bit 8 w OR ucast b) (take 8 bs) 0"

definition strhash64_from :: "MD5_CTX \<Rightarrow> string \<Rightarrow> u64" where
  "strhash64_from garbage str =
     load_u64 (MD5_Final (MD5_Update (MD5_Init garbage) (map of_char str) (word_of_nat (length str))))"

definition zero_ctx :: MD5_CTX where
  "zero_ctx = \<lparr>ctx_lo = 0, ctx_hi = 0, ctx_a = 0, ctx_b = 0, ctx_c = 0, ctx_d = 0,
     ctx_buffer = replicate 64 0\<rparr>"

definition strhash64 :: "string \<Rightarrow> u64" where
  "strhash64 = strhash64_from zero_ctx"

section \<open>The algorithm of RFC 1321\<close>

definition rfc_T :: "u32 list" where
  "rfc_T = [0xd76aa478, 0xe8c7b756, 0x242070db, 0xc1bdceee,
     0xf57c0faf, 0x4787c62a, 0xa8304613, 0xfd469501,
     0x698098d8, 0x8b44f7af, 0xffff5bb1, 0x895cd7be,
     0x6b901122, 0xfd987193, 0xa679438e, 0x49b40821,
     0xf61e2562, 0xc040b340, 0x265e5a51, 0xe9b6c7aa,
     0xd62f105d, 0x02441453, 0xd8a1e681, 0xe7d3fbc8,
     0x21e1cde6, 0xc33707d6, 0xf4d50d87, 0x455a14ed,
     0xa9e3e905, 0xfcefa3f8, 0x676f02d9, 0x8d2a4c8a,
     0xfffa3942, 0x8771f681, 0x6d9d6122, 0xfde5380c,
     0xa4beea44, 0x4bdecfa9, 0xf6bb4b60, 0xbebfbc70,
     0x289b7ec6, 0xeaa127fa, 0xd4ef3085, 0x04881d05,
     0xd9d4d039, 0xe6db99e5, 0x1fa27cf8, 0xc4ac5665,
     0xf4292244, 0x432aff97, 0xab9423a7, 0xfc93a039,
     0x655b59c3, 0x8f0ccc92, 0xffeff47d, 0x85845dd1,
     0x6fa87e4f, 0xfe2ce6e0, 0xa3014314, 0x4e0811a1,
     0xf7537e82, 0xbd3af235, 0x2ad7d2bb, 0xeb86d391]"

definition rfc_fun :: "nat \<Rightarrow> u32 \<Rightarrow> u32 \<Rightarrow> u32 \<Rightarrow> u32" where
  "rfc_fun i x y z =
     (if i < 16 then (x AND y) OR (NOT x AND z)
      else if i < 32 then (x AND z) OR (y AND NOT z)
      else if i < 48 then x XOR y XOR z
      else y XOR (x OR NOT z))"

definition rfc_index :: "nat \<Rightarrow> nat" where
  "rfc_index i =
     (if i < 16 then i else if i < 32 then (5 * i + 1) mod 16
      else if i < 48 then (3 * i + 5) mod 16 else (7 * i) mod 16)"

definition rfc_shift :: "nat \<Rightarrow> nat" where
  "rfc_shift i =
     (if i < 16 then [7, 12, 17, 22] ! (i mod 4) else if i < 32 then [5, 9, 14, 20] ! (i mod 4)
      else if i < 48 then [4, 11, 16, 23] ! (i mod 4) else [6, 10, 15, 21] ! (i mod 4))"

text \<open>Operation \<open>i\<close> replaces the register in front and rotates the roles of the four.\<close>

fun rfc_op :: "(nat \<Rightarrow> u32) \<Rightarrow> md5_chain \<Rightarrow> nat \<Rightarrow> md5_chain" where
  "rfc_op X (a, b, c, d) i =
     (d, b + word_rotl (rfc_shift i) (a + rfc_fun i b c d + X (rfc_index i) + rfc_T ! i), b, c)"

text \<open>A word is the number whose digits to the base 256 are its bytes, the lowest first.\<close>

definition rfc_word :: "u8 list \<Rightarrow> nat \<Rightarrow> u32" where
  "rfc_word block i = word_of_nat (\<Sum>j<4. unat (block ! (4 * i + j)) * 256 ^ j)"

definition rfc_bytes :: "u32 \<Rightarrow> u8 list" where
  "rfc_bytes w = map (\<lambda>j. word_of_nat (unat w div 256 ^ j)) [0..<4]"

definition rfc_compress :: "md5_chain \<Rightarrow> u8 list \<Rightarrow> md5_chain" where
  "rfc_compress st block = (case (st, foldl (rfc_op (rfc_word block)) st [0..<64]) of
     ((a0, b0, c0, d0), (a, b, c, d)) \<Rightarrow> (a0 + a, b0 + b, c0 + c, d0 + d))"

function rfc_blocks :: "md5_chain \<Rightarrow> u8 list \<Rightarrow> md5_chain" where
  "rfc_blocks st m =
     (if length m < 64 then st else rfc_blocks (rfc_compress st (take 64 m)) (drop 64 m))"
  by pat_completeness auto
termination
  by (relation "measure (\<lambda>(st, m). length m)") auto

declare rfc_blocks.simps [simp del]

definition rfc_init :: md5_chain where
  "rfc_init = (0x67452301, 0xefcdab89, 0x98badcfe, 0x10325476)"

definition rfc_length :: "nat \<Rightarrow> u8 list" where
  "rfc_length n = map (\<lambda>i. word_of_nat (8 * n div 256 ^ i)) [0..<8]"

definition rfc_pad :: "u8 list \<Rightarrow> u8 list" where
  "rfc_pad m = m @ [0x80] @ replicate ((119 - length m mod 64) mod 64) 0 @ rfc_length (length m)"

definition rfc_md5 :: "u8 list \<Rightarrow> u8 list" where
  "rfc_md5 m = (case rfc_blocks rfc_init (rfc_pad m) of
     (a, b, c, d) \<Rightarrow> rfc_bytes a @ rfc_bytes b @ rfc_bytes c @ rfc_bytes d)"

section \<open>The macros and one pass of the loop\<close>

lemma bytes_apart:
  fixes b0 b1 b2 b3 :: u8
  defines "w0 \<equiv> ucast b0 :: u32" and "w1 \<equiv> ucast b1 :: u32" and "w2 \<equiv> ucast b2 :: u32" and "w3 \<equiv> ucast b3 :: u32"
  shows "w0 AND push_bit 8 w1 = 0" "(w0 OR push_bit 8 w1) AND push_bit 16 w2 = 0" "((w0 OR push_bit 8 w1) OR push_bit 16 w2) AND push_bit 24 w3 = 0"
  unfolding w0_def w1_def w2_def w3_def
  by (rule bit_word_eqI; auto simp: bit_and_iff bit_or_iff bit_push_bit_iff bit_ucast_iff dest: bit_imp_le_length)+

lemma md5_SET_rfc: "md5_SET = rfc_word"
proof (rule ext, rule ext)
  fix block :: "u8 list" and n
  define b where "b j = block ! (4 * n + j)" for j
  have u: "(word_of_nat (unat c) :: u32) = ucast c" for c :: u8 by (simp add: unsigned_of_nat)
  have four: "(\<Sum>j<4. f j) = f 0 + f 1 + f 2 + f 3" for f :: "nat \<Rightarrow> nat" by (simp add: lessThan_nat_numeral lessThan_Suc)
  have "md5_SET block n = ((ucast (b 0) OR push_bit 8 (ucast (b 1))) OR push_bit 16 (ucast (b 2))) OR push_bit 24 (ucast (b 3))"
    unfolding md5_SET_def b_def or.assoc by (simp only: mult.commute add_0_right)
  also have "\<dots> = ucast (b 0) + push_bit 8 (ucast (b 1)) + push_bit 16 (ucast (b 2)) + push_bit 24 (ucast (b 3))"
    by (simp only: disjunctive_add_eq_or bytes_apart)
  also have "\<dots> = word_of_nat (unat (b 0)) + word_of_nat (unat (b 1)) * 256 + word_of_nat (unat (b 2)) * 256 ^ 2 + word_of_nat (unat (b 3)) * 256 ^ 3"
    by (simp add: push_bit_eq_mult u)
  also have "\<dots> = rfc_word block n" unfolding rfc_word_def four b_def by (simp del: of_nat_unat)
  finally show "md5_SET block n = rfc_word block n" .
qed

lemma md5_F_rfc: "md5_F x y z = (x AND y) OR (NOT x AND z)"
  by (rule bit_word_eqI) (auto simp: md5_F_def bit_simps)

lemma md5_G_rfc: "md5_G x y z = (x AND z) OR (y AND NOT z)"
  by (rule bit_word_eqI) (auto simp: md5_G_def bit_simps)

lemma md5_H_rfc: "md5_H x y z = x XOR y XOR z" "md5_H2 x y z = x XOR y XOR z"
  by (simp_all add: md5_H_def md5_H2_def xor.assoc)

lemma rotate_by_shifts:
  fixes w :: u32
  assumes "0 < s" "s < 32"
  shows "push_bit s w OR drop_bit (32 - s) w = word_rotl s w"
proof (rule bit_word_eqI)
  fix n assume "n < LENGTH(32)"
  then have n: "n < 32" by simp
  have rot: "bit (word_rotl s w) n = bit w ((n + (32 - s)) mod 32)"
    using assms n by (simp add: bit_word_rotl_iff)
  show "bit (push_bit s w OR drop_bit (32 - s) w) n = bit (word_rotl s w) n"
  proof (cases "s \<le> n")
    case True
    then have "n + (32 - s) = n - s + 32" using assms by simp
    moreover have "n - s < 32" using n by simp
    ultimately have "(n + (32 - s)) mod 32 = n - s" by (metis mod_add_self2 mod_less)
    moreover have "\<not> bit w (32 - s + n)"
      using True assms by (auto dest: bit_imp_le_length)
    ultimately show ?thesis
      unfolding rot using True n by (simp add: bit_or_iff bit_push_bit_iff bit_drop_bit_eq)
  next
    case False
    then have "(n + (32 - s)) mod 32 = 32 - s + n"
      using assms n by simp
    then show ?thesis
      unfolding rot using False n by (simp add: bit_or_iff bit_push_bit_iff bit_drop_bit_eq add.commute)
  qed
qed

lemma md5_STEP_rfc:
  assumes "0 < s" "s < 32"
  shows "md5_STEP f a b c d x t s = b + word_rotl s (a + f b c d + x + t)"
proof -
  have "(0xffffffff :: u32) = -1" by simp
  then have "w AND 0xffffffff = w" for w :: u32 by (simp only: and.right_neutral)
  then show ?thesis
    using rotate_by_shifts [OF assms] by (simp add: md5_STEP_def Let_def ac_simps)
qed

text \<open>The same operations as a list of parameters, with the intermediate value kept in a \<open>let\<close>, so that
  the unrolled rounds of the source unfold to it without copying terms.\<close>

fun rfc_ops :: "(nat \<Rightarrow> u32) \<Rightarrow> md5_chain \<Rightarrow>
    ((u32 \<Rightarrow> u32 \<Rightarrow> u32 \<Rightarrow> u32) \<times> nat \<times> u32 \<times> nat) list \<Rightarrow> md5_chain" where
  "rfc_ops X st [] = st"
| "rfc_ops X (a, b, c, d) ((f, k, t, s) # ps) =
     (let x = md5_STEP f a b c d (X k) t s in rfc_ops X (d, x, b, c) ps)"

definition rfc_param :: "nat \<Rightarrow> (u32 \<Rightarrow> u32 \<Rightarrow> u32 \<Rightarrow> u32) \<times> nat \<times> u32 \<times> nat" where
  "rfc_param i = (rfc_fun i, rfc_index i, rfc_T ! i, rfc_shift i)"

lemma rfc_shift_bounds: "0 < rfc_shift i \<and> rfc_shift i < 32"
proof -
  have "i mod 4 = 0 \<or> i mod 4 = 1 \<or> i mod 4 = 2 \<or> i mod 4 = 3" by presburger
  then show ?thesis by (auto simp: rfc_shift_def)
qed

lemma rfc_ops_foldl: "foldl (rfc_op X) st is = rfc_ops X st (map rfc_param is)"
proof (induction "is" arbitrary: st)
  case (Cons i "is")
  obtain a b c d where "st = (a, b, c, d)" by (cases st)
  with Cons show ?case
    using rfc_shift_bounds [of i] by (simp add: rfc_param_def md5_STEP_rfc Let_def)
qed simp

lemma rfc_ops_append: "rfc_ops X st (ps @ qs) = rfc_ops X (rfc_ops X st ps) qs"
  by (induction X st ps rule: rfc_ops.induct) (simp_all add: Let_def)

lemma rfc_fun_cases:
  "i < 16 \<Longrightarrow> rfc_fun i = md5_F"
  "16 \<le> i \<Longrightarrow> i < 32 \<Longrightarrow> rfc_fun i = md5_G"
  "32 \<le> i \<Longrightarrow> i < 48 \<Longrightarrow> rfc_fun i = md5_H"
  "48 \<le> i \<Longrightarrow> rfc_fun i = md5_I"
  by (simp_all add: fun_eq_iff rfc_fun_def md5_F_rfc md5_G_rfc md5_H_rfc md5_I_def)

lemma md5_H2_H: "md5_H2 = md5_H"
  by (simp add: fun_eq_iff md5_H_rfc)

lemma upt_split: "[0..<64] = [0..<16] @ [16..<32] @ [32..<48] @ [48..<(64::nat)]"
  by (simp add: upt_rec)

lemma upt16:
  "[0..<16] = [0, 1, 2, 3, 4, 5, 6, 7, 8, 9, 10, 11, 12, 13, 14, 15::nat]"
  "[16..<32] = [16, 17, 18, 19, 20, 21, 22, 23, 24, 25, 26, 27, 28, 29, 30, 31::nat]"
  "[32..<48] = [32, 33, 34, 35, 36, 37, 38, 39, 40, 41, 42, 43, 44, 45, 46, 47::nat]"
  "[48..<64] = [48, 49, 50, 51, 52, 53, 54, 55, 56, 57, 58, 59, 60, 61, 62, 63::nat]"
  by (simp_all add: upt_rec)

lemma rfc_table1:
  "map rfc_param [0..<16] =
    [(md5_F, 0, 0xd76aa478, 7), (md5_F, 1, 0xe8c7b756, 12),
     (md5_F, 2, 0x242070db, 17), (md5_F, 3, 0xc1bdceee, 22),
     (md5_F, 4, 0xf57c0faf, 7), (md5_F, 5, 0x4787c62a, 12),
     (md5_F, 6, 0xa8304613, 17), (md5_F, 7, 0xfd469501, 22),
     (md5_F, 8, 0x698098d8, 7), (md5_F, 9, 0x8b44f7af, 12),
     (md5_F, 10, 0xffff5bb1, 17), (md5_F, 11, 0x895cd7be, 22),
     (md5_F, 12, 0x6b901122, 7), (md5_F, 13, 0xfd987193, 12),
     (md5_F, 14, 0xa679438e, 17), (md5_F, 15, 0x49b40821, 22)]"
  unfolding upt16 by (simp add: rfc_param_def rfc_fun_cases rfc_index_def rfc_shift_def rfc_T_def)

lemma md5_round1_rfc: "md5_round1 X st = rfc_ops X st (map rfc_param [0..<16])"
  by (cases st) (simp only: md5_round1_def rfc_table1 rfc_ops.simps prod.case md5_H2_H)

lemma rfc_table2:
  "map rfc_param [16..<32] =
    [(md5_G, 1, 0xf61e2562, 5), (md5_G, 6, 0xc040b340, 9),
     (md5_G, 11, 0x265e5a51, 14), (md5_G, 0, 0xe9b6c7aa, 20),
     (md5_G, 5, 0xd62f105d, 5), (md5_G, 10, 0x02441453, 9),
     (md5_G, 15, 0xd8a1e681, 14), (md5_G, 4, 0xe7d3fbc8, 20),
     (md5_G, 9, 0x21e1cde6, 5), (md5_G, 14, 0xc33707d6, 9),
     (md5_G, 3, 0xf4d50d87, 14), (md5_G, 8, 0x455a14ed, 20),
     (md5_G, 13, 0xa9e3e905, 5), (md5_G, 2, 0xfcefa3f8, 9),
     (md5_G, 7, 0x676f02d9, 14), (md5_G, 12, 0x8d2a4c8a, 20)]"
  unfolding upt16 by (simp add: rfc_param_def rfc_fun_cases rfc_index_def rfc_shift_def rfc_T_def)

lemma md5_round2_rfc: "md5_round2 X st = rfc_ops X st (map rfc_param [16..<32])"
  by (cases st) (simp only: md5_round2_def rfc_table2 rfc_ops.simps prod.case md5_H2_H)

lemma rfc_table3:
  "map rfc_param [32..<48] =
    [(md5_H, 5, 0xfffa3942, 4), (md5_H, 8, 0x8771f681, 11),
     (md5_H, 11, 0x6d9d6122, 16), (md5_H, 14, 0xfde5380c, 23),
     (md5_H, 1, 0xa4beea44, 4), (md5_H, 4, 0x4bdecfa9, 11),
     (md5_H, 7, 0xf6bb4b60, 16), (md5_H, 10, 0xbebfbc70, 23),
     (md5_H, 13, 0x289b7ec6, 4), (md5_H, 0, 0xeaa127fa, 11),
     (md5_H, 3, 0xd4ef3085, 16), (md5_H, 6, 0x04881d05, 23),
     (md5_H, 9, 0xd9d4d039, 4), (md5_H, 12, 0xe6db99e5, 11),
     (md5_H, 15, 0x1fa27cf8, 16), (md5_H, 2, 0xc4ac5665, 23)]"
  unfolding upt16 by (simp add: rfc_param_def rfc_fun_cases rfc_index_def rfc_shift_def rfc_T_def)

lemma md5_round3_rfc: "md5_round3 X st = rfc_ops X st (map rfc_param [32..<48])"
  by (cases st) (simp only: md5_round3_def rfc_table3 rfc_ops.simps prod.case md5_H2_H)

lemma rfc_table4:
  "map rfc_param [48..<64] =
    [(md5_I, 0, 0xf4292244, 6), (md5_I, 7, 0x432aff97, 10),
     (md5_I, 14, 0xab9423a7, 15), (md5_I, 5, 0xfc93a039, 21),
     (md5_I, 12, 0x655b59c3, 6), (md5_I, 3, 0x8f0ccc92, 10),
     (md5_I, 10, 0xffeff47d, 15), (md5_I, 1, 0x85845dd1, 21),
     (md5_I, 8, 0x6fa87e4f, 6), (md5_I, 15, 0xfe2ce6e0, 10),
     (md5_I, 6, 0xa3014314, 15), (md5_I, 13, 0x4e0811a1, 21),
     (md5_I, 4, 0xf7537e82, 6), (md5_I, 11, 0xbd3af235, 10),
     (md5_I, 2, 0x2ad7d2bb, 15), (md5_I, 9, 0xeb86d391, 21)]"
  unfolding upt16 by (simp add: rfc_param_def rfc_fun_cases rfc_index_def rfc_shift_def rfc_T_def)

lemma md5_round4_rfc: "md5_round4 X st = rfc_ops X st (map rfc_param [48..<64])"
  by (cases st) (simp only: md5_round4_def rfc_table4 rfc_ops.simps prod.case md5_H2_H)


lemma md5_pass_rfc: "md5_pass st block = rfc_compress st block"
proof -
  have "foldl (rfc_op X) st [0..<64] = md5_round4 X (md5_round3 X (md5_round2 X (md5_round1 X st)))" for X
    by (simp only: rfc_ops_foldl upt_split map_append rfc_ops_append
        md5_round1_rfc md5_round2_rfc md5_round3_rfc md5_round4_rfc)
  then show ?thesis
    by (cases st) (simp add: md5_pass_def rfc_compress_def md5_SET_rfc Let_def add.commute split: prod.split)
qed

lemma md5_SET_take: "n < 16 \<Longrightarrow> md5_SET (take 64 m) n = md5_SET m n"
  by (simp add: md5_SET_def)

lemma rfc_op_take: "i < 64 \<Longrightarrow> rfc_op (md5_SET (take 64 m)) st i = rfc_op (md5_SET m) st i"
  by (cases st) (simp add: rfc_index_def md5_SET_take)

lemma rfc_compress_take: "rfc_compress st (take 64 m) = rfc_compress st m"
proof -
  have "foldl (rfc_op (md5_SET (take 64 m))) st [0..<64] = foldl (rfc_op (md5_SET m)) st [0..<64]"
    by (rule foldl_cong) (simp_all only: atLeastLessThan_iff rfc_op_take set_upt)
  then show ?thesis by (simp only: rfc_compress_def md5_SET_rfc)
qed

lemma rfc_compress_cong: "take 64 m = take 64 m' \<Longrightarrow> rfc_compress st m = rfc_compress st m'"
  by (metis rfc_compress_take)

lemma rfc_blocks_short [simp]: "length m < 64 \<Longrightarrow> rfc_blocks st m = st"
  by (subst rfc_blocks.simps) simp

lemma rfc_blocks_block:
  "64 \<le> length m \<Longrightarrow> rfc_blocks st m = rfc_blocks (rfc_compress st m) (drop 64 m)"
  by (subst rfc_blocks.simps) (simp add: rfc_compress_take)

lemma md5_loop_rfc:
  "0 < k \<Longrightarrow> 64 * k \<le> length m \<Longrightarrow>
   md5_loop st m (64 * k) = (rfc_blocks st (take (64 * k) m), drop (64 * k) m)"
proof (induction k arbitrary: st m)
  case (Suc k)
  have "rfc_compress st (take (64 * Suc k) m) = rfc_compress st m"
    by (rule rfc_compress_cong) (simp add: min_absorb1)
  with Suc.prems have "rfc_blocks st (take (64 * Suc k) m)
      = rfc_blocks (rfc_compress st m) (take (64 * k) (drop 64 m))"
    by (simp add: rfc_blocks_block [of "take _ m"] drop_take)
  moreover have "md5_loop st m (64 * Suc k) = (rfc_blocks (rfc_compress st m) (take (64 * k) (drop 64 m)), drop (64 * Suc k) m)"
  proof (cases "k = 0")
    case True
    then show ?thesis by (subst md5_loop.simps) (simp add: md5_pass_rfc Let_def)
  next
    case False
    with Suc show ?thesis by (subst md5_loop.simps) (simp add: md5_pass_rfc Let_def add.commute)
  qed
  ultimately show ?case by simp
qed simp

lemma rfc_blocks_append:
  "rfc_blocks st (m @ d) = rfc_blocks (rfc_blocks st m) (drop (64 * (length m div 64)) m @ d)"
proof (induction st m rule: rfc_blocks.induct)
  case (1 st m)
  show ?case
  proof (cases "length m < 64")
    case False
    then have l: "length m div 64 = Suc (length (drop 64 m) div 64)" by (simp add: le_div_geq)
    from False have "rfc_blocks st (m @ d) = rfc_blocks (rfc_compress st (take 64 m)) (drop 64 m @ d)"
      using rfc_compress_cong [of "m @ d" "take 64 m" st] by (simp add: rfc_blocks_block [of "m @ d"])
    with 1 False l show ?thesis
      by (simp add: rfc_blocks_block [of m] rfc_compress_take add.commute)
  qed simp
qed

section \<open>The streaming state\<close>

text \<open>A context stands for the message \<open>m\<close>: its counters hold the length of \<open>m\<close>, its registers
  the chaining value after the whole blocks of \<open>m\<close>, its buffer the bytes after them.\<close>

definition ctx_chain :: "MD5_CTX \<Rightarrow> md5_chain" where
  "ctx_chain ctx = (ctx_a ctx, ctx_b ctx, ctx_c ctx, ctx_d ctx)"

definition md5_repr :: "MD5_CTX \<Rightarrow> u8 list \<Rightarrow> bool" where
  "md5_repr ctx m \<longleftrightarrow>
     ctx_lo ctx = word_of_nat (length m mod 2 ^ 29) \<and> ctx_hi ctx = word_of_nat (length m div 2 ^ 29) \<and>
     ctx_chain ctx = rfc_blocks rfc_init m \<and> length (ctx_buffer ctx) = 64 \<and>
     take (length m mod 64) (ctx_buffer ctx) = drop (64 * (length m div 64)) m"

lemma unat_and_mask29:
  fixes x :: u64
  shows "unat (x AND 0x1fffffff) = unat x mod 2 ^ 29"
proof -
  have "x AND 0x1fffffff = take_bit 29 x" by (simp add: take_bit_eq_mask mask_eq_exp_minus_1)
  then show ?thesis by (simp add: unat_mod take_bit_eq_mod)
qed

lemma unat_and_63:
  fixes x :: u32
  shows "unat (x AND 0x3f) = unat x mod 64"
proof -
  have "x AND 0x3f = take_bit 6 x" by (simp add: take_bit_eq_mask mask_eq_exp_minus_1)
  then show ?thesis by (simp add: unat_mod take_bit_eq_mod)
qed

lemma ucast_of_nat_unat: "word_of_nat (unat (x :: 'a::len word)) = (ucast x :: 'b::len word)"
  by (simp add: word_eq_iff_unsigned [where ?'a = nat] unat_of_nat unsigned_ucast_eq)

lemma md5_used:
  assumes "md5_repr ctx m"
  shows "unat (ctx_lo ctx AND 0x3f) = length m mod 64"
proof -
  have "unat (ctx_lo ctx) = length m mod 2 ^ 29"
    using assms by (simp add: md5_repr_def unat_of_nat take_bit_eq_mod)
  then show ?thesis by (simp add: unat_and_63 mod_mod_cancel)
qed

lemma md5_count_lo:
  assumes "md5_repr ctx m" "S < 2 ^ 64"
  shows "(ucast ((ucast (ctx_lo ctx) + (word_of_nat S :: u64)) AND 0x1fffffff) :: u32)
     = word_of_nat ((length m + S) mod 2 ^ 29)"
proof -
  have lo: "unat (ctx_lo ctx) = length m mod 2 ^ 29"
    using assms by (simp add: md5_repr_def unat_of_nat take_bit_eq_mod)
  have "unat ((ucast (ctx_lo ctx) + (word_of_nat S :: u64)) AND 0x1fffffff) = (length m + S) mod 2 ^ 29"
    unfolding unat_and_mask29
    using lo assms(2) by (simp add: unat_word_ariths unat_of_nat unsigned_ucast_eq take_bit_eq_mod mod_mod_cancel mod_simps)
  then show ?thesis by (metis ucast_of_nat_unat)
qed

lemma carry_nat:
  fixes l r M :: nat
  assumes "l < M" "r < M"
  shows "(l + r) mod M < l \<longleftrightarrow> M \<le> l + r" "(l + r) div M = (if M \<le> l + r then 1 else 0)"
proof -
  have "(l + r) mod M = l + r - M \<and> (l + r) div M = 1" if "M \<le> l + r"
    using that assms by (simp add: le_mod_geq le_div_geq)
  moreover have "(l + r) mod M = l + r \<and> (l + r) div M = 0" if "\<not> M \<le> l + r"
    using that by simp
  ultimately show "(l + r) mod M < l \<longleftrightarrow> M \<le> l + r" "(l + r) div M = (if M \<le> l + r then 1 else 0)"
    using assms by (cases "M \<le> l + r"; simp)+
qed

lemma md5_count_hi:
  assumes "md5_repr ctx m" "S < 2 ^ 64"
  defines "lo \<equiv> word_of_nat ((length m + S) mod 2 ^ 29) :: u32"
  shows "(if lo < ctx_lo ctx then ctx_hi ctx + 1 else ctx_hi ctx) + ucast (drop_bit 29 (word_of_nat S :: u64))
     = word_of_nat ((length m + S) div 2 ^ 29)"
proof -
  define M l where "M = (2 :: nat) ^ 29" and "l = length m mod M"
  have lo: "unat (ctx_lo ctx) = l"
    using assms(1) by (simp add: md5_repr_def unat_of_nat take_bit_eq_mod l_def M_def)
  have "unat lo = (length m + S) mod M" by (simp add: lo_def unat_of_nat take_bit_eq_mod M_def)
  then have lt: "lo < ctx_lo ctx \<longleftrightarrow> (l + S mod M) mod M < l"
    by (simp add: word_less_nat_alt lo l_def mod_simps)
  have bounds: "l < M" "S mod M < M" by (simp_all add: l_def M_def)
  note carry = carry_nat [OF bounds]
  from carry(2) have quot: "(length m + S) div M = length m div M + S div M + (if M \<le> l + S mod M then 1 else 0)"
    by (simp add: div_add1_eq [of "length m" S M] l_def)
  have "unat (drop_bit 29 (word_of_nat S :: u64)) = S div M"
    using assms(2) by (simp add: unat_div drop_bit_eq_div unat_of_nat take_bit_eq_mod M_def)
  then have "(ucast (drop_bit 29 (word_of_nat S :: u64)) :: u32) = word_of_nat (S div M)"
    by (metis ucast_of_nat_unat)
  moreover have "ctx_hi ctx = word_of_nat (length m div M)" using assms(1) by (simp add: md5_repr_def M_def)
  ultimately show ?thesis
    unfolding lt carry(1) M_def [symmetric] quot by simp
qed


lemma md5_body_rfc:
  assumes "0 < k" "64 * k \<le> length data"
  shows "ctx_chain (fst (md5_body ctx data (64 * k))) = rfc_blocks (ctx_chain ctx) (take (64 * k) data)"
    and "ctx_buffer (fst (md5_body ctx data (64 * k))) = ctx_buffer ctx"
    and "ctx_lo (fst (md5_body ctx data (64 * k))) = ctx_lo ctx"
    and "ctx_hi (fst (md5_body ctx data (64 * k))) = ctx_hi ctx"
    and "snd (md5_body ctx data (64 * k)) = drop (64 * k) data"
  using md5_loop_rfc [OF assms, of "ctx_chain ctx"]
  by (cases "rfc_blocks (ctx_chain ctx) (take (64 * k) data)"; simp add: md5_body_def ctx_chain_def)+

lemma rfc_blocks_take: "rfc_blocks st (take (64 * (length m div 64)) m) = rfc_blocks st m"
  using rfc_blocks_append [of st "take (64 * (length m div 64)) m" "drop (64 * (length m div 64)) m"]
  by (simp add: minus_mult_div_eq_mod min_absorb1 times_div_less_eq_dividend)

lemma md5_update_tail_rfc:
  fixes data :: "u8 list"
  assumes "length (ctx_buffer ctx) = 64"
  defines "ctx' \<equiv> md5_update_tail ctx data (length data)"
  shows "ctx_chain ctx' = rfc_blocks (ctx_chain ctx) data"
    and "length (ctx_buffer ctx') = 64"
    and "take (length data mod 64) (ctx_buffer ctx') = drop (64 * (length data div 64)) data"
    and "ctx_lo ctx' = ctx_lo ctx" and "ctx_hi ctx' = ctx_hi ctx"
proof -
  define k where "k = length data div 64"
  have r: "length data - 64 * k = length data mod 64" by (simp add: k_def minus_mult_div_eq_mod)
  have eq: "ctx_chain ctx' = rfc_blocks (ctx_chain ctx) data \<and> ctx_lo ctx' = ctx_lo ctx \<and> ctx_hi ctx' = ctx_hi ctx
    \<and> ctx_buffer ctx' = overwrite (ctx_buffer ctx) 0 (drop (64 * k) data)"
  proof (cases "64 \<le> length data")
    case True
    then have k: "0 < k" "64 * k \<le> length data" by (simp_all add: k_def div_greater_zero_iff)
    have "ctx' = (fst (md5_body ctx data (64 * k)))
        \<lparr>ctx_buffer := overwrite (ctx_buffer ctx) 0 (drop (64 * k) data)\<rparr>"
      using True md5_body_rfc [OF k, of ctx] r
      by (cases "md5_body ctx data (64 * k)") (simp add: ctx'_def md5_update_tail_def k_def)
    then show ?thesis
      using md5_body_rfc [OF k, of ctx] rfc_blocks_take [of "ctx_chain ctx" data]
      by (simp add: ctx_chain_def k_def)
  next
    case False
    then show ?thesis by (simp add: ctx'_def md5_update_tail_def k_def ctx_chain_def)
  qed
  have len: "length (drop (64 * k) data) = length data mod 64" by (simp add: r)
  show "ctx_chain ctx' = rfc_blocks (ctx_chain ctx) data" "ctx_lo ctx' = ctx_lo ctx" "ctx_hi ctx' = ctx_hi ctx"
    using eq by simp_all
  have "length data mod 64 < 64" by simp
  with eq len assms show "length (ctx_buffer ctx') = 64" by (simp add: overwrite_def)
  from eq len show "take (length data mod 64) (ctx_buffer ctx') = drop (64 * (length data div 64)) data"
    by (simp add: overwrite_def k_def)
qed

lemma drop_blocks_append:
  "drop (64 * (length (m @ d) div 64)) (m @ d)
     = drop (64 * ((length m mod 64 + length d) div 64)) (drop (64 * (length m div 64)) m @ d)"
proof -
  have "length (m @ d) div 64 = length m div 64 + (length m mod 64 + length d) div 64"
    by (simp add: div_add1_eq [of "length m" "length d"] div_add1_eq [of "length m mod 64" "length d"])
  then have "drop (64 * (length (m @ d) div 64)) (m @ d)
     = drop (64 * ((length m mod 64 + length d) div 64)) (drop (64 * (length m div 64)) (m @ d))"
    by (simp add: add.commute distrib_left)
  then show ?thesis by simp
qed

lemma MD5_Update_repr:
  assumes repr: "md5_repr ctx m" and len: "length d < 2 ^ 64"
  shows "md5_repr (MD5_Update ctx d (word_of_nat (length d))) (m @ d)"
proof -
  define u r where "u = length m mod 64" and "r = drop (64 * (length m div 64)) m"
  define ctx1 where "ctx1 = ctx\<lparr>ctx_lo := word_of_nat ((length m + length d) mod 2 ^ 29),
    ctx_hi := word_of_nat ((length m + length d) div 2 ^ 29)\<rparr>"
  have sz: "unat (word_of_nat (length d) :: u64) = length d"
    using len by (simp add: unat_of_nat take_bit_eq_mod)
  have lr: "length r = u" and u64: "u < 64" by (simp_all add: u_def r_def minus_mult_div_eq_mod)
  have buf: "length (ctx_buffer ctx) = 64" "take u (ctx_buffer ctx) = r"
    using repr by (simp_all add: md5_repr_def u_def r_def)
  have chain: "ctx_chain ctx = rfc_blocks rfc_init m" using repr by (simp add: md5_repr_def)
  define res where "res = MD5_Update ctx d (word_of_nat (length d))"
  have res: "res = (if u \<noteq> 0 then
       if length d < 64 - u then ctx1\<lparr>ctx_buffer := overwrite (ctx_buffer ctx) u d\<rparr>
       else (let c = ctx1\<lparr>ctx_buffer := overwrite (ctx_buffer ctx) u (take (64 - u) d)\<rparr>
             in md5_update_tail (fst (md5_body c (ctx_buffer c) 64)) (drop (64 - u) d) (length d - (64 - u)))
     else md5_update_tail ctx1 d (length d))"
    unfolding res_def MD5_Update_def Let_def sz md5_used [OF repr] md5_count_lo [OF repr len]
      md5_count_hi [OF repr len] u_def ctx1_def by simp
  have goal: "md5_repr res (m @ d)"
    if "ctx_chain res = rfc_blocks (ctx_chain ctx) (r @ d)" "length (ctx_buffer res) = 64"
      "take ((u + length d) mod 64) (ctx_buffer res) = drop (64 * ((u + length d) div 64)) (r @ d)"
      "ctx_lo res = ctx_lo ctx1" "ctx_hi res = ctx_hi ctx1"
    using that chain rfc_blocks_append [of rfc_init m d] drop_blocks_append [of m d]
    by (simp add: md5_repr_def ctx1_def r_def u_def mod_simps)
  consider (empty) "u = 0" | (small) "u \<noteq> 0" "length d < 64 - u" | (big) "u \<noteq> 0" "64 - u \<le> length d"
    by linarith
  then show ?thesis
  proof cases
    case empty
    then have "res = md5_update_tail ctx1 d (length d)" using res by simp
    then show ?thesis
      using goal md5_update_tail_rfc [of ctx1 d] empty lr buf
      by (simp add: res_def ctx1_def ctx_chain_def)
  next
    case small
    then have r1: "res = ctx1\<lparr>ctx_buffer := overwrite (ctx_buffer ctx) u d\<rparr>" using res by simp
    have "rfc_blocks (ctx_chain ctx) (r @ d) = ctx_chain ctx" using small lr by simp
    then show ?thesis
      using goal small buf lr u64 by (simp add: r1 res_def [symmetric] ctx1_def ctx_chain_def overwrite_def)
  next
    case big
    define c where "c = ctx1\<lparr>ctx_buffer := overwrite (ctx_buffer ctx) u (take (64 - u) d)\<rparr>"
    define c' where "c' = fst (md5_body c (ctx_buffer c) 64)"
    have cb: "ctx_buffer c = r @ take (64 - u) d" "length (ctx_buffer c) = 64"
      using big buf lr u64 by (simp_all add: c_def overwrite_def)
    have c': "ctx_chain c' = rfc_blocks (ctx_chain c) (ctx_buffer c)" "ctx_buffer c' = ctx_buffer c"
      "ctx_lo c' = ctx_lo c" "ctx_hi c' = ctx_hi c"
      using md5_body_rfc [of 1 "ctx_buffer c" c] cb(2) by (simp_all add: c'_def)
    have r1: "res = md5_update_tail c' (drop (64 - u) d) (length (drop (64 - u) d))"
      using res big by (simp add: c'_def c_def Let_def)
    have split: "r @ d = ctx_buffer c @ drop (64 - u) d" using cb by simp
    have ch: "rfc_blocks (ctx_chain ctx) (r @ d) = rfc_blocks (ctx_chain c') (drop (64 - u) d)"
      unfolding split using rfc_blocks_append [of "ctx_chain ctx" "ctx_buffer c" "drop (64 - u) d"] cb(2) c'(1)
      by (simp add: c_def ctx1_def ctx_chain_def)
    have n: "u + length d = 64 + length (drop (64 - u) d)" using big u64 by simp
    have dr: "drop (64 * ((u + length d) div 64)) (r @ d) = drop (64 * (length (drop (64 - u) d) div 64)) (drop (64 - u) d)"
    proof -
      have "(64 + x) div 64 = Suc (x div 64)" for x :: nat by simp
      then show ?thesis unfolding split n using cb(2) by (simp only: drop_append) simp
    qed
    have md: "(u + length d) mod 64 = length (drop (64 - u) d) mod 64" unfolding n by simp
    show ?thesis
      using goal md5_update_tail_rfc [of c' "drop (64 - u) d"] c' cb
      unfolding r1 [symmetric] ch dr md res_def [symmetric] by (simp add: c_def)
  qed
qed

section \<open>The last blocks\<close>
lemma word_bytes_nat: "word_bytes w = map (\<lambda>j. word_of_nat (unat w div 256 ^ j)) [0..<4]"
proof -
  have b: "(ucast (drop_bit k w) :: u8) = word_of_nat (unat w div 2 ^ k)" for k
  proof -
    have "unat (drop_bit k w) = unat w div 2 ^ k" unfolding unat_drop_bit_eq by (rule drop_bit_eq_div)
    then show ?thesis by (metis ucast_of_nat_unat)
  qed
  show ?thesis
    using b [of 0] b [of 8] b [of 16] b [of 24] by (simp add: word_bytes_def upt_rec)
qed

lemma word_bytes_rfc: "word_bytes = rfc_bytes"
  by (simp add: fun_eq_iff word_bytes_nat rfc_bytes_def)

lemma byte_of_nat_mod:
  assumes "j < 4"
  shows "(word_of_nat (x mod 2 ^ 32 div 256 ^ j) :: u8) = word_of_nat (x div 256 ^ j)"
proof -
  have "(2 :: nat) ^ 32 = 256 ^ j * 256 ^ (4 - j)" using assms by (simp flip: power_add)
  then have "x mod 2 ^ 32 div 256 ^ j = x div 256 ^ j mod 256 ^ (4 - j)"
    by (simp only: mod_mult2_eq) simp
  moreover have "(256 :: nat) dvd 256 ^ (4 - j)" using assms by (simp add: dvd_power)
  ultimately show ?thesis
    by (simp add: word_eq_iff_unsigned [where ?'a = nat] unat_of_nat take_bit_eq_mod mod_mod_cancel)
qed

lemma rfc_length_words:
  assumes "n < 2 ^ 61"
  shows "word_bytes (push_bit 3 (word_of_nat (n mod 2 ^ 29))) @ word_bytes (word_of_nat (n div 2 ^ 29)) = rfc_length n"
proof -
  have lo: "unat (push_bit 3 (word_of_nat (n mod 2 ^ 29)) :: u32) = (8 * n) mod 2 ^ 32"
    using mult_mod_right [of 8 n "2 ^ 29"]
    by (simp add: push_bit_eq_mult unat_word_ariths unat_of_nat take_bit_eq_mod mult.commute)
  have hi: "unat (word_of_nat (n div 2 ^ 29) :: u32) = n div 2 ^ 29"
    using assms by (simp add: unat_of_nat take_bit_eq_mod less_mult_imp_div_less)
  have shift: "n div 2 ^ 29 div 256 ^ j = 8 * n div 256 ^ (j + 4)" for j
  proof -
    have "8 * n div 256 ^ (j + 4) = 8 * n div (8 * 2 ^ 29) div 256 ^ j"
      by (simp add: power_add div_mult2_eq [symmetric] mult.commute)
    then show ?thesis by (simp only: div_mult_mult1_if) simp
  qed
  have upt8: "[0..<8] = [0..<4] @ map (\<lambda>j. j + 4) [0..<(4::nat)]"
    by (simp add: upt_rec)
  show ?thesis
    unfolding word_bytes_nat lo hi rfc_length_def upt8 map_append map_map comp_def shift
    using byte_of_nat_mod [of _ "8 * n"] by simp
qed

lemma md5_final_block:
  assumes "length (ctx_buffer ctx) = 64"
  shows "ctx_chain (fst (md5_body ctx (ctx_buffer ctx) 64)) = rfc_blocks (ctx_chain ctx) (ctx_buffer ctx)"
    and "ctx_buffer (fst (md5_body ctx (ctx_buffer ctx) 64)) = ctx_buffer ctx"
    and "ctx_lo (fst (md5_body ctx (ctx_buffer ctx) 64)) = ctx_lo ctx"
    and "ctx_hi (fst (md5_body ctx (ctx_buffer ctx) 64)) = ctx_hi ctx"
  using md5_body_rfc [of 1 "ctx_buffer ctx" ctx] assms by simp_all

lemma overwrite_after: "length p = n \<Longrightarrow> overwrite (p @ q) n d = p @ d @ drop (length d) q"
  by (simp add: overwrite_def)

definition md5_out :: "md5_chain \<Rightarrow> u8 list" where
  "md5_out st = (case st of (a, b, c, d) \<Rightarrow> word_bytes a @ word_bytes b @ word_bytes c @ word_bytes d)"

lemma md5_final_digest_rfc:
  assumes buf: "ctx_buffer ctx = p @ q" and len: "length p = used" "used \<le> 56" "length (p @ q) = 64"
  shows "md5_final_digest ctx used (64 - used) = md5_out (rfc_blocks (ctx_chain ctx)
     (p @ replicate (56 - used) 0 @ word_bytes (push_bit 3 (ctx_lo ctx)) @ word_bytes (ctx_hi ctx)))"
proof -
  define z lo hi where "z = replicate (56 - used) (0 :: u8)" and "lo = push_bit 3 (ctx_lo ctx)" and "hi = ctx_hi ctx"
  define c where "c = ctx\<lparr>ctx_lo := lo, ctx_buffer := p @ z @ word_bytes lo @ word_bytes hi\<rparr>"
  have w: "length (word_bytes v) = 4" for v by (simp add: word_bytes_def)
  have z: "length z = 56 - used" "64 - used - 8 = 56 - used" by (simp_all add: z_def)
  have lc: "length (ctx_buffer c) = 64" using len z by (simp add: c_def w)
  have "overwrite (p @ q) used z = (p @ z) @ drop (56 - used) q"
    using overwrite_after [OF len(1)] z by simp
  moreover have "overwrite ((p @ z) @ drop (56 - used) q) 56 (word_bytes lo)
      = (p @ z @ word_bytes lo) @ drop (60 - used) q"
    using overwrite_after [of "p @ z" 56] z len w by (simp add: add.commute)
  moreover have "overwrite ((p @ z @ word_bytes lo) @ drop (60 - used) q) 60 (word_bytes hi)
      = p @ z @ word_bytes lo @ word_bytes hi"
    using overwrite_after [of "p @ z @ word_bytes lo" 60] z len w by simp
  ultimately have "md5_final_digest ctx used (64 - used) = md5_out (ctx_chain (fst (md5_body c (ctx_buffer c) 64)))"
    unfolding md5_final_digest_def Let_def z(2) z_def [symmetric] buf
    by (simp add: md5_out_def ctx_chain_def c_def lo_def hi_def)
  also have "\<dots> = md5_out (rfc_blocks (ctx_chain ctx) (ctx_buffer c))"
    using md5_final_block(1) [OF lc] by (simp add: c_def ctx_chain_def)
  finally show ?thesis by (simp add: c_def lo_def hi_def z_def)
qed

lemma md5_final_mark_small:
  assumes "md5_repr ctx m" "length m mod 64 < 56"
  shows "md5_final_mark ctx = (ctx\<lparr>ctx_buffer := overwrite (ctx_buffer ctx) (length m mod 64) [0x80]\<rparr>,
     length m mod 64 + 1, 64 - (length m mod 64 + 1))"
  using assms by (simp add: md5_final_mark_def md5_used Let_def)

lemma md5_final_mark_big:
  assumes repr: "md5_repr ctx m" and big: "\<not> length m mod 64 < 56"
  defines "u \<equiv> length m mod 64"
  defines "b \<equiv> drop (64 * (length m div 64)) m @ [0x80] @ replicate (63 - u) 0"
  shows "md5_final_mark ctx = (fst (md5_body (ctx\<lparr>ctx_buffer := b\<rparr>) b 64), 0, 64)" "length b = 64"
proof -
  have l: "length (drop (64 * (length m div 64)) m) = u" and u: "u < 64"
    by (simp_all add: u_def minus_mult_div_eq_mod)
  then show "length b = 64" by (simp add: b_def)
  have "overwrite (overwrite (ctx_buffer ctx) u [0x80]) (u + 1) (replicate (63 - u) 0) = b"
    using repr l u by (simp add: md5_repr_def overwrite_def b_def u_def)
  then show "md5_final_mark ctx = (fst (md5_body (ctx\<lparr>ctx_buffer := b\<rparr>) b 64), 0, 64)"
    using big by (simp add: md5_final_mark_def md5_used [OF repr] u_def Let_def)
qed

lemma MD5_Final_repr:
  assumes repr: "md5_repr ctx m" and len: "length m < 2 ^ 61"
  shows "MD5_Final ctx = rfc_md5 m"
proof -
  define u r where "u = length m mod 64" and "r = drop (64 * (length m div 64)) m"
  have lr: "length r = u" and u64: "u < 64" by (simp_all add: u_def r_def minus_mult_div_eq_mod)
  have buf: "length (ctx_buffer ctx) = 64" "take u (ctx_buffer ctx) = r"
    and chain: "ctx_chain ctx = rfc_blocks rfc_init m"
    and words: "word_bytes (push_bit 3 (ctx_lo ctx)) @ word_bytes (ctx_hi ctx) = rfc_length (length m)"
    using repr rfc_length_words [OF len] by (simp_all add: md5_repr_def u_def r_def)
  have rfc: "rfc_md5 m = md5_out (rfc_blocks (ctx_chain ctx)
      (r @ [0x80] @ replicate ((119 - u) mod 64) 0 @ rfc_length (length m)))"
    unfolding rfc_md5_def rfc_pad_def md5_out_def chain r_def u_def word_bytes_rfc
    using rfc_blocks_append [of rfc_init m] by simp
  show ?thesis
  proof (cases "u < 56")
    case True
    define c where "c = ctx\<lparr>ctx_buffer := (r @ [0x80]) @ drop (u + 1) (ctx_buffer ctx)\<rparr>"
    have "overwrite (ctx_buffer ctx) u [0x80] = (r @ [0x80]) @ drop (u + 1) (ctx_buffer ctx)"
      using buf by (simp add: overwrite_def)
    with md5_final_mark_small [OF repr] True
    have "MD5_Final ctx = md5_final_digest c (u + 1) (64 - (u + 1))"
      by (simp add: MD5_Final_def u_def c_def)
    also have "\<dots> = md5_out (rfc_blocks (ctx_chain c) ((r @ [0x80]) @ replicate (56 - (u + 1)) 0
        @ word_bytes (push_bit 3 (ctx_lo c)) @ word_bytes (ctx_hi c)))"
    proof (rule md5_final_digest_rfc)
      have "length (drop (u + 1) (ctx_buffer ctx)) = 63 - u" unfolding length_drop buf(1) by simp
      then show "length ((r @ [0x80]) @ drop (u + 1) (ctx_buffer ctx)) = 64" using True lr by simp
    qed (use True lr in \<open>simp_all add: c_def\<close>)
    also have "56 - (u + 1) = (119 - u) mod 64" using True by (simp add: mod_if)
    finally show ?thesis using rfc words by (simp add: c_def ctx_chain_def)
  next
    case False
    define b where "b = r @ [0x80] @ replicate (63 - u) 0"
    define c where "c = fst (md5_body (ctx\<lparr>ctx_buffer := b\<rparr>) b 64)"
    note mark = md5_final_mark_big [OF repr False [unfolded u_def], folded u_def r_def, folded b_def, folded c_def]
    have c: "ctx_chain c = rfc_blocks (ctx_chain ctx) b" "ctx_buffer c = b" "ctx_lo c = ctx_lo ctx" "ctx_hi c = ctx_hi ctx"
      using md5_final_block [of "ctx\<lparr>ctx_buffer := b\<rparr>"] mark(2) by (simp_all add: c_def ctx_chain_def)
    have "MD5_Final ctx = md5_final_digest c 0 (64 - 0)" by (simp add: MD5_Final_def mark(1))
    also have "\<dots> = md5_out (rfc_blocks (ctx_chain c) ([] @ replicate (56 - 0) 0
        @ word_bytes (push_bit 3 (ctx_lo c)) @ word_bytes (ctx_hi c)))"
      by (rule md5_final_digest_rfc) (use c mark(2) in simp_all)
    also have "\<dots> = md5_out (rfc_blocks (ctx_chain ctx) (b @ replicate 56 0 @ rfc_length (length m)))"
      using rfc_blocks_append [of "ctx_chain ctx" b] mark(2) c words by simp
    also have "b @ replicate 56 0 @ rfc_length (length m)
        = r @ [0x80] @ replicate ((63 - u) + 56) 0 @ rfc_length (length m)"
      by (simp add: b_def replicate_add)
    also have "(63 - u) + 56 = (119 - u) mod 64" using False u64 by simp
    finally show ?thesis using rfc by simp
  qed
qed

lemma MD5_Init_repr: "length (ctx_buffer garbage) = 64 \<Longrightarrow> md5_repr (MD5_Init garbage) []"
  by (simp add: md5_repr_def MD5_Init_def ctx_chain_def rfc_init_def)


section \<open>Streaming digests\<close>

text \<open>
  The interface of a digest that takes its message in pieces: the state stands for the message fed so
  far, and the digest of a state is that of the message, up to a length limit.
\<close>

locale stream_digest =
  fixes repr :: "'s \<Rightarrow> 'b list \<Rightarrow> bool"
    and upd :: "'s \<Rightarrow> 'b list \<Rightarrow> 's"
    and fin :: "'s \<Rightarrow> 'd"
    and spec :: "'b list \<Rightarrow> 'd"
    and limit :: nat
  assumes upd_repr: "repr s m \<Longrightarrow> length (m @ d) < limit \<Longrightarrow> repr (upd s d) (m @ d)"
    and fin_spec: "repr s m \<Longrightarrow> length m < limit \<Longrightarrow> fin s = spec m"
begin

lemma pieces_repr:
  "repr s m \<Longrightarrow> length m + length (concat ds) < limit \<Longrightarrow> repr (foldl upd s ds) (m @ concat ds)"
proof (induction ds arbitrary: s m)
  case (Cons d ds)
  then have "repr (upd s d) (m @ d)" by (intro upd_repr) simp_all
  with Cons.IH [of "upd s d" "m @ d"] Cons.prems show ?case by simp
qed simp

lemma pieces_digest:
  "repr s [] \<Longrightarrow> length (concat ds) < limit \<Longrightarrow> fin (foldl upd s ds) = spec (concat ds)"
  using pieces_repr [of s "[]" ds] fin_spec by simp

lemma whole_digest: "repr s [] \<Longrightarrow> length d < limit \<Longrightarrow> fin (upd s d) = spec d"
  using pieces_digest [of s "[d]"] by simp

end

abbreviation md5_feed :: "MD5_CTX \<Rightarrow> u8 list \<Rightarrow> MD5_CTX" where
  "md5_feed ctx d \<equiv> MD5_Update ctx d (word_of_nat (length d))"

interpretation md5: stream_digest md5_repr md5_feed MD5_Final rfc_md5 "2 ^ 61"
proof unfold_locales
  fix s m d assume "md5_repr s m" "length (m @ d) < 2 ^ 61"
  then show "md5_repr (md5_feed s d) (m @ d)" by (intro MD5_Update_repr) simp_all
next
  fix s m assume "md5_repr s m" "length m < 2 ^ 61"
  then show "MD5_Final s = rfc_md5 m" by (rule MD5_Final_repr)
qed

text \<open>C20. The streaming MD5 interface computes the RFC 1321 digest: from any context with its 64-byte
  buffer, \<open>MD5_Init\<close>, then \<open>MD5_Update\<close> on any sequence of pieces, then
  \<open>MD5_Final\<close>, gives the digest of the concatenated pieces, for every message shorter than
  \<open>2 ^ 61\<close> bytes (beyond which the 64-bit bit count of the RFC wraps).\<close>

theorem md5_streaming_digest:
  assumes "length (ctx_buffer garbage) = 64" and "length (concat ds) < 2 ^ 61"
  shows "MD5_Final (foldl (\<lambda>ctx d. MD5_Update ctx d (word_of_nat (length d))) (MD5_Init garbage) ds)
     = rfc_md5 (concat ds)"
  using md5.pieces_digest [OF MD5_Init_repr [OF assms(1)] assms(2)] .

theorem md5_streaming_digest_witness:
  "MD5_Final (MD5_Update (MD5_Update (MD5_Init zero_ctx) [97, 98] 2) [99] 1) = rfc_md5 [97, 98, 99]"
  using md5_streaming_digest [of zero_ctx "[[97, 98], [99]]"] by (simp add: zero_ctx_def)

text \<open>The string hash that places keys does not depend on the uninitialised stack memory its
  context starts from, and is the first eight bytes, little-endian, of the RFC 1321 digest of the
  string.\<close>

lemma strhash64_rfc:
  assumes "length (ctx_buffer g) = 64" "length str < 2 ^ 61"
  shows "strhash64_from g str = load_u64 (rfc_md5 (map of_char str))"
  using md5.whole_digest [OF MD5_Init_repr [OF assms(1)], of "map of_char str"] assms(2) by (simp add: strhash64_from_def)

theorem strhash64_digest:
  assumes "length (ctx_buffer garbage) = 64" and "length str < 2 ^ 61"
  shows "strhash64_from garbage str = strhash64 str \<and>
    strhash64 str = load_u64 (rfc_md5 (map of_char str))"
  using strhash64_rfc [OF assms] strhash64_rfc [of zero_ctx, OF _ assms(2)] by (simp add: strhash64_def zero_ctx_def)

theorem strhash64_digest_witness:
  "strhash64_from (zero_ctx\<lparr>ctx_lo := 5, ctx_buffer := replicate 64 255\<rparr>) ''key'' = strhash64 ''key''"
  using strhash64_digest [of "zero_ctx\<lparr>ctx_lo := 5, ctx_buffer := replicate 64 255\<rparr>" "''key''"] by simp

section \<open>Known digests\<close>

text \<open>The digests of two messages of one byte, evaluated. The operations are taken one by one, so that each intermediate value is a
  number before the next operation uses it.\<close>

fun md5_steps :: "(nat \<Rightarrow> u32) \<Rightarrow> md5_chain \<Rightarrow> ((u32 \<Rightarrow> u32 \<Rightarrow> u32 \<Rightarrow> u32) \<times> nat \<times> u32 \<times> nat) list \<Rightarrow> md5_chain" where
  "md5_steps X st [] = st"
| "md5_steps X (a, b, c, d) ((f, k, t, s) # ps) = md5_steps X (d, md5_STEP f a b c d (X k) t s, b, c) ps"

lemma md5_steps_ops: "rfc_ops X st ps = md5_steps X st ps"
  by (induction X st ps rule: md5_steps.induct) (simp_all add: Let_def)

definition one_byte_words :: "u32 \<Rightarrow> nat \<Rightarrow> u32" where
  "one_byte_words x k = (if k = 0 then x else if k = 14 then 8 else 0)"

lemmas md5_eval = md5_STEP_def md5_F_def md5_G_def md5_H_def md5_I_def one_byte_words_def

lemma rounds_a1: "md5_steps (one_byte_words 0x8061) (0x67452301, 0xefcdab89, 0x98badcfe, 0x10325476) (map rfc_param [0..<16]) = (0x44244cf8, 0xf01e3ce2, 0x6360a45f, 0xd0fe9b27)"
  unfolding rfc_table1 by (simp add: md5_eval Let_def)

lemma rounds_a2: "md5_steps (one_byte_words 0x8061) (0x44244cf8, 0xf01e3ce2, 0x6360a45f, 0xd0fe9b27) (map rfc_param [16..<32]) = (0x93842e98, 0x3745961f, 0x94a2ebee, 0xc7043b64)"
  unfolding rfc_table2 by (simp add: md5_eval Let_def)

lemma rounds_a3: "md5_steps (one_byte_words 0x8061) (0x93842e98, 0x3745961f, 0x94a2ebee, 0xc7043b64) (map rfc_param [32..<48]) = (0xac50e18, 0x918f93bb, 0x8a4a6356, 0x79ca7845)"
  unfolding rfc_table3 by (simp add: md5_eval Let_def)

lemma rounds_a4: "md5_steps (one_byte_words 0x8061) (0xac50e18, 0x918f93bb, 0x8a4a6356, 0x79ca7845) (map rfc_param [48..<64]) = (0x52309e0b, 0xb8e94637, 0x49dee633, 0x50f422f3)"
  unfolding rfc_table4 by (simp add: md5_eval Let_def)

lemma rounds_b1: "md5_steps (one_byte_words 0x8062) (0x67452301, 0xefcdab89, 0x98badcfe, 0x10325476) (map rfc_param [0..<16]) = (0xd45fddb8, 0x3ab57ceb, 0xe49e275a, 0x213176c5)"
  unfolding rfc_table1 by (simp add: md5_eval Let_def)

lemma rounds_b2: "md5_steps (one_byte_words 0x8062) (0xd45fddb8, 0x3ab57ceb, 0xe49e275a, 0x213176c5) (map rfc_param [16..<32]) = (0xd640a65d, 0x87452a50, 0xaf8146b1, 0x340a4011)"
  unfolding rfc_table2 by (simp add: md5_eval Let_def)

lemma rounds_b3: "md5_steps (one_byte_words 0x8062) (0xd640a65d, 0x87452a50, 0xaf8146b1, 0x340a4011) (map rfc_param [32..<48]) = (0x5e89adfe, 0x711cecc, 0x8b6d0d14, 0x5d8b252b)"
  unfolding rfc_table3 by (simp add: md5_eval Let_def)

lemma rounds_b4: "md5_steps (one_byte_words 0x8062) (0x5e89adfe, 0x711cecc, 0x8b6d0d14, 0x5d8b252b) (map rfc_param [48..<64]) = (0x971ac891, 0xfc62035d, 0xde61fa3c, 0x7f24dcff)"
  unfolding rfc_table4 by (simp add: md5_eval Let_def)

lemma one_byte_pad: "rfc_pad [b] = [b, 0x80] @ replicate 54 0 @ [8, 0, 0, 0, 0, 0, 0, 0]"
  by (simp add: rfc_pad_def rfc_length_def upt_rec)

lemma one_byte_block: "k < 16 \<Longrightarrow> rfc_word (rfc_pad [b]) k = one_byte_words (word_of_nat (unat b + 0x8000)) k"
proof -
  assume "k < 16"
  then consider "k = 0" | "k = 14" | "k = 15" | "1 \<le> k" "k < 14" by linarith
  then show ?thesis
  proof cases
    case 4
    then have "\<forall>j < 4. rfc_pad [b] ! (4 * k + j) = 0" by (auto simp: one_byte_pad nth_append nth_Cons')
    with 4 show ?thesis by (simp add: rfc_word_def one_byte_words_def)
  qed (simp_all add: rfc_word_def one_byte_words_def one_byte_pad nth_append lessThan_nat_numeral lessThan_Suc)
qed

lemma rfc_index_less: "rfc_index i < 16"
  by (simp add: rfc_index_def)

lemma one_byte_compress:
  "foldl (rfc_op (rfc_word (rfc_pad [b]))) st [0..<64] = md5_steps (one_byte_words (word_of_nat (unat b + 0x8000))) st (map rfc_param [0..<64])"
proof -
  have "rfc_op (rfc_word (rfc_pad [b])) st i = rfc_op (one_byte_words (word_of_nat (unat b + 0x8000))) st i" for st i
    using one_byte_block [OF rfc_index_less [of i]] by (cases st) simp
  then show ?thesis by (simp add: rfc_ops_foldl [symmetric] md5_steps_ops [symmetric] cong: foldl_cong)
qed

lemma md5_steps_append: "md5_steps X st (ps @ qs) = md5_steps X (md5_steps X st ps) qs"
  by (simp add: md5_steps_ops [symmetric] rfc_ops_append)

lemma one_byte_md5:
  assumes "md5_steps (one_byte_words (word_of_nat (unat b + 0x8000))) rfc_init (map rfc_param [0..<64]) = (a, b', c, d)"
    and "0x67452301 + a = w0" "0xefcdab89 + b' = w1" "0x98badcfe + c = w2" "0x10325476 + d = w3"
  shows "rfc_md5 [b] = rfc_bytes w0 @ rfc_bytes w1 @ rfc_bytes w2 @ rfc_bytes w3"
proof -
  have "length (rfc_pad [b]) = 64" by (simp add: one_byte_pad)
  then have "rfc_blocks rfc_init (rfc_pad [b]) = rfc_compress rfc_init (rfc_pad [b])" by (simp add: rfc_blocks.simps)
  then show ?thesis using assms(1) one_byte_compress [of b rfc_init]
    by (simp add: rfc_md5_def rfc_compress_def) (simp add: rfc_init_def assms(2-5))
qed

lemma strhash64_known: "strhash64 ''a'' = 0xa8b6f1c0b975c10c" "strhash64 ''b'' = 0xec2faee6fe5feb92"
proof -
  have "md5_steps (one_byte_words 0x8061) rfc_init (map rfc_param [0..<64]) = (0x52309e0b, 0xb8e94637, 0x49dee633, 0x50f422f3)"
    "md5_steps (one_byte_words 0x8062) rfc_init (map rfc_param [0..<64]) = (0x971ac891, 0xfc62035d, 0xde61fa3c, 0x7f24dcff)"
    unfolding upt_split map_append md5_steps_append rfc_init_def by (simp_all only: rounds_a1 rounds_a2 rounds_a3 rounds_a4 rounds_b1 rounds_b2 rounds_b3 rounds_b4)
  note ends = this
  have "rfc_md5 [97] = rfc_bytes 0xb975c10c @ rfc_bytes 0xa8b6f1c0 @ rfc_bytes 0xe299c331 @ rfc_bytes 0x61267769"
    "rfc_md5 [98] = rfc_bytes 0xfe5feb92 @ rfc_bytes 0xec2faee6 @ rfc_bytes 0x771cd73a @ rfc_bytes 0x8f573175"
    by (rule one_byte_md5, simp add: ends, (simp only: numeral_plus_numeral add_num_simps; simp)+)+
  then show "strhash64 ''a'' = 0xa8b6f1c0b975c10c" "strhash64 ''b'' = 0xec2faee6fe5feb92"
    using strhash64_rfc [of zero_ctx "''a''"] strhash64_rfc [of zero_ctx "''b''"]
    by (simp_all add: strhash64_def zero_ctx_def load_u64_def rfc_bytes_def upt_rec)
qed

end
