(* ===== verification/KvStore.thy ===== *)
theory KvStore
  imports Fsys KvConstants Md5 "HOL-Library.Multiset"
begin

text \<open>
  The persistent store of \<open>hw4/src/kvstore.c\<close>: one file per entry in the store's directory, named
  after the hash of the key and the position of the entry in the chain of keys with that hash. The
  operations work on the file-system state of theory \<open>Fsys\<close>; the read-write lock makes each of
  them one step and is left out.

  The contract \<open>kv_contract\<close> says what a client may rely on: the store behaves as a finite map
  from keys to values. It is proved of these definitions by exhibiting the hash chains as lists
  (\<open>kv_chains\<close>) and showing how every operation changes them.
\<close>

section \<open>Entries and file names\<close>

record kvstore_t =
  ks_dirname :: string

definition KVSTORE_FILETYPE :: string where
  "KVSTORE_FILETYPE = ''.entry''"

text \<open>\<open>sprintf (buf, "%s/%" PRIu64 "-%u%s", dirname, hashval, counter, KVSTORE_FILETYPE)\<close>.\<close>

definition entry_path :: "string \<Rightarrow> u64 \<Rightarrow> nat \<Rightarrow> string" where
  "entry_path dirname hashval counter =
     dirname @ ''/'' @ dec (unat hashval) @ ''-'' @ dec counter @ KVSTORE_FILETYPE"

text \<open>The bytes \<open>kvstore_put\<close> writes: the \<open>int\<close> length, then key and value with their
  terminators.\<close>

definition kventry_bytes :: "string \<Rightarrow> string \<Rightarrow> bytes" where
  "kventry_bytes key val = le32 (length key + length val + 2) @ key @ [nul] @ val @ [nul]"

text \<open>The \<open>data\<close> member of the entry that the two \<open>fread\<close> calls read. A file too short for
  its header or for the length in it leaves memory uninitialised, and data without a terminator lets
  \<open>strcmp\<close> run past it: no defined outcome.\<close>

definition kventry_read :: "bytes \<Rightarrow> bytes option" where
  "kventry_read bs =
     (if length bs < 4 then None
      else let len = of_le32 bs; data = take len (drop 4 bs) in
        if len < 2 ^ 31 \<and> 4 + len \<le> length bs \<and> nul \<in> set data then Some data else None)"

text \<open>The value behind the key, as \<open>strcpy\<close> copies it.\<close>

definition kventry_value :: "bytes \<Rightarrow> string option" where
  "kventry_value data =
     (let rest = drop (length (cstr data) + 1) data in if nul \<in> set rest then Some (cstr rest) else None)"

section \<open>Operations\<close>

definition kvstore_init :: "fsys \<Rightarrow> string \<Rightarrow> int \<times> kvstore_t option \<times> fsys" where
  "kvstore_init fs dirname =
     (if \<not> fs_stat fs dirname
      then (case fs_mkdir fs dirname of (errno, fs') \<Rightarrow>
              if errno \<noteq> 0 then (errno, None, fs') else (0, Some \<lparr>ks_dirname = dirname\<rparr>, fs'))
      else (0, Some \<lparr>ks_dirname = dirname\<rparr>, fs))"

text \<open>The while loop of \<open>find_entry\<close>; \<open>counter\<close> is the position whose file is in
  \<open>currfile\<close>, and \<open>want\<close> says whether \<open>value\<close> is not NULL.\<close>

partial_function (option) find_entry_loop ::
  "fsys \<Rightarrow> string \<Rightarrow> u64 \<Rightarrow> string \<Rightarrow> bool \<Rightarrow> u32 \<Rightarrow> (int \<times> string option) option" where
  "find_entry_loop fs dirname hashval key want counter =
     (if \<not> fs_stat fs (entry_path dirname hashval (unat counter)) then Some (ERRNOKEY, None)
      else case fs_open_read fs (entry_path dirname hashval (unat counter)) of
        None \<Rightarrow> Some (ERRFILACCESS, None)
      | Some bs \<Rightarrow> (case kventry_read bs of
          None \<Rightarrow> None
        | Some data \<Rightarrow>
            if key = cstr data then
              (if want then (case kventry_value data of None \<Rightarrow> None | Some v \<Rightarrow> Some (sint counter, Some v))
               else Some (sint counter, None))
            else find_entry_loop fs dirname hashval key want (counter + 1)))"

definition find_entry :: "fsys \<Rightarrow> kvstore_t \<Rightarrow> string \<Rightarrow> bool \<Rightarrow> (int \<times> string option) option" where
  "find_entry fs store key want =
     (if length key > MAX_KEYLEN then Some (ERRKEYLEN, None)
      else if \<not> fs_stat fs (ks_dirname store) then Some (ERRFILACCESS, None)
      else find_entry_loop fs (ks_dirname store) (strhash64 key) key want 0)"

definition kvstore_haskey :: "fsys \<Rightarrow> kvstore_t \<Rightarrow> string \<Rightarrow> bool option" where
  "kvstore_haskey fs store key = map_option (\<lambda>(ret, _). ret \<ge> 0) (find_entry fs store key False)"

definition kvstore_get :: "fsys \<Rightarrow> kvstore_t \<Rightarrow> string \<Rightarrow> (int \<times> string option) option" where
  "kvstore_get fs store key =
     map_option (\<lambda>(ret, val). if ret < 0 then (ret, val) else (0, val)) (find_entry fs store key True)"

definition kvstore_put_check :: "fsys \<Rightarrow> kvstore_t \<Rightarrow> string \<Rightarrow> string \<Rightarrow> int" where
  "kvstore_put_check fs store key val =
     (if length key > MAX_KEYLEN then ERRKEYLEN
      else if length val > MAX_VALLEN then ERRVALLEN
      else if \<not> fs_stat fs (ks_dirname store) then ERRFILACCESS
      else 0)"

text \<open>The loops of \<open>kvstore_put\<close> and \<open>kvstore_del\<close> that look for the first free position.\<close>

partial_function (option) chain_end :: "fsys \<Rightarrow> string \<Rightarrow> u64 \<Rightarrow> u32 \<Rightarrow> u32 option" where
  "chain_end fs dirname hashval counter =
     (if fs_stat fs (entry_path dirname hashval (unat counter))
      then chain_end fs dirname hashval (counter + 1) else Some counter)"

definition kvstore_put :: "fsys \<Rightarrow> kvstore_t \<Rightarrow> string \<Rightarrow> string \<Rightarrow> (int \<times> fsys) option" where
  "kvstore_put fs store key val =
     (let check = kvstore_put_check fs store key val in
      if check < 0 then Some (check, fs)
      else do {
        (counter, _) \<leftarrow> find_entry fs store key False;
        pos \<leftarrow> (if counter \<ge> 0 then Some (word_of_int counter)
                else chain_end fs (ks_dirname store) (strhash64 key) 0);
        let filename = entry_path (ks_dirname store) (strhash64 key) (unat pos);
        (case fs_open_write fs filename True True of
           None \<Rightarrow> Some (ERRFILACCESS, fs)
         | Some fs' \<Rightarrow> Some (0, fs_write fs' filename (kventry_bytes key val)))
      })"

definition kvstore_del_check :: "fsys \<Rightarrow> kvstore_t \<Rightarrow> string \<Rightarrow> int option" where
  "kvstore_del_check fs store key =
     (if length key > MAX_KEYLEN then Some ERRKEYLEN
      else if \<not> fs_stat fs (ks_dirname store) then Some ERRFILACCESS
      else map_option (\<lambda>has. if has then 0 else ERRNOKEY) (kvstore_haskey fs store key))"

definition kvstore_del :: "fsys \<Rightarrow> kvstore_t \<Rightarrow> string \<Rightarrow> (int \<times> fsys) option" where
  "kvstore_del fs store key = do {
     (chainpos, _) \<leftarrow> find_entry fs store key False;
     if chainpos < 0 then Some (chainpos, fs)
     else do {
       let hashval = strhash64 key;
       let pos = (word_of_int chainpos :: u32);
       let delfile = entry_path (ks_dirname store) hashval (unat pos);
       counter \<leftarrow> chain_end fs (ks_dirname store) hashval (pos + 1);
       (if counter = pos + 1 then Some (fs_remove fs delfile)
        else Some (fs_rename fs (entry_path (ks_dirname store) hashval (unat (counter - 1))) delfile))
     }
   }"

text \<open>\<open>kvstore_clean\<close>: the entries of the directory in the order \<open>readdir\<close> gives them. The
  entries \<open>.\<close> and \<open>..\<close>, which \<open>remove\<close> refuses, are left out.\<close>

definition kvstore_clean :: "fsys \<Rightarrow> kvstore_t \<Rightarrow> int \<times> fsys" where
  "kvstore_clean fs store =
     (if \<not> fs_dir fs (ks_dirname store) then (0, fs)
      else (0, snd (fs_remove (foldl (\<lambda>fs p. snd (fs_remove fs p)) fs (fs_readdir fs (ks_dirname store)))
                     (ks_dirname store))))"

section \<open>File names and entries\<close>

lemma entry_path_inj [simp]:
  "entry_path d h i = entry_path d h' i' \<longleftrightarrow> h = h' \<and> i = i'"
proof -
  have nd: "\<not> is_digit (CHR ''-'')" "\<not> is_digit (CHR ''.'')" by (simp_all add: is_digit_def)
  show ?thesis
    using dec_append_inj [OF nd(1) nd(1)] dec_append_inj [OF nd(2) nd(2)]
    by (auto simp: entry_path_def KVSTORE_FILETYPE_def word_unat_eq_iff)
qed

lemma slash_not_in_dec [simp]: "CHR ''/'' \<notin> set (dec n)"
  by (rule not_digit_not_in_dec) (simp add: is_digit_def)

lemma parent_entry_path [simp]: "parent (entry_path d h i) = d"
  using parent_join [of "dec (unat h) @ ''-'' @ dec i @ KVSTORE_FILETYPE" d]
  by (simp add: entry_path_def KVSTORE_FILETYPE_def)

definition entry_ok :: "string \<Rightarrow> string \<Rightarrow> bool" where
  "entry_ok k v \<longleftrightarrow> nonul k \<and> nonul v \<and> length k \<le> MAX_KEYLEN \<and> length v \<le> MAX_VALLEN"

lemma kventry_read_bytes:
  assumes "entry_ok k v"
  shows "kventry_read (kventry_bytes k v) = Some (k @ nul # v @ [nul])"
  using assms by (simp add: entry_ok_def limits kventry_read_def kventry_bytes_def)

lemma kventry_value_data: "nonul k \<Longrightarrow> nonul v \<Longrightarrow> kventry_value (k @ nul # v @ [nul]) = Some v"
  by (simp add: kventry_value_def)

section \<open>Hash chains\<close>

definition entry_node :: "string \<times> string \<Rightarrow> fnode" where
  "entry_node e = \<lparr>content = kventry_bytes (fst e) (snd e), writable = True\<rparr>"

definition chain_at :: "fsys \<Rightarrow> string \<Rightarrow> u64 \<Rightarrow> (string \<times> string) list \<Rightarrow> bool" where
  "chain_at fs d h es \<longleftrightarrow>
     (\<forall>i. fs_file fs (entry_path d h i) = (if i < length es then Some (entry_node (es ! i)) else None))"

definition dir_usable :: "fsys \<Rightarrow> string \<Rightarrow> bool" where
  "dir_usable fs d \<longleftrightarrow> fs_dir fs d \<and> \<not> denied fs d \<and>
     (\<forall>h i. \<not> fs_dir fs (entry_path d h i) \<and> \<not> denied fs (entry_path d h i))"

definition chain_ok :: "u64 \<Rightarrow> (string \<times> string) list \<Rightarrow> bool" where
  "chain_ok h es \<longleftrightarrow> distinct (map fst es) \<and> (\<forall>(k, v) \<in> set es. strhash64 k = h \<and> entry_ok k v)"

definition kv_chains :: "fsys \<Rightarrow> string \<Rightarrow> (u64 \<Rightarrow> (string \<times> string) list) \<Rightarrow> bool" where
  "kv_chains fs d cs \<longleftrightarrow> dir_usable fs d \<and> (\<forall>h. chain_at fs d h (cs h) \<and> chain_ok h (cs h))"

definition chains_map :: "(u64 \<Rightarrow> (string \<times> string) list) \<Rightarrow> string \<Rightarrow> string option" where
  "chains_map cs k = map_of (cs (strhash64 k)) k"

text \<open>The store \<open>store\<close> in file system \<open>fs\<close> holds the finite map \<open>m\<close>.\<close>

definition kvstore_holds :: "kvstore_t \<Rightarrow> fsys \<Rightarrow> (string \<rightharpoonup> string) \<Rightarrow> bool" where
  "kvstore_holds store fs m \<longleftrightarrow>
     (\<exists>cs. kv_chains fs (ks_dirname store) cs \<and> m = chains_map cs) \<and> finite (dom m) \<and> card (dom m) < 2 ^ 31"

lemma chain_ok_nth:
  assumes "chain_ok h es" "i < length es"
  shows "entry_ok (fst (es ! i)) (snd (es ! i))" "strhash64 (fst (es ! i)) = h"
  using assms by (auto simp: chain_ok_def dest!: nth_mem)

lemma chain_ok_distinct:
  "chain_ok h es \<Longrightarrow> i < length es \<Longrightarrow> j < length es \<Longrightarrow> fst (es ! i) = fst (es ! j) \<longleftrightarrow> i = j"
  using nth_eq_iff_index_eq [of "map fst es" i j] by (simp add: chain_ok_def)

lemma chain_stat [simp]:
  "dir_usable fs d \<Longrightarrow> chain_at fs d h es \<Longrightarrow> fs_stat fs (entry_path d h i) \<longleftrightarrow> i < length es"
  by (simp add: chain_at_def dir_usable_def fs_stat_def)

lemma chain_read:
  "dir_usable fs d \<Longrightarrow> chain_at fs d h es \<Longrightarrow> i < length es \<Longrightarrow>
   fs_open_read fs (entry_path d h i) = Some (kventry_bytes (fst (es ! i)) (snd (es ! i)))"
  by (simp add: chain_at_def dir_usable_def fs_open_read_def entry_node_def)

text \<open>Counters stay below \<open>2 ^ 31\<close>, so they neither wrap nor turn negative.\<close>

lemma unat_plus_1: "unat (c :: u32) < 2 ^ 31 \<Longrightarrow> unat (c + 1) = unat c + 1"
  by (simp add: unat_word_ariths)

lemma sint_small: "unat (c :: u32) < 2 ^ 31 \<Longrightarrow> sint c = int (unat c)"
proof -
  assume "unat c < 2 ^ 31"
  then have "uint c < 2 ^ 31" by (metis of_nat_less_iff of_nat_unat of_nat_numeral of_nat_power)
  then have "signed_take_bit 31 (uint c) = uint c" 
    using order_trans [of "- (2 ^ 31)" 0 "uint c"] by (intro signed_take_bit_int_eq_self) simp_all
  then show ?thesis by (simp add: sint_uint)
qed

lemma find_entry_loop_found:
  assumes d: "dir_usable fs d" and ch: "chain_at fs d h es" and ok: "chain_ok h es"
    and short: "length es < 2 ^ 31" and p: "p < length es" and k: "fst (es ! p) = k" and c: "unat c \<le> p"
  shows "find_entry_loop fs d h k want c = Some (int p, if want then Some (snd (es ! p)) else None)"
  using c
proof (induction "p - unat c" arbitrary: c)
  case 0
  then have c: "unat c = p" by simp
  have "entry_ok k (snd (es ! p))" using chain_ok_nth [OF ok p] k by simp
  then show ?case
    using chain_read [OF d ch p] c p k short chain_stat [OF d ch] sint_small [of c]
    by (subst find_entry_loop.simps) (simp add: kventry_read_bytes kventry_value_data entry_ok_def)
next
  case (Suc n)
  define e where "e = es ! unat c"
  have lt: "unat c < p" using Suc by simp
  then have ne: "fst e \<noteq> k" and eok: "entry_ok (fst e) (snd e)"
    using chain_ok_distinct [OF ok] chain_ok_nth [OF ok] p k by (auto simp: e_def)
  have "unat (c + 1) = unat c + 1" using lt p short by (intro unat_plus_1) simp
  with Suc lt have "find_entry_loop fs d h k want (c + 1) = Some (int p, if want then Some (snd (es ! p)) else None)"
    by (intro Suc.hyps) simp_all
  then show ?case
    using chain_read [OF d ch, of "unat c"] lt p ne eok chain_stat [OF d ch]
    by (subst find_entry_loop.simps) (simp add: kventry_read_bytes entry_ok_def e_def)
qed

lemma find_entry_loop_absent:
  assumes d: "dir_usable fs d" and ch: "chain_at fs d h es" and ok: "chain_ok h es"
    and short: "length es < 2 ^ 31" and k: "k \<notin> fst ` set es" and c: "unat c \<le> length es"
  shows "find_entry_loop fs d h k want c = Some (ERRNOKEY, None)"
  using c
proof (induction "length es - unat c" arbitrary: c)
  case 0
  then show ?case using chain_stat [OF d ch] by (subst find_entry_loop.simps) simp
next
  case (Suc n)
  have lt: "unat c < length es" using Suc by simp
  then have "es ! unat c \<in> set es" by simp
  then have ne: "fst (es ! unat c) \<noteq> k" and eok: "entry_ok (fst (es ! unat c)) (snd (es ! unat c))"
    using chain_ok_nth [OF ok lt] k by auto
  have "unat (c + 1) = unat c + 1" using lt short by (intro unat_plus_1) simp
  with Suc lt have "find_entry_loop fs d h k want (c + 1) = Some (ERRNOKEY, None)"
    by (intro Suc.hyps) simp_all
  then show ?case
    using chain_read [OF d ch lt] lt ne eok chain_stat [OF d ch]
    by (subst find_entry_loop.simps) (simp add: kventry_read_bytes entry_ok_def)
qed

lemma chain_end_chain:
  assumes d: "dir_usable fs d" and ch: "chain_at fs d h es"
    and short: "length es < 2 ^ 31" and c: "unat c \<le> length es"
  shows "chain_end fs d h c = Some (word_of_nat (length es))"
  using c
proof (induction "length es - unat c" arbitrary: c)
  case 0
  then have u: "unat c = length es" by simp
  have "word_of_nat (unat c) = c" by simp
  with u have "c = word_of_nat (length es)" by simp
  then show ?case using chain_stat [OF d ch] u by (subst chain_end.simps) simp
next
  case (Suc n)
  have lt: "unat c < length es" using Suc by simp
  have "unat (c + 1) = unat c + 1" using lt short by (intro unat_plus_1) simp
  with Suc lt have "chain_end fs d h (c + 1) = Some (word_of_nat (length es))"
    by (intro Suc.hyps) simp_all
  then show ?case using lt chain_stat [OF d ch] by (subst chain_end.simps) simp
qed


section \<open>The store holds a finite map\<close>

lemma chains_length:
  assumes "\<And>h. chain_ok h (cs h)" "finite (dom (chains_map cs))"
  shows "length (cs h) \<le> card (dom (chains_map cs))"
proof -
  have "fst ` set (cs h) \<subseteq> dom (chains_map cs)"
  proof
    fix k assume "k \<in> fst ` set (cs h)"
    moreover from this have "strhash64 k = h" using assms(1) [of h] by (auto simp: chain_ok_def)
    ultimately show "k \<in> dom (chains_map cs)" by (simp add: chains_map_def dom_def map_of_eq_None_iff)
  qed
  then have "card (fst ` set (cs h)) \<le> card (dom (chains_map cs))" by (rule card_mono [OF assms(2)])
  moreover have "card (fst ` set (cs h)) = length (cs h)"
    using assms(1) [of h] distinct_card [of "map fst (cs h)"] by (simp add: chain_ok_def)
  ultimately show ?thesis by simp
qed

lemma kvstore_holdsE:
  assumes "kvstore_holds store fs m"
  obtains cs where "dir_usable fs (ks_dirname store)" "m = chains_map cs"
    "\<And>h. chain_at fs (ks_dirname store) h (cs h)" "\<And>h. chain_ok h (cs h)" "\<And>h. length (cs h) < 2 ^ 31"
proof -
  from assms obtain cs where cs: "kv_chains fs (ks_dirname store) cs" "m = chains_map cs"
    and fin: "finite (dom m)" "card (dom m) < 2 ^ 31" by (auto simp: kvstore_holds_def)
  show ?thesis
    by (rule that [of cs]) (use cs fin chains_length [of cs] in \<open>auto simp: kv_chains_def intro: le_less_trans\<close>)
qed

lemma dir_usable_stat: "dir_usable fs d \<Longrightarrow> fs_stat fs d"
  by (simp add: dir_usable_def fs_stat_def)

lemma find_entry_absent:
  assumes "kvstore_holds store fs m" "m k = None" "length k \<le> MAX_KEYLEN"
  shows "find_entry fs store k want = Some (ERRNOKEY, None)"
proof -
  from assms(1) obtain cs where cs: "dir_usable fs (ks_dirname store)" "m = chains_map cs"
    "\<And>h. chain_at fs (ks_dirname store) h (cs h)" "\<And>h. chain_ok h (cs h)" "\<And>h. length (cs h) < 2 ^ 31"
    by (rule kvstore_holdsE) (rule that)
  have "k \<notin> fst ` set (cs (strhash64 k))"
    using assms(2) cs(2) by (simp add: chains_map_def map_of_eq_None_iff)
  with find_entry_loop_absent [OF cs(1,3,4,5), of k "strhash64 k" 0 want] show ?thesis
    using assms(3) dir_usable_stat [OF cs(1)] by (simp add: find_entry_def)
qed

lemma map_of_nth:
  assumes "map_of es k = Some v"
  obtains p where "p < length es" "es ! p = (k, v)"
  using assms by (metis in_set_conv_nth map_of_SomeD)

lemma find_entry_present:
  assumes "kvstore_holds store fs m" "m k = Some v"
  shows "\<exists>p. find_entry fs store k want = Some (int p, if want then Some v else None) \<and> p < 2 ^ 31"
proof -
  from assms(1) obtain cs where cs: "dir_usable fs (ks_dirname store)" "m = chains_map cs"
    "\<And>h. chain_at fs (ks_dirname store) h (cs h)" "\<And>h. chain_ok h (cs h)" "\<And>h. length (cs h) < 2 ^ 31"
    by (rule kvstore_holdsE) (rule that)
  obtain p where p: "p < length (cs (strhash64 k))" "cs (strhash64 k) ! p = (k, v)"
    using assms(2) cs(2) by (auto simp: chains_map_def elim: map_of_nth)
  have "length k \<le> MAX_KEYLEN" using chain_ok_nth(1) [OF cs(4) p(1)] p(2) by (simp add: entry_ok_def)
  then show ?thesis
    using find_entry_loop_found [OF cs(1,3,4,5) p(1), of k 0 want] p cs(5) [of "strhash64 k"]
      dir_usable_stat [OF cs(1)]
    by (auto simp: find_entry_def)
qed


text \<open>What an operation on the store of directory \<open>d\<close> leaves alone.\<close>

definition store_frame :: "string \<Rightarrow> fsys \<Rightarrow> fsys \<Rightarrow> bool" where
  "store_frame d fs fs' \<longleftrightarrow>
     (\<forall>q. (\<forall>h i. q \<noteq> entry_path d h i) \<longrightarrow> fs_file fs' q = fs_file fs q) \<and>
     fs_dir fs' = fs_dir fs \<and> denied fs' = denied fs \<and> privileged fs' = privileged fs"

lemma store_frame_refl [simp]: "store_frame d fs fs"
  by (simp add: store_frame_def)

lemma dir_usable_frame: "store_frame d fs fs' \<Longrightarrow> dir_usable fs d \<Longrightarrow> dir_usable fs' d"
  by (simp add: store_frame_def dir_usable_def)

lemma chains_map_upd:
  assumes "map_of es' = (map_of (cs (strhash64 k)))(k := x)"
  shows "chains_map (cs(strhash64 k := es')) = (chains_map cs)(k := x)"
  by (rule ext) (auto simp: chains_map_def assms)

text \<open>One chain changes, and with it the map at one key.\<close>

lemma kvstore_holds_upd:
  assumes d: "d = ks_dirname store" and frame: "store_frame d fs fs'" "dir_usable fs d"
    and cs: "\<And>h. chain_at fs d h (cs h)" "\<And>h. chain_ok h (cs h)"
    and others: "\<And>h i. h \<noteq> strhash64 k \<Longrightarrow> fs_file fs' (entry_path d h i) = fs_file fs (entry_path d h i)"
    and new: "chain_at fs' d (strhash64 k) es'" "chain_ok (strhash64 k) es'"
    and upd: "map_of es' = (map_of (cs (strhash64 k)))(k := x)"
    and size: "finite (dom ((chains_map cs)(k := x)))" "card (dom ((chains_map cs)(k := x))) < 2 ^ 31"
  shows "kvstore_holds store fs' ((chains_map cs)(k := x))"
proof -
  have "kv_chains fs' d (cs(strhash64 k := es'))"
    using dir_usable_frame [OF frame] cs others new by (auto simp: kv_chains_def chain_at_def)
  then show ?thesis
    using size chains_map_upd [of es' cs k x] upd d by (auto simp: kvstore_holds_def)
qed

lemma map_of_list_update:
  assumes "distinct (map fst es)" "p < length es" "fst (es ! p) = k"
  shows "map_of (es[p := (k, v)]) = (map_of es)(k \<mapsto> v)"
  using assms
proof (induction es arbitrary: p)
  case (Cons e es)
  show ?case
  proof (cases p)
    case 0
    with Cons show ?thesis by (cases e) auto
  next
    case (Suc q)
    with Cons have "fst e \<noteq> k" by (auto dest: nth_mem)
    with Cons Suc show ?thesis by (cases e) auto
  qed
qed simp

lemma map_fst_list_update: "p < length es \<Longrightarrow> fst (es ! p) = k \<Longrightarrow> map fst (es[p := (k, v)]) = map fst es"
  by (simp add: map_update list_update_same_conv)

lemma chain_ok_update:
  assumes "chain_ok h es" "p < length es" "fst (es ! p) = k" "entry_ok k v"
  shows "chain_ok h (es[p := (k, v)])"
  using assms chain_ok_nth(2) [OF assms(1,2)] set_update_subset_insert [of es p "(k, v)"]
  by (auto simp: chain_ok_def map_fst_list_update)

lemma chain_ok_append:
  "chain_ok (strhash64 k) es \<Longrightarrow> entry_ok k v \<Longrightarrow> k \<notin> fst ` set es \<Longrightarrow> chain_ok (strhash64 k) (es @ [(k, v)])"
  by (auto simp: chain_ok_def)

text \<open>Opening an entry file for writing and dumping an entry into it.\<close>

lemma entry_written:
  assumes d: "dir_usable fs d" and ch: "chain_at fs d h es" and p: "p \<le> length es"
  shows "\<exists>fs0. fs_open_write fs (entry_path d h p) True True = Some fs0 \<and>
    (let fs' = fs_write fs0 (entry_path d h p) (kventry_bytes k v) in
      (\<forall>q. fs_file fs' q = (if q = entry_path d h p then Some (entry_node (k, v)) else fs_file fs q)) \<and>
      store_frame d fs fs')"
proof -
  obtain fs0 where fs0: "fs_open_write fs (entry_path d h p) True True = Some fs0"
    using d ch by (auto simp: fs_open_write_def dir_usable_def chain_at_def entry_node_def parent_ok_def)
  have "(case fs_file fs (entry_path d h p) of None \<Rightarrow> True | Some n \<Rightarrow> writable n) = True"
    using ch by (simp add: chain_at_def entry_node_def)
  with fs_create_write [OF fs0, of "kventry_bytes k v"] fs0 show ?thesis
    by (auto simp: entry_node_def store_frame_def Let_def)
qed

lemma find_entry_pos:
  assumes "dir_usable fs d" "d = ks_dirname store" "chain_at fs d (strhash64 k) es" "chain_ok (strhash64 k) es"
    and "length es < 2 ^ 31" "length k \<le> MAX_KEYLEN"
  shows "p < length es \<Longrightarrow> fst (es ! p) = k \<Longrightarrow> find_entry fs store k False = Some (int p, None)"
    and "k \<notin> fst ` set es \<Longrightarrow> find_entry fs store k False = Some (ERRNOKEY, None)"
  using assms find_entry_loop_found [OF assms(1,3,4,5), of p k 0 False]
    find_entry_loop_absent [OF assms(1,3,4,5), of k 0 False] dir_usable_stat [OF assms(1)]
  by (simp_all add: find_entry_def)

lemma kvstore_put_holds:
  assumes holds: "kvstore_holds store fs m" and ok: "entry_ok k v"
    and room: "card (dom (m(k \<mapsto> v))) < 2 ^ 31"
  shows "\<exists>fs'. kvstore_put fs store k v = Some (0, fs') \<and> kvstore_holds store fs' (m(k \<mapsto> v))
     \<and> store_frame (ks_dirname store) fs fs'"
proof -
  from holds obtain cs where d0: "dir_usable fs (ks_dirname store)" and m: "m = chains_map cs"
    and cs0: "\<And>h. chain_at fs (ks_dirname store) h (cs h)" "\<And>h. chain_ok h (cs h)" "\<And>h. length (cs h) < 2 ^ 31"
    by (rule kvstore_holdsE) (rule that)
  define d h where "d = ks_dirname store" and "h = strhash64 k"
  note d = d0 [folded d_def] and cs = cs0 [folded d_def]
  have fin: "finite (dom (m(k \<mapsto> v)))" using holds by (simp add: kvstore_holds_def)
  have check: "kvstore_put_check fs store k v = 0"
    using ok dir_usable_stat [OF d] by (simp add: kvstore_put_check_def entry_ok_def d_def)
  have klen: "length k \<le> MAX_KEYLEN" using ok by (simp add: entry_ok_def)
  note pos = find_entry_pos [OF d d_def cs(1,2,3) klen, folded h_def]
  have put: "\<exists>fs'. kvstore_put fs store k v = Some (0, fs') \<and> store_frame d fs fs' \<and>
      (\<forall>q. fs_file fs' q = (if q = entry_path d h p then Some (entry_node (k, v)) else fs_file fs q))"
    if "find_entry fs store k False = Some (c, None)" "p \<le> length (cs h)"
      "(if c \<ge> 0 then Some (word_of_int c) else chain_end fs d h 0) = Some (word_of_nat p :: u32)" for c p
  proof -
    have "unat (word_of_nat p :: u32) = p" using that(2) cs(3) [of h] by (simp add: unat_of_nat take_bit_eq_mod)
    then show ?thesis
      using that entry_written [OF d cs(1) that(2), of k v] check
      by (auto simp: kvstore_put_def d_def h_def Let_def)
  qed
  have fini: "\<exists>fs'. kvstore_put fs store k v = Some (0, fs') \<and> kvstore_holds store fs' (m(k \<mapsto> v)) \<and> store_frame d fs fs'"
    if put: "kvstore_put fs store k v = Some (0, fs')" and frame: "store_frame d fs fs'"
      and upd: "\<forall>q. fs_file fs' q = (if q = entry_path d h p then Some (entry_node (k, v)) else fs_file fs q)"
      and new: "chain_at fs' d h es'" "chain_ok h es'" "map_of es' = (map_of (cs h))(k \<mapsto> v)" for fs' p es'
    using kvstore_holds_upd [OF d_def frame d cs(1,2) _ new(1,2,3) [unfolded h_def]] upd fin room m put frame
    by (auto simp: h_def)
  show ?thesis
  proof (cases "k \<in> fst ` set (cs h)")
    case True
    then obtain p where p: "p < length (cs h)" "fst (cs h ! p) = k" by (auto simp: in_set_conv_nth)
    with pos(1) put [of "int p" p] obtain fs' where fs': "kvstore_put fs store k v = Some (0, fs')"
      "store_frame d fs fs'"
      "\<forall>q. fs_file fs' q = (if q = entry_path d h p then Some (entry_node (k, v)) else fs_file fs q)"
      by auto
    have "chain_at fs' d h ((cs h)[p := (k, v)])"
      using fs'(3) cs(1) [of h] p(1) by (auto simp: chain_at_def nth_list_update)
    then show ?thesis
      using fini [OF fs' _ chain_ok_update [OF cs(2) p ok]] map_of_list_update [OF _ p] cs(2) [of h]
      by (auto simp: chain_ok_def d_def)
  next
    case False
    have "chain_end fs d h 0 = Some (word_of_nat (length (cs h)))"
      using chain_end_chain [OF d cs(1,3), of 0 h] by simp
    with False pos(2) put [of ERRNOKEY "length (cs h)"] obtain fs' where
      fs': "kvstore_put fs store k v = Some (0, fs')" "store_frame d fs fs'"
      "\<forall>q. fs_file fs' q = (if q = entry_path d h (length (cs h)) then Some (entry_node (k, v)) else fs_file fs q)"
      by (auto simp: errcodes)
    have "chain_at fs' d h (cs h @ [(k, v)])"
      using fs'(3) cs(1) [of h] by (auto simp: chain_at_def nth_append less_Suc_eq)
    moreover have "map_of (cs h @ [(k, v)]) = (map_of (cs h))(k \<mapsto> v)"
    proof -
      have "map_of (cs h) k = None" using False by (simp add: map_of_eq_None_iff)
      then show ?thesis by (auto simp: fun_eq_iff map_add_def split: option.splits)
    qed
    ultimately show ?thesis
      using fini [OF fs' _ chain_ok_append [OF cs(2) [of "strhash64 k"] ok, folded h_def]] False
      by (auto simp: d_def)
  qed
qed

lemma swap_delete_mset:
  assumes "p < length es"
  shows "mset es = mset (es ! p # butlast (es[p := last es]))"
proof -
  have ne: "es[p := last es] \<noteq> []" using assms by auto
  have "last (es[p := last es]) = last es" using assms by (cases es rule: rev_cases) (auto simp: list_update_append)
  with ne have "es[p := last es] = butlast (es[p := last es]) @ [last es]" by (metis append_butlast_last_id)
  then have "mset (es[p := last es]) = add_mset (last es) (mset (butlast (es[p := last es])))"
    by (metis mset_append add_mset_add_single mset_single_iff mset.simps union_commute mset_rev)
  with mset_update [OF assms, of "last es"] have "mset (butlast (es[p := last es])) = mset es - {#es ! p#}"
    by simp
  then show ?thesis using assms by simp
qed

lemma swap_delete_map_of:
  assumes "distinct (map fst es)" "p < length es" "fst (es ! p) = k"
  defines "es' \<equiv> butlast (es[p := last es])"
  shows "map_of es' = (map_of es)(k := None)" and "distinct (map fst es')" and "set es' \<subseteq> set es"
proof -
  have ms: "mset es = mset (es ! p # es')" unfolding es'_def by (rule swap_delete_mset [OF assms(2)])
  then have "mset (map fst es) = mset (map fst (es ! p # es'))" by (simp only: mset_map)
  with assms(1) have dist: "distinct (map fst (es ! p # es'))" using mset_eq_imp_distinct_iff by blast
  then show "distinct (map fst es')" by simp
  have sets: "set es = set (es ! p # es')" by (rule mset_eq_setD [OF ms])
  then show "set es' \<subseteq> set es" by auto
  have "map_of es = map_of (es ! p # es')"
    using sets assms(1) dist by (subst map_of_inject_set) simp_all
  moreover have "map_of es' k = None" using dist assms(3) by (simp add: map_of_eq_None_iff)
  ultimately show "map_of es' = (map_of es)(k := None)"
    using assms(3) by (cases "es ! p") (simp add: fun_upd_idem)
qed

lemma swap_delete_nth:
  assumes "p < length es"
  shows "length (butlast (es[p := last es])) = length es - 1"
    and "i < length es - 1 \<Longrightarrow> butlast (es[p := last es]) ! i = (if i = p then es ! (length es - 1) else es ! i)"
  using assms by (cases es rule: rev_cases; auto simp: nth_butlast nth_list_update nth_append)+

lemma kvstore_del_holds:
  assumes holds: "kvstore_holds store fs m" and mem: "m k = Some v"
  shows "\<exists>fs'. kvstore_del fs store k = Some (0, fs') \<and> kvstore_holds store fs' (m(k := None))
     \<and> store_frame (ks_dirname store) fs fs'"
proof -
  from holds obtain cs where d0: "dir_usable fs (ks_dirname store)" and m: "m = chains_map cs"
    and cs0: "\<And>h. chain_at fs (ks_dirname store) h (cs h)" "\<And>h. chain_ok h (cs h)" "\<And>h. length (cs h) < 2 ^ 31"
    by (rule kvstore_holdsE) (rule that)
  define d h where "d = ks_dirname store" and "h = strhash64 k"
  note d = d0 [folded d_def] and cs = cs0 [folded d_def]
  define n where "n = length (cs h)"
  obtain p where p: "p < n" "cs h ! p = (k, v)"
    using mem m by (auto simp: chains_map_def h_def n_def elim: map_of_nth)
  have klen: "length k \<le> MAX_KEYLEN" using chain_ok_nth(1) [OF cs(2), of p h] p by (simp add: entry_ok_def n_def)
  have n31: "n < 2 ^ 31" using cs(3) [of h] by (simp add: n_def)
  have u: "unat (word_of_nat j :: u32) = j" if "j < 2 ^ 32" for j
    using that by (simp add: unat_of_nat take_bit_eq_mod)
  have found: "find_entry fs store k False = Some (int p, None)"
    using find_entry_pos(1) [OF d d_def cs(1,2,3) klen, of p] p by (simp add: h_def n_def)
  have up: "unat (word_of_nat p + 1 :: u32) = p + 1"
    using unat_plus_1 [of "word_of_nat p"] u [of p] p n31 by simp
  have end_: "chain_end fs d h (word_of_nat p + 1) = Some (word_of_nat n)"
    using chain_end_chain [OF d cs(1,3), of "word_of_nat p + 1" h] up p by (simp add: n_def)
  define fs' where "fs' = (if n = p + 1 then del_file fs (entry_path d h p)
    else set_file (del_file fs (entry_path d h (n - 1))) (entry_path d h p) (entry_node (cs h ! (n - 1))))"
  have last1: "unat (word_of_nat n - 1 :: u32) = n - 1"
    using u [of "n - 1"] p n31 by (simp add: of_nat_diff)
  have eq: "(word_of_nat n = (word_of_nat p + 1 :: u32)) \<longleftrightarrow> n = p + 1"
    using up u [of n] n31 by (auto simp: word_unat_eq_iff)
  have files: "fs_file fs (entry_path d h i) = (if i < n then Some (entry_node (cs h ! i)) else None)" for i
    using cs(1) [of h] by (simp add: chain_at_def n_def)
  have nd: "\<not> denied fs d" using d by (simp add: dir_usable_def)
  have del: "kvstore_del fs store k = Some (0, fs')"
    using found end_ p files nd last1 eq u [of p] n31
    by (auto simp: kvstore_del_def d_def [symmetric] h_def [symmetric] Let_def fs_remove_def fs_rename_def fs'_def)
  define es' where "es' = butlast ((cs h)[p := last (cs h)])"
  have p': "p < length (cs h)" "fst (cs h ! p) = k" using p by (simp_all add: n_def)
  have dist: "distinct (map fst (cs h))" using cs(2) by (simp add: chain_ok_def)
  note sw = swap_delete_map_of [OF dist p', folded es'_def]
  note nth = swap_delete_nth [OF p'(1), folded es'_def n_def]
  have frame: "store_frame d fs fs'" by (auto simp: fs'_def store_frame_def)
  have at: "chain_at fs' d h es'"
    unfolding chain_at_def using files nth p by (auto simp: fs'_def)
  have ok': "chain_ok h es'" using cs(2) [of h] sw(2,3) by (auto simp: chain_ok_def)
  have fin: "finite (dom (m(k := None)))" "card (dom (m(k := None))) < 2 ^ 31"
    using holds card_Diff1_le [of "dom m" k] by (auto simp: kvstore_holds_def intro: le_less_trans)
  have "kvstore_holds store fs' (m(k := None))"
    unfolding m
    by (rule kvstore_holds_upd [OF d_def frame d cs(1,2) _ at [unfolded h_def] ok' [unfolded h_def] sw(1) [unfolded h_def]])
      (use fin m in \<open>auto simp: fs'_def h_def\<close>)
  with del frame show ?thesis by (auto simp: d_def)
qed

section \<open>The contract of the store\<close>

text \<open>Operations on a map of keys to values, and a sequence of them run through two operations that
  report an error code and the new state.\<close>

datatype kv_op = Put string string | Del string

fun kv_apply :: "(string \<rightharpoonup> string) \<Rightarrow> kv_op \<Rightarrow> (string \<rightharpoonup> string)" where
  "kv_apply m (Put k v) = m(k \<mapsto> v)"
| "kv_apply m (Del k) = m(k := None)"

fun kv_run ::
  "('s \<Rightarrow> string \<Rightarrow> string \<Rightarrow> (int \<times> 's) option) \<Rightarrow> ('s \<Rightarrow> string \<Rightarrow> (int \<times> 's) option) \<Rightarrow>
   's \<Rightarrow> kv_op list \<Rightarrow> 's option" where
  "kv_run put del s [] = Some s"
| "kv_run put del s (Put k v # ops) = do { (_, s') \<leftarrow> put s k v; kv_run put del s' ops }"
| "kv_run put del s (Del k # ops) = do { (_, s') \<leftarrow> del s k; kv_run put del s' ops }"

fun kv_op_ok :: "kv_op \<Rightarrow> bool" where
  "kv_op_ok (Put k v) = entry_ok k v"
| "kv_op_ok (Del k) = (length k \<le> MAX_KEYLEN)"

locale kv_contract =
  fixes holds :: "'s \<Rightarrow> (string \<rightharpoonup> string) \<Rightarrow> bool"
    and get :: "'s \<Rightarrow> string \<Rightarrow> (int \<times> string option) option"
    and put :: "'s \<Rightarrow> string \<Rightarrow> string \<Rightarrow> (int \<times> 's) option"
    and del :: "'s \<Rightarrow> string \<Rightarrow> (int \<times> 's) option"
  assumes finite_dom: "holds s m \<Longrightarrow> finite (dom m)"
    and get_present: "holds s m \<Longrightarrow> m k = Some v \<Longrightarrow> get s k = Some (0, Some v)"
    and get_absent: "holds s m \<Longrightarrow> m k = None \<Longrightarrow> length k \<le> MAX_KEYLEN \<Longrightarrow> get s k = Some (ERRNOKEY, None)"
    and put_ok: "holds s m \<Longrightarrow> entry_ok k v \<Longrightarrow> card (dom (m(k \<mapsto> v))) < 2 ^ 31 \<Longrightarrow>
      \<exists>s'. put s k v = Some (0, s') \<and> holds s' (m(k \<mapsto> v))"
    and del_present: "holds s m \<Longrightarrow> m k = Some v \<Longrightarrow> \<exists>s'. del s k = Some (0, s') \<and> holds s' (m(k := None))"
    and del_absent: "holds s m \<Longrightarrow> m k = None \<Longrightarrow> length k \<le> MAX_KEYLEN \<Longrightarrow> del s k = Some (ERRNOKEY, s)"
begin

lemma get_iff:
  assumes "holds s m" "length k \<le> MAX_KEYLEN"
  shows "get s k = Some (case m k of None \<Rightarrow> (ERRNOKEY, None) | Some v \<Rightarrow> (0, Some v))"
  using assms get_present get_absent by (simp split: option.split)

lemma holds_unique:
  assumes "holds s m" "holds s m'" "length k \<le> MAX_KEYLEN"
  shows "m k = m' k"
  using get_iff [OF assms(1,3)] get_iff [OF assms(2,3)] by (auto simp: errcodes split: option.splits)

lemma del_any:
  assumes "holds s m" "length k \<le> MAX_KEYLEN"
  shows "\<exists>r s'. del s k = Some (r, s') \<and> holds s' (m(k := None))"
proof (cases "m k")
  case None
  then have "m(k := None) = m" by (simp add: fun_upd_idem)
  with del_absent [OF assms(1) None assms(2)] assms(1) show ?thesis by auto
next
  case (Some v)
  with del_present [OF assms(1)] show ?thesis by blast
qed

lemma card_dom_upd: "finite (dom m) \<Longrightarrow> card (dom (m(k \<mapsto> v))) \<le> card (dom m) + 1"
  by (simp add: card_insert_if)

lemma card_dom_del: "finite (dom m) \<Longrightarrow> card (dom (m(k := None))) \<le> card (dom m)"
  using card_Diff1_le [of "dom m" k] by simp

text \<open>A sequence of operations on the store is the same sequence on the map.\<close>

lemma run_refines:
  "holds s m \<Longrightarrow> list_all kv_op_ok ops \<Longrightarrow> card (dom m) + length ops < 2 ^ 31 \<Longrightarrow>
   \<exists>s'. kv_run put del s ops = Some s' \<and> holds s' (foldl kv_apply m ops)"
proof (induction ops arbitrary: s m)
  case (Cons x ops)
  have fin: "finite (dom m)" using Cons.prems(1) by (rule finite_dom)
  show ?case
  proof (cases x)
    case (Put k v)
    then have "\<exists>s'. put s k v = Some (0, s') \<and> holds s' (m(k \<mapsto> v))"
      using Cons.prems card_dom_upd [OF fin, of k v] by (intro put_ok) auto
    then obtain s' where s': "put s k v = Some (0, s')" "holds s' (m(k \<mapsto> v))" by blast
    have room: "card (dom (m(k \<mapsto> v))) + length ops < 2 ^ 31"
      using Cons.prems(3) card_dom_upd [OF fin, of k v] by simp
    have "list_all kv_op_ok ops" using Cons.prems(2) by simp
    from Cons.IH [of s' "m(k \<mapsto> v)", OF s'(2) this room]
    show ?thesis using Put s'(1) by (simp del: fun_upd_apply)
  next
    case (Del k)
    then obtain r s' where s': "del s k = Some (r, s')" "holds s' (m(k := None))"
      using del_any [OF Cons.prems(1), of k] Cons.prems(2) by (auto simp del: fun_upd_apply)
    have room: "card (dom (m(k := None))) + length ops < 2 ^ 31"
      using Cons.prems(3) card_dom_del [OF fin, of k] by simp
    have "list_all kv_op_ok ops" using Cons.prems(2) by simp
    from Cons.IH [of s' "m(k := None)", OF s'(2) this room]
    show ?thesis using Del s'(1) by (simp del: fun_upd_apply)
  qed
qed auto

lemma run_get:
  assumes "holds s m" "list_all kv_op_ok ops" "card (dom m) + length ops < 2 ^ 31" "length k \<le> MAX_KEYLEN"
  shows "\<exists>s'. kv_run put del s ops = Some s' \<and>
    get s' k = Some (case foldl kv_apply m ops k of None \<Rightarrow> (ERRNOKEY, None) | Some v \<Rightarrow> (0, Some v))"
  using run_refines [OF assms(1-3)] get_iff assms(4) by blast

end

lemma kvstore_holds_entry_ok: "kvstore_holds store fs m \<Longrightarrow> m k = Some v \<Longrightarrow> entry_ok k v"
  by (fastforce simp: kvstore_holds_def kv_chains_def chain_ok_def chains_map_def dest: map_of_SomeD)

lemma kvstore_get_present: "kvstore_holds store fs m \<Longrightarrow> m k = Some v \<Longrightarrow> kvstore_get fs store k = Some (0, Some v)"
proof -
  assume "kvstore_holds store fs m" "m k = Some v"
  then obtain p where "find_entry fs store k True = Some (int p, Some v)"
    using find_entry_present [of store fs m k v True] by auto
  then show ?thesis by (simp add: kvstore_get_def)
qed

lemma kvstore_get_absent:
  "kvstore_holds store fs m \<Longrightarrow> m k = None \<Longrightarrow> length k \<le> MAX_KEYLEN \<Longrightarrow>
   kvstore_get fs store k = Some (ERRNOKEY, None)"
  using find_entry_absent [of store fs m k True] by (simp add: kvstore_get_def errcodes)

lemma kvstore_del_absent:
  "kvstore_holds store fs m \<Longrightarrow> m k = None \<Longrightarrow> length k \<le> MAX_KEYLEN \<Longrightarrow>
   kvstore_del fs store k = Some (ERRNOKEY, fs)"
  using find_entry_absent [of store fs m k False] by (simp add: kvstore_del_def errcodes)

interpretation kvs: kv_contract "kvstore_holds store" "\<lambda>fs. kvstore_get fs store"
  "\<lambda>fs. kvstore_put fs store" "\<lambda>fs. kvstore_del fs store" for store
proof unfold_locales
  show "\<exists>s'. kvstore_put s store k v = Some (0, s') \<and> kvstore_holds store s' (m(k \<mapsto> v))"
    if "kvstore_holds store s m" "entry_ok k v" "card (dom (m(k \<mapsto> v))) < 2 ^ 31" for s m k v
    using kvstore_put_holds [OF that] by blast
  show "\<exists>s'. kvstore_del s store k = Some (0, s') \<and> kvstore_holds store s' (m(k := None))"
    if "kvstore_holds store s m" "m k = Some v" for s m k v
    using kvstore_del_holds [OF that] by blast
qed (simp_all add: kvstore_holds_def [THEN iffD1] kvstore_get_present kvstore_get_absent kvstore_del_absent)

section \<open>Initialisation and cleaning\<close>

text \<open>No entry file, and no obstacle to one, in directory \<open>d\<close>.\<close>

definition no_entries :: "fsys \<Rightarrow> string \<Rightarrow> bool" where
  "no_entries fs d \<longleftrightarrow> \<not> denied fs d \<and> (\<forall>h i. fs_file fs (entry_path d h i) = None \<and>
     \<not> fs_dir fs (entry_path d h i) \<and> \<not> denied fs (entry_path d h i))"

lemma empty_store_holds:
  assumes "no_entries fs (ks_dirname store)" "fs_dir fs (ks_dirname store)"
  shows "kvstore_holds store fs Map.empty"
  unfolding kvstore_holds_def
  by (rule conjI, rule exI [of _ "\<lambda>_. []"])
    (use assms in \<open>auto simp: kv_chains_def dir_usable_def no_entries_def chain_at_def chain_ok_def chains_map_def fun_eq_iff\<close>)

lemma entry_path_not_dir [simp]: "entry_path d h i \<noteq> d"
  by (simp add: entry_path_def)

lemma kvstore_init_holds:
  assumes "no_entries fs d" "\<not> fs_stat fs d" "parent_ok fs d"
  shows "\<exists>fs'. kvstore_init fs d = (0, Some \<lparr>ks_dirname = d\<rparr>, fs') \<and> kvstore_holds \<lparr>ks_dirname = d\<rparr> fs' Map.empty"
proof -
  define fs' where "fs' = fs\<lparr>dir_list := d # dir_list fs\<rparr>"
  have "kvstore_init fs d = (0, Some \<lparr>ks_dirname = d\<rparr>, fs')"
    using assms by (simp add: kvstore_init_def fs_mkdir_def parent_ok_def fs'_def)
  moreover have "kvstore_holds \<lparr>ks_dirname = d\<rparr> fs' Map.empty"
    by (rule empty_store_holds)
      (use assms in \<open>auto simp: no_entries_def fs'_def fs_dir_def fs_file_def\<close>)
  ultimately show ?thesis by blast
qed


text \<open>C4. Refinement: a store that holds the finite map \<open>m\<close> behaves as that map. After any sequence of
  puts of valid entries and deletions, run through \<open>kvstore_put\<close> and \<open>kvstore_del\<close>, every
  call has returned, and \<open>kvstore_get\<close> on any key within the length limit gives the value the
  same sequence on \<open>m\<close> gives it, or \<open>ERRNOKEY\<close>; hash collisions included, up to
  \<open>2 ^ 31\<close> keys.\<close>

theorem kvstore_refines_map:
  assumes "kvstore_holds store fs m" and "list_all kv_op_ok ops"
    and "card (dom m) + length ops < 2 ^ 31" and "length k \<le> MAX_KEYLEN"
  shows "\<exists>fs'. kv_run (\<lambda>fs. kvstore_put fs store) (\<lambda>fs. kvstore_del fs store) fs ops = Some fs' \<and>
    kvstore_get fs' store k =
      Some (case foldl kv_apply m ops k of None \<Rightarrow> (ERRNOKEY, None) | Some v \<Rightarrow> (0, Some v))"
  using kvs.run_get [OF assms] .

definition empty_fs :: fsys where
  "empty_fs = \<lparr>file_list = [], dir_list = [''d''], denied = (\<lambda>_. False), privileged = False\<rparr>"

lemma empty_fs_holds: "kvstore_holds \<lparr>ks_dirname = ''d''\<rparr> empty_fs Map.empty"
  by (rule empty_store_holds) (auto simp: empty_fs_def no_entries_def fs_file_def fs_dir_def entry_path_def)

theorem kvstore_refines_map_witness:
  "\<exists>fs'. kv_run (\<lambda>fs. kvstore_put fs \<lparr>ks_dirname = ''d''\<rparr>) (\<lambda>fs. kvstore_del fs \<lparr>ks_dirname = ''d''\<rparr>) empty_fs
      [Put ''a'' ''1'', Put ''b'' ''2'', Put ''a'' ''3'', Del ''b''] = Some fs' \<and>
    kvstore_get fs' \<lparr>ks_dirname = ''d''\<rparr> ''a'' = Some (0, Some ''3'')"
  using kvstore_refines_map [OF empty_fs_holds,
      of "[Put ''a'' ''1'', Put ''b'' ''2'', Put ''a'' ''3'', Del ''b'']" "''a''"]
  by (simp add: entry_ok_def limits)

text \<open>A put never disturbs anything but entry files of its own store: after a successful put the
  directories, the permissions and every file that is not an entry of this store are what they were
  (this is what lets a server keep its log in the same directory), and the store holds the updated
  map.\<close>

theorem kvstore_put_frame:
  assumes "kvstore_holds store fs m" and "entry_ok k v" and "card (dom (m(k \<mapsto> v))) < 2 ^ 31"
  shows "\<exists>fs'. kvstore_put fs store k v = Some (0, fs') \<and> kvstore_holds store fs' (m(k \<mapsto> v)) \<and>
    fs_dir fs' = fs_dir fs \<and> denied fs' = denied fs \<and>
    (\<forall>q. (\<forall>h i. q \<noteq> entry_path (ks_dirname store) h i) \<longrightarrow> fs_file fs' q = fs_file fs q)"
  using kvstore_put_holds [OF assms] by (auto simp: store_frame_def)

theorem kvstore_put_frame_witness:
  "\<exists>fs'. kvstore_put empty_fs \<lparr>ks_dirname = ''d''\<rparr> ''a'' ''1'' = Some (0, fs') \<and>
    kvstore_holds \<lparr>ks_dirname = ''d''\<rparr> fs' [''a'' \<mapsto> ''1''] \<and> fs_dir fs' = fs_dir empty_fs"
  using kvstore_put_frame [OF empty_fs_holds, of "''a''" "''1''"] by (auto simp: entry_ok_def limits)

text \<open>Deletion keeps the hash chains complete: removing a key that is present succeeds, the store
  then holds the map without it, so every other key of the same chain is still found, although the
  last entry of the chain has moved into the gap.\<close>

theorem kvstore_del_reconnects:
  assumes "kvstore_holds store fs m" and "m k = Some v" and "k' \<noteq> k" and "length k' \<le> MAX_KEYLEN"
  shows "\<exists>fs'. kvstore_del fs store k = Some (0, fs') \<and> kvstore_holds store fs' (m(k := None)) \<and>
    kvstore_get fs' store k = Some (ERRNOKEY, None) \<and> kvstore_get fs' store k' = kvstore_get fs store k'"
proof -
  obtain fs' where fs': "kvstore_del fs store k = Some (0, fs')" "kvstore_holds store fs' (m(k := None))"
    using kvstore_del_holds [OF assms(1,2)] by blast
  have "length k \<le> MAX_KEYLEN" using kvstore_holds_entry_ok [OF assms(1,2)] by (simp add: entry_ok_def)
  then show ?thesis
    using fs' kvs.get_iff [OF fs'(2)] kvs.get_iff [OF assms(1,4)] assms(3,4) by simp
qed

theorem kvstore_del_reconnects_witness:
  "\<exists>fs fs'. kvstore_put empty_fs \<lparr>ks_dirname = ''d''\<rparr> ''a'' ''1'' = Some (0, fs) \<and>
     kvstore_del fs \<lparr>ks_dirname = ''d''\<rparr> ''a'' = Some (0, fs') \<and>
     kvstore_get fs' \<lparr>ks_dirname = ''d''\<rparr> ''a'' = Some (ERRNOKEY, None)"
proof -
  obtain fs where fs: "kvstore_put empty_fs \<lparr>ks_dirname = ''d''\<rparr> ''a'' ''1'' = Some (0, fs)"
    "kvstore_holds \<lparr>ks_dirname = ''d''\<rparr> fs [''a'' \<mapsto> ''1'']"
    using kvstore_put_holds [OF empty_fs_holds, of "''a''" "''1''"] by (auto simp: entry_ok_def limits)
  show ?thesis
    using kvstore_del_reconnects [OF fs(2), of "''a''" "''1''" "''b''"] fs(1) by (auto simp: limits)
qed

text \<open>A put on every branch: on a store that holds \<open>m\<close>, \<open>kvstore_put\<close> returns
  \<open>ERRKEYLEN\<close> for a key over the limit, else \<open>ERRVALLEN\<close> for a value over the limit, and
  the store still holds \<open>m\<close>; otherwise it returns 0 and the store holds the updated map.\<close>

theorem kvstore_put_total:
  assumes "kvstore_holds store fs m" and "nonul k" and "nonul v" and "card (dom (m(k \<mapsto> v))) < 2 ^ 31"
  shows "\<exists>r fs'. kvstore_put fs store k v = Some (r, fs') \<and>
    r = (if length k > MAX_KEYLEN then ERRKEYLEN else if length v > MAX_VALLEN then ERRVALLEN else 0) \<and>
    kvstore_holds store fs' (if r = 0 then m(k \<mapsto> v) else m)"
proof (cases "entry_ok k v")
  case True
  with kvstore_put_holds [OF assms(1) True assms(4)] show ?thesis by (auto simp: entry_ok_def)
next
  case False
  then have long: "length k > MAX_KEYLEN \<or> length v > MAX_VALLEN" using assms(2,3) by (auto simp: entry_ok_def)
  define r where "r = (if length k > MAX_KEYLEN then ERRKEYLEN else ERRVALLEN)"
  have "kvstore_put fs store k v = Some (r, fs)"
    using long by (auto simp: kvstore_put_def kvstore_put_check_def errcodes r_def)
  with long assms(1) show ?thesis by (auto simp: errcodes r_def)
qed

theorem kvstore_put_total_witness:
  "\<exists>r fs'. kvstore_put empty_fs \<lparr>ks_dirname = ''d''\<rparr> ''a'' ''1'' = Some (r, fs') \<and> r = 0"
  using kvstore_put_total [OF empty_fs_holds, of "''a''" "''1''"] by (auto simp: limits)

text \<open>A failing \<open>kvstore_init\<close> reports a positive number: where the directory does not exist
  and cannot be made, the result is the \<open>errno\<close> of \<open>mkdir\<close>, not the negative error code its
  comment promises, so the test \<open>ret < 0\<close> of its caller never sees it.\<close>

theorem kvstore_init_positive_error:
  assumes "\<not> fs_stat fs d" and "\<not> parent_ok fs d"
  shows "fst (kvstore_init fs d) > 0 \<and> fst (snd (kvstore_init fs d)) = None"
  using assms by (auto simp: kvstore_init_def fs_mkdir_def parent_ok_def errno_defs)

theorem kvstore_init_positive_error_witness:
  "fst (kvstore_init empty_fs ''x/y'') > 0"
  using kvstore_init_positive_error [of empty_fs "''x/y''"]
  by (simp add: empty_fs_def fs_stat_def fs_file_def fs_dir_def parent_ok_def parent_def)

lemma fs_remove_file:
  assumes "\<not> denied fs (parent p)" "fs_file fs p \<noteq> None"
  shows "snd (fs_remove fs p) = del_file fs p"
  using assms by (simp add: fs_remove_def)

lemma remove_all_files:
  assumes "\<not> denied fs d" "\<forall>p \<in> set ps. parent p = d \<and> \<not> fs_dir fs p"
  defines "fs' \<equiv> foldl (\<lambda>fs p. snd (fs_remove fs p)) fs ps"
  shows "fs_file fs' q = (if q \<in> set ps then None else fs_file fs q) \<and> dir_list fs' = dir_list fs \<and> denied fs' = denied fs"
  unfolding fs'_def using assms(1,2)
proof (induction ps arbitrary: fs)
  case (Cons p ps)
  have rm: "fs_file (snd (fs_remove fs p)) q = (if q = p then None else fs_file fs q) \<and>
      dir_list (snd (fs_remove fs p)) = dir_list fs \<and> denied (snd (fs_remove fs p)) = denied fs" for q
    using Cons.prems by (auto simp: fs_remove_def)
  then have "fs_dir (snd (fs_remove fs p)) = fs_dir fs" by (simp add: fs_dir_def fun_eq_iff)
  with Cons.IH [of "snd (fs_remove fs p)"] Cons.prems rm show ?case by auto
qed simp

lemma fs_file_in_list: "fs_file fs q = None \<longleftrightarrow> q \<notin> fst ` set (file_list fs)"
  by (simp add: fs_file_def map_of_eq_None_iff)

text \<open>\<open>kvstore_clean\<close> on a usable store directory without subdirectories returns 0, removes every
  file in it (the server's log too), removes the directory itself, and leaves every other file.\<close>

theorem kvstore_clean_removes:
  assumes "fs_dir fs (ks_dirname store)" and "\<not> denied fs (ks_dirname store)"
    and "\<not> denied fs (parent (ks_dirname store))" and "fs_file fs (ks_dirname store) = None"
    and "\<forall>p \<in> set (dir_list fs). parent p \<noteq> ks_dirname store"
  shows "\<exists>fs'. kvstore_clean fs store = (0, fs') \<and> \<not> fs_stat fs' (ks_dirname store) \<and>
    (\<forall>q. fs_file fs' q = (if parent q = ks_dirname store then None else fs_file fs q))"
proof -
  define d where "d = ks_dirname store"
  define ps where "ps = fs_readdir fs d"
  define fs1 where "fs1 = foldl (\<lambda>fs p. snd (fs_remove fs p)) fs ps"
  have nosub: "filter (\<lambda>p. parent p = d) (dir_list fs) = []"
    using assms(5) by (auto simp: filter_empty_conv d_def)
  then have ps: "ps = filter (\<lambda>p. parent p = d) (map fst (file_list fs))" by (simp add: ps_def fs_readdir_def)
  have pd: "parent p = d \<and> \<not> fs_dir fs p" if "p \<in> set ps" for p
    using that assms(5) by (auto simp: ps fs_dir_def d_def)
  have fs1: "fs_file fs1 q = (if q \<in> set ps then None else fs_file fs q)" "dir_list fs1 = dir_list fs"
    "denied fs1 = denied fs" for q
    using remove_all_files [of fs d ps q] pd assms(2) by (auto simp: fs1_def d_def)
  have none: "fs_file fs1 q = (if parent q = d then None else fs_file fs q)" for q
    using fs1(1) [of q] fs_file_in_list [of fs q] by (auto simp: ps)
  have empty: "fs_readdir fs1 d = []"
  proof -
    have "\<not> (parent p = d)" if "p \<in> fst ` set (file_list fs1)" for p
      using that none [of p] fs_file_in_list [of fs1 p] by auto
    then have "filter (\<lambda>p. parent p = d) (map fst (file_list fs1)) = []" by (auto simp: filter_empty_conv)
    with nosub fs1(2) show ?thesis by (simp add: fs_readdir_def)
  qed
  define fs' where "fs' = fs1\<lparr>dir_list := removeAll d (dir_list fs)\<rparr>"
  have d1: "fs_file fs1 d = None" "fs_dir fs1 d" using none [of d] assms(1,4) fs1(2) by (auto simp: d_def fs_dir_def)
  have np: "\<not> denied fs1 (parent d)" using assms(3) fs1(3) by (simp add: d_def)
  have rm: "snd (fs_remove fs1 d) = fs'"
    by (simp add: fs_remove_def fs'_def np d1 empty fs1(2))
  have dir: "fs_dir fs d" using assms(1) by (simp add: d_def)
  have "kvstore_clean fs store = (0, fs')"
    unfolding kvstore_clean_def d_def [symmetric] ps_def [symmetric] fs1_def [symmetric] rm
    by (simp only: dir simp_thms if_False)
  moreover have "fs_file fs' q = fs_file fs1 q" for q by (simp add: fs'_def fs_file_def)
  moreover have "\<not> fs_dir fs' d" by (simp add: fs'_def fs_dir_def)
  ultimately show ?thesis using none d1 by (auto simp: fs_stat_def d_def)
qed

theorem kvstore_clean_removes_witness:
  "\<exists>fs'. kvstore_clean \<lparr>file_list = [(''d/0.log'', \<lparr>content = '''', writable = True\<rparr>)], dir_list = [''d''],
       denied = (\<lambda>_. False), privileged = False\<rparr> \<lparr>ks_dirname = ''d''\<rparr> = (0, fs') \<and> \<not> fs_stat fs' ''d''"
  using kvstore_clean_removes [of "\<lparr>file_list = [(''d/0.log'', \<lparr>content = '''', writable = True\<rparr>)],
      dir_list = [''d''], denied = (\<lambda>_. False), privileged = False\<rparr>" "\<lparr>ks_dirname = ''d''\<rparr>"]
  by (auto simp: fs_dir_def fs_file_def parent_def)

end
