(* ===== verification/TpcLog.thy ===== *)
theory TpcLog
  imports KvStore
begin

text \<open>
  The two-phase-commit log of \<open>hw4/src/tpclog.c\<close>: entry number \<open>n\<close> is the file
  \<open>n.log\<close> of the log's directory, which holds the message type, the length of the data and the
  data. The operations work on the file-system state of theory \<open>Fsys\<close>; the read-write lock makes
  each of them one step and is left out.

  The contract \<open>append_log\<close> says what a client may rely on: what was appended is what an iteration
  over the log gives back, in order. The last section shows that log and store can share a directory.
\<close>

section \<open>Entries and file names\<close>

record tpclog_t =
  tl_dirname :: string
  nextid :: u64
  iterpos :: u64

text \<open>An entry as \<open>tpclog_load_entry\<close> leaves it in memory; \<open>le_type\<close> is the integer
  representation of the enumeration constant.\<close>

record logentry_t =
  le_type :: nat
  le_length :: nat
  le_data :: bytes

definition TPCLOG_FILETYPE :: string where
  "TPCLOG_FILETYPE = ''.log''"

text \<open>\<open>sprintf (filename, "%s/%lu%s", dirname, eid, TPCLOG_FILETYPE)\<close>.\<close>

definition log_path :: "string \<Rightarrow> nat \<Rightarrow> string" where
  "log_path dirname eid = dirname @ ''/'' @ dec eid @ TPCLOG_FILETYPE"

section \<open>Operations\<close>

text \<open>The loop of \<open>tpclog_init\<close> that looks for the first free number: \<open>filename\<close> is the one
  of \<open>eid\<close>, and the variable \<open>nextid\<close> of the source is one ahead.\<close>

partial_function (option) tpclog_init_loop :: "fsys \<Rightarrow> string \<Rightarrow> u64 \<Rightarrow> u64 option" where
  "tpclog_init_loop fs dirname eid =
     (if fs_stat fs (log_path dirname (unat eid)) then tpclog_init_loop fs dirname (eid + 1) else Some eid)"

definition tpclog_init :: "fsys \<Rightarrow> tpclog_t \<Rightarrow> string \<Rightarrow> (int \<times> tpclog_t \<times> fsys) option" where
  "tpclog_init fs log dirname =
     (let (errno, fs') = (if \<not> fs_stat fs dirname then fs_mkdir fs dirname else (0, fs)) in
      if errno \<noteq> 0 then Some (errno, log, fs')
      else map_option (\<lambda>eid. (0, log\<lparr>tl_dirname := dirname, nextid := eid\<rparr>, fs'))
             (tpclog_init_loop fs' dirname 0))"

text \<open>The data bytes of an entry; \<open>strlen\<close> or \<open>strcpy\<close> of a NULL key or value has no
  defined outcome.\<close>

definition logentry_data :: "msgtype_t \<Rightarrow> string option \<Rightarrow> string option \<Rightarrow> bytes option" where
  "logentry_data type key val = do {
     k \<leftarrow> (if type = PUTREQ \<or> type = DELREQ then map_option (\<lambda>s. s @ [nul]) key else Some []);
     v \<leftarrow> (if type = PUTREQ then map_option (\<lambda>s. s @ [nul]) val else Some []);
     Some (k @ v)
   }"

definition logentry_bytes :: "msgtype_t \<Rightarrow> bytes \<Rightarrow> bytes" where
  "logentry_bytes type data = le32 (msgtype_code type) @ le32 (length data) @ data"

text \<open>\<open>open\<close> does not truncate, and creates the file with mode \<open>S_IRUSR\<close>, that is, without
  permission to write it again.\<close>

definition tpclog_log ::
  "fsys \<Rightarrow> tpclog_t \<Rightarrow> msgtype_t \<Rightarrow> string option \<Rightarrow> string option \<Rightarrow> (int \<times> tpclog_t \<times> fsys) option" where
  "tpclog_log fs log type key val =
     (if type \<noteq> PUTREQ \<and> type \<noteq> DELREQ \<and> type \<noteq> ABORT \<and> type \<noteq> COMMIT then Some (ERRINVLDMSG, log, fs)
      else let filename = log_path (tl_dirname log) (unat (nextid log)) in
        case fs_open_write fs filename False False of
          None \<Rightarrow> Some (ERRFILACCESS, log, fs)
        | Some fs' \<Rightarrow> do {
            data \<leftarrow> logentry_data type key val;
            Some (0, log\<lparr>nextid := nextid log + 1\<rparr>, fs_write fs' filename (logentry_bytes type data))
          })"

text \<open>A negative \<open>length\<close> in the file makes \<open>size\<close> wrap around: the allocation fails, which
  ends the process, or the block is too short for an entry. Both have no defined outcome.\<close>

definition tpclog_load_entry :: "fsys \<Rightarrow> string \<Rightarrow> (int \<times> logentry_t option) option" where
  "tpclog_load_entry fs filename = (case fs_open_read fs filename of
     None \<Rightarrow> Some (ERRFILACCESS, None)
   | Some bs \<Rightarrow>
       if length bs < 8 then Some (ERRFILACCESS, None)
       else let len = of_le32 (drop 4 bs) in
         if len \<ge> 2 ^ 31 then None
         else if length bs < 8 + len then Some (ERRFILACCESS, None)
         else Some (0, Some \<lparr>le_type = of_le32 bs, le_length = len, le_data = take len (drop 8 bs)\<rparr>))"

definition tpclog_iterate_begin :: "tpclog_t \<Rightarrow> tpclog_t" where
  "tpclog_iterate_begin log = log\<lparr>iterpos := 0\<rparr>"

definition tpclog_iterate_has_next :: "fsys \<Rightarrow> tpclog_t \<Rightarrow> bool" where
  "tpclog_iterate_has_next fs log \<longleftrightarrow> fs_stat fs (log_path (tl_dirname log) (unat (iterpos log)))"

definition tpclog_iterate_next :: "fsys \<Rightarrow> tpclog_t \<Rightarrow> (logentry_t option \<times> tpclog_t) option" where
  "tpclog_iterate_next fs log =
     (if \<not> tpclog_iterate_has_next fs log then Some (None, log)
      else map_option (\<lambda>(ret, entry). (if ret < 0 then None else entry, log\<lparr>iterpos := iterpos log + 1\<rparr>))
             (tpclog_load_entry fs (log_path (tl_dirname log) (unat (iterpos log)))))"

partial_function (option) tpclog_clear_loop :: "fsys \<Rightarrow> string \<Rightarrow> u64 \<Rightarrow> (int \<times> fsys) option" where
  "tpclog_clear_loop fs dirname cnt =
     (if fs_stat fs (log_path dirname (unat cnt)) then
        (case fs_remove fs (log_path dirname (unat cnt)) of (errno, fs') \<Rightarrow>
           if errno \<noteq> 0 then Some (errno, fs') else tpclog_clear_loop fs' dirname (cnt + 1))
      else Some (0, fs))"

definition tpclog_clear_log :: "fsys \<Rightarrow> tpclog_t \<Rightarrow> (int \<times> tpclog_t \<times> fsys) option" where
  "tpclog_clear_log fs log =
     map_option (\<lambda>(ret, fs'). (ret, if ret = 0 then log\<lparr>nextid := 0\<rparr> else log, fs'))
       (tpclog_clear_loop fs (tl_dirname log) 0)"

section \<open>File names\<close>

lemma log_path_inj [simp]: "log_path d i = log_path d j \<longleftrightarrow> i = j"
  using dec_append_inj [of "CHR ''.''" "CHR ''.''"] by (simp add: log_path_def TPCLOG_FILETYPE_def is_digit_def)

lemma parent_log_path [simp]: "parent (log_path d i) = d"
  using parent_join [of "dec i @ TPCLOG_FILETYPE" d] by (simp add: log_path_def TPCLOG_FILETYPE_def)

lemma log_path_not_entry [simp, path_simps]:
  "log_path d i \<noteq> entry_path d' h j" "entry_path d' h j \<noteq> log_path d i"
proof -
  have "last (log_path d i) \<noteq> last (entry_path d' h j)"
    by (simp add: log_path_def entry_path_def TPCLOG_FILETYPE_def KVSTORE_FILETYPE_def)
  then show "log_path d i \<noteq> entry_path d' h j" "entry_path d' h j \<noteq> log_path d i" by metis+
qed

lemma log_path_not_dir [simp, path_simps]: "log_path d i \<noteq> d" "d \<noteq> log_path d i"
  by (simp_all add: log_path_def)

section \<open>Log records\<close>

text \<open>What a log is meant to hold: requests with their arguments, and decisions.\<close>

datatype logrec = LPut string string | LDel string | LAbort | LCommit

primrec logrec_type :: "logrec \<Rightarrow> msgtype_t" where
  "logrec_type (LPut k v) = PUTREQ" | "logrec_type (LDel k) = DELREQ"
| "logrec_type LAbort = ABORT" | "logrec_type LCommit = COMMIT"

primrec logrec_key :: "logrec \<Rightarrow> string option" where
  "logrec_key (LPut k v) = Some k" | "logrec_key (LDel k) = Some k"
| "logrec_key LAbort = None" | "logrec_key LCommit = None"

primrec logrec_val :: "logrec \<Rightarrow> string option" where
  "logrec_val (LPut k v) = Some v" | "logrec_val (LDel k) = None"
| "logrec_val LAbort = None" | "logrec_val LCommit = None"

primrec logrec_data :: "logrec \<Rightarrow> bytes" where
  "logrec_data (LPut k v) = k @ nul # v @ [nul]" | "logrec_data (LDel k) = k @ [nul]"
| "logrec_data LAbort = []" | "logrec_data LCommit = []"

definition logrec_ok :: "logrec \<Rightarrow> bool" where
  "logrec_ok r \<longleftrightarrow> length (logrec_data r) < 2 ^ 31"

definition logrec_entry :: "logrec \<Rightarrow> logentry_t" where
  "logrec_entry r = \<lparr>le_type = msgtype_code (logrec_type r), le_length = length (logrec_data r), le_data = logrec_data r\<rparr>"

definition logrec_node :: "logrec \<Rightarrow> fnode" where
  "logrec_node r = \<lparr>content = logentry_bytes (logrec_type r) (logrec_data r), writable = False\<rparr>"

text \<open>Appending a record, and iterating over the whole log, the way the server calls the operations.\<close>

definition tpclog_append :: "fsys \<times> tpclog_t \<Rightarrow> logrec \<Rightarrow> (int \<times> fsys \<times> tpclog_t) option" where
  "tpclog_append s r = map_option (\<lambda>(ret, log, fs). (ret, fs, log))
     (tpclog_log (fst s) (snd s) (logrec_type r) (logrec_key r) (logrec_val r))"

partial_function (option) tpclog_rest :: "fsys \<Rightarrow> tpclog_t \<Rightarrow> logentry_t option list option" where
  "tpclog_rest fs log =
     (if tpclog_iterate_has_next fs log then
        (case tpclog_iterate_next fs log of None \<Rightarrow> None
         | Some (entry, log') \<Rightarrow> Option.bind (tpclog_rest fs log') (\<lambda>es. Some (entry # es)))
      else Some [])"

definition tpclog_entries :: "fsys \<times> tpclog_t \<Rightarrow> logentry_t option list option" where
  "tpclog_entries s = tpclog_rest (fst s) (tpclog_iterate_begin (snd s))"

lemma logentry_data_logrec [simp]:
  "logentry_data (logrec_type r) (logrec_key r) (logrec_val r) = Some (logrec_data r)"
  by (cases r) (simp_all add: logentry_data_def)

lemma logrec_type_loggable [simp]:
  "\<not> (logrec_type r \<noteq> PUTREQ \<and> logrec_type r \<noteq> DELREQ \<and> logrec_type r \<noteq> ABORT \<and> logrec_type r \<noteq> COMMIT)"
  by (cases r) simp_all

text \<open>A record's bytes are read back as the entry of the record.\<close>

lemma load_logrec:
  assumes "logrec_ok r" "fs_open_read fs p = Some (logentry_bytes (logrec_type r) (logrec_data r))"
  shows "tpclog_load_entry fs p = Some (0, Some (logrec_entry r))"
proof -
  have "msgtype_code (logrec_type r) < 4294967296" using msgtype_code_less [of "logrec_type r"] by simp
  moreover have "length (logrec_data r) < 4294967296" using assms(1) by (simp add: logrec_ok_def)
  ultimately show ?thesis
    using assms by (simp add: tpclog_load_entry_def logentry_bytes_def logrec_ok_def logrec_entry_def)
qed

section \<open>The records a log holds\<close>

definition log_usable :: "fsys \<Rightarrow> string \<Rightarrow> bool" where
  "log_usable fs d \<longleftrightarrow> fs_dir fs d \<and> \<not> denied fs d \<and>
     (\<forall>i. \<not> fs_dir fs (log_path d i) \<and> \<not> denied fs (log_path d i))"

definition log_files :: "fsys \<Rightarrow> string \<Rightarrow> logrec list \<Rightarrow> bool" where
  "log_files fs d rs \<longleftrightarrow> log_usable fs d \<and> list_all logrec_ok rs \<and> length rs < 2 ^ 64 \<and>
     (\<forall>i. fs_file fs (log_path d i) = (if i < length rs then Some (logrec_node (rs ! i)) else None))"

definition log_holds :: "fsys \<times> tpclog_t \<Rightarrow> logrec list \<Rightarrow> bool" where
  "log_holds s rs \<longleftrightarrow> log_files (fst s) (tl_dirname (snd s)) rs \<and> nextid (snd s) = of_nat (length rs)"

lemma log_stat [simp]: "log_files fs d rs \<Longrightarrow> fs_stat fs (log_path d i) \<longleftrightarrow> i < length rs"
  by (auto simp: log_files_def log_usable_def fs_stat_def)

lemma unat_of_nat64: "n < 2 ^ 64 \<Longrightarrow> unat (of_nat n :: u64) = n"
  by (simp add: unsigned_of_nat take_bit_nat_eq_self)

lemma log_read:
  "log_files fs d rs \<Longrightarrow> i < length rs \<Longrightarrow> tpclog_load_entry fs (log_path d i) = Some (0, Some (logrec_entry (rs ! i)))"
  by (rule load_logrec) (auto simp: log_files_def log_usable_def fs_open_read_def logrec_node_def list_all_length)

lemma log_append:
  assumes "log_holds s rs" "logrec_ok r" "length rs + 1 < 2 ^ 64"
  shows "\<exists>s'. tpclog_append s r = Some (0, s') \<and> log_holds s' (rs @ [r])"
proof -
  obtain fs log where s: "s = (fs, log)" by (cases s)
  define d where "d = tl_dirname log"
  define p where "p = log_path d (length rs)"
  have files: "log_files fs d rs" and n: "nextid log = of_nat (length rs)"
    using assms(1) by (simp_all add: s log_holds_def d_def)
  have u: "unat (nextid log) = length rs" using n assms(3) by (simp add: unat_of_nat64)
  have new: "fs_file fs p = None" using files by (simp add: log_files_def p_def)
  define fs1 where "fs1 = set_file fs p \<lparr>content = [], writable = False\<rparr>"
  have op: "fs_open_write fs p False False = Some fs1"
    using files new by (simp add: fs_open_write_def fs1_def log_files_def log_usable_def p_def parent_ok_def)
  define fs2 where "fs2 = fs_write fs1 p (logentry_bytes (logrec_type r) (logrec_data r))"
  have run: "tpclog_append s r = Some (0, fs2, log\<lparr>nextid := nextid log + 1\<rparr>)"
    using op by (simp add: s tpclog_append_def tpclog_log_def u d_def [symmetric] p_def [symmetric] fs2_def
        del: de_Morgan_conj not_imp)
  have f: "fs_file fs2 q = (if q = p then Some (logrec_node r) else fs_file fs q)" for q
    by (simp add: fs2_def fs1_def fs_write_def overwrite_def logrec_node_def)
  have fr: "fs_dir fs2 = fs_dir fs" "denied fs2 = denied fs"
    by (simp_all add: fs2_def fs1_def fs_write_def)
  have "log_files fs2 d (rs @ [r])"
    using files f assms(2,3) by (auto simp: log_files_def log_usable_def fr p_def nth_append less_Suc_eq)
  with run n show ?thesis by (simp add: log_holds_def d_def)
qed

lemma tpclog_rest_from:
  assumes files: "log_files fs d rs"
  shows "tl_dirname log = d \<Longrightarrow> i \<le> length rs \<Longrightarrow> iterpos log = of_nat i \<Longrightarrow>
    tpclog_rest fs log = Some (map (Some \<circ> logrec_entry) (drop i rs))"
proof (induction "length rs - i" arbitrary: i log)
  case 0
  moreover have "length rs < 2 ^ 64" using files by (simp add: log_files_def)
  ultimately show ?case
    using files by (subst tpclog_rest.simps) (simp add: tpclog_iterate_has_next_def unat_of_nat64)
next
  case (Suc n)
  define log' where "log' = log\<lparr>iterpos := iterpos log + 1\<rparr>"
  have i: "i < length rs" "length rs < 2 ^ 64" using Suc.hyps(2) files by (auto simp: log_files_def)
  then have u: "unat (iterpos log) = i" using Suc.prems(3) by (simp add: unat_of_nat64)
  have nxt: "tpclog_iterate_has_next fs log"
    "tpclog_iterate_next fs log = Some (Some (logrec_entry (rs ! i)), log')"
    using files i log_read [OF files i(1)] Suc.prems(1)
    by (simp_all add: tpclog_iterate_has_next_def tpclog_iterate_next_def u log'_def)
  have "tpclog_rest fs log' = Some (map (Some \<circ> logrec_entry) (drop (Suc i) rs))"
    by (rule Suc.hyps(1)) (use Suc.hyps(2) Suc.prems i in \<open>simp_all add: log'_def\<close>)
  with nxt show ?case by (subst tpclog_rest.simps) (simp add: Cons_nth_drop_Suc [OF i(1), symmetric])
qed

lemma log_entries: "log_holds s rs \<Longrightarrow> tpclog_entries s = Some (map (Some \<circ> logrec_entry) rs)"
  using tpclog_rest_from [of "fst s" "tl_dirname (snd s)" rs "tpclog_iterate_begin (snd s)" 0]
  by (simp add: log_holds_def tpclog_entries_def tpclog_iterate_begin_def)

section \<open>The contract of the log\<close>

fun log_all :: "('s \<Rightarrow> 'r \<Rightarrow> (int \<times> 's) option) \<Rightarrow> 's \<Rightarrow> 'r list \<Rightarrow> 's option" where
  "log_all app s [] = Some s"
| "log_all app s (r # rs) = do { (_, s') \<leftarrow> app s r; log_all app s' rs }"

locale append_log =
  fixes holds :: "'s \<Rightarrow> 'r list \<Rightarrow> bool"
    and ok :: "'r \<Rightarrow> bool"
    and app :: "'s \<Rightarrow> 'r \<Rightarrow> (int \<times> 's) option"
    and entries :: "'s \<Rightarrow> 'e option list option"
    and image :: "'r \<Rightarrow> 'e"
    and cap :: nat
  assumes app_ok: "holds s rs \<Longrightarrow> ok r \<Longrightarrow> length rs + 1 < cap \<Longrightarrow> \<exists>s'. app s r = Some (0, s') \<and> holds s' (rs @ [r])"
    and entries_ok: "holds s rs \<Longrightarrow> entries s = Some (map (Some \<circ> image) rs)"
begin

lemma log_all_holds:
  "holds s rs \<Longrightarrow> list_all ok xs \<Longrightarrow> length rs + length xs < cap \<Longrightarrow>
   \<exists>s'. log_all app s xs = Some s' \<and> holds s' (rs @ xs)"
proof (induction xs arbitrary: s rs)
  case (Cons x xs)
  then obtain s1 where s1: "app s x = Some (0, s1)" "holds s1 (rs @ [x])"
    using app_ok [of s rs x] by auto
  with Cons.IH [OF s1(2)] Cons.prems show ?case by auto
qed auto

lemma log_all_entries:
  assumes "holds s rs" "list_all ok xs" "length rs + length xs < cap"
  shows "\<exists>s'. log_all app s xs = Some s' \<and> holds s' (rs @ xs) \<and> entries s' = Some (map (Some \<circ> image) (rs @ xs))"
  using log_all_holds [OF assms] entries_ok by blast

end

interpretation tlog: append_log log_holds logrec_ok tpclog_append tpclog_entries logrec_entry "2 ^ 64"
  by unfold_locales (use log_append log_entries in blast)+

section \<open>Opening and clearing a log\<close>

text \<open>A finite directory has a free number, and the loop of \<open>tpclog_init\<close> finds the first one.\<close>

definition fs_count :: "fsys \<Rightarrow> nat" where
  "fs_count fs = length (file_list fs) + length (dir_list fs)"

lemma free_log_number: "\<exists>n \<le> fs_count fs. \<not> fs_stat fs (log_path d n)"
proof (rule ccontr)
  define used where "used = set (map fst (file_list fs) @ dir_list fs)"
  assume "\<not> (\<exists>n \<le> fs_count fs. \<not> fs_stat fs (log_path d n))"
  then have sub: "log_path d ` {..fs_count fs} \<subseteq> used"
    by (force simp: used_def fs_stat_def fs_dir_def fs_file_in_list)
  have "card (log_path d ` {..fs_count fs}) \<le> card used"
    by (rule card_mono [OF _ sub]) (simp add: used_def)
  moreover have "card used \<le> fs_count fs"
    unfolding used_def fs_count_def by (rule order_trans [OF card_length]) simp
  moreover have "card (log_path d ` {..fs_count fs}) = fs_count fs + 1"
    by (subst card_image) (auto simp: inj_on_def)
  ultimately show False by simp
qed

lemma tpclog_init_loop_first:
  assumes "\<not> fs_stat fs (log_path d n)" "\<forall>i < n. fs_stat fs (log_path d i)" "n < 2 ^ 64" "i \<le> n"
  shows "tpclog_init_loop fs d (of_nat i) = Some (of_nat n)"
  using assms(4)
proof (induction "n - i" arbitrary: i)
  case 0
  then show ?case using assms(1,3) by (subst tpclog_init_loop.simps) (simp add: unat_of_nat64)
next
  case (Suc m)
  then have "tpclog_init_loop fs d (of_nat (Suc i)) = Some (of_nat n)" by (intro Suc.hyps(1)) auto
  moreover have "fs_stat fs (log_path d (unat (of_nat i :: u64)))"
    using assms(2,3) Suc.hyps(2) Suc.prems by (subst unat_of_nat64) auto
  ultimately show ?case by (subst tpclog_init_loop.simps) (simp add: add.commute)
qed

lemma tpclog_init_first:
  assumes "\<not> fs_stat fs (log_path d n)" "\<forall>i < n. fs_stat fs (log_path d i)" "n < 2 ^ 64" "fs_stat fs d"
  shows "tpclog_init fs log d = Some (0, log\<lparr>tl_dirname := d, nextid := of_nat n\<rparr>, fs)"
  using tpclog_init_loop_first [OF assms(1-3), of 0] assms(4) by (simp add: tpclog_init_def)

lemma log_usable_stat: "log_usable fs d \<Longrightarrow> fs_stat fs d"
  by (simp add: log_usable_def fs_stat_def)

lemma tpclog_clear_from:
  assumes "\<not> denied fs d" "fs_stat fs d" "\<forall>i. \<not> fs_dir fs (log_path d i)"
    "\<forall>j. fs_file fs (log_path d j) \<noteq> None \<longleftrightarrow> i \<le> j \<and> j < n" "i \<le> n" "n < 2 ^ 64"
  shows "\<exists>fs'. tpclog_clear_loop fs d (of_nat i) = Some (0, fs') \<and> (\<forall>j. fs_file fs' (log_path d j) = None) \<and>
    (\<forall>q. (\<forall>j. q \<noteq> log_path d j) \<longrightarrow> fs_file fs' q = fs_file fs q) \<and> fs_dir fs' = fs_dir fs \<and> denied fs' = denied fs"
  using assms
proof (induction "n - i" arbitrary: i fs)
  case 0
  then have none: "fs_file fs (log_path d j) = None" for j by (metis diff_is_0_eq le_trans not_le)
  have "\<not> fs_stat fs (log_path d (unat (of_nat i :: u64)))"
    using none "0.prems"(3) by (simp add: fs_stat_def)
  then have "tpclog_clear_loop fs d (of_nat i) = Some (0, fs)"
    by (subst tpclog_clear_loop.simps) simp
  with none show ?case by auto
next
  case (Suc m)
  define fs1 where "fs1 = del_file fs (log_path d i)"
  have i: "i < n" and u: "unat (of_nat i :: u64) = i" using Suc.hyps(2) Suc.prems by (auto simp: unat_of_nat64)
  have here: "fs_file fs (log_path d i) \<noteq> None" using Suc.prems(4) i by blast
  have step: "tpclog_clear_loop fs d (of_nat i) = tpclog_clear_loop fs1 d (of_nat (Suc i))"
    using here Suc.prems(1)
    by (subst tpclog_clear_loop.simps) (simp add: u fs_stat_def fs_remove_def fs1_def add.commute)
  have "fs_stat fs1 d" using Suc.prems(2) by (simp add: fs1_def fs_stat_def)
  moreover have "\<forall>j. fs_file fs1 (log_path d j) \<noteq> None \<longleftrightarrow> Suc i \<le> j \<and> j < n"
    using Suc.prems(4) by (auto simp: fs1_def)
  ultimately show ?case
    unfolding step using Suc.hyps(1) [of "Suc i" fs1] Suc.hyps(2) Suc.prems i by (auto simp: fs1_def)
qed

text \<open>Log and store may share a directory: neither changes what the other holds.\<close>

lemma log_files_frame:
  assumes "log_files fs d rs" "\<forall>i. fs_file fs' (log_path d i) = fs_file fs (log_path d i)"
    "fs_dir fs' = fs_dir fs" "denied fs' = denied fs"
  shows "log_files fs' d rs"
  using assms by (simp add: log_files_def log_usable_def)

lemma kvstore_holds_frame:
  assumes "kvstore_holds store fs m" "\<forall>h i. fs_file fs' (entry_path (ks_dirname store) h i) = fs_file fs (entry_path (ks_dirname store) h i)"
    "fs_dir fs' = fs_dir fs" "denied fs' = denied fs"
  shows "kvstore_holds store fs' m"
  using assms by (simp add: kvstore_holds_def kv_chains_def dir_usable_def chain_at_def)

lemma fs_open_write_frame:
  assumes "fs_open_write fs p trunc mode = Some fs'"
  shows "fs_dir fs' = fs_dir fs \<and> denied fs' = denied fs \<and> privileged fs' = privileged fs \<and>
    (\<forall>q. q \<noteq> p \<longrightarrow> fs_file fs' q = fs_file fs q)"
  using assms by (auto simp: fs_open_write_def split: if_splits option.splits)

lemma fs_write_frame:
  "fs_dir (fs_write fs p bs) = fs_dir fs" "denied (fs_write fs p bs) = denied fs"
  "privileged (fs_write fs p bs) = privileged fs" "q \<noteq> p \<Longrightarrow> fs_file (fs_write fs p bs) q = fs_file fs q"
  by (simp_all add: fs_write_def split: option.split)

text \<open>Whatever it returns, \<open>tpclog_log\<close> touches no file but the one its number names.\<close>

lemma tpclog_log_frame:
  assumes "tpclog_log fs log type key val = Some (ret, log', fs')"
  shows "fs_dir fs' = fs_dir fs \<and> denied fs' = denied fs \<and> privileged fs' = privileged fs \<and> tl_dirname log' = tl_dirname log \<and>
    (\<forall>q. q \<noteq> log_path (tl_dirname log) (unat (nextid log)) \<longrightarrow> fs_file fs' q = fs_file fs q)"
  using assms fs_open_write_frame
  by (fastforce simp: tpclog_log_def Let_def fs_write_frame bind_eq_Some_conv split: if_splits option.splits)

lemma tpclog_log_keeps_store:
  assumes "kvstore_holds store fs m" "tpclog_log fs log type key val = Some (ret, log', fs')"
  shows "kvstore_holds store fs' m"
  by (rule kvstore_holds_frame [OF assms(1)]) (use tpclog_log_frame [OF assms(2)] in auto)

text \<open>Logging again under a number that is in use fails unless the process may write any file, since
  the file was created read-only.\<close>

lemma tpclog_log_in_use:
  assumes "fs_file fs (log_path (tl_dirname log) (unat (nextid log))) = Some n" "\<not> writable n" "\<not> privileged fs"
    "type \<in> {PUTREQ, DELREQ, ABORT, COMMIT}"
  shows "tpclog_log fs log type key val = Some (ERRFILACCESS, log, fs)"
  using assms by (auto simp: tpclog_log_def fs_open_write_def Let_def)

section \<open>Properties\<close>

lemma empty_log_holds: "log_holds (empty_fs, \<lparr>tl_dirname = ''d'', nextid = 0, iterpos = 0\<rparr>) []"
  by (auto simp: log_holds_def log_files_def log_usable_def empty_fs_def fs_dir_def fs_file_def log_path_def)

text \<open>C7. Round trip of the log: records appended with \<open>tpclog_log\<close> to a log that holds
  \<open>rs\<close> all succeed, and an iteration from \<open>tpclog_iterate_begin\<close> ends and returns the
  entries of \<open>rs\<close> followed by the new ones, in order, with their types, lengths and data.\<close>

theorem tpclog_append_iterate:
  assumes "log_holds (fs, log) rs" and "list_all logrec_ok xs" and "length rs + length xs < 2 ^ 64"
  shows "\<exists>s'. log_all tpclog_append (fs, log) xs = Some s' \<and> log_holds s' (rs @ xs) \<and>
    tpclog_entries s' = Some (map (Some \<circ> logrec_entry) (rs @ xs))"
  using tlog.log_all_entries [OF assms] .

theorem tpclog_append_iterate_witness:
  "\<exists>s'. log_all tpclog_append (empty_fs, \<lparr>tl_dirname = ''d'', nextid = 0, iterpos = 0\<rparr>) [LPut ''k'' ''v'', LCommit] = Some s' \<and>
    tpclog_entries s' = Some [Some \<lparr>le_type = 2, le_length = 4, le_data = ''k'' @ nul # ''v'' @ [nul]\<rparr>,
      Some \<lparr>le_type = 5, le_length = 0, le_data = []\<rparr>]"
  using tpclog_append_iterate [OF empty_log_holds, of "[LPut ''k'' ''v'', LCommit]"]
  by (auto simp: logrec_ok_def logrec_entry_def)

text \<open>C22. Recovery: on a directory that holds the log files of \<open>rs\<close>, \<open>tpclog_init\<close> succeeds,
  changes no file, and gives a log that holds \<open>rs\<close>, so that the next record is appended after
  them and an iteration returns all of them, whatever the structure held before.\<close>

theorem tpclog_init_recovers:
  assumes "log_files fs d rs"
  shows "\<exists>log'. tpclog_init fs log d = Some (0, log', fs) \<and> log_holds (fs, log') rs \<and>
    tpclog_entries (fs, log') = Some (map (Some \<circ> logrec_entry) rs)"
proof -
  define log' where "log' = log\<lparr>tl_dirname := d, nextid := of_nat (length rs)\<rparr>"
  have "tpclog_init fs log d = Some (0, log', fs)"
    using assms tpclog_init_first [of fs d "length rs" log] log_usable_stat [of fs d] log_stat [OF assms]
    by (auto simp: log'_def log_files_def)
  moreover have "log_holds (fs, log') rs" using assms by (simp add: log_holds_def log'_def)
  ultimately show ?thesis using log_entries by blast
qed

theorem tpclog_init_recovers_witness:
  "\<exists>fs log'. log_files fs ''d'' [LDel ''k''] \<and> tpclog_init fs \<lparr>tl_dirname = [], nextid = 7, iterpos = 9\<rparr> ''d'' = Some (0, log', fs) \<and>
    nextid log' = 1"
proof -
  obtain s' where s': "log_holds s' [LDel ''k'']" "tl_dirname (snd s') = ''d''"
  proof -
    obtain s' where "tpclog_append (empty_fs, \<lparr>tl_dirname = ''d'', nextid = 0, iterpos = 0\<rparr>) (LDel ''k'') = Some (0, s')"
      "log_holds s' [LDel ''k'']"
      using log_append [OF empty_log_holds, of "LDel ''k''"] by (auto simp: logrec_ok_def)
    moreover from this(1) have "tl_dirname (snd s') = ''d''"
      by (auto simp: tpclog_append_def dest!: tpclog_log_frame)
    ultimately show thesis using that by blast
  qed
  then have files: "log_files (fst s') ''d'' [LDel ''k'']" by (simp add: log_holds_def)
  from tpclog_init_recovers [OF files, of "\<lparr>tl_dirname = [], nextid = 7, iterpos = 9\<rparr>"] files
  show ?thesis by (auto simp: log_holds_def)
qed

text \<open>C26. \<open>tpclog_init\<close> always returns: on an existing directory, with fewer than
  \<open>2 ^ 64\<close> names in the file system, its loop ends at the first number without a file, and that
  number is the \<open>nextid\<close> of the log.\<close>

theorem tpclog_init_terminates:
  assumes "fs_stat fs d" and "fs_count fs < 2 ^ 64 - 1"
  shows "\<exists>n. tpclog_init fs log d = Some (0, log\<lparr>tl_dirname := d, nextid := of_nat n\<rparr>, fs) \<and>
    \<not> fs_stat fs (log_path d n) \<and> (\<forall>i < n. fs_stat fs (log_path d i))"
proof -
  define n where "n = (LEAST n. \<not> fs_stat fs (log_path d n))"
  obtain n0 where n0: "n0 \<le> fs_count fs" "\<not> fs_stat fs (log_path d n0)" using free_log_number by blast
  have free: "\<not> fs_stat fs (log_path d n)" unfolding n_def by (rule LeastI, rule n0(2))
  have least: "\<forall>i < n. fs_stat fs (log_path d i)" unfolding n_def using not_less_Least by blast
  have "n \<le> n0" unfolding n_def by (rule Least_le, rule n0(2))
  then have "n < 2 ^ 64" using n0(1) assms(2) by simp
  from tpclog_init_first [OF free least this assms(1)] free least show ?thesis by blast
qed

theorem tpclog_init_terminates_witness:
  "\<exists>n. tpclog_init empty_fs \<lparr>tl_dirname = [], nextid = 7, iterpos = 9\<rparr> ''d'' =
     Some (0, \<lparr>tl_dirname = ''d'', nextid = of_nat n, iterpos = 9\<rparr>, empty_fs)"
  using tpclog_init_terminates [of empty_fs "''d''" "\<lparr>tl_dirname = [], nextid = 7, iterpos = 9\<rparr>"]
  by (auto simp: empty_fs_def fs_stat_def fs_dir_def fs_count_def)

text \<open>\<open>tpclog_clear_log\<close> on a log that holds any records returns 0, leaves an empty log that
  starts again at number 0, and touches no file that is not a log entry; so the store next to it still
  holds what it held.\<close>

theorem tpclog_clear_empties:
  assumes "log_holds (fs, log) rs" and "kvstore_holds store fs m"
  shows "\<exists>log' fs'. tpclog_clear_log fs log = Some (0, log', fs') \<and> log_holds (fs', log') [] \<and>
    kvstore_holds store fs' m"
proof -
  define d where "d = tl_dirname log"
  have f: "log_files fs d rs" using assms(1) by (simp add: log_holds_def d_def)
  have present: "\<forall>j. fs_file fs (log_path d j) \<noteq> None \<longleftrightarrow> 0 \<le> j \<and> j < length rs" using f by (simp add: log_files_def)
  with f obtain fs' where fs': "tpclog_clear_loop fs d 0 = Some (0, fs')" "\<forall>j. fs_file fs' (log_path d j) = None"
    "\<forall>q. (\<forall>j. q \<noteq> log_path d j) \<longrightarrow> fs_file fs' q = fs_file fs q" "fs_dir fs' = fs_dir fs" "denied fs' = denied fs"
    using tpclog_clear_from [OF _ _ _ present] by (auto simp: log_files_def log_usable_def fs_stat_def)
  have "tpclog_clear_log fs log = Some (0, log\<lparr>nextid := 0\<rparr>, fs')"
    using fs'(1) by (simp add: tpclog_clear_log_def d_def)
  moreover have "log_holds (fs', log\<lparr>nextid := 0\<rparr>) []"
    using f fs' by (simp add: log_holds_def log_files_def log_usable_def d_def)
  moreover have "kvstore_holds store fs' m"
    by (rule kvstore_holds_frame [OF assms(2)]) (use fs' in auto)
  ultimately show ?thesis by blast
qed

theorem tpclog_clear_empties_witness:
  "\<exists>log' fs'. tpclog_clear_log empty_fs \<lparr>tl_dirname = ''d'', nextid = 0, iterpos = 0\<rparr> = Some (0, log', fs') \<and>
     log_holds (fs', log') [] \<and> kvstore_holds \<lparr>ks_dirname = ''d''\<rparr> fs' Map.empty"
  using tpclog_clear_empties [OF empty_log_holds empty_fs_holds] .

end
