(* ===== verification/LibHttp.thy ===== *)
theory LibHttp
  imports Prelude
begin

text \<open>
  The HTTP library of the key-value servers, \<open>hw4/src/libhttp.c\<close>. A parser takes the bytes its
  one call of \<open>read\<close> gave it (none when the call failed); a pointer that may be NULL is an option,
  and around it an option again where the code may use memory out of bounds. An outbound message is
  the list of the bytes written into its buffer of \<open>LIBHTTP_MESSAGE_MAX_SIZE + 1\<close> so far.
\<close>

definition LIBHTTP_MESSAGE_MAX_SIZE :: nat where
  "LIBHTTP_MESSAGE_MAX_SIZE = 8192"

record http_request =
  rq_method :: string
  rq_path :: string

record http_response =
  rs_status :: int
  rs_body :: string

section \<open>Receiving\<close>

definition http_is_valid_method :: "string \<Rightarrow> nat \<Rightarrow> bool" where
  "http_is_valid_method m len \<longleftrightarrow>
     strncmp_eq m ''GET'' len \<or> strncmp_eq m ''PUT'' len \<or> strncmp_eq m ''DELETE'' len \<or> strncmp_eq m ''POST'' len"

definition http_get_response_message :: "int \<Rightarrow> string option" where
  "http_get_response_message status_code =
     (if status_code = 100 then Some ''Continue''
      else if status_code = 200 then Some ''OK''
      else if status_code = 201 then Some ''Created''
      else if status_code = 202 then Some ''Accepted''
      else if status_code = 204 then Some ''No Content''
      else if status_code = 301 then Some ''Moved Permanently''
      else if status_code = 302 then Some ''Found''
      else if status_code = 304 then Some ''Not Modified''
      else if status_code = 400 then Some ''Bad Request''
      else if status_code = 401 then Some ''Unauthorized''
      else if status_code = 403 then Some ''Forbidden''
      else if status_code = 404 then Some ''Not Found''
      else if status_code = 405 then Some ''Method Not Allowed''
      else if status_code = 500 then Some ''Internal Server Error''
      else None)"

text \<open>The loop that looks for the end of the path; \<open>None\<close> is the jump to \<open>error\<close>.\<close>

fun path_end :: "string \<Rightarrow> string option" where
  "path_end [] = None"
| "path_end (c # s) = (if c = CHR '' '' \<or> c = lf then Some (c # s) else path_end s)"

definition http_request_parse :: "bytes \<Rightarrow> http_request option" where
  "http_request_parse chunk =
     (if chunk = [] then None
      else let read_buffer = cstr (take LIBHTTP_MESSAGE_MAX_SIZE chunk) in
        case strchr read_buffer (CHR '' '') of
          None \<Rightarrow> None
        | Some read_end \<Rightarrow>
            let read_size = ptr_diff read_end read_buffer; read_start = tl read_end in
            if \<not> http_is_valid_method read_buffer read_size then None
            else if read_start = [] \<or> hd read_start \<noteq> CHR ''/'' then None
            else (case path_end (tl read_start) of
                None \<Rightarrow> None
              | Some e \<Rightarrow> Some \<lparr>rq_method = take read_size read_buffer,
                                  rq_path = take (ptr_diff e read_start) read_start\<rparr>))"

text \<open>The end of a line: the first \<open>\r\n\<close>, else the first \<open>\n\<close>.\<close>

definition line_end :: "string \<Rightarrow> string option" where
  "line_end s = (case strstr s [cr, lf] of Some e \<Rightarrow> Some e | None \<Rightarrow> strstr s [lf])"

text \<open>The header loop, from \<open>read_end\<close>. The inner \<open>None\<close> is the jump to \<open>error\<close>, the
  outer one a pointer moved past the end of the buffer. The result is \<open>read_end\<close> before the
  body and the content length.\<close>

lemma strstr_shorter: "strstr s t = Some e \<Longrightarrow> length e \<le> length s"
  by (induction s) (fastforce split: if_splits)+

lemma line_end_shorter: "line_end s = Some e \<Longrightarrow> length e \<le> length s"
  by (auto simp: line_end_def dest: strstr_shorter split: option.splits)

function header_loop :: "string \<Rightarrow> int \<Rightarrow> (string \<times> int) option option" where
  "header_loop read_end content_length =
     (if strncmp_eq read_end [lf, lf] 2 \<or> strncmp_eq read_end [cr, lf, cr, lf] 4 then Some (Some (read_end, content_length))
      else if length read_end < 2 then None
      else let read_start = drop 2 read_end in
        case line_end read_start of
          None \<Rightarrow> Some None
        | Some read_limit \<Rightarrow> (case strstr read_start '': '' of
            None \<Rightarrow> Some None
          | Some colon \<Rightarrow>
              if length colon < length read_limit then Some None
              else if strncmp_eq read_start ''Content-Length'' (ptr_diff colon read_start) then
                (case strtol (drop 2 colon) of (n, e) \<Rightarrow>
                   if dropWhile (\<lambda>c. c = CHR '' '') e \<noteq> read_limit then Some None
                   else header_loop read_limit (to_int32 n))
              else header_loop read_limit content_length))"
  by pat_completeness auto
termination
  by (relation "measure (\<lambda>(read_end, _). length read_end)") (auto dest!: line_end_shorter)

declare header_loop.simps [simp del]

text \<open>The end of the parser, from \<open>read_end\<close> at the blank line: the body goes into a block of
  \<open>content_length + 1\<close> bytes.\<close>

definition read_body :: "string \<Rightarrow> int \<Rightarrow> string option" where
  "read_body read_end content_length =
     (let body = drop 4 read_end in
      if length read_end < 4 \<or> content_length < int (length body) \<or> content_length + 1 \<ge> 2 ^ 31 then None
      else Some body)"

text \<open>Everything after the status line's number: the status text and the headers.\<close>

definition response_rest :: "int \<Rightarrow> string \<Rightarrow> http_response option option" where
  "response_rest status read_start = (case line_end read_start of
     None \<Rightarrow> Some None
   | Some read_end \<Rightarrow> (case http_get_response_message status of
       None \<Rightarrow> None
     | Some message \<Rightarrow>
         if \<not> strncmp_eq read_start message (ptr_diff read_end read_start) then Some None
         else do {
           r \<leftarrow> header_loop read_end (-1);
           case r of
             None \<Rightarrow> Some None
           | Some (blank, content_length) \<Rightarrow>
               map_option (\<lambda>body. Some \<lparr>rs_status = status, rs_body = body\<rparr>) (read_body blank content_length)
         }))"

definition http_response_parse :: "bytes \<Rightarrow> http_response option option" where
  "http_response_parse chunk =
     (if chunk = [] then Some None
      else let read_buffer = cstr (take LIBHTTP_MESSAGE_MAX_SIZE chunk) in
        case strchr read_buffer (CHR '' '') of
          None \<Rightarrow> Some None
        | Some read_end \<Rightarrow>
            if ptr_diff read_end read_buffer \<noteq> 8 then Some None
            else if \<not> strncmp_eq read_buffer ''HTTP/1.1'' 8 \<and> \<not> strncmp_eq read_buffer ''HTTP/1.0'' 8 then Some None
            else let read_start = tl read_end in
              case strtol read_start of (status, e) \<Rightarrow>
                if status = 0 \<or> ptr_diff e read_start \<noteq> 3 \<or> e = [] \<or> hd e \<noteq> CHR '' '' then Some None
                else response_rest status (tl e))"

section \<open>Sending\<close>

definition valid_methods :: "string list" where
  "valid_methods = [''GET'', ''PUT'', ''DELETE'', ''POST'']"

definition is_valid_method :: "string \<Rightarrow> bool" where
  "is_valid_method m \<longleftrightarrow> list_ex (\<lambda>v. m = v) valid_methods"

record http_outbound =
  ob_body :: bytes

text \<open>\<open>sprintf\<close> at the end of the message writes a terminator too; \<open>memcpy\<close> does not.\<close>

definition outbound_sprintf :: "http_outbound \<Rightarrow> string \<Rightarrow> http_outbound option" where
  "outbound_sprintf msg s =
     (if length (ob_body msg) + length s + 1 \<le> LIBHTTP_MESSAGE_MAX_SIZE + 1
      then Some (msg\<lparr>ob_body := ob_body msg @ s\<rparr>) else None)"

definition http_start_request :: "string \<Rightarrow> string \<Rightarrow> http_outbound option option" where
  "http_start_request m url =
     (if \<not> is_valid_method m then Some None
      else map_option Some (outbound_sprintf \<lparr>ob_body = []\<rparr> (m @ '' '' @ url @ '' HTTP/1.1'' @ [cr, lf])))"

definition http_start_response :: "int \<Rightarrow> http_outbound option option" where
  "http_start_response status_code = (case http_get_response_message status_code of
     None \<Rightarrow> Some None
   | Some status \<Rightarrow>
       map_option Some (outbound_sprintf \<lparr>ob_body = []\<rparr> (''HTTP/1.1 '' @ dec (nat status_code) @ '' '' @ status @ [cr, lf])))"

definition http_add_header :: "http_outbound \<Rightarrow> string \<Rightarrow> string \<Rightarrow> http_outbound option" where
  "http_add_header msg key val = outbound_sprintf msg (key @ '': '' @ val @ [cr, lf])"

definition http_end_headers :: "http_outbound \<Rightarrow> http_outbound option" where
  "http_end_headers msg = outbound_sprintf msg [cr, lf]"

definition http_add_data :: "http_outbound \<Rightarrow> bytes \<Rightarrow> http_outbound option" where
  "http_add_data msg data =
     (if length (ob_body msg) + length data \<le> LIBHTTP_MESSAGE_MAX_SIZE + 1
      then Some (msg\<lparr>ob_body := ob_body msg @ data\<rparr>) else None)"

definition http_add_string :: "http_outbound \<Rightarrow> string option \<Rightarrow> http_outbound option" where
  "http_add_string msg data = (case data of None \<Rightarrow> Some msg | Some s \<Rightarrow> http_add_data msg s)"

text \<open>The loop of \<open>http_send_and_free\<close>. The list holds what the calls of \<open>write\<close> return, one
  after the other; it bounds the number of calls. The second component of the result is what the peer
  receives.\<close>

fun send_loop :: "int list \<Rightarrow> bytes \<Rightarrow> (int \<times> bytes) option" where
  "send_loop ws send =
     (if send = [] then Some (0, [])
      else case ws of
        [] \<Rightarrow> None
      | w # ws' \<Rightarrow>
          if w < 0 then Some (w, [])
          else map_option (\<lambda>(r, sent). (r, take (nat w) send @ sent)) (send_loop ws' (drop (nat w) send)))"

declare send_loop.simps [simp del]

definition http_send_and_free :: "int list \<Rightarrow> http_outbound \<Rightarrow> (int \<times> bytes) option" where
  "http_send_and_free ws msg =
     (if length (ob_body msg) > LIBHTTP_MESSAGE_MAX_SIZE then None
      else map_option (\<lambda>(r, sent). (if r < 0 then r else int (length (ob_body msg)), sent))
             (send_loop ws (ob_body msg)))"

section \<open>Sending\<close>

lemma send_loop_complete:
  "list_all (\<lambda>w. 0 \<le> w) ws \<Longrightarrow> int (length send) \<le> sum_list ws \<Longrightarrow> send_loop ws send = Some (0, send)"
proof (induction ws arbitrary: send)
  case Nil
  then show ?case by (simp add: send_loop.simps)
next
  case (Cons w ws)
  show ?case
  proof (cases "send = []")
    case True
    then show ?thesis by (simp add: send_loop.simps)
  next
    case False
    have "send_loop ws (drop (nat w) send) = Some (0, drop (nat w) send)"
      by (rule Cons.IH) (use Cons.prems sum_list_nonneg [of ws] in \<open>auto simp: list_all_iff\<close>)
    with False Cons.prems show ?thesis by (subst send_loop.simps) simp
  qed
qed

lemma send_loop_prefix:
  "send_loop ws send = Some (r, sent) \<Longrightarrow> (\<exists>rest. send = sent @ rest) \<and> (if r < 0 then True else r = 0 \<and> sent = send)"
proof (induction ws arbitrary: send sent)
  case Nil
  then show ?case by (simp add: send_loop.simps split: if_splits)
next
  case (Cons w ws)
  show ?case
  proof (cases "send = [] \<or> w < 0")
    case True
    with Cons.prems show ?thesis by (subst (asm) send_loop.simps) (auto split: if_splits)
  next
    case False
    with Cons.prems obtain t where t: "send_loop ws (drop (nat w) send) = Some (r, t)" "sent = take (nat w) send @ t"
      by (subst (asm) send_loop.simps) auto
    from Cons.IH [OF t(1)] show ?thesis by (metis append.assoc append_take_drop_id t(2))
  qed
qed

section \<open>Parsing what was sent\<close>

lemma path_end_skip:
  "\<forall>c \<in> set s. c \<noteq> CHR '' '' \<and> c \<noteq> lf \<Longrightarrow> path_end (s @ CHR '' '' # t) = Some (CHR '' '' # t)"
  by (induction s) auto

lemma valid_method_cases:
  "is_valid_method m \<longleftrightarrow> m = ''GET'' \<or> m = ''PUT'' \<or> m = ''DELETE'' \<or> m = ''POST''"
  by (auto simp: is_valid_method_def valid_methods_def)

lemma valid_method_prefix: "is_valid_method m \<Longrightarrow> http_is_valid_method (m @ t) (length m)"
  by (auto simp: valid_method_cases http_is_valid_method_def strncmp_eq_def)

lemma valid_method_chars: "is_valid_method m \<Longrightarrow> CHR '' '' \<notin> set m \<and> nonul m \<and> length m \<le> 6"
  by (auto simp: valid_method_cases)

definition url_text_ok :: "string \<Rightarrow> bool" where
  "url_text_ok url \<longleftrightarrow> url \<noteq> [] \<and> hd url = CHR ''/'' \<and> nonul url \<and> CHR '' '' \<notin> set url \<and> lf \<notin> set url"

lemma parse_request_line:
  assumes "is_valid_method m" "url_text_ok url" "nonul t" "length m + length url + length t + 2 \<le> LIBHTTP_MESSAGE_MAX_SIZE"
  shows "http_request_parse (m @ '' '' @ url @ '' '' @ t) = Some \<lparr>rq_method = m, rq_path = url\<rparr>"
proof -
  obtain u where u: "url = CHR ''/'' # u" using assms(2) by (cases url) (auto simp: url_text_ok_def)
  define s where "s = m @ CHR '' '' # url @ CHR '' '' # t"
  have buf: "cstr (take LIBHTTP_MESSAGE_MAX_SIZE s) = s"
    using assms valid_method_chars [OF assms(1)] by (simp add: s_def url_text_ok_def)
  have sp: "strchr s (CHR '' '') = Some (CHR '' '' # url @ CHR '' '' # t)"
    using valid_method_chars [OF assms(1)] by (simp add: s_def)
  have pe: "path_end (u @ CHR '' '' # t) = Some (CHR '' '' # t)"
    by (rule path_end_skip) (use assms(2) in \<open>auto simp: url_text_ok_def u\<close>)
  have ok: "http_is_valid_method s (length m)" unfolding s_def by (rule valid_method_prefix [OF assms(1)])
  have "s \<noteq> []" "take (length m) s = m" by (simp_all add: s_def)
  moreover have "ptr_diff (CHR '' '' # url @ CHR '' '' # t) s = length m" by (simp add: s_def)
  ultimately have "http_request_parse s = Some \<lparr>rq_method = m, rq_path = url\<rparr>"
    using sp pe ok by (simp add: http_request_parse_def buf u ptr_diff_def)
  then show ?thesis by (simp add: s_def)
qed

lemma response_message_chars:
  "http_get_response_message c = Some msg \<Longrightarrow> cr \<notin> set msg \<and> lf \<notin> set msg \<and> nonul msg \<and> length msg \<le> 21 \<and> 100 \<le> c \<and> c \<le> 500"
  by (auto simp: http_get_response_message_def split: if_splits)

lemma line_end_crlf: "cr \<notin> set s \<Longrightarrow> line_end (s @ cr # lf # t) = Some (cr # lf # t)"
  using strstr_first [of "[cr, lf]" s t] by (simp add: line_end_def)

lemma cr_not_in_dec [simp]: "cr \<notin> set (dec n)"
  by (rule not_digit_not_in_dec) (simp add: is_digit_def)

text \<open>The header loop on the one header that is sent.\<close>

lemma header_loop_content_length:
  assumes "n < 2 ^ 31"
  shows "header_loop ([cr, lf] @ ''Content-Length: '' @ dec n @ [cr, lf, cr, lf] @ t) cl = Some (Some ([cr, lf, cr, lf] @ t, int n))"
proof -
  define s where "s = ''Content-Length: '' @ dec n @ cr # lf # cr # lf # t"
  have le: "line_end s = Some (cr # lf # cr # lf # t)"
    using line_end_crlf [of "''Content-Length: '' @ dec n"] by (simp add: s_def)
  have colon: "strstr s '': '' = Some ('': '' @ dec n @ cr # lf # cr # lf # t)"
    using strstr_first [of "'': ''" "''Content-Length''"] by (simp add: s_def)
  have num: "strtol (dec n @ cr # lf # cr # lf # t) = (int n, cr # lf # cr # lf # t)"
    by (rule strtol_dec) (use assms in \<open>simp_all add: is_digit_def\<close>)
  have fin: "header_loop (cr # lf # cr # lf # t) cl' = Some (Some (cr # lf # cr # lf # t, cl'))" for cl'
    by (subst header_loop.simps) (simp add: strncmp_eq_def)
  have "header_loop (cr # lf # s) cl = Some (Some (cr # lf # cr # lf # t, int n))"
  proof -
    have "\<not> strncmp_eq (cr # lf # s) [lf, lf] 2" "\<not> strncmp_eq (cr # lf # s) [cr, lf, cr, lf] 4"
      by (simp_all add: strncmp_eq_def s_def)
    moreover have "ptr_diff ('': '' @ dec n @ cr # lf # cr # lf # t) s = 14" by (simp add: s_def ptr_diff_def)
    moreover have "strncmp_eq s ''Content-Length'' 14" by (simp add: strncmp_eq_def s_def)
    ultimately show ?thesis
      using le colon num fin assms by (simp add: header_loop.simps [of "cr # lf # s" cl])
  qed
  then show ?thesis by (simp add: s_def)
qed

text \<open>A response as it is sent, with an arbitrary number as content length.\<close>

definition response_text :: "int \<Rightarrow> string \<Rightarrow> nat \<Rightarrow> string \<Rightarrow> bytes" where
  "response_text c msg n body =
     ''HTTP/1.1 '' @ dec (nat c) @ '' '' @ msg @ [cr, lf] @ ''Content-Length: '' @ dec n @ [cr, lf] @ [cr, lf] @ body"

lemma parse_response_rest:
  assumes "http_get_response_message c = Some msg" "n < 2 ^ 31"
  shows "response_rest c (msg @ [cr, lf] @ ''Content-Length: '' @ dec n @ [cr, lf, cr, lf] @ body) =
    map_option (\<lambda>b. Some \<lparr>rs_status = c, rs_body = b\<rparr>) (read_body ([cr, lf, cr, lf] @ body) (int n))"
proof -
  define t where "t = ''Content-Length: '' @ dec n @ [cr, lf, cr, lf] @ body"
  have hl: "header_loop (cr # lf # t) (-1) = Some (Some ([cr, lf, cr, lf] @ body, int n))"
    using header_loop_content_length [of n body "-1"] assms(2) by (simp add: t_def)
  have le: "line_end (msg @ cr # lf # t) = Some (cr # lf # t)"
    using response_message_chars [OF assms(1)] by (intro line_end_crlf) simp
  have "ptr_diff (cr # lf # t) (msg @ cr # lf # t) = length msg" by simp
  moreover have "strncmp_eq (msg @ cr # lf # t) msg (length msg)" by (simp add: strncmp_eq_def)
  ultimately have "response_rest c (msg @ cr # lf # t) =
      map_option (\<lambda>b. Some \<lparr>rs_status = c, rs_body = b\<rparr>) (read_body ([cr, lf, cr, lf] @ body) (int n))"
    using assms(1) hl le by (simp add: response_rest_def)
  then show ?thesis by (simp add: t_def)
qed

lemma length_dec3: "100 \<le> n \<Longrightarrow> n < 1000 \<Longrightarrow> length (dec n) = 3"
proof -
  assume n: "100 \<le> n" "n < 1000"
  then have "\<not> n < 10" "\<not> n div 10 < 10" "n div 10 div 10 < 10" by (simp_all add: div_mult2_eq [symmetric] div_le_mono not_less)
  then show ?thesis by (simp add: dec.simps [of n] dec.simps [of "n div 10"] dec.simps [of "n div 10 div 10"])
qed

lemma length_dec_code: "http_get_response_message c = Some msg \<Longrightarrow> length (dec (nat c)) = 3"
  using response_message_chars [of c msg] by (intro length_dec3) auto

lemma length_response_text:
  "http_get_response_message c = Some msg \<Longrightarrow> length (response_text c msg n body) = 35 + length msg + length (dec n) + length body"
  using length_dec_code [of c msg] by (simp add: response_text_def)

lemma parse_response:
  assumes "http_get_response_message c = Some msg" "nonul body" "n < 2 ^ 31"
    "length (response_text c msg n body) \<le> LIBHTTP_MESSAGE_MAX_SIZE"
  shows "http_response_parse (response_text c msg n body) =
    map_option (\<lambda>b. Some \<lparr>rs_status = c, rs_body = b\<rparr>) (read_body ([cr, lf, cr, lf] @ body) (int n))"
proof -
  note m = response_message_chars [OF assms(1)]
  define t where "t = msg @ [cr, lf] @ ''Content-Length: '' @ dec n @ [cr, lf, cr, lf] @ body"
  define s where "s = ''HTTP/1.1'' @ CHR '' '' # dec (nat c) @ CHR '' '' # t"
  have s: "response_text c msg n body = s" by (simp add: response_text_def s_def t_def)
  have "nonul s" using m assms(2) by (simp add: s_def t_def)
  then have buf: "cstr (take LIBHTTP_MESSAGE_MAX_SIZE s) = s" using assms(4) by (simp add: s)
  have sp: "strchr s (CHR '' '') = Some (CHR '' '' # dec (nat c) @ CHR '' '' # t)"
    unfolding s_def by (rule strchr_append) simp
  have "nat c < 2 ^ 63" using m by (simp add: nat_less_iff)
  then have num: "strtol (dec (nat c) @ CHR '' '' # t) = (c, CHR '' '' # t)"
    using strtol_dec [of "nat c" "CHR '' '' # t"] m by (simp add: is_digit_def)
  have rest: "response_rest c t = map_option (\<lambda>b. Some \<lparr>rs_status = c, rs_body = b\<rparr>) (read_body ([cr, lf, cr, lf] @ body) (int n))"
    unfolding t_def by (rule parse_response_rest [OF assms(1,3)])
  have "s \<noteq> []" "ptr_diff (CHR '' '' # dec (nat c) @ CHR '' '' # t) s = 8" "strncmp_eq s ''HTTP/1.1'' 8"
    "ptr_diff (CHR '' '' # t) (dec (nat c) @ CHR '' '' # t) = 3"
    using length_dec_code [OF assms(1)] by (simp_all add: s_def ptr_diff_def strncmp_eq_def)
  then show ?thesis
    using sp num rest m by (simp add: http_response_parse_def buf s)
qed

section \<open>Properties\<close>

text \<open>Round trip of requests: a request built with \<open>http_start_request\<close> and
  \<open>http_end_headers\<close> for a supported method and a URL without blank, line break or NUL that fits
  the message buffer is parsed by \<open>http_request_parse\<close> into the same method and URL.\<close>

theorem http_request_roundtrip:
  assumes "is_valid_method m" and "url_text_ok url" and "length m + length url + 14 \<le> LIBHTTP_MESSAGE_MAX_SIZE"
  shows "\<exists>m1 m2. http_start_request m url = Some (Some m1) \<and> http_end_headers m1 = Some m2 \<and>
    http_request_parse (ob_body m2) = Some \<lparr>rq_method = m, rq_path = url\<rparr>"
  using parse_request_line [OF assms(1,2), of "''HTTP/1.1'' @ [cr, lf, cr, lf]"] assms
  by (simp add: http_start_request_def http_end_headers_def outbound_sprintf_def)

theorem http_request_roundtrip_witness:
  "\<exists>m1 m2. http_start_request ''PUT'' ''/?key=k&val=v'' = Some (Some m1) \<and> http_end_headers m1 = Some m2 \<and>
    http_request_parse (ob_body m2) = Some \<lparr>rq_method = ''PUT'', rq_path = ''/?key=k&val=v''\<rparr>"
  using http_request_roundtrip [of "''PUT''" "''/?key=k&val=v''"]
  by (simp add: valid_method_cases url_text_ok_def LIBHTTP_MESSAGE_MAX_SIZE_def)

text \<open>Round trip of responses: a response built the way the servers build it (status line, content
  length, blank line, body) for a known status code and a body without NUL is parsed by
  \<open>http_response_parse\<close>, without leaving its buffers, into the same status and body.\<close>

theorem http_response_roundtrip:
  assumes "http_get_response_message c = Some msg" and "nonul body"
    and "length body + length (dec (length body)) + 60 \<le> LIBHTTP_MESSAGE_MAX_SIZE"
  shows "\<exists>m1 m2 m3 m4. http_start_response c = Some (Some m1) \<and>
    http_add_header m1 ''Content-Length'' (dec (length body)) = Some m2 \<and> http_end_headers m2 = Some m3 \<and>
    http_add_string m3 (Some body) = Some m4 \<and>
    http_response_parse (ob_body m4) = Some (Some \<lparr>rs_status = c, rs_body = body\<rparr>)"
proof -
  note l = response_message_chars [OF assms(1)] length_dec_code [OF assms(1)]
  have "length body < 2 ^ 31" "read_body ([cr, lf, cr, lf] @ body) (int (length body)) = Some body"
    using assms(3) by (simp_all add: LIBHTTP_MESSAGE_MAX_SIZE_def read_body_def)
  moreover have "length (response_text c msg (length body) body) \<le> LIBHTTP_MESSAGE_MAX_SIZE"
    using assms(3) l by (simp add: length_response_text [OF assms(1)])
  ultimately have "http_response_parse (response_text c msg (length body) body) = Some (Some \<lparr>rs_status = c, rs_body = body\<rparr>)"
    using parse_response [OF assms(1,2)] by simp
  then show ?thesis
    using assms l by (simp add: http_start_response_def http_add_header_def http_end_headers_def http_add_string_def
        http_add_data_def outbound_sprintf_def response_text_def)
qed

theorem http_response_roundtrip_witness:
  "\<exists>m1 m2 m3 m4. http_start_response 202 = Some (Some m1) \<and>
    http_add_header m1 ''Content-Length'' (dec (length ''commit'')) = Some m2 \<and> http_end_headers m2 = Some m3 \<and>
    http_add_string m3 (Some ''commit'') = Some m4 \<and>
    http_response_parse (ob_body m4) = Some (Some \<lparr>rs_status = 202, rs_body = ''commit''\<rparr>)"
  by (rule http_response_roundtrip [of 202 "''Accepted''"])
    (simp_all add: http_get_response_message_def dec.simps LIBHTTP_MESSAGE_MAX_SIZE_def)

text \<open>Short writes lose nothing: whatever the calls of \<open>write\<close> return, what the peer has received is
  an initial part of the message, and all of it unless a call failed; and when the returned numbers are
  not negative and add up to the length, \<open>http_send_and_free\<close> ends and returns the length.\<close>

theorem http_send_all:
  assumes "length (ob_body msg) \<le> LIBHTTP_MESSAGE_MAX_SIZE"
  shows "(\<forall>ws r sent. http_send_and_free ws msg = Some (r, sent) \<longrightarrow>
      (\<exists>rest. ob_body msg = sent @ rest) \<and> (r < 0 \<or> r = int (length sent) \<and> sent = ob_body msg)) \<and>
    (\<forall>ws. list_all (\<lambda>w. 0 \<le> w) ws \<and> int (length (ob_body msg)) \<le> sum_list ws \<longrightarrow>
      http_send_and_free ws msg = Some (int (length (ob_body msg)), ob_body msg))"
proof (intro conjI allI impI)
  fix ws r sent
  assume "http_send_and_free ws msg = Some (r, sent)"
  then obtain r' where r: "send_loop ws (ob_body msg) = Some (r', sent)" "r = (if r' < 0 then r' else int (length (ob_body msg)))"
    using assms by (auto simp: http_send_and_free_def)
  then show "\<exists>rest. ob_body msg = sent @ rest" "r < 0 \<or> r = int (length sent) \<and> sent = ob_body msg"
    using send_loop_prefix [OF r(1)] by (auto split: if_splits)
next
  fix ws
  assume "list_all (\<lambda>w. 0 \<le> w) ws \<and> int (length (ob_body msg)) \<le> sum_list ws"
  then have "send_loop ws (ob_body msg) = Some (0, ob_body msg)" by (simp add: send_loop_complete)
  then show "http_send_and_free ws msg = Some (int (length (ob_body msg)), ob_body msg)"
    using assms by (simp add: http_send_and_free_def)
qed

theorem http_send_all_witness:
  "http_send_and_free [2, 0, 3] \<lparr>ob_body = ''hello''\<rparr> = Some (5, ''hello'')"
  using http_send_all [of "\<lparr>ob_body = ''hello''\<rparr>"] by (simp add: LIBHTTP_MESSAGE_MAX_SIZE_def)

text \<open>\<open>http_response_parse\<close> trusts the content length: a response whose body is longer than its
  header says is copied past the end of the block allocated for it.\<close>

theorem http_response_overflow:
  assumes "http_get_response_message c = Some msg" and "nonul body" and "n < length body"
    and "length body + length (dec n) + 60 \<le> LIBHTTP_MESSAGE_MAX_SIZE"
  shows "http_response_parse (response_text c msg n body) = None"
proof -
  have "length (response_text c msg n body) \<le> LIBHTTP_MESSAGE_MAX_SIZE"
    using assms(4) response_message_chars [OF assms(1)] by (simp add: length_response_text [OF assms(1)])
  moreover have "n < 2 ^ 31" using assms(3,4) by (simp add: LIBHTTP_MESSAGE_MAX_SIZE_def)
  ultimately show ?thesis using parse_response [OF assms(1,2)] assms(3) by (simp add: read_body_def)
qed

theorem http_response_overflow_witness: "http_response_parse (response_text 200 ''OK'' 3 ''hello'') = None"
  by (rule http_response_overflow) (simp_all add: http_get_response_message_def dec.simps LIBHTTP_MESSAGE_MAX_SIZE_def)

end
