(* ===== verification/LibUrl.thy ===== *)
theory LibUrl
  imports Prelude
begin

text \<open>
  URL paths and query parameters, from \<open>hw4/src/liburl.c\<close>. A \<open>char *\<close> into the URL is
  the suffix it points at, so that \<open>*p == '\0'\<close> is the test for the empty list; \<open>None\<close>
  as the result of an operation stands for memory used out of bounds.
\<close>

section \<open>Operations\<close>

record url_params =
  up_path :: "string option"
  up_key :: "string option"
  up_val :: "string option"

text \<open>The member of the structure that \<open>param_ptr\<close> points to.\<close>

datatype url_field = Field_key | Field_val

definition param_ptr :: "string \<Rightarrow> nat \<Rightarrow> url_field option" where
  "param_ptr key keylen =
     (if strncmp_eq key ''key'' keylen then Some Field_key
      else if strncmp_eq key ''val'' keylen then Some Field_val
      else None)"

primrec set_param :: "url_field \<Rightarrow> string \<Rightarrow> url_params \<Rightarrow> url_params" where
  "set_param Field_key v params = params\<lparr>up_key := Some v\<rparr>"
| "set_param Field_val v params = params\<lparr>up_val := Some v\<rparr>"

lemma strchr_shorter: "strchr s c = Some t \<Longrightarrow> length t - Suc 0 < length s \<and> s \<noteq> []"
  by (auto dest!: strchr_SomeD)

text \<open>The while loop over the parameters. The block for a value has \<open>read_end - key_end\<close> bytes,
  which must be positive.\<close>

function url_decode_loop :: "string \<Rightarrow> string \<Rightarrow> url_params \<Rightarrow> url_params option" where
  "url_decode_loop url read_end params =
     (if read_end = [] then Some params
      else case strchr url (CHR ''='') of
        None \<Rightarrow> Some params
      | Some key_end \<Rightarrow>
          let read_end' = (case strchr url (CHR ''&'') of None \<Rightarrow> [] | Some r \<Rightarrow> r) in
          case param_ptr url (ptr_diff key_end url) of
            None \<Rightarrow> if url = [] then Some params else url_decode_loop (tl read_end') read_end' params
          | Some field \<Rightarrow>
              if length key_end \<le> length read_end' then None
              else url_decode_loop (tl read_end') read_end'
                     (set_param field (take (ptr_diff read_end' key_end - 1) (tl key_end)) params))"

  by pat_completeness auto
termination
  by (relation "measure (\<lambda>(url, _). length url)") (auto dest: strchr_shorter split: option.split)

declare url_decode_loop.simps [simp del]

definition url_decode :: "string \<Rightarrow> url_params option" where
  "url_decode url = (case strchr url (CHR ''?'') of
     None \<Rightarrow> Some \<lparr>up_path = (if length url > 1 then Some (tl url) else None), up_key = None, up_val = None\<rparr>
   | Some read_end \<Rightarrow>
       let pathlen = ptr_diff read_end url in
       url_decode_loop (tl read_end) read_end
         \<lparr>up_path = (if pathlen > 1 then Some (take (pathlen - 1) (tl url)) else None), up_key = None, up_val = None\<rparr>)"

text \<open>The URL is built in a buffer of 128 bytes, and its last character is cut off.\<close>

definition url_encode :: "url_params \<Rightarrow> string option" where
  "url_encode params =
     (let buf = (case up_path params of Some p \<Rightarrow> ''/'' @ p @ ''?'' | None \<Rightarrow> ''/?'')
                @ (case up_key params of Some k \<Rightarrow> ''key='' @ k @ ''&'' | None \<Rightarrow> '''')
                @ (case up_val params of Some v \<Rightarrow> ''val='' @ v @ ''&'' | None \<Rightarrow> '''')
      in if length buf < 128 then Some (butlast buf) else None)"

section \<open>Decoding is safe\<close>

text \<open>A recognised name ends before the first separator, so the value behind it has its block.\<close>

lemma param_ptr_bound:
  assumes eq: "strchr url (CHR ''='') = Some key_end" and f: "param_ptr url (ptr_diff key_end url) = Some field"
  shows "length (case strchr url (CHR ''&'') of None \<Rightarrow> [] | Some r \<Rightarrow> r) < length key_end"
proof -
  obtain p r where p: "url = p @ key_end" "key_end = CHR ''='' # r" "CHR ''='' \<notin> set p"
    using strchr_SomeD [OF eq] by blast
  have "take (length p) url = p" by (simp add: p(1))
  then have "p = take (length p) ''key'' \<or> p = take (length p) ''val''"
    using f by (auto simp: p(1) param_ptr_def strncmp_eq_def split: if_splits)
  then have sub: "set p \<subseteq> set ''key'' \<or> set p \<subseteq> set ''val''" by (metis set_take_subset)
  then have amp: "CHR ''&'' \<notin> set p" by auto
  show ?thesis
  proof (cases "strchr url (CHR ''&'')")
    case None
    with p show ?thesis by simp
  next
    case (Some t)
    then obtain q s where q: "url = q @ t" "t = CHR ''&'' # s" "CHR ''&'' \<notin> set q" using strchr_SomeD by blast
    have "length p < length q"
    proof (rule ccontr)
      assume "\<not> length p < length q"
      then have "url ! length q \<in> insert (CHR ''='') (set p)"
        by (cases "length q = length p") (auto simp: p(1,2) nth_append)
      moreover have "url ! length q = CHR ''&''" by (simp add: q(1,2))
      ultimately show False using amp by simp
    qed
    moreover have "length p + length key_end = length q + length t" using p(1) q(1) by (metis length_append)
    ultimately show ?thesis using Some by simp
  qed
qed

lemma url_decode_loop_total: "\<exists>params'. url_decode_loop url read_end params = Some params'"
proof (induction url read_end params rule: url_decode_loop.induct)
  case (1 url read_end params)
  show ?case
  proof (cases "read_end = [] \<or> strchr url (CHR ''='') = None")
    case True
    then show ?thesis by (subst url_decode_loop.simps) auto
  next
    case False
    then obtain key_end where k: "strchr url (CHR ''='') = Some key_end" "read_end \<noteq> []" by auto
    define r where "r = (case strchr url (CHR ''&'') of None \<Rightarrow> [] | Some r \<Rightarrow> r)"
    show ?thesis
    proof (cases "param_ptr url (ptr_diff key_end url)")
      case None
      with k "1.IH"(1) [OF k(2,1) r_def None] show ?thesis
        by (subst url_decode_loop.simps) (auto simp: r_def [symmetric])
    next
      case (Some field)
      then have lt: "\<not> length key_end \<le> length r" using param_ptr_bound [OF k(1)] by (simp add: r_def)
      with k Some "1.IH"(2) [OF k(2,1) r_def Some lt] show ?thesis
        by (subst url_decode_loop.simps) (auto simp: r_def [symmetric])
    qed
  qed
qed

lemma url_decode_total: "\<exists>params. url_decode url = Some params"
  using url_decode_loop_total by (simp add: url_decode_def Let_def split: option.split)

section \<open>Round trip\<close>

definition url_params_ok :: "url_params \<Rightarrow> bool" where
  "url_params_ok p \<longleftrightarrow>
     (\<forall>s. up_path p = Some s \<longrightarrow> s \<noteq> [] \<and> CHR ''?'' \<notin> set s) \<and>
     (\<forall>k. up_key p = Some k \<longrightarrow> CHR ''&'' \<notin> set k) \<and> (\<forall>v. up_val p = Some v \<longrightarrow> CHR ''&'' \<notin> set v)"

lemma param_ptr_names [simp]:
  "param_ptr (''key'' @ t) 3 = Some Field_key" "param_ptr (''val'' @ t) 3 = Some Field_val"
  by (simp_all add: param_ptr_def strncmp_eq_def)

text \<open>One parameter of the loop, at the end of the URL and before another one.\<close>

definition field_name :: "url_field \<Rightarrow> string" where
  "field_name f = (case f of Field_key \<Rightarrow> ''key'' | Field_val \<Rightarrow> ''val'')"

lemma field_name_facts [simp]:
  "length (field_name f) = 3" "c \<in> {CHR ''='', CHR ''&''} \<Longrightarrow> c \<notin> set (field_name f)"
  "param_ptr (field_name f @ t) 3 = Some f"
  by (cases f; auto simp: field_name_def param_ptr_def strncmp_eq_def)+

lemma decode_last:
  assumes "read_end \<noteq> []" "CHR ''&'' \<notin> set v"
  shows "url_decode_loop (field_name f @ ''='' @ v) read_end params = Some (set_param f v params)"
  using assms by (subst url_decode_loop.simps) (simp add: url_decode_loop.simps [of "[]" "[]"] ptr_diff_def)

lemma decode_next:
  assumes "read_end \<noteq> []" "CHR ''&'' \<notin> set v"
  shows "url_decode_loop (field_name f @ ''='' @ v @ ''&'' @ t) read_end params =
    url_decode_loop t (''&'' @ t) (set_param f v params)"
proof -
  have "strchr (field_name f @ ''='' @ v @ ''&'' @ t) (CHR ''&'') = Some (''&'' @ t)"
    using strchr_append [of "CHR ''&''" "field_name f @ ''='' @ v" t] assms(2) by simp
  with assms show ?thesis by (subst url_decode_loop.simps) (simp add: ptr_diff_def)
qed

lemma decode_path:
  assumes "path \<noteq> Some []" "\<forall>s. path = Some s \<longrightarrow> CHR ''?'' \<notin> set s"
  shows "url_decode ((case path of Some p \<Rightarrow> ''/'' @ p @ ''?'' | None \<Rightarrow> ''/?'') @ t) =
     url_decode_loop t (''?'' @ t) \<lparr>up_path = path, up_key = None, up_val = None\<rparr>"
    "url_decode (case path of Some p \<Rightarrow> ''/'' @ p | None \<Rightarrow> ''/'') =
     Some \<lparr>up_path = path, up_key = None, up_val = None\<rparr>"
proof -
  have *: "strchr (''/'' @ p @ ''?'' @ t) (CHR ''?'') = Some (''?'' @ t)" if "CHR ''?'' \<notin> set p" for p
    using strchr_append [of "CHR ''?''" "''/'' @ p" t] that by simp
  show "url_decode ((case path of Some p \<Rightarrow> ''/'' @ p @ ''?'' | None \<Rightarrow> ''/?'') @ t) =
     url_decode_loop t (''?'' @ t) \<lparr>up_path = path, up_key = None, up_val = None\<rparr>"
    using assms * [of "[]"] * by (cases path) (auto simp: url_decode_def ptr_diff_def)
  show "url_decode (case path of Some p \<Rightarrow> ''/'' @ p | None \<Rightarrow> ''/'') =
     Some \<lparr>up_path = path, up_key = None, up_val = None\<rparr>"
    using assms by (cases path) (auto simp: url_decode_def)
qed

lemma url_roundtrip_lemma:
  assumes "url_params_ok p" "url_encode p = Some u"
  shows "url_decode u = Some p"
proof -
  obtain path key val where p: "p = \<lparr>up_path = path, up_key = key, up_val = val\<rparr>" by (cases p)
  define pre where "pre = (case path of Some p \<Rightarrow> ''/'' @ p @ ''?'' | None \<Rightarrow> ''/?'')"
  have pre: "url_decode (pre @ t) = url_decode_loop t (''?'' @ t) \<lparr>up_path = path, up_key = None, up_val = None\<rparr>"
    and bare: "url_decode (butlast pre) = Some \<lparr>up_path = path, up_key = None, up_val = None\<rparr>" for t
    using decode_path [of path] assms(1)
    by (auto simp: p url_params_ok_def pre_def butlast_append split: option.splits)
  have u: "u = butlast (pre @ (case key of Some k \<Rightarrow> ''key='' @ k @ ''&'' | None \<Rightarrow> '''')
      @ (case val of Some v \<Rightarrow> ''val='' @ v @ ''&'' | None \<Rightarrow> ''''))"
    using assms(2) by (simp add: p url_encode_def Let_def pre_def split: if_splits)
  have "CHR ''&'' \<notin> set k" if "key = Some k" for k using assms(1) that by (simp add: p url_params_ok_def)
  moreover have "CHR ''&'' \<notin> set v" if "val = Some v" for v using assms(1) that by (simp add: p url_params_ok_def)
  ultimately show ?thesis
    using decode_last [of _ _ Field_key] decode_last [of _ _ Field_val] decode_next [of _ _ Field_key]
    by (cases key; cases val) (simp_all add: u p bare pre butlast_append field_name_def)
qed

section \<open>Properties\<close>

text \<open>Round trip of URLs: parameters whose path is not empty and holds no question mark, and whose
  key and value hold no ampersand, are encoded when the URL fits the buffer of 128 bytes, and decoding
  the URL gives the same parameters back, absent ones included.\<close>

theorem url_decode_encode:
  assumes "url_params_ok p"
    and "(case up_path p of Some s \<Rightarrow> length s + 2 | None \<Rightarrow> 2) + (case up_key p of Some k \<Rightarrow> length k + 5 | None \<Rightarrow> 0)
       + (case up_val p of Some v \<Rightarrow> length v + 5 | None \<Rightarrow> 0) < 128"
  shows "\<exists>u. url_encode p = Some u \<and> url_decode u = Some p"
proof -
  obtain u where "url_encode p = Some u"
    using assms(2) by (cases "up_path p"; cases "up_key p"; cases "up_val p") (auto simp: url_encode_def)
  with url_roundtrip_lemma [OF assms(1)] show ?thesis by blast
qed

theorem url_decode_encode_witness:
  "\<exists>u. url_encode \<lparr>up_path = Some ''register'', up_key = Some ''localhost'', up_val = Some ''8162''\<rparr> = Some u \<and>
     url_decode u = Some \<lparr>up_path = Some ''register'', up_key = Some ''localhost'', up_val = Some ''8162''\<rparr>"
  using url_decode_encode [of "\<lparr>up_path = Some ''register'', up_key = Some ''localhost'', up_val = Some ''8162''\<rparr>"]
  by (simp add: url_params_ok_def)

text \<open>C29. \<open>url_decode\<close> is safe on every URL: its loop ends, and the number of bytes it allocates and
  copies for a value is never negative, although the \<open>=\<close> it finds may lie behind the \<open>&\<close>.\<close>

theorem url_decode_safe: "\<exists>params. url_decode url = Some params"
  by (rule url_decode_total)

text \<open>Parameter names are matched by prefix: any initial part of \<open>key\<close>, the empty one included,
  sets the key, and any other initial part of \<open>val\<close> sets the value.\<close>

theorem url_decode_prefix_names:
  assumes "CHR ''&'' \<notin> set v" and "0 < n" and "n \<le> 3" and "m \<le> 3"
  shows "url_decode (''/?'' @ take m ''key'' @ ''='' @ v) = Some \<lparr>up_path = None, up_key = Some v, up_val = None\<rparr> \<and>
    url_decode (''/?'' @ take n ''val'' @ ''='' @ v) = Some \<lparr>up_path = None, up_key = None, up_val = Some v\<rparr>"
proof -
  have m: "m \<in> {0, 1, 2, 3}" and n: "n \<in> {1, 2, 3}" using assms(2-4) by auto
  have last: "url_decode_loop (pre @ ''='' @ v) (''?'' @ t) params = Some (set_param f v params)"
    if "param_ptr (pre @ ''='' @ v) (length pre) = Some f" "CHR ''='' \<notin> set pre" "CHR ''&'' \<notin> set pre" for pre t f params
    using that assms(1) by (subst url_decode_loop.simps) (simp add: url_decode_loop.simps [of "[]" "[]"] ptr_diff_def)
  have "url_decode (''/?'' @ t) = url_decode_loop t (''?'' @ t) \<lparr>up_path = None, up_key = None, up_val = None\<rparr>" for t
    using decode_path(1) [of None t] by simp
  then show ?thesis
    using m n last [of "take m ''key''" Field_key] last [of "take n ''val''" Field_val]
    by (auto simp: param_ptr_def strncmp_eq_def)
qed

theorem url_decode_prefix_names_witness:
  "url_decode ''/?k=7'' = Some \<lparr>up_path = None, up_key = Some ''7'', up_val = None\<rparr> \<and>
   url_decode ''/?va=7'' = Some \<lparr>up_path = None, up_key = None, up_val = Some ''7''\<rparr>"
  using url_decode_prefix_names [of "''7''" 2 1] by simp

text \<open>C30. The encoder's buffer does not fit the keys the store admits: every key of more than 120
  characters, far below the limit of 1024, makes \<open>url_encode\<close> write outside its buffer.\<close>

theorem url_encode_overflow:
  assumes "up_key p = Some k" and "length k > 120"
  shows "url_encode p = None"
  using assms by (auto simp: url_encode_def Let_def split: option.splits)

theorem url_encode_overflow_witness:
  "url_encode \<lparr>up_path = None, up_key = Some (replicate 200 (CHR ''k'')), up_val = None\<rparr> = None"
  by (rule url_encode_overflow [of _ "replicate 200 (CHR ''k'')"]) simp_all

end
