(* ===== verification/KvMessage.thy ===== *)
theory KvMessage
  imports LibHttp LibUrl KvConstants
begin

text \<open>
  The messages of the key-value servers and their HTTP form, from \<open>hw4/src/kvmessage.c\<close>. A receive
  operation takes the bytes the socket delivers, a send operation the results of its \<open>write\<close> calls,
  and gives its result together with the bytes sent. The contract \<open>wire_codec\<close> says what makes the
  two directions fit; it is proved for requests and for responses.
\<close>

section \<open>Operations\<close>

record kvrequest_t =
  req_type :: msgtype_t
  req_key :: "string option"
  req_val :: "string option"

record kvresponse_t =
  res_type :: msgtype_t
  res_body :: "string option"

text \<open>The type of a request with a given method and given parameters; \<open>None\<close> is the jump to
  \<open>error\<close>.\<close>

definition request_type :: "string \<Rightarrow> url_params \<Rightarrow> msgtype_t option" where
  "request_type m params =
     (if m = ''GET'' then (if up_key params = None then Some INDEX else Some GETREQ)
      else if m = ''PUT'' then (if up_key params = None \<or> up_val params = None then None else Some PUTREQ)
      else if m = ''DELETE'' then (if up_key params = None then None else Some DELREQ)
      else if m = ''POST'' then
        (case up_path params of
           None \<Rightarrow> None
         | Some p \<Rightarrow>
             if p = REGISTER_PATH then (if up_key params = None \<or> up_val params = None then None else Some REGISTER)
             else if p = COMMIT_PATH then Some COMMIT
             else if p = ABORT_PATH then Some ABORT
             else None)
      else None)"

definition kvrequest_recieve :: "bytes \<Rightarrow> kvrequest_t option option" where
  "kvrequest_recieve chunk = (case http_request_parse chunk of
     None \<Rightarrow> Some None
   | Some req \<Rightarrow> do {
       params \<leftarrow> url_decode (rq_path req);
       Some (map_option (\<lambda>type. \<lparr>req_type = type, req_key = up_key params, req_val = up_val params\<rparr>)
               (request_type (rq_method req) params))
     })"

definition kvresponse_get_status_code :: "int \<Rightarrow> msgtype_t" where
  "kvresponse_get_status_code status =
     (if status = 200 then GETRESP else if status = 201 then SUCCESS else if status = 500 then ERROR
      else if status = 202 then VOTE else if status = 204 then ACK else EMPTY)"

definition kvresponse_recieve :: "bytes \<Rightarrow> kvresponse_t option option" where
  "kvresponse_recieve chunk = do {
     r \<leftarrow> http_response_parse chunk;
     Some (case r of
       None \<Rightarrow> None
     | Some res \<Rightarrow>
         let type = kvresponse_get_status_code (rs_status res) in
         if type = EMPTY then None else Some \<lparr>res_type = type, res_body = Some (rs_body res)\<rparr>)
   }"

definition http_method_for_request_type :: "msgtype_t \<Rightarrow> string option" where
  "http_method_for_request_type type = (case type of
     GETREQ \<Rightarrow> Some ''GET'' | PUTREQ \<Rightarrow> Some ''PUT'' | DELREQ \<Rightarrow> Some ''DELETE''
   | REGISTER \<Rightarrow> Some ''POST'' | COMMIT \<Rightarrow> Some ''POST'' | ABORT \<Rightarrow> Some ''POST'' | _ \<Rightarrow> None)"

definition path_for_request_type :: "msgtype_t \<Rightarrow> string option" where
  "path_for_request_type type = (case type of
     REGISTER \<Rightarrow> Some ''register'' | COMMIT \<Rightarrow> Some ''commit'' | ABORT \<Rightarrow> Some ''abort'' | _ \<Rightarrow> None)"

definition kvrequest_send :: "int list \<Rightarrow> kvrequest_t \<Rightarrow> (int \<times> bytes) option" where
  "kvrequest_send ws kvreq = (case http_method_for_request_type (req_type kvreq) of
     None \<Rightarrow> Some (-1, [])
   | Some m \<Rightarrow> do {
       url \<leftarrow> url_encode \<lparr>up_path = path_for_request_type (req_type kvreq), up_key = req_key kvreq, up_val = req_val kvreq\<rparr>;
       r \<leftarrow> http_start_request m url;
       case r of
         None \<Rightarrow> Some (-1, [])
       | Some msg \<Rightarrow> do { msg' \<leftarrow> http_end_headers msg; http_send_and_free ws msg' }
     })"

definition http_code_for_response_type :: "msgtype_t \<Rightarrow> int" where
  "http_code_for_response_type type = (case type of
     GETRESP \<Rightarrow> 200 | SUCCESS \<Rightarrow> 201 | ERROR \<Rightarrow> 500 | VOTE \<Rightarrow> 202 | ACK \<Rightarrow> 204 | _ \<Rightarrow> -1)"

text \<open>The length is printed into \<open>lenbuf\<close>, which has 10 bytes.\<close>

definition kvresponse_send :: "int list \<Rightarrow> kvresponse_t \<Rightarrow> (int \<times> bytes) option" where
  "kvresponse_send ws kvres =
     (let code = http_code_for_response_type (res_type kvres) in
      if code < 0 then Some (-1, [])
      else do {
        r \<leftarrow> http_start_response code;
        case r of
          None \<Rightarrow> Some (-1, [])
        | Some msg \<Rightarrow> do {
            lenbuf \<leftarrow> (case res_body kvres of
                None \<Rightarrow> Some ''0''
              | Some body \<Rightarrow> if length (dec (length body)) < 10 then Some (dec (length body)) else None);
            msg1 \<leftarrow> http_add_header msg ''Content-Length'' lenbuf;
            msg2 \<leftarrow> http_end_headers msg1;
            msg3 \<leftarrow> http_add_string msg2 (res_body kvres);
            http_send_and_free ws msg3
          }
      })"

section \<open>The contract of a codec\<close>

text \<open>\<open>encode\<close> gives the bytes of a message, \<open>decode\<close> what a receiver makes of them, up to a
  normal form.\<close>

locale wire_codec =
  fixes ok :: "'m \<Rightarrow> bool"
    and norm :: "'m \<Rightarrow> 'm"
    and encode :: "'m \<Rightarrow> bytes option"
    and decode :: "bytes \<Rightarrow> 'm option option"
  assumes encodes: "ok m \<Longrightarrow> \<exists>bs. encode m = Some bs \<and> decode bs = Some (Some (norm m))"
begin

lemma decode_encode: "ok m \<Longrightarrow> encode m = Some bs \<Longrightarrow> decode bs = Some (Some (norm m))"
  using encodes [of m] by auto

lemma unambiguous: "ok m \<Longrightarrow> ok m' \<Longrightarrow> encode m = encode m' \<Longrightarrow> norm m = norm m'"
  using encodes [of m] encodes [of m'] by auto

end

section \<open>Requests and responses on the wire\<close>

text \<open>The bytes a peer receives when no \<open>write\<close> fails.\<close>

definition all_written :: "int list" where
  "all_written = [int LIBHTTP_MESSAGE_MAX_SIZE]"

definition kvrequest_wire :: "kvrequest_t \<Rightarrow> bytes option" where
  "kvrequest_wire r = map_option snd (kvrequest_send all_written r)"

definition kvresponse_wire :: "kvresponse_t \<Rightarrow> bytes option" where
  "kvresponse_wire r = map_option snd (kvresponse_send all_written r)"

definition arg_ok :: "string \<Rightarrow> bool" where
  "arg_ok s \<longleftrightarrow> nonul s \<and> CHR ''&'' \<notin> set s \<and> CHR '' '' \<notin> set s \<and> lf \<notin> set s"

definition opt_len :: "string option \<Rightarrow> nat" where
  "opt_len s = (case s of None \<Rightarrow> 0 | Some t \<Rightarrow> length t)"

text \<open>A request that can be sent: its arguments are there, fit the URL buffer and hold no character
  that has a meaning in a URL or a request line.\<close>

definition kvrequest_ok :: "kvrequest_t \<Rightarrow> bool" where
  "kvrequest_ok r \<longleftrightarrow>
     req_type r \<in> {GETREQ, PUTREQ, DELREQ, REGISTER, COMMIT, ABORT} \<and>
     (req_type r \<in> {GETREQ, PUTREQ, DELREQ, REGISTER} \<longrightarrow> req_key r \<noteq> None) \<and>
     (req_type r \<in> {PUTREQ, REGISTER} \<longrightarrow> req_val r \<noteq> None) \<and>
     pred_option arg_ok (req_key r) \<and> pred_option arg_ok (req_val r) \<and>
     opt_len (req_key r) + opt_len (req_val r) \<le> 100"

definition kvresponse_ok :: "kvresponse_t \<Rightarrow> bool" where
  "kvresponse_ok r \<longleftrightarrow> res_type r \<in> {GETRESP, SUCCESS, ERROR, VOTE, ACK} \<and>
     pred_option nonul (res_body r) \<and> opt_len (res_body r) \<le> 8000"

text \<open>A response without a body is received with an empty one.\<close>

definition with_body :: "kvresponse_t \<Rightarrow> kvresponse_t" where
  "with_body r = \<lparr>res_type = res_type r, res_body = Some (case res_body r of None \<Rightarrow> '''' | Some b \<Rightarrow> b)\<rparr>"

lemma path_for_request_type_bound:
  "path_for_request_type t = Some p \<Longrightarrow> length p \<le> 8 \<and> p \<noteq> [] \<and> arg_ok p \<and> CHR ''?'' \<notin> set p"
  by (cases t) (auto simp: path_for_request_type_def arg_ok_def)

lemma url_encode_text:
  assumes "url_encode p = Some url" "pred_option arg_ok (up_path p)" "pred_option arg_ok (up_key p)" "pred_option arg_ok (up_val p)"
  shows "url_text_ok url \<and> length url < 128"
proof -
  define buf where "buf = (case up_path p of Some p \<Rightarrow> ''/'' @ p @ ''?'' | None \<Rightarrow> ''/?'')
      @ (case up_key p of Some k \<Rightarrow> ''key='' @ k @ ''&'' | None \<Rightarrow> '''')
      @ (case up_val p of Some v \<Rightarrow> ''val='' @ v @ ''&'' | None \<Rightarrow> '''')"
  have url: "url = butlast buf" "length buf < 128"
    using assms(1) by (simp_all add: url_encode_def buf_def Let_def split: if_splits)
  have hd: "length buf \<ge> 2" "hd buf = CHR ''/''" by (auto simp: buf_def split: option.splits)
  have "nonul buf" "CHR '' '' \<notin> set buf" "lf \<notin> set buf"
    using assms(2-4) by (cases "up_path p"; cases "up_key p"; cases "up_val p"; simp add: buf_def arg_ok_def)+
  then have "nonul url" "CHR '' '' \<notin> set url" "lf \<notin> set url"
    unfolding url(1) nonul_def by (meson in_set_butlastD)+
  moreover obtain c d t where "buf = c # d # t" using hd(1) by (metis Suc_le_length_iff numeral_2_eq_2)
  ultimately show ?thesis using hd(2) url by (simp add: url_text_ok_def)
qed

lemma send_all_written:
  "length (ob_body msg) \<le> LIBHTTP_MESSAGE_MAX_SIZE \<Longrightarrow> http_send_and_free all_written msg = Some (int (length (ob_body msg)), ob_body msg)"
  by (simp add: http_send_and_free_def send_loop_complete all_written_def)

lemma kvrequest_codec:
  assumes "kvrequest_ok r"
  shows "\<exists>bs. kvrequest_wire r = Some bs \<and> kvrequest_recieve bs = Some (Some r)"
proof -
  define p where "p = \<lparr>up_path = path_for_request_type (req_type r), up_key = req_key r, up_val = req_val r\<rparr>"
  obtain m where m: "http_method_for_request_type (req_type r) = Some m" "is_valid_method m"
    "request_type m p = Some (req_type r)"
    using assms by (cases "req_type r")
      (auto simp: kvrequest_ok_def http_method_for_request_type_def valid_method_cases request_type_def p_def
        path_for_request_type_def REGISTER_PATH_def COMMIT_PATH_def ABORT_PATH_def MSG_COMMIT_def)
  have path: "pred_option (\<lambda>p. length p \<le> 8 \<and> p \<noteq> [] \<and> arg_ok p \<and> CHR ''?'' \<notin> set p) (up_path p)"
    using path_for_request_type_bound [of "req_type r"] by (cases "path_for_request_type (req_type r)") (simp_all add: p_def)
  have args: "pred_option arg_ok (up_key p)" "pred_option arg_ok (up_val p)" "opt_len (up_key p) + opt_len (up_val p) \<le> 100"
    using assms by (simp_all add: kvrequest_ok_def p_def)
  have "url_params_ok p" using path args by (auto simp: url_params_ok_def arg_ok_def)
  moreover obtain url where url: "url_encode p = Some url"
    using path args(3) by (cases "up_path p"; cases "up_key p"; cases "up_val p") (auto simp: url_encode_def opt_len_def)
  ultimately have dec: "url_decode url = Some p" by (rule url_roundtrip_lemma)
  have ut: "url_text_ok url" "length url < 128"
    using url_encode_text [OF url _ args(1,2)] path by (auto simp: option.pred_set)
  define s where "s = m @ '' '' @ url @ '' '' @ ''HTTP/1.1'' @ [cr, lf, cr, lf]"
  have len: "length m \<le> 6" using valid_method_chars [OF m(2)] by simp
  have "length s \<le> LIBHTTP_MESSAGE_MAX_SIZE" using ut(2) len by (simp add: s_def LIBHTTP_MESSAGE_MAX_SIZE_def)
  then have "kvrequest_wire r = Some s"
    using m url ut(2) len send_all_written [of "\<lparr>ob_body = s\<rparr>"]
    by (simp add: kvrequest_wire_def kvrequest_send_def p_def [symmetric] http_start_request_def http_end_headers_def
        outbound_sprintf_def LIBHTTP_MESSAGE_MAX_SIZE_def s_def)
  moreover have "http_request_parse s = Some \<lparr>rq_method = m, rq_path = url\<rparr>"
    unfolding s_def by (rule parse_request_line [OF m(2) ut(1)]) (use ut(2) len in \<open>simp_all add: LIBHTTP_MESSAGE_MAX_SIZE_def\<close>)
  then have "kvrequest_recieve s = Some (Some r)"
    using dec m(3) by (simp add: kvrequest_recieve_def) (simp add: p_def)
  ultimately show ?thesis by blast
qed

lemma dec_0: "dec 0 = ''0''"
  by code_simp

lemma kvresponse_codec:
  assumes "kvresponse_ok r"
  shows "\<exists>bs. kvresponse_wire r = Some bs \<and> kvresponse_recieve bs = Some (Some (with_body r))"
proof -
  define c where "c = http_code_for_response_type (res_type r)"
  define body where "body = (case res_body r of None \<Rightarrow> '''' | Some b \<Rightarrow> b)"
  obtain msg where msg: "http_get_response_message c = Some msg" "kvresponse_get_status_code c = res_type r"
    using assms by (cases "res_type r")
      (auto simp: kvresponse_ok_def c_def http_code_for_response_type_def http_get_response_message_def kvresponse_get_status_code_def)
  note l = response_message_chars [OF msg(1)] length_dec_code [OF msg(1)]
  have body: "nonul body" "length body \<le> 8000"
    using assms by (auto simp: body_def kvresponse_ok_def opt_len_def split: option.splits)
  have digits: "length (dec (length body)) \<le> 4" by (rule length_dec_le) (use body in simp_all)
  define s where "s = response_text c msg (length body) body"
  have len: "length s \<le> LIBHTTP_MESSAGE_MAX_SIZE"
    using body digits l by (simp add: s_def length_response_text [OF msg(1)] LIBHTTP_MESSAGE_MAX_SIZE_def)
  have "kvresponse_wire r = Some s"
  proof (cases "res_body r")
    case None
    then have b: "body = []" "dec 0 = ''0''" by (simp_all add: body_def dec_0)
    show ?thesis
      using None msg l len send_all_written [of "\<lparr>ob_body = s\<rparr>"]
      by (simp add: kvresponse_wire_def kvresponse_send_def c_def [symmetric] http_start_response_def http_add_header_def
          http_end_headers_def http_add_string_def outbound_sprintf_def s_def response_text_def b LIBHTTP_MESSAGE_MAX_SIZE_def)
  next
    case (Some b)
    then have b: "b = body" by (simp add: body_def)
    show ?thesis
      using Some msg l len digits body send_all_written [of "\<lparr>ob_body = s\<rparr>"]
      by (simp add: kvresponse_wire_def kvresponse_send_def c_def [symmetric] http_start_response_def http_add_header_def
          http_end_headers_def http_add_string_def http_add_data_def outbound_sprintf_def s_def response_text_def b LIBHTTP_MESSAGE_MAX_SIZE_def)
  qed
  moreover have "http_response_parse s = Some (Some \<lparr>rs_status = c, rs_body = body\<rparr>)"
    using parse_response [OF msg(1) body(1), of "length body"] len body(2) by (simp add: s_def read_body_def)
  then have "kvresponse_recieve s = Some (Some (with_body r))"
    using msg(2) assms by (auto simp: kvresponse_recieve_def kvresponse_ok_def with_body_def body_def)
  ultimately show ?thesis by blast
qed

lemma kvrequest_send_length: "kvrequest_send all_written r = Some (n, bs) \<Longrightarrow> bs \<noteq> [] \<Longrightarrow> n = int (length bs)"
  by (auto simp: kvrequest_send_def bind_eq_Some_conv http_send_and_free_def all_written_def send_loop_complete
      split: option.splits if_splits)

interpretation req_codec: wire_codec kvrequest_ok "\<lambda>r. r" kvrequest_wire kvrequest_recieve
  by unfold_locales (rule kvrequest_codec)

interpretation res_codec: wire_codec kvresponse_ok with_body kvresponse_wire kvresponse_recieve
  by unfold_locales (rule kvresponse_codec)

section \<open>Properties\<close>

text \<open>C21. Round trip of requests: every request with the arguments its type needs, free of blanks,
  ampersands, line breaks and NUL and of at most 100 characters together, is sent, and what the peer
  receives is decoded into the same request.\<close>

theorem kvrequest_roundtrip:
  assumes "kvrequest_ok r"
  shows "\<exists>bs. kvrequest_send all_written r = Some (int (length bs), bs) \<and> kvrequest_recieve bs = Some (Some r)"
proof -
  obtain bs where bs: "kvrequest_wire r = Some bs" "kvrequest_recieve bs = Some (Some r)"
    using req_codec.encodes [OF assms] by blast
  then obtain n where n: "kvrequest_send all_written r = Some (n, bs)" by (auto simp: kvrequest_wire_def)
  have "n = int (length bs)" by (rule kvrequest_send_length [OF n]) (use bs(2) in \<open>auto simp: kvrequest_recieve_def http_request_parse_def\<close>)
  with n bs(2) show ?thesis by blast
qed

theorem kvrequest_roundtrip_witness:
  "\<exists>bs. kvrequest_send all_written \<lparr>req_type = PUTREQ, req_key = Some ''apple'', req_val = Some ''red''\<rparr> = Some (int (length bs), bs) \<and>
     kvrequest_recieve bs = Some (Some \<lparr>req_type = PUTREQ, req_key = Some ''apple'', req_val = Some ''red''\<rparr>)"
  by (rule kvrequest_roundtrip) (simp add: kvrequest_ok_def arg_ok_def opt_len_def)

text \<open>Round trip of responses: every response of a type that has a status code, with a body without
  NUL of at most 8000 characters, is sent, and what the peer receives is decoded, without leaving a
  buffer, into the same type and body (an absent body becomes the empty one).\<close>

theorem kvresponse_roundtrip:
  assumes "kvresponse_ok r"
  shows "\<exists>n bs. kvresponse_send all_written r = Some (n, bs) \<and> kvresponse_recieve bs = Some (Some (with_body r))"
  using res_codec.encodes [OF assms] by (auto simp: kvresponse_wire_def)

theorem kvresponse_roundtrip_witness:
  "\<exists>n bs. kvresponse_send all_written \<lparr>res_type = VOTE, res_body = Some MSG_COMMIT\<rparr> = Some (n, bs) \<and>
     kvresponse_recieve bs = Some (Some \<lparr>res_type = VOTE, res_body = Some MSG_COMMIT\<rparr>)"
  using kvresponse_roundtrip [of "\<lparr>res_type = VOTE, res_body = Some MSG_COMMIT\<rparr>"]
  by (simp add: kvresponse_ok_def opt_len_def MSG_COMMIT_def with_body_def)

text \<open>Messages are unambiguous: two requests that are sent as the same bytes are the same request, and
  two responses that are sent as the same bytes agree in type and body.\<close>

theorem kvmessage_unambiguous:
  "(kvrequest_ok r \<and> kvrequest_ok r' \<and> kvrequest_wire r = kvrequest_wire r' \<longrightarrow> r = r') \<and>
   (kvresponse_ok s \<and> kvresponse_ok s' \<and> kvresponse_wire s = kvresponse_wire s' \<longrightarrow> with_body s = with_body s')"
  using req_codec.unambiguous res_codec.unambiguous by blast

theorem kvmessage_unambiguous_witness:
  "kvrequest_wire \<lparr>req_type = COMMIT, req_key = None, req_val = None\<rparr> \<noteq>
   kvrequest_wire \<lparr>req_type = ABORT, req_key = None, req_val = None\<rparr>"
  using kvmessage_unambiguous [of "\<lparr>req_type = COMMIT, req_key = None, req_val = None\<rparr>" "\<lparr>req_type = ABORT, req_key = None, req_val = None\<rparr>"
      "\<lparr>res_type = ACK, res_body = None\<rparr>" "\<lparr>res_type = ACK, res_body = None\<rparr>"]
  by (auto simp: kvrequest_ok_def opt_len_def)

text \<open>C23. Receiving a request is safe: for every sequence of bytes a client may send,
  \<open>kvrequest_recieve\<close> returns, with NULL or with a request that carries the arguments its type
  needs.\<close>

theorem kvrequest_recieve_safe:
  "\<exists>r. kvrequest_recieve chunk = Some r \<and>
    (\<forall>q. r = Some q \<longrightarrow> req_type q \<in> {INDEX, GETREQ, PUTREQ, DELREQ, REGISTER, COMMIT, ABORT} \<and>
       (req_type q \<in> {GETREQ, PUTREQ, DELREQ, REGISTER} \<longrightarrow> req_key q \<noteq> None) \<and>
       (req_type q \<in> {PUTREQ, REGISTER} \<longrightarrow> req_val q \<noteq> None))"
proof (cases "http_request_parse chunk")
  case None
  then show ?thesis by (simp add: kvrequest_recieve_def)
next
  case (Some req)
  obtain p where "url_decode (rq_path req) = Some p" using url_decode_total by blast
  with Some show ?thesis
    by (auto simp: kvrequest_recieve_def request_type_def split: option.splits if_splits)
qed

theorem kvrequest_recieve_safe_witness: "\<exists>r. kvrequest_recieve ''DELETE /?=&='' = Some r"
  using kvrequest_recieve_safe [of "''DELETE /?=&=''"] by blast

end
