(* ===== verification/KvServer.thy ===== *)
theory KvServer
  imports TpcLog KvMessage
begin

text \<open>
  The follower server of \<open>hw4/src/kvserver.c\<close>: a store and a log in one directory, the pending
  request of the current two-phase-commit transaction, and the handler of incoming requests. Every
  operation takes the file system and the server and gives them back changed.

  The contract \<open>tpc_participant\<close> says what a leader may rely on: a participant votes, holds the
  request it voted for, and applies it on a commit and drops it on an abort.
\<close>

section \<open>State\<close>

record kvserver_t =
  kv_store :: kvstore_t
  kv_log :: tpclog_t
  kv_state :: tpc_state_t
  pending_msg :: msgtype_t
  pending_key :: "string option"
  pending_value :: "string option"
  kv_max_threads :: u32
  kv_port :: int
  kv_hostname :: string

section \<open>Store access\<close>

definition kvserver_get :: "fsys \<Rightarrow> kvserver_t \<Rightarrow> string \<Rightarrow> (int \<times> string option) option" where
  "kvserver_get fs server key =
     (if length key > MAX_KEYLEN then Some (ERRKEYLEN, None) else kvstore_get fs (kv_store server) key)"

definition kvserver_put_check :: "fsys \<Rightarrow> kvserver_t \<Rightarrow> string \<Rightarrow> string \<Rightarrow> int" where
  "kvserver_put_check fs server key val =
     (if length key > MAX_KEYLEN \<or> length key = 0 then ERRKEYLEN
      else if length val > MAX_VALLEN then ERRVALLEN
      else let check = kvstore_put_check fs (kv_store server) key val in
        if check < 0 then check else 0)"

definition kvserver_put :: "fsys \<Rightarrow> kvserver_t \<Rightarrow> string \<Rightarrow> string \<Rightarrow> (int \<times> fsys) option" where
  "kvserver_put fs server key val =
     (let ret = kvserver_put_check fs server key val in
      if ret < 0 then Some (ret, fs) else kvstore_put fs (kv_store server) key val)"

definition kvserver_del_check :: "fsys \<Rightarrow> kvserver_t \<Rightarrow> string \<Rightarrow> int option" where
  "kvserver_del_check fs server key =
     (if length key > MAX_KEYLEN \<or> length key = 0 then Some ERRKEYLEN
      else map_option (\<lambda>check. if check < 0 then check else 0) (kvstore_del_check fs (kv_store server) key))"

definition kvserver_del :: "fsys \<Rightarrow> kvserver_t \<Rightarrow> string \<Rightarrow> (int \<times> fsys) option" where
  "kvserver_del fs server key = do {
     ret \<leftarrow> kvserver_del_check fs server key;
     (if ret < 0 then Some (ret, fs) else kvstore_del fs (kv_store server) key)
   }"

section \<open>Requests\<close>

text \<open>What a commit does with the pending request, in \<open>kvserver_handle_tpc\<close> and in
  \<open>kvserver_rebuild_state\<close>; a pending request without its key or value makes \<open>strlen\<close> read
  from NULL. The results of the store operations are ignored.\<close>

definition clear_pending :: "kvserver_t \<Rightarrow> kvserver_t" where
  "clear_pending server = server\<lparr>pending_key := None, pending_value := None, pending_msg := EMPTY\<rparr>"

definition commit_pending :: "fsys \<Rightarrow> kvserver_t \<Rightarrow> (kvserver_t \<times> fsys) option" where
  "commit_pending fs server =
     (if pending_msg server = EMPTY then Some (server, fs)
      else if pending_msg server = PUTREQ then do {
        k \<leftarrow> pending_key server;
        v \<leftarrow> pending_value server;
        (_, fs') \<leftarrow> kvserver_put fs server k v;
        Some (clear_pending server, fs')
      }
      else if pending_msg server = DELREQ then do {
        k \<leftarrow> pending_key server;
        (_, fs') \<leftarrow> kvserver_del fs server k;
        Some (clear_pending server, fs')
      }
      else Some (server, fs))"

text \<open>The log is written through \<open>logg\<close>, a copy of the server's log structure: the files are
  changed, the \<open>nextid\<close> of the server is not.\<close>

definition log_request :: "fsys \<Rightarrow> kvserver_t \<Rightarrow> kvrequest_t \<Rightarrow> fsys option" where
  "log_request fs server req =
     (if req_type req \<noteq> GETREQ
      then map_option (\<lambda>(_, _, fs'). fs') (tpclog_log fs (kv_log server) (req_type req) (req_key req) (req_val req))
      else Some fs)"

definition kvserver_handle_tpc ::
  "fsys \<Rightarrow> kvserver_t \<Rightarrow> kvrequest_t \<Rightarrow> (kvresponse_t \<times> kvserver_t \<times> fsys) option" where
  "kvserver_handle_tpc fs server req = do {
     fs1 \<leftarrow> log_request fs server req;
     (case req_type req of
        PUTREQ \<Rightarrow> do {
          key \<leftarrow> req_key req;
          val \<leftarrow> req_val req;
          let _ = kvserver_put_check fs1 server key val;
          Some (\<lparr>res_type = VOTE, res_body = Some ''commit''\<rparr>,
                server\<lparr>pending_msg := PUTREQ, pending_key := Some key, pending_value := Some val\<rparr>, fs1)
        }
      | DELREQ \<Rightarrow> do {
          key \<leftarrow> req_key req;
          del_resp \<leftarrow> kvserver_del_check fs1 server key;
          (if del_resp = 0
           then Some (\<lparr>res_type = VOTE, res_body = Some ''commit''\<rparr>,
                      server\<lparr>pending_msg := DELREQ, pending_key := Some key, pending_value := None\<rparr>, fs1)
           else Some (\<lparr>res_type = ERROR, res_body = Some ERRMSG_INVALID_REQUEST\<rparr>, server, fs1))
        }
      | COMMIT \<Rightarrow> do {
          (server', fs2) \<leftarrow> commit_pending fs1 server;
          Some (\<lparr>res_type = ACK, res_body = None\<rparr>, server', fs2)
        }
      | ABORT \<Rightarrow> Some (\<lparr>res_type = ACK, res_body = None\<rparr>, clear_pending server, fs1)
      | GETREQ \<Rightarrow> do {
          key \<leftarrow> req_key req;
          (get_resp, val) \<leftarrow> kvserver_get fs1 server key;
          (if get_resp = 0
           then Some (\<lparr>res_type = GETRESP, res_body = val\<rparr>, server, fs1)
           else Some (\<lparr>res_type = ERROR, res_body = Some ERRMSG_NO_KEY\<rparr>, server, fs1))
        }
      | _ \<Rightarrow> Some (\<lparr>res_type = ERROR, res_body = Some ERRMSG_END_OF_HANDLE_TPC\<rparr>, server, fs1))
   }"

text \<open>What a connection gets: the bytes of a response, or the index page, which \<open>index_send\<close> of
  \<open>index.h\<close> writes.\<close>

datatype reply = Index_page | Reply_bytes bytes

definition kvserver_handle ::
  "int list \<Rightarrow> fsys \<Rightarrow> kvserver_t \<Rightarrow> bytes \<Rightarrow> (reply \<times> kvserver_t \<times> fsys) option" where
  "kvserver_handle ws fs server chunk = do {
     req \<leftarrow> kvrequest_recieve chunk;
     (case req of
        None \<Rightarrow> do {
          (_, sent) \<leftarrow> kvresponse_send ws \<lparr>res_type = ERROR, res_body = Some ERRMSG_INVALID_REQUEST\<rparr>;
          Some (Reply_bytes sent, server, fs)
        }
      | Some r \<Rightarrow>
          if req_type r = INDEX then Some (Index_page, server, fs)
          else do {
            (res, server', fs') \<leftarrow> kvserver_handle_tpc fs server r;
            (_, sent) \<leftarrow> kvresponse_send ws res;
            Some (Reply_bytes sent, server', fs')
          })
   }"

section \<open>Start and recovery\<close>

text \<open>The loop of \<open>kvserver_rebuild_state\<close>: \<open>newest\<close> is \<open>log_ent\<close> once \<open>flag\<close> is set.\<close>

partial_function (option) rebuild_loop ::
  "fsys \<Rightarrow> tpclog_t \<Rightarrow> logentry_t option option \<Rightarrow> logentry_t option option option" where
  "rebuild_loop fs log newest =
     (if tpclog_iterate_has_next fs log
      then (case tpclog_iterate_next fs log of None \<Rightarrow> None | Some (entry, log') \<Rightarrow> rebuild_loop fs log' (Some entry))
      else Some newest)"

text \<open>\<open>strcpy\<close> to \<open>server->pending_key\<close> writes to the block that pointer has: none, or one that
  must be long enough.\<close>

definition kvserver_rebuild_state :: "fsys \<Rightarrow> kvserver_t \<Rightarrow> (int \<times> kvserver_t \<times> fsys) option" where
  "kvserver_rebuild_state fs server = do {
     newest \<leftarrow> rebuild_loop fs (tpclog_iterate_begin (kv_log server)) None;
     (case newest of
        None \<Rightarrow> Some (-1, server, fs)
      | Some log_ent \<Rightarrow> do {
          ent \<leftarrow> log_ent;
          (if le_type ent = msgtype_code PUTREQ then do {
             val \<leftarrow> (if nul \<in> set (le_data ent) then kventry_value (le_data ent) else None);
             let key = cstr (le_data ent);
             let _ = kvserver_put_check fs server key val;
             Some (-1, server\<lparr>pending_msg := PUTREQ, pending_key := Some key, pending_value := Some val\<rparr>, fs)
           }
           else if le_type ent = msgtype_code DELREQ then do {
             key \<leftarrow> (if nul \<in> set (le_data ent) then Some (cstr (le_data ent)) else None);
             _ \<leftarrow> kvserver_del_check fs server key;
             old \<leftarrow> pending_key server;
             (if length key \<le> length old
              then Some (-1, server\<lparr>pending_msg := DELREQ, pending_key := Some key, pending_value := None\<rparr>, fs)
              else None)
           }
           else if le_type ent = msgtype_code COMMIT then do {
             (server', fs') \<leftarrow> commit_pending fs server;
             Some (-1, server', fs')
           }
           else if le_type ent = msgtype_code ABORT then Some (-1, clear_pending server, fs)
           else Some (-1, server, fs))
        })
   }"

text \<open>\<open>kvserver_init\<close> fills a structure that exists already: the members it does not set keep what
  was there.\<close>

definition kvserver_init ::
  "fsys \<Rightarrow> kvserver_t \<Rightarrow> string \<Rightarrow> u32 \<Rightarrow> string \<Rightarrow> int \<Rightarrow> (int \<times> kvserver_t \<times> fsys) option" where
  "kvserver_init fs server dirname max_threads hostname port =
     (case kvstore_init fs dirname of (ret, store, fs1) \<Rightarrow>
        let server1 = (case store of None \<Rightarrow> server | Some s \<Rightarrow> server\<lparr>kv_store := s\<rparr>) in
        if ret < 0 then Some (ret, server1, fs1)
        else do {
          (ret, log, fs2) \<leftarrow> tpclog_init fs1 (kv_log server1) dirname;
          let server2 = server1\<lparr>kv_log := log\<rparr>;
          (if ret < 0 then Some (ret, server2, fs2)
           else do {
             let server3 = server2\<lparr>kv_hostname := hostname, kv_port := port, kv_max_threads := max_threads,
                                   kv_state := TPC_INIT\<rparr>;
             (_, server4, fs3) \<leftarrow> kvserver_rebuild_state fs2 server3;
             Some (0, server4, fs3)
           })
        })"

text \<open>The port is printed into \<open>port_string\<close>, which has 6 bytes. \<open>chunk\<close> is the leader's
  answer.\<close>

definition dec_int :: "int \<Rightarrow> string" where
  "dec_int n = (if n < 0 then ''-'' @ dec (nat (- n)) else dec (nat n))"

definition kvserver_register_leader :: "int list \<Rightarrow> kvserver_t \<Rightarrow> bytes \<Rightarrow> (int \<times> bytes) option" where
  "kvserver_register_leader ws server chunk =
     (if length (dec_int (kv_port server)) \<ge> 6 then None
      else do {
        (_, sent) \<leftarrow> kvrequest_send ws
          \<lparr>req_type = REGISTER, req_key = Some (kv_hostname server), req_val = Some (dec_int (kv_port server))\<rparr>;
        res \<leftarrow> kvresponse_recieve chunk;
        Some (case res of None \<Rightarrow> 0 | Some r \<Rightarrow> if res_type r = SUCCESS then 1 else 0, sent)
      })"

definition kvserver_clean :: "fsys \<Rightarrow> kvserver_t \<Rightarrow> int \<times> fsys" where
  "kvserver_clean fs server = kvstore_clean fs (kv_store server)"

section \<open>Store access of a server\<close>

lemma kvstore_del_check_holds:
  assumes "kvstore_holds store fs m" "length k \<le> MAX_KEYLEN"
  shows "kvstore_del_check fs store k = Some (if m k = None then ERRNOKEY else 0)"
proof -
  obtain cs where "kv_chains fs (ks_dirname store) cs" using assms(1) by (auto simp: kvstore_holds_def)
  then have st: "fs_stat fs (ks_dirname store)" by (simp add: kv_chains_def dir_usable_stat)
  show ?thesis
  proof (cases "m k")
    case None
    with find_entry_absent [OF assms(1) None assms(2), of False] assms(2) st show ?thesis
      by (simp add: kvstore_del_check_def kvstore_haskey_def errcodes)
  next
    case (Some v)
    with find_entry_present [OF assms(1) Some, of False] assms(2) st show ?thesis
      by (auto simp: kvstore_del_check_def kvstore_haskey_def)
  qed
qed

lemma kvserver_del_check_holds:
  assumes "kvstore_holds (kv_store server) fs m"
  shows "kvserver_del_check fs server k =
    Some (if length k > MAX_KEYLEN \<or> k = [] then ERRKEYLEN else if m k = None then ERRNOKEY else 0)"
  using kvstore_del_check_holds [OF assms, of k] by (auto simp: kvserver_del_check_def errcodes)

lemma kvstore_holds_long: "kvstore_holds store fs m \<Longrightarrow> length k > MAX_KEYLEN \<Longrightarrow> m k = None"
  using kvstore_holds_entry_ok [of store fs m k] by (cases "m k") (auto simp: entry_ok_def)

lemma kvserver_put_holds:
  assumes "kvstore_holds (kv_store server) fs m" "nonul k" "nonul v" "card (dom (m(k \<mapsto> v))) < 2 ^ 31"
  shows "\<exists>r fs'. kvserver_put fs server k v = Some (r, fs') \<and> store_frame (ks_dirname (kv_store server)) fs fs' \<and>
    kvstore_holds (kv_store server) fs' (if k \<noteq> [] \<and> entry_ok k v then m(k \<mapsto> v) else m)"
proof (cases "k \<noteq> [] \<and> entry_ok k v")
  case True
  obtain fs' where fs': "kvstore_put fs (kv_store server) k v = Some (0, fs')"
    "kvstore_holds (kv_store server) fs' (m(k \<mapsto> v))" "store_frame (ks_dirname (kv_store server)) fs fs'"
    using kvstore_put_holds [OF assms(1) conjunct2 [OF True] assms(4)] by blast
  moreover have "kvserver_put_check fs server k v = 0"
    using fs'(1) True by (auto simp: kvserver_put_check_def kvstore_put_check_def entry_ok_def kvstore_put_def errcodes split: if_splits)
  ultimately show ?thesis using True by (simp add: kvserver_put_def del: fun_upd_apply)
next
  case False
  then have "kvserver_put_check fs server k v < 0"
    using assms(2,3) by (auto simp: kvserver_put_check_def entry_ok_def errcodes)
  with False assms(1) show ?thesis by (auto simp: kvserver_put_def)
qed

lemma kvserver_del_holds:
  assumes "kvstore_holds (kv_store server) fs m"
  shows "\<exists>r fs'. kvserver_del fs server k = Some (r, fs') \<and> store_frame (ks_dirname (kv_store server)) fs fs' \<and>
    kvstore_holds (kv_store server) fs' (if k = [] then m else m(k := None))"
proof (cases "k = [] \<or> m k = None")
  case True
  then have "kvserver_del fs server k = Some (if length k > MAX_KEYLEN \<or> k = [] then ERRKEYLEN else ERRNOKEY, fs)"
    using kvserver_del_check_holds [OF assms, of k] by (auto simp: kvserver_del_def errcodes)
  moreover have "(if k = [] then m else m(k := None)) = m" using True by (auto simp: fun_upd_idem)
  ultimately show ?thesis using assms by (auto simp del: fun_upd_apply)
next
  case False
  then obtain v where v: "m k = Some v" "k \<noteq> []" by auto
  have "length k \<le> MAX_KEYLEN" using kvstore_holds_long [OF assms, of k] v by fastforce
  then have "kvserver_del fs server k = kvstore_del fs (kv_store server) k"
    using kvserver_del_check_holds [OF assms, of k] v by (simp add: kvserver_del_def)
  with kvstore_del_holds [OF assms v(1)] v(2) show ?thesis by (auto simp del: fun_upd_apply)
qed

section \<open>The abstract participant\<close>

text \<open>The pending request of a server, as an operation on the map of its keys.\<close>

definition pending_op :: "kvserver_t \<Rightarrow> kv_op option" where
  "pending_op server =
     (if pending_msg server = PUTREQ then
        (case (pending_key server, pending_value server) of (Some k, Some v) \<Rightarrow> Some (Put k v) | _ \<Rightarrow> None)
      else if pending_msg server = DELREQ then map_option Del (pending_key server)
      else None)"

definition pending_wf :: "kvserver_t \<Rightarrow> bool" where
  "pending_wf server \<longleftrightarrow>
     (pending_msg server = PUTREQ \<longrightarrow> pending_key server \<noteq> None \<and> pending_value server \<noteq> None \<and>
        nonul (the (pending_key server)) \<and> nonul (the (pending_value server))) \<and>
     (pending_msg server = DELREQ \<longrightarrow> pending_key server \<noteq> None)"

text \<open>A server whose store holds \<open>m\<close> and that has voted for \<open>p\<close>.\<close>

definition server_holds :: "kvserver_t \<times> fsys \<Rightarrow> (string \<rightharpoonup> string) \<Rightarrow> kv_op option \<Rightarrow> bool" where
  "server_holds s m p \<longleftrightarrow>
     kvstore_holds (kv_store (fst s)) (snd s) m \<and> pending_wf (fst s) \<and> pending_op (fst s) = p"

text \<open>What a commit does to the map: an entry the server would refuse is dropped.\<close>

fun kv_commit :: "(string \<rightharpoonup> string) \<Rightarrow> kv_op option \<Rightarrow> (string \<rightharpoonup> string)" where
  "kv_commit m None = m"
| "kv_commit m (Some (Put k v)) = (if k \<noteq> [] \<and> entry_ok k v then m(k \<mapsto> v) else m)"
| "kv_commit m (Some (Del k)) = (if k = [] then m else m(k := None))"

definition put_request :: "string \<Rightarrow> string \<Rightarrow> kvrequest_t" where
  "put_request k v = \<lparr>req_type = PUTREQ, req_key = Some k, req_val = Some v\<rparr>"

definition del_request :: "string \<Rightarrow> kvrequest_t" where
  "del_request k = \<lparr>req_type = DELREQ, req_key = Some k, req_val = None\<rparr>"

definition get_request :: "string \<Rightarrow> kvrequest_t" where
  "get_request k = \<lparr>req_type = GETREQ, req_key = Some k, req_val = None\<rparr>"

definition decision_request :: "msgtype_t \<Rightarrow> kvrequest_t" where
  "decision_request t = \<lparr>req_type = t, req_key = None, req_val = None\<rparr>"

definition vote_commit :: kvresponse_t where
  "vote_commit = \<lparr>res_type = VOTE, res_body = Some ''commit''\<rparr>"

definition server_handle :: "kvserver_t \<times> fsys \<Rightarrow> kvrequest_t \<Rightarrow> (kvresponse_t \<times> kvserver_t \<times> fsys) option" where
  "server_handle s req = kvserver_handle_tpc (snd s) (fst s) req"

lemmas request_defs = put_request_def del_request_def get_request_def decision_request_def

text \<open>Logging a request with its arguments never fails to return and leaves the store alone.\<close>

lemma log_request_total:
  assumes "req_type req = PUTREQ \<Longrightarrow> req_key req \<noteq> None \<and> req_val req \<noteq> None" "req_type req = DELREQ \<Longrightarrow> req_key req \<noteq> None"
  shows "\<exists>fs'. log_request fs server req = Some fs'"
  using assms by (auto simp: log_request_def tpclog_log_def logentry_data_def Let_def split: option.split)

lemma log_request_store:
  assumes "kvstore_holds store fs m" "log_request fs server req = Some fs'"
  shows "kvstore_holds store fs' m"
  using assms tpclog_log_keeps_store by (fastforce simp: log_request_def split: if_splits)

lemma commit_pending_holds:
  assumes "server_holds (server, fs) m p" "card (dom m) + 1 < 2 ^ 31"
  shows "\<exists>server' fs'. commit_pending fs server = Some (server', fs') \<and> store_frame (ks_dirname (kv_store server)) fs fs' \<and>
    server_holds (server', fs') (kv_commit m p) None \<and> kv_store server' = kv_store server \<and> kv_log server' = kv_log server"
proof -
  have st: "kvstore_holds (kv_store server) fs m" and wf: "pending_wf server" and p: "pending_op server = p"
    using assms(1) by (simp_all add: server_holds_def)
  have fin: "finite (dom m)" using st by (simp add: kvstore_holds_def)
  have clr: "server_holds (clear_pending server, fs') m' None" if "kvstore_holds (kv_store server) fs' m'" for fs' m'
    using that by (simp add: server_holds_def clear_pending_def pending_wf_def pending_op_def)
  consider (put) "pending_msg server = PUTREQ" | (del) "pending_msg server = DELREQ"
    | (none) "pending_msg server \<noteq> PUTREQ" "pending_msg server \<noteq> DELREQ" by blast
  then show ?thesis
  proof cases
    case put
    then obtain k v where kv: "pending_key server = Some k" "pending_value server = Some v" "nonul k" "nonul v"
      using wf by (auto simp: pending_wf_def)
    have "card (dom (m(k \<mapsto> v))) < 2 ^ 31" using assms(2) fin by (auto simp: card_insert_if)
    from kvserver_put_holds [OF st kv(3,4) this] obtain r fs' where fs': "kvserver_put fs server k v = Some (r, fs')"
      "store_frame (ks_dirname (kv_store server)) fs fs'" "kvstore_holds (kv_store server) fs' (kv_commit m p)"
      using put kv p by (auto simp: pending_op_def)
    then show ?thesis using put kv clr [OF fs'(3)] by (simp add: commit_pending_def clear_pending_def)
  next
    case del
    then obtain k where k: "pending_key server = Some k" using wf by (auto simp: pending_wf_def)
    from kvserver_del_holds [OF st, of k] obtain r fs' where fs': "kvserver_del fs server k = Some (r, fs')"
      "store_frame (ks_dirname (kv_store server)) fs fs'" "kvstore_holds (kv_store server) fs' (kv_commit m p)"
      using del k p by (auto simp: pending_op_def)
    then show ?thesis using del k clr [OF fs'(3)] by (simp add: commit_pending_def clear_pending_def)
  next
    case none
    then have "p = None" "commit_pending fs server = Some (server, fs)"
      using p by (auto simp: pending_op_def commit_pending_def)
    with assms(1) show ?thesis by simp
  qed
qed

section \<open>The handler, request by request\<close>

lemma server_put_request:
  assumes "server_holds s m p" "req_type req = PUTREQ" "req_key req = Some k" "req_val req = Some v" "nonul k" "nonul v"
  shows "\<exists>s'. server_handle s req = Some (vote_commit, s') \<and> server_holds s' m (Some (Put k v))"
proof -
  obtain fs1 where fs1: "log_request (snd s) (fst s) req = Some fs1"
    using log_request_total [of req "snd s" "fst s"] assms(2-4) by auto
  have "kvstore_holds (kv_store (fst s)) fs1 m"
    using assms(1) log_request_store [OF _ fs1] by (simp add: server_holds_def)
  with fs1 assms show ?thesis
    by (auto simp: server_handle_def kvserver_handle_tpc_def vote_commit_def server_holds_def pending_wf_def pending_op_def)
qed

lemma server_del_request:
  assumes "server_holds s m p" "req_type req = DELREQ" "req_key req = Some k"
  shows "\<exists>s'. server_handle s req =
      Some (if k \<noteq> [] \<and> m k \<noteq> None then vote_commit else \<lparr>res_type = ERROR, res_body = Some ERRMSG_INVALID_REQUEST\<rparr>, s') \<and>
    server_holds s' m (if k \<noteq> [] \<and> m k \<noteq> None then Some (Del k) else p)"
proof -
  obtain fs1 where fs1: "log_request (snd s) (fst s) req = Some fs1"
    using log_request_total [of req "snd s" "fst s"] assms(2,3) by auto
  have h: "kvstore_holds (kv_store (fst s)) fs1 m"
    using assms(1) log_request_store [OF _ fs1] by (simp add: server_holds_def)
  have chk: "kvserver_del_check fs1 (fst s) k = Some (if length k > MAX_KEYLEN \<or> k = [] then ERRKEYLEN else if m k = None then ERRNOKEY else 0)"
    by (rule kvserver_del_check_holds [OF h])
  show ?thesis
  proof (cases "k \<noteq> [] \<and> m k \<noteq> None")
    case True
    then have "\<not> length k > MAX_KEYLEN" using kvstore_holds_long [OF h, of k] by auto
    with True chk have "kvserver_del_check fs1 (fst s) k = Some 0" by auto
    then have run: "server_handle s req = Some (vote_commit,
        (fst s)\<lparr>pending_msg := DELREQ, pending_key := Some k, pending_value := None\<rparr>, fs1)"
      using fs1 assms(2,3) by (simp add: server_handle_def kvserver_handle_tpc_def vote_commit_def)
    have "server_holds ((fst s)\<lparr>pending_msg := DELREQ, pending_key := Some k, pending_value := None\<rparr>, fs1) m (Some (Del k))"
      using h by (simp add: server_holds_def pending_wf_def pending_op_def)
    with run True show ?thesis by auto
  next
    case False
    then obtain r where "kvserver_del_check fs1 (fst s) k = Some r" "r \<noteq> 0" using chk by (auto simp: errcodes)
    then have run: "server_handle s req = Some (\<lparr>res_type = ERROR, res_body = Some ERRMSG_INVALID_REQUEST\<rparr>, fst s, fs1)"
      using fs1 assms(2,3) by (simp add: server_handle_def kvserver_handle_tpc_def)
    have "server_holds (fst s, fs1) m p" using h assms(1) by (simp add: server_holds_def)
    with run False show ?thesis by auto
  qed
qed

lemma server_commit_request:
  assumes "server_holds s m p" "req_type req = COMMIT" "card (dom m) + 1 < 2 ^ 31"
  shows "\<exists>s'. server_handle s req = Some (\<lparr>res_type = ACK, res_body = None\<rparr>, s') \<and> server_holds s' (kv_commit m p) None"
proof -
  obtain fs1 where fs1: "log_request (snd s) (fst s) req = Some fs1"
    using log_request_total [of req "snd s" "fst s"] assms(2) by auto
  have "server_holds (fst s, fs1) m p" using assms(1) log_request_store [OF _ fs1] by (simp add: server_holds_def)
  from commit_pending_holds [OF this assms(3)] fs1 assms(2) show ?thesis
    by (auto simp: server_handle_def kvserver_handle_tpc_def)
qed

lemma server_abort_request:
  assumes "server_holds s m p" "req_type req = ABORT"
  shows "\<exists>s'. server_handle s req = Some (\<lparr>res_type = ACK, res_body = None\<rparr>, s') \<and> server_holds s' m None"
proof -
  obtain fs1 where fs1: "log_request (snd s) (fst s) req = Some fs1"
    using log_request_total [of req "snd s" "fst s"] assms(2) by auto
  with assms log_request_store [OF _ fs1] show ?thesis
    by (auto simp: server_handle_def kvserver_handle_tpc_def server_holds_def clear_pending_def pending_wf_def pending_op_def)
qed

lemma server_get_request:
  assumes "server_holds s m p" "req_type req = GETREQ" "req_key req = Some k"
  shows "server_handle s req = Some (case m k of
      None \<Rightarrow> \<lparr>res_type = ERROR, res_body = Some ERRMSG_NO_KEY\<rparr> | Some v \<Rightarrow> \<lparr>res_type = GETRESP, res_body = Some v\<rparr>, s)"
proof -
  have h: "kvstore_holds (kv_store (fst s)) (snd s) m" using assms(1) by (simp add: server_holds_def)
  have "kvserver_get (snd s) (fst s) k =
      Some (case m k of None \<Rightarrow> (if length k > MAX_KEYLEN then ERRKEYLEN else ERRNOKEY, None) | Some v \<Rightarrow> (0, Some v))"
    using kvs.get_iff [OF h, of k] kvstore_holds_long [OF h, of k] by (auto simp: kvserver_get_def split: option.split)
  with assms(2,3) show ?thesis
    by (auto simp: server_handle_def kvserver_handle_tpc_def log_request_def errcodes split: option.split)
qed

lemma server_other_request:
  assumes "server_holds s m p" "req_type req \<notin> {PUTREQ, DELREQ, COMMIT, ABORT, GETREQ}"
  shows "server_handle s req = Some (\<lparr>res_type = ERROR, res_body = Some ERRMSG_END_OF_HANDLE_TPC\<rparr>, s)"
proof -
  have "log_request (snd s) (fst s) req = Some (snd s)"
    using assms(2) by (simp add: log_request_def tpclog_log_def)
  with assms(2) show ?thesis
    by (cases "req_type req") (simp_all add: server_handle_def kvserver_handle_tpc_def)
qed

section \<open>The contract of a participant\<close>

locale tpc_participant =
  fixes holds :: "'s \<Rightarrow> (string \<rightharpoonup> string) \<Rightarrow> kv_op option \<Rightarrow> bool"
    and handle :: "'s \<Rightarrow> kvrequest_t \<Rightarrow> (kvresponse_t \<times> 's) option"
  assumes prepare_put: "holds s m p \<Longrightarrow> nonul k \<Longrightarrow> nonul v \<Longrightarrow>
      \<exists>s'. handle s (put_request k v) = Some (vote_commit, s') \<and> holds s' m (Some (Put k v))"
    and prepare_del: "holds s m p \<Longrightarrow> k \<noteq> [] \<Longrightarrow> m k \<noteq> None \<Longrightarrow>
      \<exists>s'. handle s (del_request k) = Some (vote_commit, s') \<and> holds s' m (Some (Del k))"
    and refuse_del: "holds s m p \<Longrightarrow> k = [] \<or> m k = None \<Longrightarrow>
      \<exists>s'. handle s (del_request k) = Some (\<lparr>res_type = ERROR, res_body = Some ERRMSG_INVALID_REQUEST\<rparr>, s') \<and> holds s' m p"
    and commit: "holds s m p \<Longrightarrow> card (dom m) + 1 < 2 ^ 31 \<Longrightarrow>
      \<exists>s'. handle s (decision_request COMMIT) = Some (\<lparr>res_type = ACK, res_body = None\<rparr>, s') \<and> holds s' (kv_commit m p) None"
    and abort: "holds s m p \<Longrightarrow>
      \<exists>s'. handle s (decision_request ABORT) = Some (\<lparr>res_type = ACK, res_body = None\<rparr>, s') \<and> holds s' m None"
    and lookup: "holds s m p \<Longrightarrow>
      \<exists>s'. handle s (get_request k) = Some (case m k of
        None \<Rightarrow> \<lparr>res_type = ERROR, res_body = Some ERRMSG_NO_KEY\<rparr> | Some v \<Rightarrow> \<lparr>res_type = GETRESP, res_body = Some v\<rparr>, s') \<and> holds s' m p"
begin

text \<open>A request followed by the decision: the transaction takes effect exactly on a commit.\<close>

definition transact :: "'s \<Rightarrow> kvrequest_t \<Rightarrow> msgtype_t \<Rightarrow> (kvresponse_t \<times> kvresponse_t \<times> 's) option" where
  "transact s req decision = do { (v, s1) \<leftarrow> handle s req; (a, s2) \<leftarrow> handle s1 (decision_request decision); Some (v, a, s2) }"

lemma transact_commit:
  assumes "holds s m p" "nonul k" "nonul v" "card (dom m) + 1 < 2 ^ 31"
  shows "\<exists>s'. transact s (put_request k v) COMMIT = Some (vote_commit, \<lparr>res_type = ACK, res_body = None\<rparr>, s') \<and>
    holds s' (kv_commit m (Some (Put k v))) None"
proof -
  obtain s1 where s1: "handle s (put_request k v) = Some (vote_commit, s1)" "holds s1 m (Some (Put k v))"
    using prepare_put [OF assms(1-3)] by blast
  with commit [OF s1(2) assms(4)] show ?thesis by (auto simp: transact_def simp del: kv_commit.simps)
qed

lemma transact_abort:
  assumes "holds s m p" "nonul k" "nonul v"
  shows "\<exists>s'. transact s (put_request k v) ABORT = Some (vote_commit, \<lparr>res_type = ACK, res_body = None\<rparr>, s') \<and> holds s' m None"
proof -
  obtain s1 where s1: "handle s (put_request k v) = Some (vote_commit, s1)" "holds s1 m (Some (Put k v))"
    using prepare_put [OF assms] by blast
  with abort [OF s1(2)] show ?thesis by (auto simp: transact_def)
qed

text \<open>A decision that arrives again changes nothing more.\<close>

lemma commit_again:
  assumes "holds s m p" "card (dom (kv_commit m p)) + 1 < 2 ^ 31" "card (dom m) + 1 < 2 ^ 31"
  shows "\<exists>s' s''. handle s (decision_request COMMIT) = Some (\<lparr>res_type = ACK, res_body = None\<rparr>, s') \<and>
    handle s' (decision_request COMMIT) = Some (\<lparr>res_type = ACK, res_body = None\<rparr>, s'') \<and> holds s'' (kv_commit m p) None"
proof -
  obtain s' where s': "handle s (decision_request COMMIT) = Some (\<lparr>res_type = ACK, res_body = None\<rparr>, s')" "holds s' (kv_commit m p) None"
    using commit [OF assms(1,3)] by blast
  from commit [OF s'(2) assms(2)] s'(1) show ?thesis by auto
qed

end

interpretation follower: tpc_participant server_holds server_handle
proof unfold_locales
  fix s m p k v
  show "server_holds s m p \<Longrightarrow> nonul k \<Longrightarrow> nonul v \<Longrightarrow>
      \<exists>s'. server_handle s (put_request k v) = Some (vote_commit, s') \<and> server_holds s' m (Some (Put k v))"
    using server_put_request [of s m p "put_request k v"] by (simp add: put_request_def)
  show "server_holds s m p \<Longrightarrow> k \<noteq> [] \<Longrightarrow> m k \<noteq> None \<Longrightarrow>
      \<exists>s'. server_handle s (del_request k) = Some (vote_commit, s') \<and> server_holds s' m (Some (Del k))"
    using server_del_request [of s m p "del_request k" k] by (simp add: del_request_def)
  show "server_holds s m p \<Longrightarrow> k = [] \<or> m k = None \<Longrightarrow>
      \<exists>s'. server_handle s (del_request k) = Some (\<lparr>res_type = ERROR, res_body = Some ERRMSG_INVALID_REQUEST\<rparr>, s') \<and> server_holds s' m p"
    using server_del_request [of s m p "del_request k" k] by (auto simp: del_request_def)
  show "server_holds s m p \<Longrightarrow> card (dom m) + 1 < 2 ^ 31 \<Longrightarrow>
      \<exists>s'. server_handle s (decision_request COMMIT) = Some (\<lparr>res_type = ACK, res_body = None\<rparr>, s') \<and> server_holds s' (kv_commit m p) None"
    by (rule server_commit_request) (simp_all add: decision_request_def)
  show "server_holds s m p \<Longrightarrow>
      \<exists>s'. server_handle s (decision_request ABORT) = Some (\<lparr>res_type = ACK, res_body = None\<rparr>, s') \<and> server_holds s' m None"
    by (rule server_abort_request) (simp_all add: decision_request_def)
  show "server_holds s m p \<Longrightarrow> \<exists>s'. server_handle s (get_request k) = Some (case m k of
        None \<Rightarrow> \<lparr>res_type = ERROR, res_body = Some ERRMSG_NO_KEY\<rparr> | Some v \<Rightarrow> \<lparr>res_type = GETRESP, res_body = Some v\<rparr>, s') \<and> server_holds s' m p"
    using server_get_request [of s m p "get_request k" k] by (simp add: get_request_def)
qed

section \<open>The specification of a participant\<close>

text \<open>What a participant that holds \<open>m\<close> and has voted for \<open>p\<close> answers to a request, and
  what it holds afterwards.\<close>

definition participant_step ::
  "(string \<rightharpoonup> string) \<times> kv_op option \<Rightarrow> kvrequest_t \<Rightarrow> kvresponse_t \<times> (string \<rightharpoonup> string) \<times> kv_op option" where
  "participant_step a req = (case a of (m, p) \<Rightarrow> (case req_type req of
     PUTREQ \<Rightarrow> (vote_commit, m, Some (Put (the (req_key req)) (the (req_val req))))
   | DELREQ \<Rightarrow> let k = the (req_key req) in
       if k \<noteq> [] \<and> m k \<noteq> None then (vote_commit, m, Some (Del k))
       else (\<lparr>res_type = ERROR, res_body = Some ERRMSG_INVALID_REQUEST\<rparr>, m, p)
   | COMMIT \<Rightarrow> (\<lparr>res_type = ACK, res_body = None\<rparr>, kv_commit m p, None)
   | ABORT \<Rightarrow> (\<lparr>res_type = ACK, res_body = None\<rparr>, m, None)
   | GETREQ \<Rightarrow> (case m (the (req_key req)) of
        None \<Rightarrow> (\<lparr>res_type = ERROR, res_body = Some ERRMSG_NO_KEY\<rparr>, m, p)
      | Some v \<Rightarrow> (\<lparr>res_type = GETRESP, res_body = Some v\<rparr>, m, p))
   | _ \<Rightarrow> (\<lparr>res_type = ERROR, res_body = Some ERRMSG_END_OF_HANDLE_TPC\<rparr>, m, p)))"

fun participant_run ::
  "(string \<rightharpoonup> string) \<times> kv_op option \<Rightarrow> kvrequest_t list \<Rightarrow> kvresponse_t list \<times> (string \<rightharpoonup> string) \<times> kv_op option" where
  "participant_run a [] = ([], a)"
| "participant_run a (r # rs) = (case participant_step a r of (res, a') \<Rightarrow>
     case participant_run a' rs of (ress, a'') \<Rightarrow> (res # ress, a''))"

fun server_requests :: "kvserver_t \<times> fsys \<Rightarrow> kvrequest_t list \<Rightarrow> (kvresponse_t list \<times> kvserver_t \<times> fsys) option" where
  "server_requests s [] = Some ([], s)"
| "server_requests s (r # rs) = do {
     (res, s') \<leftarrow> server_handle s r;
     (ress, s'') \<leftarrow> server_requests s' rs;
     Some (res # ress, s'')
   }"

text \<open>A request carries the arguments of its type, as \<open>kvrequest_recieve\<close> makes sure.\<close>

definition req_args_ok :: "kvrequest_t \<Rightarrow> bool" where
  "req_args_ok req \<longleftrightarrow>
     (req_type req \<in> {GETREQ, PUTREQ, DELREQ} \<longrightarrow> req_key req \<noteq> None) \<and> (req_type req = PUTREQ \<longrightarrow> req_val req \<noteq> None) \<and>
     pred_option nonul (req_key req) \<and> pred_option nonul (req_val req)"

lemma server_step:
  assumes "server_holds s m p" "req_args_ok req" "card (dom m) + 1 < 2 ^ 31"
  shows "\<exists>s'. server_handle s req = Some (fst (participant_step (m, p) req), s') \<and>
    server_holds s' (fst (snd (participant_step (m, p) req))) (snd (snd (participant_step (m, p) req)))"
proof -
  consider (put) k v where "req_type req = PUTREQ" "req_key req = Some k" "req_val req = Some v" "nonul k" "nonul v"
    | (del) k where "req_type req = DELREQ" "req_key req = Some k" | (commit) "req_type req = COMMIT" | (abort) "req_type req = ABORT"
    | (get) k where "req_type req = GETREQ" "req_key req = Some k" | (other) "req_type req \<notin> {PUTREQ, DELREQ, COMMIT, ABORT, GETREQ}"
    using assms(2) by (cases "req_type req") (auto simp: req_args_ok_def)
  then show ?thesis
  proof cases
    case (put k v)
    then show ?thesis using server_put_request [OF assms(1)] by (simp add: participant_step_def)
  next
    case (del k)
    then show ?thesis using server_del_request [OF assms(1) del] by (auto simp: participant_step_def Let_def)
  next
    case commit
    then show ?thesis using server_commit_request [OF assms(1) commit assms(3)] by (simp add: participant_step_def)
  next
    case abort
    then show ?thesis using server_abort_request [OF assms(1) abort] by (simp add: participant_step_def)
  next
    case (get k)
    then show ?thesis using server_get_request [OF assms(1) get] assms(1) by (auto simp: participant_step_def split: option.split)
  next
    case other
    then have "participant_step (m, p) req = (\<lparr>res_type = ERROR, res_body = Some ERRMSG_END_OF_HANDLE_TPC\<rparr>, m, p)"
      by (cases "req_type req") (simp_all add: participant_step_def)
    with server_other_request [OF assms(1) other] assms(1) show ?thesis by simp
  qed
qed

lemma kv_commit_card: "finite (dom m) \<Longrightarrow> finite (dom (kv_commit m p)) \<and> card (dom (kv_commit m p)) \<le> card (dom m) + 1"
proof (induction m p rule: kv_commit.induct)
  case (3 m k)
  then show ?case using card_Diff1_le [of "dom m" k] by auto
qed (auto simp: card_insert_if)

lemma participant_step_card:
  "finite (dom m) \<Longrightarrow> card (dom (fst (snd (participant_step (m, p) req)))) \<le> card (dom m) + 1"
  using kv_commit_card [of m p] by (auto simp: participant_step_def Let_def split: msgtype_t.split option.split)

lemma server_requests_refine:
  "server_holds s m p \<Longrightarrow> list_all req_args_ok reqs \<Longrightarrow> card (dom m) + length reqs < 2 ^ 31 \<Longrightarrow>
   \<exists>s'. server_requests s reqs = Some (fst (participant_run (m, p) reqs), s') \<and>
     server_holds s' (fst (snd (participant_run (m, p) reqs))) (snd (snd (participant_run (m, p) reqs)))"
proof (induction reqs arbitrary: s m p)
  case (Cons req reqs)
  obtain res m1 p1 where step: "participant_step (m, p) req = (res, m1, p1)" by (cases "participant_step (m, p) req")
  have ok: "req_args_ok req" "list_all req_args_ok reqs" using Cons.prems(2) by simp_all
  obtain s1 where s1: "server_handle s req = Some (res, s1)" "server_holds s1 m1 p1"
    using server_step [OF Cons.prems(1) ok(1)] Cons.prems(3) by (auto simp: step)
  have "finite (dom m)" using Cons.prems(1) by (simp add: server_holds_def kvstore_holds_def)
  then have "card (dom m1) + length reqs < 2 ^ 31"
    using participant_step_card [of m p req] Cons.prems(3) by (simp add: step)
  from Cons.IH [OF s1(2) ok(2) this] s1(1) show ?case by (auto simp: step split: prod.split)
qed simp

section \<open>Recovery\<close>

lemma rebuild_loop_from:
  assumes files: "log_files fs d rs"
  shows "tl_dirname log = d \<Longrightarrow> i \<le> length rs \<Longrightarrow> iterpos log = of_nat i \<Longrightarrow>
    rebuild_loop fs log newest = Some (if i = length rs then newest else Some (Some (logrec_entry (last rs))))"
proof (induction "length rs - i" arbitrary: i log newest)
  case 0
  moreover have "length rs < 2 ^ 64" using files by (simp add: log_files_def)
  ultimately show ?case
    using files by (subst rebuild_loop.simps) (simp add: tpclog_iterate_has_next_def unat_of_nat64)
next
  case (Suc n)
  define log' where "log' = log\<lparr>iterpos := iterpos log + 1\<rparr>"
  have i: "i < length rs" "length rs < 2 ^ 64" using Suc.hyps(2) files by (auto simp: log_files_def)
  then have u: "unat (iterpos log) = i" using Suc.prems(3) by (simp add: unat_of_nat64)
  have nxt: "tpclog_iterate_has_next fs log"
    "tpclog_iterate_next fs log = Some (Some (logrec_entry (rs ! i)), log')"
    using files i log_read [OF files i(1)] Suc.prems(1)
    by (simp_all add: tpclog_iterate_has_next_def tpclog_iterate_next_def u log'_def)
  have "rebuild_loop fs log' (Some (Some (logrec_entry (rs ! i)))) =
      Some (if Suc i = length rs then Some (Some (logrec_entry (rs ! i))) else Some (Some (logrec_entry (last rs))))"
    by (rule Suc.hyps(1)) (use Suc.hyps(2) Suc.prems i in \<open>simp_all add: log'_def\<close>)
  moreover have "Suc i = length rs \<Longrightarrow> rs ! i = last rs" using i(1) by (metis diff_Suc_1 last_conv_nth list.size(3) not_less_zero)
  ultimately show ?case using nxt i(1) by (subst rebuild_loop.simps) auto
qed

text \<open>The server that \<open>kvserver_init\<close> has set up before it looks at the log.\<close>

definition fresh_server :: "kvserver_t \<Rightarrow> string \<Rightarrow> nat \<Rightarrow> u32 \<Rightarrow> string \<Rightarrow> int \<Rightarrow> kvserver_t" where
  "fresh_server old d n threads host port = old\<lparr>kv_store := \<lparr>ks_dirname = d\<rparr>,
     kv_log := (kv_log old)\<lparr>tl_dirname := d, nextid := of_nat n\<rparr>, kv_hostname := host, kv_port := port,
     kv_max_threads := threads, kv_state := TPC_INIT\<rparr>"

lemma log_files_bound: "log_files fs d rs \<Longrightarrow> length rs < 2 ^ 64"
  by (simp add: log_files_def)

lemma kvserver_init_rebuild:
  assumes files: "log_files fs d rs"
  shows "kvserver_init fs old d threads host port =
    map_option (\<lambda>(_, server, fs'). (0, server, fs')) (kvserver_rebuild_state fs (fresh_server old d (length rs) threads host port))"
proof -
  have st: "fs_stat fs d" using files log_usable_stat by (simp add: log_files_def)
  have "tpclog_init fs log d = Some (0, log\<lparr>tl_dirname := d, nextid := of_nat (length rs)\<rparr>, fs)" for log
    by (rule tpclog_init_first) (use log_stat [OF files] log_files_bound [OF files] st in auto)
  with st show ?thesis
    by (simp add: kvserver_init_def kvstore_init_def fresh_server_def map_option_case split: option.split)
qed

lemma kvserver_rebuild_last:
  assumes "log_files fs d rs" "rs \<noteq> []" "tl_dirname (kv_log server) = d"
  shows "rebuild_loop fs (tpclog_iterate_begin (kv_log server)) None = Some (Some (Some (logrec_entry (last rs))))"
  using rebuild_loop_from [OF assms(1), of "tpclog_iterate_begin (kv_log server)" 0] assms(2,3)
  by (simp add: tpclog_iterate_begin_def)

lemma fresh_server_log [simp]: "tl_dirname (kv_log (fresh_server old d n threads host port)) = d"
  by (simp add: fresh_server_def)

lemma fresh_server_pending [simp]:
  "pending_msg (fresh_server old d n threads host port) = pending_msg old"
  "pending_key (fresh_server old d n threads host port) = pending_key old"
  "pending_value (fresh_server old d n threads host port) = pending_value old"
  "kv_store (fresh_server old d n threads host port) = \<lparr>ks_dirname = d\<rparr>"
  by (simp_all add: fresh_server_def)

lemma rebuild_put:
  assumes "log_files fs d (rs @ [LPut k v])" "tl_dirname (kv_log server) = d" "nonul k" "nonul v"
  shows "kvserver_rebuild_state fs server =
    Some (-1, server\<lparr>pending_msg := PUTREQ, pending_key := Some k, pending_value := Some v\<rparr>, fs)"
  using kvserver_rebuild_last [OF assms(1) _ assms(2)] assms(3,4)
  by (simp add: kvserver_rebuild_state_def logrec_entry_def kventry_value_data)

lemma rebuild_abort:
  assumes "log_files fs d (rs @ [LAbort])" "tl_dirname (kv_log server) = d"
  shows "kvserver_rebuild_state fs server = Some (-1, clear_pending server, fs)"
  using kvserver_rebuild_last [OF assms(1) _ assms(2)]
  by (simp add: kvserver_rebuild_state_def logrec_entry_def)

lemma rebuild_commit:
  assumes "log_files fs d (rs @ [LCommit])" "tl_dirname (kv_log server) = d"
  shows "kvserver_rebuild_state fs server = map_option (\<lambda>(server', fs'). (-1, server', fs')) (commit_pending fs server)"
  using kvserver_rebuild_last [OF assms(1) _ assms(2)]
  by (simp add: kvserver_rebuild_state_def logrec_entry_def map_option_case split: option.split)

lemma rebuild_del:
  assumes "log_files fs d (rs @ [LDel k])" "tl_dirname (kv_log server) = d" "pending_key server = None" "nonul k"
    "kvstore_holds (kv_store server) fs m"
  shows "kvserver_rebuild_state fs server = None"
  using kvserver_rebuild_last [OF assms(1) _ assms(2)] assms(3,4) kvserver_del_check_holds [OF assms(5), of k]
  by (simp add: kvserver_rebuild_state_def logrec_entry_def)

section \<open>The log of a running server\<close>

text \<open>The record a request leaves in the log.\<close>

definition req_logrec :: "kvrequest_t \<Rightarrow> logrec" where
  "req_logrec req = (case req_type req of
     PUTREQ \<Rightarrow> LPut (the (req_key req)) (the (req_val req)) | DELREQ \<Rightarrow> LDel (the (req_key req))
   | ABORT \<Rightarrow> LAbort | _ \<Rightarrow> LCommit)"

definition loggable :: "kvrequest_t \<Rightarrow> bool" where
  "loggable req \<longleftrightarrow> req_type req \<in> {PUTREQ, DELREQ, ABORT, COMMIT}"

lemma log_request_frame:
  assumes "log_request fs server req = Some fs'"
  shows "fs_dir fs' = fs_dir fs \<and> denied fs' = denied fs \<and> privileged fs' = privileged fs"
  using assms by (auto simp: log_request_def split: if_splits dest!: tpclog_log_frame)

text \<open>The first request after a start is appended to the log.\<close>

lemma log_request_first:
  assumes "log_holds (fs, kv_log server) rs" "loggable req" "req_args_ok req" "logrec_ok (req_logrec req)" "length rs + 1 < 2 ^ 64"
    "log_request fs server req = Some fs'"
  shows "log_files fs' (tl_dirname (kv_log server)) (rs @ [req_logrec req])"
proof -
  have same: "tpclog_log fs (kv_log server) (req_type req) (req_key req) (req_val req) =
      tpclog_log fs (kv_log server) (logrec_type (req_logrec req)) (logrec_key (req_logrec req)) (logrec_val (req_logrec req))"
    using assms(2,3)
    by (auto simp: loggable_def req_args_ok_def req_logrec_def tpclog_log_def logentry_data_def Let_def split: option.split)
  obtain s' where s': "tpclog_append (fs, kv_log server) (req_logrec req) = Some (0, s')" "log_holds s' (rs @ [req_logrec req])"
    using log_append [OF assms(1,4,5)] by blast
  then obtain log' where l: "tpclog_log fs (kv_log server) (req_type req) (req_key req) (req_val req) = Some (0, log', fst s')"
    "snd s' = log'"
    unfolding same by (auto simp: tpclog_append_def)
  have "tl_dirname log' = tl_dirname (kv_log server)" using tpclog_log_frame [OF l(1)] by simp
  moreover have "fs' = fst s'" using assms(2,6) l(1) by (auto simp: log_request_def loggable_def)
  ultimately show ?thesis using s'(2) l(2) by (simp add: log_holds_def)
qed

text \<open>Every later one is not: the number of the server's log still names the file just written, which a
  process without privileges may not open for writing.\<close>

lemma log_request_later:
  assumes "log_files fs (tl_dirname (kv_log server)) (rs @ [r])" "nextid (kv_log server) = of_nat (length rs)"
    "\<not> privileged fs" "loggable req"
  shows "log_request fs server req = Some fs"
proof -
  have "fs_file fs (log_path (tl_dirname (kv_log server)) (unat (nextid (kv_log server)))) = Some (logrec_node r)"
    using assms(1,2) by (simp add: log_files_def unat_of_nat64)
  then have "tpclog_log fs (kv_log server) (req_type req) (req_key req) (req_val req) = Some (ERRFILACCESS, kv_log server, fs)"
    by (rule tpclog_log_in_use) (use assms(3,4) in \<open>simp_all add: logrec_node_def loggable_def\<close>)
  with assms(4) show ?thesis by (auto simp: log_request_def loggable_def)
qed

text \<open>A server whose log number names the file of the last record: its log does not grow any more.\<close>

definition log_stuck :: "kvserver_t \<times> fsys \<Rightarrow> logrec list \<Rightarrow> logrec \<Rightarrow> bool" where
  "log_stuck s rs r \<longleftrightarrow> log_files (snd s) (tl_dirname (kv_log (fst s))) (rs @ [r]) \<and>
     nextid (kv_log (fst s)) = of_nat (length rs) \<and> \<not> privileged (snd s)"

lemma log_request_stuck:
  assumes "log_stuck (server, fs) rs r" "log_request fs server req = Some fs'"
  shows "fs' = fs"
proof (cases "loggable req")
  case True
  with assms show ?thesis using log_request_later [of fs server rs r req] by (simp add: log_stuck_def)
next
  case False
  with assms(2) show ?thesis by (auto simp: log_request_def loggable_def tpclog_log_def split: if_splits)
qed

lemma store_frame_stuck:
  assumes "log_stuck (server, fs) rs r" "store_frame d fs fs'" "kv_log server' = kv_log server"
  shows "log_stuck (server', fs') rs r"
  using assms log_files_frame [of fs "tl_dirname (kv_log server)" "rs @ [r]" fs']
  by (auto simp: log_stuck_def store_frame_def)

lemma server_handle_commit:
  assumes "server_holds s m p" "card (dom m) + 1 < 2 ^ 31" "req_type req = COMMIT" "server_handle s req = Some (res, s')"
    "log_request (snd s) (fst s) req = Some fs1"
  shows "store_frame (ks_dirname (kv_store (fst s))) fs1 (snd s') \<and> kv_log (fst s') = kv_log (fst s)"
proof -
  have "server_holds (fst s, fs1) m p" using assms(1) log_request_store [OF _ assms(5)] by (simp add: server_holds_def)
  from commit_pending_holds [OF this assms(2)] obtain server' fs' where
    "commit_pending fs1 (fst s) = Some (server', fs')" "store_frame (ks_dirname (kv_store (fst s))) fs1 fs'" "kv_log server' = kv_log (fst s)"
    by blast
  with assms(3-5) show ?thesis by (auto simp: server_handle_def kvserver_handle_tpc_def)
qed

lemma server_handle_other:
  assumes "req_type req \<noteq> COMMIT" "server_handle s req = Some (res, s')"
  shows "log_request (snd s) (fst s) req = Some (snd s') \<and> kv_log (fst s') = kv_log (fst s)"
  using assms
  by (cases "req_type req")
    (auto simp: server_handle_def kvserver_handle_tpc_def clear_pending_def bind_eq_Some_conv split: if_splits)

lemma server_handle_stuck:
  assumes "server_holds s m p" "log_stuck s rs r" "card (dom m) + 1 < 2 ^ 31" "server_handle s req = Some (res, s')"
  shows "log_stuck s' rs r"
proof (cases "req_type req = COMMIT")
  case True
  obtain fs1 where l: "log_request (snd s) (fst s) req = Some fs1"
    using assms(4) by (auto simp: server_handle_def kvserver_handle_tpc_def bind_eq_Some_conv)
  have "fs1 = snd s" using log_request_stuck [of "fst s" "snd s" rs r req fs1] assms(2) l by simp
  with server_handle_commit [OF assms(1,3) True assms(4) l] store_frame_stuck [of "fst s" "snd s" rs r _ "snd s'" "fst s'"] assms(2)
  show ?thesis by auto
next
  case False
  from server_handle_other [OF False assms(4)] log_request_stuck [of "fst s" "snd s" rs r req "snd s'"] assms(2)
  show ?thesis by (simp add: log_stuck_def)
qed

lemma server_requests_stuck:
  "server_holds s m p \<Longrightarrow> log_stuck s rs r \<Longrightarrow> list_all req_args_ok reqs \<Longrightarrow> card (dom m) + length reqs < 2 ^ 31 \<Longrightarrow>
   server_requests s reqs = Some (ress, s') \<Longrightarrow> log_stuck s' rs r"
proof (induction reqs arbitrary: s m p ress)
  case (Cons req reqs)
  obtain res m1 p1 where step: "participant_step (m, p) req = (res, m1, p1)" by (cases "participant_step (m, p) req")
  obtain s1 where s1: "server_handle s req = Some (res, s1)" "server_holds s1 m1 p1"
    using server_step [OF Cons.prems(1), of req] Cons.prems(3,4) by (auto simp: step)
  have "finite (dom m)" using Cons.prems(1) by (simp add: server_holds_def kvstore_holds_def)
  then have room: "card (dom m1) + length reqs < 2 ^ 31"
    using participant_step_card [of m p req] Cons.prems(4) by (simp add: step)
  have "log_stuck s1 rs r" by (rule server_handle_stuck [OF Cons.prems(1,2) _ s1(1)]) (use Cons.prems(4) in simp)
  moreover obtain ress' where "server_requests s1 reqs = Some (ress', s')" using Cons.prems(5) s1(1) by (auto simp: bind_eq_Some_conv)
  ultimately show ?case using Cons.IH [OF s1(2) _ _ room] Cons.prems(3) by simp
qed simp

text \<open>The first request of a started server brings it into that state.\<close>

lemma first_request_stuck:
  assumes "server_holds s m p" "log_holds (snd s, kv_log (fst s)) rs" "\<not> privileged (snd s)" "card (dom m) + 1 < 2 ^ 31"
    "loggable req" "req_args_ok req" "logrec_ok (req_logrec req)" "length rs + 1 < 2 ^ 64" "server_handle s req = Some (res, s')"
  shows "log_stuck s' rs (req_logrec req)"
proof -
  obtain fs1 where l: "log_request (snd s) (fst s) req = Some fs1"
    using assms(9) by (auto simp: server_handle_def kvserver_handle_tpc_def bind_eq_Some_conv)
  have st: "log_stuck (fst s, fs1) rs (req_logrec req)"
    using log_request_first [OF assms(2,5-8) l] log_request_frame [OF l] assms(2,3) by (simp add: log_stuck_def log_holds_def)
  show ?thesis
  proof (cases "req_type req = COMMIT")
    case True
    from server_handle_commit [OF assms(1,4) True assms(9) l] store_frame_stuck [OF st, of _ "snd s'" "fst s'"] show ?thesis by auto
  next
    case False
    from server_handle_other [OF False assms(9)] l st show ?thesis by (simp add: log_stuck_def)
  qed
qed

section \<open>Properties\<close>

definition start_server :: kvserver_t where
  "start_server = \<lparr>kv_store = \<lparr>ks_dirname = ''d''\<rparr>, kv_log = \<lparr>tl_dirname = ''d'', nextid = 0, iterpos = 0\<rparr>,
     kv_state = TPC_INIT, pending_msg = EMPTY, pending_key = None, pending_value = None, kv_max_threads = 2,
     kv_port = 16201, kv_hostname = ''127.0.0.1''\<rparr>"

lemma start_server_holds: "server_holds (start_server, empty_fs) Map.empty None"
  using empty_fs_holds by (simp add: server_holds_def start_server_def pending_wf_def pending_op_def)

lemma start_server_log: "log_holds (empty_fs, kv_log start_server) []" "\<not> privileged empty_fs"
  using empty_log_holds by (simp_all add: start_server_def empty_fs_def)

lemma put_request_facts:
  assumes "nonul k" "nonul v"
  shows "req_args_ok (put_request k v)" "loggable (put_request k v)" "req_logrec (put_request k v) = LPut k v"
  using assms by (simp_all add: req_args_ok_def put_request_def loggable_def req_logrec_def)

lemma decision_request_facts:
  "req_args_ok (decision_request t)" if "t \<in> {COMMIT, ABORT}"
  using that by (auto simp: req_args_ok_def decision_request_def)

text \<open>C3. Refinement: a server that holds map \<open>m\<close> and has voted for \<open>p\<close> answers every sequence
  of requests exactly as the abstract participant does: each call of \<open>kvserver_handle_tpc\<close> returns,
  the responses are the specified ones, and the server then holds the specified map and vote,
  whatever the attempts to log each request give.\<close>

theorem kvserver_refines_participant:
  assumes "server_holds s m p" and "list_all req_args_ok reqs" and "card (dom m) + length reqs < 2 ^ 31"
  shows "\<exists>s'. server_requests s reqs = Some (fst (participant_run (m, p) reqs), s') \<and>
    server_holds s' (fst (snd (participant_run (m, p) reqs))) (snd (snd (participant_run (m, p) reqs)))"
  by (rule server_requests_refine [OF assms])

theorem kvserver_refines_participant_witness:
  "\<exists>s'. server_requests (start_server, empty_fs) [put_request ''k'' ''v'', decision_request COMMIT, get_request ''k''] =
     Some ([vote_commit, \<lparr>res_type = ACK, res_body = None\<rparr>, \<lparr>res_type = GETRESP, res_body = Some ''v''\<rparr>], s')"
  using kvserver_refines_participant [OF start_server_holds, of "[put_request ''k'' ''v'', decision_request COMMIT, get_request ''k'']"]
  by (auto simp: req_args_ok_def request_defs participant_step_def entry_ok_def limits)

text \<open>One transaction at a follower is all or nothing: after a PUT it votes for, a COMMIT makes the value
  the answer to the next GET of the key, and an ABORT leaves the answer to every GET what it was.\<close>

theorem kvserver_transaction:
  assumes "server_holds s m p" and "k \<noteq> []" and "entry_ok k v" and "card (dom m) + 1 < 2 ^ 31"
  shows "\<exists>s1 s2 s3. server_handle s (put_request k v) = Some (vote_commit, s1) \<and>
    server_handle s1 (decision_request COMMIT) = Some (\<lparr>res_type = ACK, res_body = None\<rparr>, s2) \<and>
    server_handle s2 (get_request k) = Some (\<lparr>res_type = GETRESP, res_body = Some v\<rparr>, s2) \<and>
    server_handle s1 (decision_request ABORT) = Some (\<lparr>res_type = ACK, res_body = None\<rparr>, s3) \<and>
    (\<forall>k'. \<exists>r. server_handle s (get_request k') = Some (r, s) \<and> server_handle s3 (get_request k') = Some (r, s3))"
proof -
  have nn: "nonul k" "nonul v" using assms(3) by (simp_all add: entry_ok_def)
  obtain s1 where s1: "server_handle s (put_request k v) = Some (vote_commit, s1)" "server_holds s1 m (Some (Put k v))"
    using follower.prepare_put [OF assms(1) nn] by blast
  obtain s2 where s2: "server_handle s1 (decision_request COMMIT) = Some (\<lparr>res_type = ACK, res_body = None\<rparr>, s2)"
    "server_holds s2 (m(k \<mapsto> v)) None"
    using follower.commit [OF s1(2) assms(4)] assms(2,3) by auto
  obtain s3 where s3: "server_handle s1 (decision_request ABORT) = Some (\<lparr>res_type = ACK, res_body = None\<rparr>, s3)" "server_holds s3 m None"
    using follower.abort [OF s1(2)] by blast
  have "server_handle s2 (get_request k) = Some (\<lparr>res_type = GETRESP, res_body = Some v\<rparr>, s2)"
    using server_get_request [OF s2(2), of "get_request k" k] by (simp add: get_request_def)
  moreover have "\<exists>r. server_handle s (get_request k') = Some (r, s) \<and> server_handle s3 (get_request k') = Some (r, s3)" for k'
    using server_get_request [OF assms(1), of "get_request k'" k'] server_get_request [OF s3(2), of "get_request k'" k']
    by (simp add: get_request_def)
  ultimately show ?thesis using s1(1) s2(1) s3(1) by blast
qed

theorem kvserver_transaction_witness:
  "\<exists>s1 s2. server_handle (start_server, empty_fs) (put_request ''k'' ''v'') = Some (vote_commit, s1) \<and>
    server_handle s1 (decision_request COMMIT) = Some (\<lparr>res_type = ACK, res_body = None\<rparr>, s2)"
  using kvserver_transaction [OF start_server_holds, of "''k''" "''v''"] by (auto simp: entry_ok_def limits)

text \<open>A follower votes for a PUT it cannot store: with an empty key, or a key or value over the limit,
  the answer is still the vote to commit, the commit is acknowledged, and the store is unchanged.\<close>

theorem kvserver_votes_for_invalid_put:
  assumes "server_holds s m p" and "nonul k" and "nonul v" and "k = [] \<or> length k > MAX_KEYLEN \<or> length v > MAX_VALLEN"
    and "card (dom m) + 1 < 2 ^ 31"
  shows "\<exists>s1 s2. server_handle s (put_request k v) = Some (vote_commit, s1) \<and>
    server_handle s1 (decision_request COMMIT) = Some (\<lparr>res_type = ACK, res_body = None\<rparr>, s2) \<and> server_holds s2 m None"
proof -
  obtain s1 where s1: "server_handle s (put_request k v) = Some (vote_commit, s1)" "server_holds s1 m (Some (Put k v))"
    using follower.prepare_put [OF assms(1-3)] by blast
  have "kv_commit m (Some (Put k v)) = m" using assms(4) by (auto simp: entry_ok_def)
  with follower.commit [OF s1(2) assms(5)] s1(1) show ?thesis by (auto simp del: kv_commit.simps)
qed

theorem kvserver_votes_for_invalid_put_witness:
  "\<exists>s1. server_handle (start_server, empty_fs) (put_request [] ''v'') = Some (vote_commit, s1)"
  using kvserver_votes_for_invalid_put [OF start_server_holds, of "[]" "''v''"] by auto

text \<open>C6. Crash recovery of a follower that waits on the first request of its run: a server that has logged nothing since it
  was started (the number of its log is that of the first free file) receives a PUT, then loses its memory, and is set up
  by \<open>kvserver_init\<close> on the same directory, from any leftover structure; it again waits for the decision on that PUT and
  its store holds what it held. Conditions: the server has one directory for store and log and does not run as
  root; key and value have no zero byte and are shorter than \<open>2 ^ 30\<close> together; the log has fewer than \<open>2 ^ 64 - 1\<close> files
  and the store fewer than \<open>2 ^ 31 - 1\<close> entries. For a PUT that is not the first request logged in the run the statement
  is false: the log keeps only the first request of a run (see below).\<close>

theorem kvserver_recovers_put:
  assumes "server_holds s m p" and "log_holds (snd s, kv_log (fst s)) rs" and "ks_dirname (kv_store (fst s)) = tl_dirname (kv_log (fst s))"
    and "\<not> privileged (snd s)" and "nonul k" and "nonul v" and "length k + length v < 2 ^ 30" and "length rs + 1 < 2 ^ 64"
    and "card (dom m) + 1 < 2 ^ 31"
  shows "\<exists>s1 s2. server_handle s (put_request k v) = Some (vote_commit, s1) \<and>
    kvserver_init (snd s1) old (tl_dirname (kv_log (fst s))) threads host port = Some (0, s2) \<and> server_holds s2 m (Some (Put k v))"
proof -
  define d where "d = tl_dirname (kv_log (fst s))"
  obtain s1 where s1: "server_handle s (put_request k v) = Some (vote_commit, s1)" "server_holds s1 m (Some (Put k v))"
    using follower.prepare_put [OF assms(1,5,6)] by blast
  have "log_stuck s1 rs (LPut k v)"
    using first_request_stuck [OF assms(1,2,4,9) _ _ _ assms(8) s1(1)] put_request_facts [OF assms(5,6)] assms(7)
    by (simp add: logrec_ok_def)
  moreover have "req_type (put_request k v) \<noteq> COMMIT" by (simp add: put_request_def)
  then have "kv_log (fst s1) = kv_log (fst s)" using server_handle_other [OF _ s1(1)] by blast
  ultimately have files: "log_files (snd s1) d (rs @ [LPut k v])" by (simp add: log_stuck_def d_def)
  have "kv_store (fst s1) = kv_store (fst s)"
    using s1(1) by (auto simp: server_handle_def kvserver_handle_tpc_def put_request_def bind_eq_Some_conv)
  then have holds: "kvstore_holds \<lparr>ks_dirname = d\<rparr> (snd s1) m"
    using s1(2) assms(3) by (cases "kv_store (fst s)") (simp add: server_holds_def d_def)
  define s2 where "s2 = ((fresh_server old d (Suc (length rs)) threads host port)\<lparr>pending_msg := PUTREQ, pending_key := Some k,
      pending_value := Some v\<rparr>, snd s1)"
  have "kvserver_init (snd s1) old d threads host port = Some (0, s2)"
    using rebuild_put [OF files _ assms(5,6)] by (simp add: kvserver_init_rebuild [OF files] s2_def)
  moreover have "server_holds s2 m (Some (Put k v))"
    using holds assms(5,6) by (simp add: s2_def server_holds_def pending_wf_def pending_op_def)
  ultimately show ?thesis using s1(1) d_def by blast
qed

theorem kvserver_recovers_put_witness:
  "\<exists>s1 s2. server_handle (start_server, empty_fs) (put_request ''k'' ''v'') = Some (vote_commit, s1) \<and>
    kvserver_init (snd s1) start_server ''d'' 2 ''127.0.0.1'' 16201 = Some (0, s2) \<and> server_holds s2 Map.empty (Some (Put ''k'' ''v''))"
  using kvserver_recovers_put [OF start_server_holds, of "[]" "''k''" "''v''" start_server 2 "''127.0.0.1''" 16201] start_server_log
  by (simp add: start_server_def)

text \<open>C24. The log keeps only the first request of a run: since \<open>kvserver_handle_tpc\<close> logs through a copy
  of the log structure, every later entry is attempted under the number already used and refused. After any
  further requests, a restart of the server waits for the first request again, although it may long be
  decided, and knows nothing of the later ones.\<close>

theorem kvserver_recovers_stale:
  assumes "server_holds s m p" and "log_holds (snd s, kv_log (fst s)) rs" and "\<not> privileged (snd s)"
    and "nonul k" and "nonul v" and "length k + length v < 2 ^ 30" and "length rs + 1 < 2 ^ 64"
    and "list_all req_args_ok reqs" and "card (dom m) + length reqs + 1 < 2 ^ 31"
    and "server_requests s (put_request k v # reqs) = Some (ress, s')"
  shows "\<exists>s2. kvserver_init (snd s') old (tl_dirname (kv_log (fst s'))) threads host port = Some (0, s2) \<and>
    pending_op (fst s2) = Some (Put k v)"
proof -
  define d where "d = tl_dirname (kv_log (fst s'))"
  obtain s1 where s1: "server_handle s (put_request k v) = Some (vote_commit, s1)" "server_holds s1 m (Some (Put k v))"
    using follower.prepare_put [OF assms(1,4,5)] by blast
  have "log_stuck s1 rs (LPut k v)"
    using first_request_stuck [OF assms(1-3) _ _ _ _ assms(7) s1(1)] put_request_facts [OF assms(4,5)] assms(6,9)
    by (simp add: logrec_ok_def)
  moreover obtain ress' where "server_requests s1 reqs = Some (ress', s')" using assms(10) s1(1) by (auto simp: bind_eq_Some_conv)
  ultimately have "log_stuck s' rs (LPut k v)" using server_requests_stuck [OF s1(2) _ assms(8)] assms(9) by simp
  then have files: "log_files (snd s') d (rs @ [LPut k v])" by (simp add: log_stuck_def d_def)
  have "kvserver_init (snd s') old d threads host port = Some (0,
      (fresh_server old d (Suc (length rs)) threads host port)\<lparr>pending_msg := PUTREQ, pending_key := Some k, pending_value := Some v\<rparr>, snd s')"
    using rebuild_put [OF files _ assms(4,5)] by (simp add: kvserver_init_rebuild [OF files])
  then show ?thesis by (simp add: d_def pending_op_def)
qed

theorem kvserver_recovers_stale_witness:
  "\<exists>s' s2. server_requests (start_server, empty_fs)
      [put_request ''k'' ''v'', decision_request COMMIT, put_request ''k'' ''w'', decision_request COMMIT] =
        Some ([vote_commit, \<lparr>res_type = ACK, res_body = None\<rparr>, vote_commit, \<lparr>res_type = ACK, res_body = None\<rparr>], s') \<and>
    kvserver_init (snd s') start_server (tl_dirname (kv_log (fst s'))) 2 ''127.0.0.1'' 16201 = Some (0, s2) \<and>
    pending_op (fst s2) = Some (Put ''k'' ''v'')"
proof -
  define reqs where "reqs = [decision_request COMMIT, put_request ''k'' ''w'', decision_request COMMIT]"
  have ok: "list_all req_args_ok reqs" by (simp add: reqs_def req_args_ok_def request_defs)
  obtain s' where run: "server_requests (start_server, empty_fs) (put_request ''k'' ''v'' # reqs) =
      Some ([vote_commit, \<lparr>res_type = ACK, res_body = None\<rparr>, vote_commit, \<lparr>res_type = ACK, res_body = None\<rparr>], s')"
    using server_requests_refine [OF start_server_holds, of "put_request ''k'' ''v'' # reqs"] ok
    by (auto simp: reqs_def req_args_ok_def request_defs participant_step_def)
  from kvserver_recovers_stale [OF start_server_holds _ _ _ _ _ _ ok _ run, of "[]" start_server 2 "''127.0.0.1''" 16201] start_server_log
  show ?thesis using run by (auto simp: reqs_def)
qed

text \<open>C25. A logged COMMIT is not finished on rebuild: where the last entries of the log are a PUT and its COMMIT
  and the leftover structure has no pending request, \<open>kvserver_init\<close> returns 0 with no pending
  request and the store as it was, so that a value whose COMMIT was logged just before a crash is lost.\<close>

theorem kvserver_rebuild_loses_commit:
  assumes "log_files fs d (rs @ [LPut k v, LCommit])" and "kvstore_holds \<lparr>ks_dirname = d\<rparr> fs m"
    and "pending_msg old \<noteq> PUTREQ" and "pending_msg old \<noteq> DELREQ"
  shows "\<exists>server'. kvserver_init fs old d threads host port = Some (0, server', fs) \<and> server_holds (server', fs) m None"
proof -
  have files: "log_files fs d ((rs @ [LPut k v]) @ [LCommit])" using assms(1) by simp
  define server where "server = fresh_server old d (length ((rs @ [LPut k v]) @ [LCommit])) threads host port"
  have "commit_pending fs server = Some (server, fs)" using assms(3,4) by (simp add: commit_pending_def server_def)
  then have "kvserver_init fs old d threads host port = Some (0, server, fs)"
    using rebuild_commit [OF files, of server] kvserver_init_rebuild [OF files, of old threads host port]
    by (simp add: server_def del: append_assoc)
  moreover have "server_holds (server, fs) m None"
    using assms(2-4) by (simp add: server_holds_def server_def pending_wf_def pending_op_def)
  ultimately show ?thesis by blast
qed

lemma empty_fs_two_records:
  "\<exists>fs. log_files fs ''d'' [LPut ''k'' ''v'', LCommit] \<and> kvstore_holds \<lparr>ks_dirname = ''d''\<rparr> fs Map.empty"
proof -
  obtain s1 where s1: "tpclog_append (empty_fs, kv_log start_server) (LPut ''k'' ''v'') = Some (0, s1)" "log_holds s1 [LPut ''k'' ''v'']"
    using log_append [OF start_server_log(1), of "LPut ''k'' ''v''"] by (auto simp: logrec_ok_def)
  obtain s2 where s2: "tpclog_append s1 LCommit = Some (0, s2)" "log_holds s2 [LPut ''k'' ''v'', LCommit]"
    using log_append [OF s1(2), of LCommit] by (auto simp: logrec_ok_def)
  have "kvstore_holds \<lparr>ks_dirname = ''d''\<rparr> (fst s1) Map.empty" "tl_dirname (snd s1) = ''d''"
    using s1(1) tpclog_log_keeps_store [OF empty_fs_holds]
    by (auto simp: tpclog_append_def start_server_def dest: tpclog_log_frame)
  moreover from this have "kvstore_holds \<lparr>ks_dirname = ''d''\<rparr> (fst s2) Map.empty" "tl_dirname (snd s2) = ''d''"
    using s2(1) tpclog_log_keeps_store by (fastforce simp: tpclog_append_def dest: tpclog_log_frame)+
  ultimately show ?thesis using s2(2) by (auto simp: log_holds_def)
qed

theorem kvserver_rebuild_loses_commit_witness:
  "\<exists>fs server'. log_files fs ''d'' [LPut ''k'' ''v'', LCommit] \<and>
    kvserver_init fs start_server ''d'' 2 ''127.0.0.1'' 16201 = Some (0, server', fs) \<and> server_holds (server', fs) Map.empty None"
proof -
  obtain fs where fs: "log_files fs ''d'' [LPut ''k'' ''v'', LCommit]" "kvstore_holds \<lparr>ks_dirname = ''d''\<rparr> fs Map.empty"
    using empty_fs_two_records by blast
  with kvserver_rebuild_loses_commit [of fs "''d''" "[]" "''k''" "''v''" Map.empty start_server 2 "''127.0.0.1''" 16201] show ?thesis
    by (auto simp: start_server_def)
qed

text \<open>A follower that was waiting on a DELETE does not come up again: \<open>kvserver_rebuild_state\<close> copies
  the key to \<open>pending_key\<close>, which points to no memory, so that \<open>kvserver_init\<close> has no
  defined outcome.\<close>

theorem kvserver_rebuild_del_crashes:
  assumes "log_files fs d (rs @ [LDel k])" and "nonul k" and "kvstore_holds \<lparr>ks_dirname = d\<rparr> fs m" and "pending_key old = None"
  shows "kvserver_init fs old d threads host port = None"
  using kvserver_init_rebuild [OF assms(1)] rebuild_del [OF assms(1) _ _ assms(2), of _ m] assms(3,4) by simp

theorem kvserver_rebuild_del_crashes_witness:
  "\<exists>fs. log_files fs ''d'' [LDel ''k''] \<and> kvserver_init fs start_server ''d'' 2 ''127.0.0.1'' 16201 = None"
proof -
  obtain s1 where s1: "tpclog_append (empty_fs, kv_log start_server) (LDel ''k'') = Some (0, s1)" "log_holds s1 [LDel ''k'']"
    using log_append [OF start_server_log(1), of "LDel ''k''"] by (auto simp: logrec_ok_def)
  have "kvstore_holds \<lparr>ks_dirname = ''d''\<rparr> (fst s1) Map.empty" "tl_dirname (snd s1) = ''d''"
    using s1(1) tpclog_log_keeps_store [OF empty_fs_holds]
    by (auto simp: tpclog_append_def start_server_def dest: tpclog_log_frame)
  with s1(2) kvserver_rebuild_del_crashes [of "fst s1" "''d''" "[]" "''k''" Map.empty start_server 2 "''127.0.0.1''" 16201] show ?thesis
    by (auto simp: log_holds_def start_server_def)
qed

text \<open>Registration reports success as 1 and every failure as 0, never as a negative number: the result is 1
  exactly when the leader's answer is decoded as SUCCESS, so that the test \<open>ret < 0\<close> of
  \<open>main\<close> does not notice a refused registration, although the comment promises -1.\<close>

theorem kvserver_register_result:
  assumes "kvserver_register_leader ws server chunk = Some (ret, sent)"
  shows "ret \<ge> 0 \<and> (ret = 1 \<longleftrightarrow> (\<exists>r. kvresponse_recieve chunk = Some (Some r) \<and> res_type r = SUCCESS))"
proof -
  obtain res where res: "kvresponse_recieve chunk = Some res"
    and ret: "ret = (case res of None \<Rightarrow> 0 | Some r \<Rightarrow> if res_type r = SUCCESS then 1 else 0)"
    using assms unfolding kvserver_register_leader_def
    by (cases "kvresponse_recieve chunk") (auto simp: bind_eq_Some_conv split: if_splits)
  then show ?thesis by (cases res) auto
qed

theorem kvserver_register_result_witness:
  "\<exists>ret sent. kvserver_register_leader all_written (start_server\<lparr>kv_port := 7\<rparr>) [] = Some (ret, sent) \<and> ret \<ge> 0"
proof -
  define req where "req = \<lparr>req_type = REGISTER, req_key = Some ''127.0.0.1'', req_val = Some (dec 7)\<rparr>"
  have d: "dec 7 = ''7''" by code_simp
  have "kvrequest_ok req" by (simp add: req_def d kvrequest_ok_def arg_ok_def opt_len_def)
  then obtain bs where "kvrequest_wire req = Some bs" using req_codec.encodes by blast
  then obtain n where "kvrequest_send all_written req = Some (n, bs)" by (auto simp: kvrequest_wire_def)
  then have run: "kvserver_register_leader all_written (start_server\<lparr>kv_port := 7\<rparr>) [] = Some (0, bs)"
    by (simp add: kvserver_register_leader_def start_server_def dec_int_def d req_def kvresponse_recieve_def http_response_parse_def)
  from kvserver_register_result [OF this] run show ?thesis by blast
qed

end
