(* ===== verification/TpcLeader.thy ===== *)
theory TpcLeader
  imports KvServer
begin

text \<open>
  The leader of \<open>hw4/src/tpcleader.c\<close>: the ring of registered followers, the choice of the replicas
  of a key, and the handlers that forward a GET and run the two phases of a PUT or DELETE.

  The followers are cells of an explicit heap, a list whose indices are the addresses, linked through
  \<open>f_next\<close> and \<open>f_prev\<close> the way the code links them. The network is a parameter: whether a
  connection to a host and port comes about, with the results of the writes on it, and what bytes come
  back for the bytes sent; its state \<open>'w\<close> changes with each use. The lock makes each list operation
  one step and is left out.
\<close>

section \<open>Followers and leader\<close>

record tpcfollower_t =
  f_id :: u64
  f_host :: string
  f_port :: u32
  f_next :: nat
  f_prev :: nat

record tpcleader_t =
  follower_capacity :: u32
  follower_count :: u32
  redundancy :: u32
  followers_head :: "nat option"
  follower_heap :: "tpcfollower_t list"

definition deref :: "'a list \<Rightarrow> nat \<Rightarrow> 'a option" where
  "deref h p = (if p < length h then Some (h ! p) else None)"

definition tpcleader_init :: "tpcleader_t \<Rightarrow> u32 \<Rightarrow> u32 \<Rightarrow> int \<times> tpcleader_t" where
  "tpcleader_init leader cap red =
     (0, leader\<lparr>follower_count := 0, follower_capacity := cap,
                redundancy := (if red > cap then cap else red), followers_head := None\<rparr>)"

section \<open>Registration\<close>

text \<open>The address string is printed into an array of as many bytes as host and port have; a string that does not fit with
  its terminator is written over the end of the array. The identifier of the follower is the hash of the string.\<close>

definition follower_address :: "string \<Rightarrow> string \<Rightarrow> string option" where
  "follower_address host val =
     (let address = val @ '':'' @ host; room = length host + length val in
      if length address + 1 \<le> room then Some address else None)"

definition atoi :: "string \<Rightarrow> u32" where
  "atoi s = word_of_int (to_int32 (fst (strtol s)))"

text \<open>The do-while loop: where the new follower goes.\<close>

datatype slot = Before nat | Present | At_end

partial_function (option) find_slot :: "tpcfollower_t list \<Rightarrow> nat \<Rightarrow> u64 \<Rightarrow> nat \<Rightarrow> slot option" where
  "find_slot h first new_id cur =
     (case deref h cur of
        None \<Rightarrow> None
      | Some c \<Rightarrow>
          if f_id c > new_id then Some (Before cur)
          else if f_id c = new_id then Some Present
          else if f_next c = first then Some At_end
          else find_slot h first new_id (f_next c))"

text \<open>The four assignments that link the new cell \<open>n\<close> in front of \<open>cur\<close>, in their order.\<close>

definition link_before :: "tpcfollower_t list \<Rightarrow> nat \<Rightarrow> nat \<Rightarrow> tpcfollower_t list" where
  "link_before h n cur =
     (let h1 = h[n := (h ! n)\<lparr>f_next := cur\<rparr>];
          h2 = h1[n := (h1 ! n)\<lparr>f_prev := f_prev (h1 ! cur)\<rparr>];
          h3 = h2[cur := (h2 ! cur)\<lparr>f_prev := n\<rparr>];
          p = f_prev (h3 ! n)
      in h3[p := (h3 ! p)\<lparr>f_next := n\<rparr>])"

text \<open>A new follower whose identifier is known is put into the ring.\<close>

definition register_follower :: "tpcleader_t \<Rightarrow> string \<Rightarrow> string \<Rightarrow> u64 \<Rightarrow> (kvresponse_t \<times> tpcleader_t) option" where
  "register_follower leader host val new_id = do {
     let n = length (follower_heap leader);
     let h = follower_heap leader @ [\<lparr>f_id = new_id, f_host = host, f_port = atoi val, f_next = n, f_prev = n\<rparr>];
     let ok = \<lparr>res_type = SUCCESS, res_body = None\<rparr>;
     (case followers_head leader of
        None \<Rightarrow> Some (ok, leader\<lparr>followers_head := Some n, follower_count := follower_count leader + 1, follower_heap := h\<rparr>)
      | Some first \<Rightarrow> do {
          slot \<leftarrow> find_slot h first new_id first;
          (case slot of
             Before cur \<Rightarrow>
               Some (ok, leader\<lparr>follower_heap := link_before h n cur,
                                followers_head := Some (if cur = first then n else first),
                                follower_count := follower_count leader + 1\<rparr>)
           | Present \<Rightarrow> Some (ok, leader\<lparr>follower_heap := h\<rparr>)
           | At_end \<Rightarrow>
               Some (ok, leader\<lparr>follower_heap := link_before h n first,
                                follower_count := follower_count leader + 1\<rparr>))
        })
   }"

definition tpcleader_register :: "tpcleader_t \<Rightarrow> kvrequest_t \<Rightarrow> (kvresponse_t \<times> tpcleader_t) option" where
  "tpcleader_register leader req =
     (if follower_count leader = follower_capacity leader
      then Some (\<lparr>res_type = ERROR, res_body = Some ERRMSG_FOLLOWER_CAPACITY\<rparr>, leader)
      else do {
        host \<leftarrow> req_key req;
        val \<leftarrow> req_val req;
        address \<leftarrow> follower_address host val;
        register_follower leader host val (strhash64 address)
      })"

section \<open>The followers of a key\<close>

partial_function (option) primary_loop :: "tpcfollower_t list \<Rightarrow> nat \<Rightarrow> u64 \<Rightarrow> nat \<Rightarrow> nat option" where
  "primary_loop h head hash cur =
     (case deref h cur of
        None \<Rightarrow> None
      | Some c \<Rightarrow>
          if f_id c > hash then Some cur
          else if f_next c = head then Some head
          else primary_loop h head hash (f_next c))"

text \<open>The result is a pointer that may be NULL; a full leader without followers makes the loop read
  from NULL.\<close>

definition tpcleader_get_primary :: "tpcleader_t \<Rightarrow> string \<Rightarrow> nat option option" where
  "tpcleader_get_primary leader key =
     (if follower_count leader < follower_capacity leader then Some None
      else do {
        head \<leftarrow> followers_head leader;
        p \<leftarrow> primary_loop (follower_heap leader) head (strhash64 key) head;
        Some (Some p)
      })"

definition tpcleader_get_successor :: "tpcleader_t \<Rightarrow> nat \<Rightarrow> nat option" where
  "tpcleader_get_successor leader predecessor = map_option f_next (deref (follower_heap leader) predecessor)"

section \<open>Forwarding requests\<close>

record 'w network =
  nw_connect :: "'w \<Rightarrow> string \<Rightarrow> u32 \<Rightarrow> int list option \<times> 'w"
  nw_exchange :: "'w \<Rightarrow> string \<Rightarrow> u32 \<Rightarrow> bytes \<Rightarrow> bytes \<times> 'w"

text \<open>One request to one follower, as both phases send it: \<open>None\<close> inside when the connection fails,
  else what \<open>kvresponse_recieve\<close> returns.\<close>

definition leader_rpc ::
  "'w network \<Rightarrow> 'w \<Rightarrow> tpcfollower_t \<Rightarrow> kvrequest_t \<Rightarrow> (kvresponse_t option option \<times> 'w) option" where
  "leader_rpc net w f req = (case nw_connect net w (f_host f) (f_port f) of
     (None, w1) \<Rightarrow> Some (None, w1)
   | (Some ws, w1) \<Rightarrow> do {
       (_, sent) \<leftarrow> kvrequest_send ws req;
       let (chunk, w2) = nw_exchange net w1 (f_host f) (f_port f) sent;
       res \<leftarrow> kvresponse_recieve chunk;
       Some (Some res, w2)
     })"

text \<open>The loop of \<open>tpcleader_handle_get\<close>: the body of the first GETRESP, if any. A NULL response
  is followed by the test of its type, which reads from NULL.\<close>

fun get_loop ::
  "'w network \<Rightarrow> tpcfollower_t list \<Rightarrow> kvrequest_t \<Rightarrow> nat \<Rightarrow> nat option \<Rightarrow> 'w \<Rightarrow> (string option option \<times> 'w) option" where
  "get_loop net h req 0 cur w = Some (None, w)"
| "get_loop net h req (Suc r_val) cur w = do {
     p \<leftarrow> cur;
     f \<leftarrow> deref h p;
     (case nw_connect net w (f_host f) (f_port f) of
        (None, w1) \<Rightarrow> do {
          _ \<leftarrow> kvrequest_send [-1] req;
          get_loop net h req r_val (Some (f_next f)) w1
        }
      | (Some ws, w1) \<Rightarrow> do {
          (req_send, sent) \<leftarrow> kvrequest_send ws req;
          let (chunk, w2) = nw_exchange net w1 (f_host f) (f_port f) sent;
          (if req_send = -1 then get_loop net h req r_val (Some (f_next f)) w2
           else do {
             response \<leftarrow> kvresponse_recieve chunk;
             res \<leftarrow> response;
             (if res_type res = GETRESP then Some (Some (res_body res), w2)
              else get_loop net h req r_val (Some (f_next f)) w2)
           })
        })
   }"

text \<open>The loop counters are \<open>int\<close>, the redundancy is \<open>unsigned\<close>.\<close>

definition replica_count :: "tpcleader_t \<Rightarrow> nat" where
  "replica_count leader = nat (sint (redundancy leader))"

definition tpcleader_handle_get ::
  "'w network \<Rightarrow> tpcleader_t \<Rightarrow> kvrequest_t \<Rightarrow> 'w \<Rightarrow> (kvresponse_t \<times> 'w) option" where
  "tpcleader_handle_get net leader req w = do {
     key \<leftarrow> req_key req;
     primary \<leftarrow> tpcleader_get_primary leader key;
     (found, w') \<leftarrow> get_loop net (follower_heap leader) req (replica_count leader) primary w;
     Some (case found of
        Some body \<Rightarrow> (\<lparr>res_type = GETRESP, res_body = body\<rparr>, w')
      | None \<Rightarrow> (\<lparr>res_type = ERROR, res_body = Some ERRMSG_NO_KEY\<rparr>, w'))
   }"

section \<open>Two-phase commit\<close>

text \<open>Whether a reply of phase 1 is a vote to commit.\<close>

definition votes_commit :: "kvresponse_t option option \<Rightarrow> bool" where
  "votes_commit r = (case r of
     Some (Some res) \<Rightarrow> res_type res = VOTE \<and> res_body res = Some MSG_COMMIT | _ \<Rightarrow> False)"

text \<open>Phase 1 counts the followers that do not vote to commit.\<close>

fun phase1 ::
  "'w network \<Rightarrow> tpcleader_t \<Rightarrow> kvrequest_t \<Rightarrow> nat \<Rightarrow> nat \<Rightarrow> nat \<Rightarrow> 'w \<Rightarrow> (nat \<times> 'w) option" where
  "phase1 net leader req 0 cur abortBool w = Some (abortBool, w)"
| "phase1 net leader req (Suc r_val) cur abortBool w = do {
     f \<leftarrow> deref (follower_heap leader) cur;
     (reply, w1) \<leftarrow> leader_rpc net w f req;
     next \<leftarrow> tpcleader_get_successor leader cur;
     phase1 net leader req r_val next (if votes_commit reply then abortBool else abortBool + 1) w1
   }"

text \<open>The inner loop of phase 2 sends the decision until it is acknowledged.\<close>

definition is_ack :: "kvresponse_t option option \<Rightarrow> bool" where
  "is_ack r = (case r of Some (Some res) \<Rightarrow> res_type res = ACK | _ \<Rightarrow> False)"

partial_function (option) ack_loop :: "'w network \<Rightarrow> tpcfollower_t \<Rightarrow> kvrequest_t \<Rightarrow> 'w \<Rightarrow> 'w option" where
  "ack_loop net f req w =
     (case leader_rpc net w f req of
        None \<Rightarrow> None
      | Some (reply, w1) \<Rightarrow> if is_ack reply then Some w1 else ack_loop net f req w1)"

fun phase2 :: "'w network \<Rightarrow> tpcleader_t \<Rightarrow> kvrequest_t \<Rightarrow> nat \<Rightarrow> nat \<Rightarrow> 'w \<Rightarrow> 'w option" where
  "phase2 net leader req 0 cur w = Some w"
| "phase2 net leader req (Suc r_val) cur w = do {
     f \<leftarrow> deref (follower_heap leader) cur;
     w1 \<leftarrow> ack_loop net f req w;
     next \<leftarrow> tpcleader_get_successor leader cur;
     phase2 net leader req r_val next w1
   }"

definition tpcleader_handle_tpc ::
  "'w network \<Rightarrow> tpcleader_t \<Rightarrow> kvrequest_t \<Rightarrow> 'w \<Rightarrow> (kvresponse_t \<times> 'w) option" where
  "tpcleader_handle_tpc net leader req w =
     (if follower_count leader \<noteq> follower_capacity leader
      then Some (\<lparr>res_type = ERROR, res_body = Some ERRMSG_NOT_AT_CAPACITY\<rparr>, w)
      else do {
        key \<leftarrow> req_key req;
        primary \<leftarrow> tpcleader_get_primary leader key;
        cur \<leftarrow> primary;
        (abortBool, w1) \<leftarrow> phase1 net leader req (replica_count leader) cur 0 w;
        let decision = req\<lparr>req_type := (if abortBool > 0 then ABORT else COMMIT)\<rparr>;
        w2 \<leftarrow> phase2 net leader decision (replica_count leader) cur w1;
        Some (if abortBool > 0 then \<lparr>res_type = ERROR, res_body = Some ERRMSG_GENERIC_ERROR\<rparr>
              else \<lparr>res_type = SUCCESS, res_body = None\<rparr>, w2)
      })"

definition tpcleader_handle ::
  "int list \<Rightarrow> 'w network \<Rightarrow> tpcleader_t \<Rightarrow> bytes \<Rightarrow> 'w \<Rightarrow> (reply \<times> tpcleader_t \<times> 'w) option" where
  "tpcleader_handle ws net leader chunk w = do {
     req \<leftarrow> kvrequest_recieve chunk;
     (case req of
        None \<Rightarrow> do {
          (_, sent) \<leftarrow> kvresponse_send ws \<lparr>res_type = ERROR, res_body = Some ERRMSG_INVALID_REQUEST\<rparr>;
          Some (Reply_bytes sent, leader, w)
        }
      | Some r \<Rightarrow>
          if req_type r = INDEX then Some (Index_page, leader, w)
          else do {
            (res, leader', w') \<leftarrow>
              (if req_type r = REGISTER then map_option (\<lambda>(res, l). (res, l, w)) (tpcleader_register leader r)
               else if req_type r = GETREQ then map_option (\<lambda>(res, w'). (res, leader, w')) (tpcleader_handle_get net leader r w)
               else map_option (\<lambda>(res, w'). (res, leader, w')) (tpcleader_handle_tpc net leader r w));
            (_, sent) \<leftarrow> kvresponse_send ws res;
            Some (Reply_bytes sent, leader', w')
          })
   }"

section \<open>The ring of followers\<close>

text \<open>The cells \<open>ps\<close> are linked in a circle, in both directions.\<close>

definition linked :: "tpcfollower_t list \<Rightarrow> nat list \<Rightarrow> bool" where
  "linked h ps \<longleftrightarrow> distinct ps \<and> (\<forall>p \<in> set ps. p < length h) \<and>
     map (\<lambda>p. f_next (h ! p)) ps = rotate1 ps \<and> map (\<lambda>p. f_prev (h ! p)) (rotate1 ps) = ps"

lemma linked_rotate1: "linked h ps \<Longrightarrow> linked h (rotate1 ps)"
proof -
  assume l: "linked h ps"
  then have "map (\<lambda>p. f_next (h ! p)) (rotate1 ps) = rotate1 (rotate1 ps)"
    by (metis linked_def rotate1_map)
  moreover have "map (\<lambda>p. f_prev (h ! p)) (rotate1 (rotate1 ps)) = rotate1 ps"
    using l by (metis linked_def rotate1_map)
  ultimately show ?thesis using l by (simp add: linked_def)
qed

lemma linked_rotate: "linked h ps \<Longrightarrow> linked h (rotate n ps)"
  by (induction n) (simp_all add: linked_rotate1)

lemma linked_next:
  assumes "linked h (pre @ c # suf)"
  shows "f_next (h ! c) = hd (suf @ pre @ [c])"
proof -
  define ps where "ps = pre @ c # suf"
  have "map (\<lambda>p. f_next (h ! p)) ps ! length pre = rotate1 ps ! length pre"
    using assms by (simp add: linked_def ps_def)
  then have "f_next (h ! c) = ps ! (Suc (length pre) mod length ps)" by (simp add: ps_def nth_rotate1 nth_append)
  also have "\<dots> = hd (suf @ pre @ [c])"
    by (cases suf; cases pre) (simp_all add: ps_def nth_append)
  finally show ?thesis .
qed

lemma linked_prev_last:
  assumes "linked h (c # r)"
  shows "f_prev (h ! c) = last (c # r)"
proof -
  have "map (\<lambda>p. f_prev (h ! p)) (r @ [c]) = c # r" using assms by (simp add: linked_def)
  then have "last (map (\<lambda>p. f_prev (h ! p)) (r @ [c])) = last (c # r)" by (simp only:)
  then show ?thesis by (simp add: last_map)
qed

lemma link_before_cells:
  assumes "n \<noteq> cur" "p = f_prev (h ! cur)" "p \<noteq> n" "n < length h" "cur < length h" "p < length h" "q < length h"
  shows "f_next (link_before h n cur ! q) = (if q = n then cur else if q = p then n else f_next (h ! q))"
    "f_prev (link_before h n cur ! q) = (if q = n then p else if q = cur then n else f_prev (h ! q))"
    "f_id (link_before h n cur ! q) = f_id (h ! q)" "f_host (link_before h n cur ! q) = f_host (h ! q)"
    "f_port (link_before h n cur ! q) = f_port (h ! q)"
  using assms by (auto simp: link_before_def Let_def nth_list_update)

lemma length_link_before [simp]: "length (link_before h n cur) = length h"
  by (simp add: link_before_def Let_def)

lemma link_before_front:
  assumes "linked h (c # r)" "n \<notin> set (c # r)" "n < length h"
  shows "linked (link_before h n c) (n # c # r)"
proof -
  define p where "p = f_prev (h ! c)"
  have p: "p = last (c # r)" using linked_prev_last [OF assms(1)] by (simp add: p_def)
  have "p \<in> set (c # r)" unfolding p by (rule last_in_set) simp
  then have b: "p \<noteq> n" "p < length h" "c < length h" "n \<noteq> c" using assms(1,2) by (auto simp: linked_def)
  note cells = link_before_cells [OF b(4) p_def b(1) assms(3) b(3) b(2)]
  have lt: "q < length h" if "q \<in> set (c # r)" for q using assms(1) that by (auto simp: linked_def)
  have nx: "map (\<lambda>q. f_next (h ! q)) (c # r) = r @ [c]" and pv: "map (\<lambda>q. f_prev (h ! q)) (r @ [c]) = c # r"
    and di: "distinct (c # r)"
    using assms(1) by (simp_all add: linked_def)
  have "map (\<lambda>q. f_next (link_before h n c ! q)) (c # r) = r @ [n]"
  proof -
    have "map (\<lambda>q. f_next (link_before h n c ! q)) (butlast (c # r)) = map (\<lambda>q. f_next (h ! q)) (butlast (c # r))"
    proof (rule map_cong [OF refl])
      fix q assume q: "q \<in> set (butlast (c # r))"
      then have "q \<in> set (c # r)" by (rule in_set_butlastD)
      moreover have "q \<noteq> p" using q di p by (metis append_butlast_last_id distinct_append disjoint_iff list.distinct(1) list.set_intros(1))
      ultimately show "f_next (link_before h n c ! q) = f_next (h ! q)" using cells(1) [of q] lt assms(2) by auto
    qed
    also have "\<dots> = r" using nx by (metis butlast_snoc map_butlast)
    finally have "map (\<lambda>q. f_next (link_before h n c ! q)) (butlast (c # r)) = r" .
    moreover have "f_next (link_before h n c ! p) = n" using cells(1) [of p] b by simp
    moreover have "c # r = butlast (c # r) @ [p]" by (simp add: p)
    ultimately show ?thesis by (metis list.simps(8,9) map_append)
  qed
  moreover have "f_next (link_before h n c ! n) = c" "f_prev (link_before h n c ! n) = p" "f_prev (link_before h n c ! c) = n"
    using cells(1,2) [of n] cells(2) [of c] assms(3) b by simp_all
  moreover have "map (\<lambda>q. f_prev (link_before h n c ! q)) r = butlast (c # r)"
  proof -
    have "map (\<lambda>q. f_prev (link_before h n c ! q)) r = map (\<lambda>q. f_prev (h ! q)) r"
      by (rule map_cong [OF refl]) (use cells(2) lt assms(2) di in auto)
    also have "\<dots> = butlast (c # r)" using pv by (metis butlast_snoc map_butlast)
    finally show ?thesis .
  qed
  moreover have "butlast (c # r) @ [p] = c # r" by (simp add: p)
  ultimately show ?thesis using assms di lt by (simp add: linked_def)
qed

lemma linked_insert:
  assumes "linked h (pre @ suf)" "pre @ suf \<noteq> []" "n \<notin> set (pre @ suf)" "n < length h"
  shows "linked (link_before h n (hd (suf @ pre))) (pre @ n # suf)"
proof -
  obtain c r where cr: "suf @ pre = c # r" using assms(2) by (cases "suf @ pre") auto
  have "linked h (c # r)" using linked_rotate [OF assms(1), of "length pre"] by (simp add: rotate_append cr)
  from link_before_front [OF this] assms(3,4) cr have "linked (link_before h n c) (n # suf @ pre)"
    by (metis set_append Un_commute)
  from linked_rotate [OF this, of "Suc (length suf)"] rotate_append [of "n # suf" pre] show ?thesis by (simp add: cr)
qed

section \<open>Walking the ring\<close>

fun slot_spec :: "tpcfollower_t list \<Rightarrow> u64 \<Rightarrow> nat list \<Rightarrow> slot" where
  "slot_spec h new_id [] = At_end"
| "slot_spec h new_id (p # ps) =
     (if f_id (h ! p) > new_id then Before p else if f_id (h ! p) = new_id then Present else slot_spec h new_id ps)"

lemma find_slot_ring:
  "linked h (pre @ c # suf) \<Longrightarrow> find_slot h (hd (pre @ [c])) new_id c = Some (slot_spec h new_id (c # suf))"
proof (induction suf arbitrary: pre c)
  case Nil
  then have "c < length h" "f_next (h ! c) = hd (pre @ [c])" using linked_next [of h pre c "[]"] by (auto simp: linked_def)
  then show ?case by (subst find_slot.simps) (simp add: deref_def)
next
  case (Cons d suf)
  have nx: "f_next (h ! c) = d" using linked_next [OF Cons.prems] by simp
  have hd: "hd ((pre @ [c]) @ [d]) = hd (pre @ [c])" by (cases pre) simp_all
  have "c < length h" "d \<noteq> hd (pre @ [c])" using Cons.prems by (cases pre; auto simp: linked_def)+
  moreover have "find_slot h (hd (pre @ [c])) new_id d = Some (slot_spec h new_id (d # suf))"
    using Cons.IH [of "pre @ [c]" d] Cons.prems unfolding hd by simp
  ultimately show ?case using nx by (subst find_slot.simps) (simp add: deref_def)
qed

lemma primary_loop_ring:
  "linked h (pre @ c # suf) \<Longrightarrow> primary_loop h (hd (pre @ [c])) hash c =
    Some (case find (\<lambda>p. f_id (h ! p) > hash) (c # suf) of None \<Rightarrow> hd (pre @ [c]) | Some p \<Rightarrow> p)"
proof (induction suf arbitrary: pre c)
  case Nil
  then have "c < length h" "f_next (h ! c) = hd (pre @ [c])" using linked_next [of h pre c "[]"] by (auto simp: linked_def)
  then show ?case by (subst primary_loop.simps) (simp add: deref_def)
next
  case (Cons d suf)
  have nx: "f_next (h ! c) = d" using linked_next [OF Cons.prems] by simp
  have hd: "hd ((pre @ [c]) @ [d]) = hd (pre @ [c])" by (cases pre) simp_all
  have "c < length h" "d \<noteq> hd (pre @ [c])" using Cons.prems by (cases pre; auto simp: linked_def)+
  moreover have "primary_loop h (hd (pre @ [c])) hash d =
      Some (case find (\<lambda>p. f_id (h ! p) > hash) (d # suf) of None \<Rightarrow> hd (pre @ [c]) | Some p \<Rightarrow> p)"
    using Cons.IH [of "pre @ [c]" d] Cons.prems unfolding hd by simp
  ultimately show ?case using nx by (subst primary_loop.simps) (simp add: deref_def)
qed

section \<open>The leader's followers\<close>

text \<open>The leader knows the followers at \<open>ps\<close>, in the order of their identifiers.\<close>

definition leader_ring :: "tpcleader_t \<Rightarrow> nat list \<Rightarrow> bool" where
  "leader_ring L ps \<longleftrightarrow> linked (follower_heap L) ps \<and> sorted_wrt (<) (map (\<lambda>p. f_id (follower_heap L ! p)) ps) \<and>
     followers_head L = (if ps = [] then None else Some (hd ps)) \<and> follower_count L = of_nat (length ps) \<and>
     length ps \<le> unat (follower_capacity L)"

text \<open>What the leader knows of them, in order.\<close>

definition follower_info :: "tpcfollower_t \<Rightarrow> u64 \<times> string \<times> u32" where
  "follower_info f = (f_id f, f_host f, f_port f)"

definition ring_info :: "tpcleader_t \<Rightarrow> nat list \<Rightarrow> (u64 \<times> string \<times> u32) list" where
  "ring_info L ps = map (\<lambda>p. follower_info (follower_heap L ! p)) ps"

lemma leader_ring_count: "leader_ring L ps \<Longrightarrow> unat (follower_count L) = length ps"
proof -
  assume r: "leader_ring L ps"
  moreover have "unat (follower_capacity L) < 2 ^ 32" using unsigned_less [of "follower_capacity L"] by simp
  ultimately have "length ps < 2 ^ 32" unfolding leader_ring_def by linarith
  with r show ?thesis by (simp add: leader_ring_def unsigned_of_nat take_bit_nat_eq_self)
qed

lemma leader_ring_init: "leader_ring (snd (tpcleader_init L cap red)) []"
  by (simp add: leader_ring_def tpcleader_init_def linked_def)

lemma linked_grow: "linked h ps \<Longrightarrow> linked (h @ [x]) ps"
proof -
  assume l: "linked h ps"
  then have same: "(h @ [x]) ! p = h ! p" if "p \<in> set ps" for p using that by (simp add: linked_def nth_append)
  have "map (\<lambda>p. f_next ((h @ [x]) ! p)) ps = map (\<lambda>p. f_next (h ! p)) ps"
    by (rule map_cong) (simp_all add: same)
  moreover have "map (\<lambda>p. f_prev ((h @ [x]) ! p)) (rotate1 ps) = map (\<lambda>p. f_prev (h ! p)) (rotate1 ps)"
    by (rule map_cong) (simp_all add: same)
  ultimately show ?thesis using l unfolding linked_def by auto
qed

text \<open>Where the loop stops: at the first identifier that is not smaller.\<close>

lemma slot_spec_cases:
  fixes new_id :: u64
  assumes "sorted_wrt (<) (map (\<lambda>p. f_id (h ! p)) ps)"
  defines "suf \<equiv> dropWhile (\<lambda>p. f_id (h ! p) < new_id) ps"
  shows "slot_spec h new_id ps = (case suf of [] \<Rightarrow> At_end | p # _ \<Rightarrow> if f_id (h ! p) = new_id then Present else Before p) \<and>
    (new_id \<in> (\<lambda>p. f_id (h ! p)) ` set ps \<longleftrightarrow> suf \<noteq> [] \<and> f_id (h ! hd suf) = new_id)"
  unfolding suf_def using assms(1) by (induction ps) auto

lemma insort_split:
  assumes "sorted_wrt (<) (map fst xs)" "fst x \<notin> fst ` set xs"
  shows "takeWhile (\<lambda>y. fst y < fst x) xs @ x # dropWhile (\<lambda>y. fst y < fst x) xs = insort_key fst x xs"
  using assms by (induction xs) (auto simp: not_less order_le_less)

lemma sorted_wrt_insert:
  fixes k :: "'a::linorder"
  assumes "sorted_wrt (<) xs" "k \<notin> set xs"
  shows "sorted_wrt (<) (takeWhile (\<lambda>y. y < k) xs @ k # dropWhile (\<lambda>y. y < k) xs)"
  using assms
proof (induction xs)
  case (Cons x xs)
  show ?case
  proof (cases "x < k")
    case True
    with Cons show ?thesis by (auto dest: set_takeWhileD set_dropWhileD)
  next
    case False
    with Cons.prems show ?thesis by (auto simp: not_less order_le_less)
  qed
qed simp

text \<open>The array is always too short.\<close>

lemma follower_address_overflow: "follower_address host val = None"
  by (simp add: follower_address_def Let_def)

text \<open>The three places a new follower may go to.\<close>

lemma register_result:
  fixes host val :: string and new_id :: u64
  assumes "leader_ring L ps"
  defines "n \<equiv> length (follower_heap L)"
  defines "h \<equiv> follower_heap L @ [\<lparr>f_id = new_id, f_host = host, f_port = atoi val, f_next = n, f_prev = n\<rparr>]"
  defines "pre \<equiv> takeWhile (\<lambda>p. f_id (follower_heap L ! p) < new_id) ps" and "suf \<equiv> dropWhile (\<lambda>p. f_id (follower_heap L ! p) < new_id) ps"
  shows "register_follower L host val new_id = Some (\<lparr>res_type = SUCCESS, res_body = None\<rparr>,
     if new_id \<in> (\<lambda>p. f_id (follower_heap L ! p)) ` set ps then L\<lparr>follower_heap := h\<rparr>
     else L\<lparr>follower_heap := (if ps = [] then h else link_before h n (hd (suf @ pre))), followers_head := Some (hd (pre @ n # suf)),
            follower_count := follower_count L + 1\<rparr>)"
proof -
  have old: "follower_heap L ! p = h ! p" if "p \<in> set ps" for p
    using assms(1) that by (auto simp: leader_ring_def linked_def h_def nth_append)
  have link: "linked h ps" using assms(1) linked_grow by (simp add: leader_ring_def h_def)
  have so: "sorted_wrt (<) (map (\<lambda>p. f_id (h ! p)) ps)"
    using assms(1) old by (simp add: leader_ring_def cong: map_cong)
  have sp: "pre = takeWhile (\<lambda>p. f_id (h ! p) < new_id) ps" "suf = dropWhile (\<lambda>p. f_id (h ! p) < new_id) ps"
    using old by (auto simp: pre_def suf_def intro: takeWhile_cong dropWhile_cong)
  show ?thesis
  proof (cases ps)
    case Nil
    with assms(1) show ?thesis
      by (simp add: register_follower_def Let_def leader_ring_def n_def [symmetric] h_def [symmetric] pre_def suf_def)
  next
    case (Cons first rest)
    have hd: "followers_head L = Some first" using assms(1) Cons by (simp add: leader_ring_def)
    have fs: "find_slot h first new_id first = Some (slot_spec h new_id ps)"
      using find_slot_ring [of h "[]" first rest] link Cons by simp
    have img: "(\<lambda>p. f_id (follower_heap L ! p)) ` set ps = (\<lambda>p. f_id (h ! p)) ` set ps" using old by auto
    note slot = slot_spec_cases [OF so, of new_id, folded sp(2)]
    have di: "distinct (pre @ suf)" "pre @ suf = ps" using link by (simp_all add: linked_def sp)
    have run: "register_follower L host val new_id = (case slot_spec h new_id ps of
        Before cur \<Rightarrow> Some (\<lparr>res_type = SUCCESS, res_body = None\<rparr>, L\<lparr>follower_heap := link_before h n cur,
            followers_head := Some (if cur = first then n else first), follower_count := follower_count L + 1\<rparr>)
      | Present \<Rightarrow> Some (\<lparr>res_type = SUCCESS, res_body = None\<rparr>, L\<lparr>follower_heap := h\<rparr>)
      | At_end \<Rightarrow> Some (\<lparr>res_type = SUCCESS, res_body = None\<rparr>, L\<lparr>follower_heap := link_before h n first, follower_count := follower_count L + 1\<rparr>))"
      using hd fs by (simp add: register_follower_def Let_def n_def [symmetric] h_def [symmetric])
    show ?thesis
    proof (cases suf)
      case Nil
      then have "pre = ps" using di(2) by simp
      with Nil slot run hd Cons show ?thesis unfolding img by simp
    next
      case (Cons c r)
      have "c = first \<longleftrightarrow> pre = []" using di \<open>ps = first # rest\<close> Cons by (cases pre) auto
      moreover have "pre \<noteq> [] \<Longrightarrow> hd pre = first" using di(2) \<open>ps = first # rest\<close> by (cases pre) auto
      ultimately show ?thesis using slot run Cons \<open>ps = first # rest\<close> unfolding img by auto
    qed
  qed
qed

lemma update_link_info:
  "follower_info (h[i := (h ! i)\<lparr>f_next := x\<rparr>] ! q) = follower_info (h ! q)"
  "follower_info (h[i := (h ! i)\<lparr>f_prev := x\<rparr>] ! q) = follower_info (h ! q)"
  by (cases "i < length h"; cases "q = i"; simp add: follower_info_def list_update_beyond)+

lemma link_before_info: "follower_info (link_before h n cur ! q) = follower_info (h ! q)"
  by (simp only: link_before_def Let_def update_link_info)

lemma follower_info_id: "fst (follower_info f) = f_id f"
  by (simp add: follower_info_def)

lemma map_id_info: "map (\<lambda>p. f_id (h ! p)) ps = map fst (map (\<lambda>p. follower_info (h ! p)) ps)"
  by (simp add: follower_info_id)

text \<open>Registration keeps the ring and inserts the follower where its identifier belongs.\<close>

lemma register_ring:
  assumes "leader_ring L ps" "length ps < unat (follower_capacity L)"
  shows "\<exists>L' ps'. register_follower L host val new_id = Some (\<lparr>res_type = SUCCESS, res_body = None\<rparr>, L') \<and> leader_ring L' ps' \<and>
    follower_capacity L' = follower_capacity L \<and> redundancy L' = redundancy L \<and>
    ring_info L' ps' = (if new_id \<in> fst ` set (ring_info L ps) then ring_info L ps
      else insort_key fst (new_id, host, atoi val) (ring_info L ps))"
proof -
  define n where "n = length (follower_heap L)"
  define h where "h = follower_heap L @ [\<lparr>f_id = new_id, f_host = host, f_port = atoi val, f_next = n, f_prev = n\<rparr>]"
  define pre where "pre = takeWhile (\<lambda>p. f_id (follower_heap L ! p) < new_id) ps"
  define suf where "suf = dropWhile (\<lambda>p. f_id (follower_heap L ! p) < new_id) ps"
  note run = register_result [OF assms(1), of host val new_id, folded n_def, folded h_def pre_def suf_def]
  have ps: "pre @ suf = ps" by (simp add: pre_def suf_def)
  have lt: "p < n" if "p \<in> set ps" for p using assms(1) that by (auto simp: leader_ring_def linked_def n_def)
  have old: "h ! p = follower_heap L ! p" if "p \<in> set ps" for p using lt [OF that] by (simp add: h_def n_def nth_append)
  have link: "linked h ps" using assms(1) linked_grow by (simp add: leader_ring_def h_def)
  have ids: "(\<lambda>p. f_id (follower_heap L ! p)) ` set ps = fst ` set (ring_info L ps)"
    by (auto simp: ring_info_def follower_info_def image_iff)
  have so: "sorted_wrt (<) (map fst (ring_info L ps))"
    using assms(1) by (simp add: leader_ring_def ring_info_def map_id_info)
  show ?thesis
  proof (cases "new_id \<in> fst ` set (ring_info L ps)")
    case True
    define L' where "L' = L\<lparr>follower_heap := h\<rparr>"
    have info: "ring_info L' ps = ring_info L ps" by (simp add: ring_info_def L'_def old cong: map_cong)
    have "sorted_wrt (<) (map (\<lambda>p. f_id (follower_heap L' ! p)) ps)"
      using so by (simp only: map_id_info ring_info_def [symmetric] info)
    then have "leader_ring L' ps" using assms(1) link by (simp add: leader_ring_def L'_def)
    with run True info show ?thesis by (auto simp: ids L'_def)
  next
    case False
    define h' where "h' = (if ps = [] then h else link_before h n (hd (suf @ pre)))"
    define L' where "L' = L\<lparr>follower_heap := h', followers_head := Some (hd (pre @ n # suf)), follower_count := follower_count L + 1\<rparr>"
    have n: "n < length h" "n \<notin> set ps" using lt by (auto simp: h_def n_def)
    have newinfo: "follower_info (h ! n) = (new_id, host, atoi val)" by (simp add: h_def n_def follower_info_def)
    have inf: "follower_info (h' ! q) = (if q = n then (new_id, host, atoi val) else follower_info (follower_heap L ! q))" if "q \<in> set (n # ps)" for q
      using that lt [of q] old [of q] newinfo link_before_info [of h n "hd (suf @ pre)" q] by (auto simp: h'_def h_def n_def nth_append)
    have link': "linked h' (pre @ n # suf)"
    proof (cases "ps = []")
      case True
      then show ?thesis by (simp add: h'_def pre_def suf_def linked_def h_def n_def)
    next
      case False
      then show ?thesis using linked_insert [of h pre suf n] link n by (simp add: h'_def ps)
    qed
    have tw: "pre = takeWhile (\<lambda>p. fst (follower_info (follower_heap L ! p)) < new_id) ps"
      "suf = dropWhile (\<lambda>p. fst (follower_info (follower_heap L ! p)) < new_id) ps"
      by (simp_all add: pre_def suf_def follower_info_def)
    have "map (\<lambda>p. follower_info (h' ! p)) (pre @ n # suf) =
        map (\<lambda>p. follower_info (follower_heap L ! p)) pre @ (new_id, host, atoi val) # map (\<lambda>p. follower_info (follower_heap L ! p)) suf"
    proof -
      have "set pre \<subseteq> set ps" "set suf \<subseteq> set ps" using ps by auto
      with n(2) inf show ?thesis by (auto intro!: map_cong)
    qed
    also have "\<dots> = insort_key fst (new_id, host, atoi val) (ring_info L ps)"
      using insort_split [OF so, of "(new_id, host, atoi val)"] False
      by (simp add: tw ring_info_def takeWhile_map dropWhile_map comp_def)
    finally have info: "ring_info L' (pre @ n # suf) = insort_key fst (new_id, host, atoi val) (ring_info L ps)"
      by (simp add: ring_info_def L'_def)
    have "sorted_wrt (<) (map (\<lambda>p. f_id (h' ! p)) (pre @ n # suf))"
    proof -
      have "sorted (map fst (insort_key fst (new_id, host, atoi val) (ring_info L ps)))"
        using so by (simp add: sorted_insort_key strict_sorted_imp_sorted)
      moreover have "distinct (map fst (insort_key fst (new_id, host, atoi val) (ring_info L ps)))"
        using so False by (simp add: distinct_insort_key strict_sorted_iff)
      ultimately show ?thesis using info by (simp only: map_id_info strict_sorted_iff ring_info_def L'_def) simp
    qed
    then have "leader_ring L' (pre @ n # suf)"
      using assms(1,2) link' arg_cong [OF ps, of length] by (auto simp: leader_ring_def L'_def)
    with run False info show ?thesis by (auto simp: ids L'_def h'_def)
  qed
qed

section \<open>The contract of a ring\<close>

text \<open>A loop that runs \<open>body\<close> on \<open>r\<close> members of a ring from \<open>q\<close> on, and the same over a
  list.\<close>

fun ring_loop :: "('s \<Rightarrow> 'p \<Rightarrow> 'p option) \<Rightarrow> ('p \<Rightarrow> 'a \<Rightarrow> 'a option) \<Rightarrow> 's \<Rightarrow> nat \<Rightarrow> 'p \<Rightarrow> 'a \<Rightarrow> 'a option" where
  "ring_loop succ body s 0 q a = Some a"
| "ring_loop succ body s (Suc r) q a = do { a' \<leftarrow> body q a; q' \<leftarrow> succ s q; ring_loop succ body s r q' a' }"

fun fold_opt :: "('p \<Rightarrow> 'a \<Rightarrow> 'a option) \<Rightarrow> 'p list \<Rightarrow> 'a \<Rightarrow> 'a option" where
  "fold_opt body [] a = Some a"
| "fold_opt body (q # qs) a = do { a' \<leftarrow> body q a; fold_opt body qs a' }"

locale ring_walk =
  fixes holds :: "'s \<Rightarrow> 'p list \<Rightarrow> bool"
    and succ :: "'s \<Rightarrow> 'p \<Rightarrow> 'p option"
  assumes rotates: "holds s qs \<Longrightarrow> holds s (rotate1 qs)"
    and succ_next: "holds s (q # qs) \<Longrightarrow> succ s q = Some (hd (qs @ [q]))"
begin

lemma loop_visits:
  "holds s (q # qs) \<Longrightarrow> r \<le> Suc (length qs) \<Longrightarrow> ring_loop succ body s r q a = fold_opt body (take r (q # qs)) a"
proof (induction r arbitrary: q qs a)
  case (Suc r)
  have nx: "succ s q = Some (hd (qs @ [q]))" by (rule succ_next [OF Suc.prems(1)])
  have rot: "holds s (qs @ [q])" using rotates [OF Suc.prems(1)] by simp
  show ?case
  proof (cases qs)
    case Nil
    with Suc.prems(2) nx show ?thesis by (cases "body q a") simp_all
  next
    case (Cons q' qs')
    then have "ring_loop succ body s r q' a' = fold_opt body (take r (q' # qs' @ [q])) a'" for a'
      using Suc.IH [of q' "qs' @ [q]"] rot Suc.prems(2) by simp
    moreover have "take r (q' # qs' @ [q]) = take r qs" using Suc.prems(2) Cons by (cases r) auto
    ultimately show ?thesis using nx Cons by simp
  qed
qed simp

end

lemma successor_linked: "linked (follower_heap L) (q # qs) \<Longrightarrow> tpcleader_get_successor L q = Some (hd (qs @ [q]))"
  using linked_next [of "follower_heap L" "[]" q qs]
  by (auto simp: tpcleader_get_successor_def deref_def linked_def)

interpretation fring: ring_walk "\<lambda>L. linked (follower_heap L)" tpcleader_get_successor
  by unfold_locales (auto intro: linked_rotate1 successor_linked)

section \<open>Replicas\<close>

text \<open>The followers that store a key: the first whose identifier is greater than the hash of the key, or
  the first of all, and those behind it on the ring.\<close>

definition primary_of :: "tpcleader_t \<Rightarrow> nat list \<Rightarrow> string \<Rightarrow> nat" where
  "primary_of L ps key = (case find (\<lambda>p. f_id (follower_heap L ! p) > strhash64 key) ps of None \<Rightarrow> hd ps | Some p \<Rightarrow> p)"

definition ring_from :: "nat list \<Rightarrow> nat \<Rightarrow> nat list" where
  "ring_from ps p = dropWhile (\<lambda>q. q \<noteq> p) ps @ takeWhile (\<lambda>q. q \<noteq> p) ps"

definition replicas :: "tpcleader_t \<Rightarrow> nat list \<Rightarrow> string \<Rightarrow> tpcfollower_t list" where
  "replicas L ps key = map (\<lambda>p. follower_heap L ! p) (take (replica_count L) (ring_from ps (primary_of L ps key)))"

lemma primary_of_in: "ps \<noteq> [] \<Longrightarrow> primary_of L ps key \<in> set ps"
  by (auto simp: primary_of_def find_Some_iff split: option.split)

lemma get_primary_ring:
  assumes "leader_ring L ps" "ps \<noteq> []" "length ps = unat (follower_capacity L)"
  shows "tpcleader_get_primary L key = Some (Some (primary_of L ps key))"
proof -
  obtain c suf where ps: "ps = c # suf" using assms(2) by (cases ps) auto
  have "\<not> follower_count L < follower_capacity L"
    using leader_ring_count [OF assms(1)] assms(3) by (simp add: word_less_nat_alt)
  moreover have "linked (follower_heap L) ([] @ c # suf)" "followers_head L = Some c" using assms(1) by (simp_all add: leader_ring_def ps)
  ultimately show ?thesis
    using primary_loop_ring [of "follower_heap L" "[]" c suf "strhash64 key"]
    by (simp add: tpcleader_get_primary_def primary_of_def ps split: option.split)
qed

lemma ring_from_split: "distinct ps \<Longrightarrow> p \<in> set ps \<Longrightarrow> \<exists>pre suf. ps = pre @ p # suf \<and> ring_from ps p = p # suf @ pre"
proof -
  assume "distinct ps" "p \<in> set ps"
  then obtain pre suf where "ps = pre @ p # suf" "p \<notin> set pre" by (meson split_list_first)
  then have "ps = pre @ p # suf \<and> ring_from ps p = p # suf @ pre" by (simp add: ring_from_def)
  then show ?thesis by blast
qed

lemma ring_from_linked:
  assumes "linked h ps" "p \<in> set ps"
  shows "\<exists>qs. ring_from ps p = p # qs \<and> linked h (p # qs) \<and> length (p # qs) = length ps"
proof -
  obtain pre suf where "ps = pre @ p # suf" "ring_from ps p = p # suf @ pre"
    using ring_from_split [of ps p] assms by (auto simp: linked_def)
  with linked_rotate [OF assms(1), of "length pre"] show ?thesis by (auto simp: rotate_append)
qed

section \<open>The phases as loops over the replicas\<close>

definition poll :: "'w network \<Rightarrow> kvrequest_t \<Rightarrow> tpcfollower_t \<Rightarrow> nat \<times> 'w \<Rightarrow> (nat \<times> 'w) option" where
  "poll net req f a = do {
     (reply, w1) \<leftarrow> leader_rpc net (snd a) f req;
     Some (if votes_commit reply then fst a else fst a + 1, w1)
   }"

lemma phase1_ring:
  "phase1 net L req r p ab w = ring_loop tpcleader_get_successor
     (\<lambda>p a. do { f \<leftarrow> deref (follower_heap L) p; poll net req f a }) L r p (ab, w)"
proof (induction r arbitrary: p ab w)
  case (Suc r)
  show ?case
    by (cases "deref (follower_heap L) p"; cases "leader_rpc net w (the (deref (follower_heap L) p)) req")
      (auto simp: poll_def Suc.IH)
qed simp

lemma phase2_ring:
  "phase2 net L req r p w = ring_loop tpcleader_get_successor
     (\<lambda>p w. do { f \<leftarrow> deref (follower_heap L) p; ack_loop net f req w }) L r p w"
proof (induction r arbitrary: p w)
  case (Suc r)
  show ?case by (cases "deref (follower_heap L) p") (simp_all add: Suc.IH)
qed simp

lemma fold_opt_deref:
  "\<forall>p \<in> set qs. p < length h \<Longrightarrow> fold_opt (\<lambda>p a. do { f \<leftarrow> deref h p; g f a }) qs a = fold_opt g (map (\<lambda>p. h ! p) qs) a"
proof (induction qs arbitrary: a)
  case (Cons q qs)
  then have "deref h q = Some (h ! q)" by (simp add: deref_def)
  moreover have "fold_opt (\<lambda>p a. do { f \<leftarrow> deref h p; g f a }) qs = fold_opt g (map (\<lambda>p. h ! p) qs)"
    using Cons by (intro ext) simp
  ultimately show ?case by simp
qed simp

text \<open>The transaction as it runs over the replicas of the key.\<close>

definition tpc_spec :: "'w network \<Rightarrow> tpcfollower_t list \<Rightarrow> kvrequest_t \<Rightarrow> 'w \<Rightarrow> (kvresponse_t \<times> 'w) option" where
  "tpc_spec net fs req w = do {
     (aborts, w1) \<leftarrow> fold_opt (poll net req) fs (0, w);
     w2 \<leftarrow> fold_opt (\<lambda>f. ack_loop net f (req\<lparr>req_type := (if aborts > 0 then ABORT else COMMIT)\<rparr>)) fs w1;
     Some (if aborts > 0 then \<lparr>res_type = ERROR, res_body = Some ERRMSG_GENERIC_ERROR\<rparr>
           else \<lparr>res_type = SUCCESS, res_body = None\<rparr>, w2)
   }"

lemma handle_tpc_spec:
  assumes "leader_ring L ps" "ps \<noteq> []" "length ps = unat (follower_capacity L)" "replica_count L \<le> length ps" "req_key req = Some key"
  shows "tpcleader_handle_tpc net L req w = tpc_spec net (replicas L ps key) req w"
proof -
  define p where "p = primary_of L ps key"
  have full: "follower_count L = follower_capacity L"
    using leader_ring_count [OF assms(1)] assms(3) by (simp add: word_unat_eq_iff)
  have link: "linked (follower_heap L) ps" using assms(1) by (simp add: leader_ring_def)
  obtain qs where qs: "ring_from ps p = p # qs" "linked (follower_heap L) (p # qs)" "length (p # qs) = length ps"
    using ring_from_linked [OF link primary_of_in [OF assms(2), of L key]] by (auto simp: p_def)
  have r: "replica_count L \<le> Suc (length qs)" using assms(4) qs(3) by simp
  have lt: "\<forall>q \<in> set (take (replica_count L) (p # qs)). q < length (follower_heap L)"
    by (meson in_set_takeD linked_def qs(2))
  have rep: "replicas L ps key = map (\<lambda>p. follower_heap L ! p) (take (replica_count L) (p # qs))"
    by (simp add: replicas_def p_def [symmetric] qs(1))
  have p1: "phase1 net L req' (replica_count L) p 0 w' = fold_opt (poll net req') (replicas L ps key) (0, w')" for req' w'
    unfolding phase1_ring fring.loop_visits [OF qs(2) r] rep by (rule fold_opt_deref [OF lt])
  have p2: "phase2 net L req' (replica_count L) p w' = fold_opt (\<lambda>f. ack_loop net f req') (replicas L ps key) w'" for req' w'
    unfolding phase2_ring fring.loop_visits [OF qs(2) r] rep by (rule fold_opt_deref [OF lt])
  show ?thesis
    using full assms(5) get_primary_ring [OF assms(1-3), of key]
    by (simp add: tpcleader_handle_tpc_def tpc_spec_def p_def [symmetric] p1 p2 Let_def)
qed

section \<open>Properties of the ring\<close>

definition new_leader :: tpcleader_t where
  "new_leader = snd (tpcleader_init \<lparr>follower_capacity = 0, follower_count = 7, redundancy = 0, followers_head = Some 3,
     follower_heap = []\<rparr> 2 2)"

lemma new_leader_ring: "leader_ring new_leader []"
  unfolding new_leader_def by (rule leader_ring_init)

text \<open>C11. Putting a follower into the ring, which is all of \<open>tpcleader_register\<close> behind the identifier and is done for
  whatever identifier it has: with a place left, the answer is SUCCESS, the followers stay linked in a ring in increasing order
  of their identifiers, and the new follower has been inserted at its place with its host and port, unless one with its
  identifier was there, when nothing is added; capacity and redundancy stay. How \<open>tpcleader_register\<close> comes to the
  identifier is not part of this statement: the array it prints the address into is too short.\<close>

theorem tpcleader_register_sorted:
  assumes "leader_ring L ps" and "length ps < unat (follower_capacity L)"
  shows "\<exists>L' ps'. register_follower L host val new_id = Some (\<lparr>res_type = SUCCESS, res_body = None\<rparr>, L') \<and> leader_ring L' ps' \<and>
    follower_capacity L' = follower_capacity L \<and> redundancy L' = redundancy L \<and>
    ring_info L' ps' = (if new_id \<in> fst ` set (ring_info L ps) then ring_info L ps
      else insort_key fst (new_id, host, atoi val) (ring_info L ps))"
  by (rule register_ring [OF assms])

text \<open>A leader with followers 3 and 9 of four, in the heap in this order.\<close>

definition two_followers :: tpcleader_t where
  "two_followers = \<lparr>follower_capacity = 4, follower_count = 2, redundancy = 2, followers_head = Some 0,
     follower_heap = [\<lparr>f_id = 3, f_host = ''a'', f_port = 1, f_next = 1, f_prev = 1\<rparr>, \<lparr>f_id = 9, f_host = ''b'', f_port = 2, f_next = 0, f_prev = 0\<rparr>]\<rparr>"

lemma two_followers_ring: "leader_ring two_followers [0, 1]"
  by (simp add: leader_ring_def two_followers_def linked_def)

theorem tpcleader_register_sorted_witness:
  "\<exists>L' ps'. register_follower two_followers ''c'' ''7'' 5 = Some (\<lparr>res_type = SUCCESS, res_body = None\<rparr>, L') \<and> leader_ring L' ps' \<and>
    map fst (ring_info L' ps') = [3, 5, 9]"
proof -
  have cap: "length [0, 1 :: nat] < unat (follower_capacity two_followers)" by (simp add: two_followers_def)
  have "ring_info two_followers [0, 1] = [(3, ''a'', 1), (9, ''b'', 2)]" by (simp add: two_followers_def ring_info_def follower_info_def)
  with tpcleader_register_sorted [OF two_followers_ring cap, of "''c''" "''7''" 5] show ?thesis by fastforce
qed

text \<open>C12. The primary of a key: with all followers registered, \<open>tpcleader_get_primary\<close> returns the follower
  with the smallest identifier greater than the hash of the key, and the one with the smallest identifier of
  all where none is greater.\<close>

theorem tpcleader_primary_correct:
  assumes "leader_ring L ps" and "ps \<noteq> []" and "length ps = unat (follower_capacity L)"
  shows "\<exists>p \<in> set ps. tpcleader_get_primary L key = Some (Some p) \<and>
    (let i = \<lambda>q. f_id (follower_heap L ! q); above = {q \<in> set ps. i q > strhash64 key} in
     if above \<noteq> {} then p \<in> above \<and> (\<forall>q \<in> above. i p \<le> i q) else \<forall>q \<in> set ps. i p \<le> i q)"
proof -
  have so: "sorted_wrt (<) (map (\<lambda>q. f_id (follower_heap L ! q)) ps)" using assms(1) by (simp add: leader_ring_def)
  have *: "case find P qs of None \<Rightarrow> \<forall>q \<in> set qs. \<not> P q
      | Some p \<Rightarrow> p \<in> set qs \<and> P p \<and> (\<forall>q \<in> set qs. P q \<longrightarrow> f_id (follower_heap L ! p) \<le> f_id (follower_heap L ! q))"
    if "sorted_wrt (<) (map (\<lambda>q. f_id (follower_heap L ! q)) qs)" for P qs
    using that by (induction qs) (auto split: option.splits)
  have hd: "\<forall>q \<in> set ps. f_id (follower_heap L ! hd ps) \<le> f_id (follower_heap L ! q)" using so by (cases ps) auto
  show ?thesis
  proof (rule bexI [of _ "primary_of L ps key"])
    show "primary_of L ps key \<in> set ps" by (rule primary_of_in [OF assms(2)])
    show "tpcleader_get_primary L key = Some (Some (primary_of L ps key)) \<and>
      (let i = \<lambda>q. f_id (follower_heap L ! q); above = {q \<in> set ps. i q > strhash64 key} in
       if above \<noteq> {} then primary_of L ps key \<in> above \<and> (\<forall>q \<in> above. i (primary_of L ps key) \<le> i q)
       else \<forall>q \<in> set ps. i (primary_of L ps key) \<le> i q)"
      using get_primary_ring [OF assms, of key] * [OF so, of "\<lambda>q. f_id (follower_heap L ! q) > strhash64 key"] hd
      by (auto simp: primary_of_def Let_def split: option.splits)
  qed
qed

lemma one_follower:
  "\<exists>L ps. leader_ring L ps \<and> length ps = 1 \<and> follower_capacity L = 1 \<and> redundancy L = 1 \<and>
     ring_info L ps = [(strhash64 ''1:h'', ''h'', 1)]"
proof -
  define L where "L = \<lparr>follower_capacity = 1, follower_count = 1, redundancy = 1, followers_head = Some 0,
    follower_heap = [\<lparr>f_id = strhash64 ''1:h'', f_host = ''h'', f_port = 1, f_next = 0, f_prev = 0\<rparr>]\<rparr>"
  have "leader_ring L [0]" by (simp add: leader_ring_def L_def linked_def)
  moreover have "ring_info L [0] = [(strhash64 ''1:h'', ''h'', 1)]" by (simp add: ring_info_def L_def follower_info_def)
  ultimately show ?thesis by (intro exI [of _ L] exI [of _ "[0]"]) (simp add: L_def)
qed

theorem tpcleader_primary_correct_witness:
  "\<exists>L ps. leader_ring L ps \<and> (\<exists>p \<in> set ps. tpcleader_get_primary L ''k'' = Some (Some p))"
proof -
  obtain L ps where L: "leader_ring L ps" "length ps = 1" "follower_capacity L = 1" using one_follower by blast
  then have "\<exists>p \<in> set ps. tpcleader_get_primary L ''k'' = Some (Some p)"
    using tpcleader_primary_correct [OF L(1), of "''k''"] by fastforce
  with L show ?thesis by blast
qed

text \<open>C13. A transaction runs over the replicas of its key: both phases of \<open>tpcleader_handle_tpc\<close>, which follow
  the links of the ring, address the same list of followers, as many as the redundancy says, none twice, and the
  call is the polling of each of them in turn followed by the repeated sending of one decision to each of them,
  over any network.\<close>

theorem tpcleader_handle_tpc_replicas:
  assumes "leader_ring L ps" and "ps \<noteq> []" and "length ps = unat (follower_capacity L)" and "replica_count L \<le> length ps"
    and "req_key req = Some key"
  shows "tpcleader_handle_tpc net L req w = tpc_spec net (replicas L ps key) req w \<and>
    length (replicas L ps key) = replica_count L \<and> distinct (map f_id (replicas L ps key)) \<and>
    set (replicas L ps key) \<subseteq> (\<lambda>p. follower_heap L ! p) ` set ps"
proof -
  have di: "distinct (map (\<lambda>p. f_id (follower_heap L ! p)) ps)"
    using assms(1) by (simp add: leader_ring_def strict_sorted_iff)
  obtain pre suf where s: "ps = pre @ primary_of L ps key # suf" "ring_from ps (primary_of L ps key) = primary_of L ps key # suf @ pre"
    using ring_from_split [OF _ primary_of_in [OF assms(2)], of L key] assms(1) by (auto simp: leader_ring_def linked_def)
  define qs where "qs = ring_from ps (primary_of L ps key)"
  have qs: "set qs = set ps" "length qs = length ps"
    using arg_cong [OF s(1), of set] arg_cong [OF s(1), of length] by (simp_all only: qs_def s(2)) auto
  have "distinct (map (\<lambda>p. f_id (follower_heap L ! p)) qs)"
    using di qs by (metis (no_types, lifting) card_distinct distinct_card length_map set_map)
  moreover have "map f_id (replicas L ps key) = take (replica_count L) (map (\<lambda>p. f_id (follower_heap L ! p)) qs)"
    by (simp add: replicas_def qs_def take_map)
  ultimately have "distinct (map f_id (replicas L ps key))" by (metis distinct_take)
  moreover have "set (replicas L ps key) \<subseteq> (\<lambda>p. follower_heap L ! p) ` set ps"
    using qs(1) by (auto simp: replicas_def qs_def [symmetric] dest: in_set_takeD)
  moreover have "length (replicas L ps key) = replica_count L"
    using assms(4) qs(2) by (simp add: replicas_def qs_def [symmetric])
  ultimately show ?thesis using handle_tpc_spec [OF assms, of net w] by simp
qed

theorem tpcleader_handle_tpc_replicas_witness:
  "\<exists>L ps. leader_ring L ps \<and> length (replicas L ps ''k'') = 1 \<and> (\<forall>(net :: unit network) w.
     tpcleader_handle_tpc net L \<lparr>req_type = DELREQ, req_key = Some ''k'', req_val = None\<rparr> w =
       tpc_spec net (replicas L ps ''k'') \<lparr>req_type = DELREQ, req_key = Some ''k'', req_val = None\<rparr> w)"
proof -
  obtain L ps where L: "leader_ring L ps" "length ps = 1" "follower_capacity L = 1" "redundancy L = 1" using one_follower by blast
  have r: "replica_count L = 1" by (simp add: replica_count_def L(4))
  have pre: "ps \<noteq> []" "length ps = unat (follower_capacity L)" "replica_count L \<le> length ps" using L r by auto
  have "tpcleader_handle_tpc net L \<lparr>req_type = DELREQ, req_key = Some ''k'', req_val = None\<rparr> w =
      tpc_spec net (replicas L ps ''k'') \<lparr>req_type = DELREQ, req_key = Some ''k'', req_val = None\<rparr> w \<and> length (replicas L ps ''k'') = 1"
    for net :: "unit network" and w
    using tpcleader_handle_tpc_replicas [OF L(1) pre, of "\<lparr>req_type = DELREQ, req_key = Some ''k'', req_val = None\<rparr>" "''k''" net w] r
    by simp
  with L(1) show ?thesis by blast
qed

section \<open>Agreement over any network\<close>

text \<open>A network that also keeps the list of exchanges: host, port, bytes sent, bytes received.\<close>

type_synonym exchange = "string \<times> u32 \<times> bytes \<times> bytes"

definition traced :: "'w network \<Rightarrow> ('w \<times> exchange list) network" where
  "traced net = \<lparr>
     nw_connect = (\<lambda>(w, tr) h p. case nw_connect net w h p of (c, w') \<Rightarrow> (c, w', tr)),
     nw_exchange = (\<lambda>(w, tr) h p sent. case nw_exchange net w h p sent of (reply, w') \<Rightarrow> (reply, w', tr @ [(h, p, sent, reply)]))\<rparr>"

definition asks :: "kvrequest_t \<Rightarrow> exchange \<Rightarrow> bool" where
  "asks req e \<longleftrightarrow> (case e of (_, _, sent, _) \<Rightarrow> \<exists>ws n. kvrequest_send ws req = Some (n, sent))"

definition with_follower :: "tpcfollower_t \<Rightarrow> exchange \<Rightarrow> bool" where
  "with_follower f e \<longleftrightarrow> (case e of (h, p, _) \<Rightarrow> h = f_host f \<and> p = f_port f)"

definition answer :: "exchange \<Rightarrow> kvresponse_t option option" where
  "answer e = (case e of (_, _, _, reply) \<Rightarrow> kvresponse_recieve reply)"

lemma rpc_traced:
  assumes "leader_rpc (traced net) (w, tr) f req = Some (r, w', tr')"
  shows "r = None \<and> tr' = tr \<or> (\<exists>e. tr' = tr @ [e] \<and> asks req e \<and> with_follower f e \<and> answer e = r)"
  using assms
  by (auto simp: leader_rpc_def traced_def asks_def with_follower_def answer_def bind_eq_Some_conv
      split: prod.splits option.splits)

lemma poll_SomeD:
  "poll net req f (a, w) = Some b \<Longrightarrow>
   \<exists>r w1. leader_rpc net w f req = Some (r, w1) \<and> b = (if votes_commit r then a else a + 1, w1)"
  by (auto simp: poll_def bind_eq_Some_conv)

lemma polls_traced:
  "fold_opt (poll (traced net) req) fs (a, w, tr) = Some (a', w', tr') \<Longrightarrow>
   \<exists>tr1. tr' = tr @ tr1 \<and> list_all (asks req) tr1 \<and> a \<le> a' \<and>
     (a' = a \<longrightarrow> list_all2 (\<lambda>f e. with_follower f e \<and> votes_commit (answer e)) fs tr1)"
proof (induction fs arbitrary: a w tr)
  case (Cons f fs)
  then obtain b where b: "poll (traced net) req f (a, w, tr) = Some b" "fold_opt (poll (traced net) req) fs b = Some (a', w', tr')"
    by (auto simp: bind_eq_Some_conv)
  obtain r w1 tr1 where step: "leader_rpc (traced net) (w, tr) f req = Some (r, w1, tr1)"
    and "b = (if votes_commit r then a else a + 1, w1, tr1)"
    using poll_SomeD [OF b(1)] by auto
  with b(2) have rest: "fold_opt (poll (traced net) req) fs (if votes_commit r then a else a + 1, w1, tr1) = Some (a', w', tr')"
    by simp
  obtain tr2 where tr2: "tr' = tr1 @ tr2" "list_all (asks req) tr2" "(if votes_commit r then a else a + 1) \<le> a'"
    "a' = (if votes_commit r then a else a + 1) \<longrightarrow> list_all2 (\<lambda>f e. with_follower f e \<and> votes_commit (answer e)) fs tr2"
    using Cons.IH [OF rest] by blast
  from rpc_traced [OF step] show ?case
  proof
    assume "r = None \<and> tr1 = tr"
    then show ?thesis using tr2 by (auto simp: votes_commit_def)
  next
    assume "\<exists>e. tr1 = tr @ [e] \<and> asks req e \<and> with_follower f e \<and> answer e = r"
    then obtain e where e: "tr1 = tr @ [e]" "asks req e" "with_follower f e" "answer e = r" by blast
    show ?thesis by (rule exI [of _ "e # tr2"]) (use tr2 e in \<open>auto split: if_splits\<close>)
  qed
qed simp

text \<open>Induction over the attempts of a loop that returns.\<close>

lemma ack_loop_induct [consumes 1, case_names ack retry]:
  assumes "ack_loop net f req w = Some w'"
    and ack: "\<And>w r w1. leader_rpc net w f req = Some (r, w1) \<Longrightarrow> is_ack r \<Longrightarrow> P w w1"
    and retry: "\<And>w r w1 w'. leader_rpc net w f req = Some (r, w1) \<Longrightarrow> \<not> is_ack r \<Longrightarrow> P w1 w' \<Longrightarrow> P w w'"
  shows "P w w'"
proof -
  have "n = net \<longrightarrow> g = f \<longrightarrow> q = req \<longrightarrow> P v v'" if "ack_loop n g q v = Some v'" for n g q v v'
  proof (rule ack_loop.raw_induct [OF _ that, where P = "\<lambda>n g q v v'. n = net \<longrightarrow> g = f \<longrightarrow> q = req \<longrightarrow> P v v'"], intro impI)
    fix loop n g q v v'
    assume IH: "\<And>f' req' w' b y. loop f' req' w' b = Some y \<Longrightarrow> f' = net \<longrightarrow> req' = f \<longrightarrow> w' = req \<longrightarrow> P b y"
      and step: "(case leader_rpc n v g q of None \<Rightarrow> None | Some (reply, w1) \<Rightarrow> if is_ack reply then Some w1 else loop n g q w1) = Some v'"
      and eq: "n = net" "g = f" "q = req"
    then obtain r w1 where r: "leader_rpc net v f req = Some (r, w1)" "if is_ack r then w1 = v' else loop net f req w1 = Some v'"
      by (auto split: option.splits if_splits)
    then show "P v v'" using ack retry IH by (cases "is_ack r") auto
  qed
  with assms(1) show ?thesis by blast
qed

lemma ack_loop_traced:
  "ack_loop (traced net) f req s = Some s' \<Longrightarrow>
   \<exists>tr1 e. snd s' = snd s @ tr1 @ [e] \<and> list_all (asks req) (tr1 @ [e]) \<and> with_follower f e \<and> is_ack (answer e)"
proof (induction rule: ack_loop_induct)
  case (ack s r s1)
  then have "\<exists>e. snd s1 = snd s @ [e] \<and> asks req e \<and> with_follower f e \<and> answer e = r"
    using rpc_traced [of net "fst s" "snd s" f req r "fst s1" "snd s1"] by (auto simp: is_ack_def)
  with ack(2) show ?case by (intro exI [of _ "[]"]) auto
next
  case (retry s r s1 s')
  then obtain tr2 e where e: "snd s' = snd s1 @ tr2 @ [e]" "list_all (asks req) (tr2 @ [e])" "with_follower f e" "is_ack (answer e)"
    by blast
  have "snd s1 = snd s \<or> (\<exists>e. snd s1 = snd s @ [e] \<and> asks req e)"
    using rpc_traced [of net "fst s" "snd s" f req r "fst s1" "snd s1"] retry(1) by auto
  then obtain tr1 where "snd s1 = snd s @ tr1" "list_all (asks req) tr1" by (metis append_Nil2 list.pred_inject)
  with e show ?case by (intro exI [of _ "tr1 @ tr2"] exI [of _ e]) simp
qed

lemma acks_traced:
  "fold_opt (\<lambda>f. ack_loop (traced net) f req) fs s = Some s' \<Longrightarrow>
   \<exists>tr2. snd s' = snd s @ tr2 \<and> list_all (asks req) tr2 \<and> (\<forall>f \<in> set fs. \<exists>e \<in> set tr2. with_follower f e \<and> is_ack (answer e))"
proof (induction fs arbitrary: s)
  case (Cons f fs)
  then obtain s1 where s1: "ack_loop (traced net) f req s = Some s1" "fold_opt (\<lambda>f. ack_loop (traced net) f req) fs s1 = Some s'"
    by (auto simp: bind_eq_Some_conv)
  obtain tr1 e where e: "snd s1 = snd s @ tr1 @ [e]" "list_all (asks req) (tr1 @ [e])" "with_follower f e" "is_ack (answer e)"
    using ack_loop_traced [OF s1(1)] by blast
  obtain tr2 where tr2: "snd s' = snd s1 @ tr2" "list_all (asks req) tr2" "\<forall>f \<in> set fs. \<exists>e \<in> set tr2. with_follower f e \<and> is_ack (answer e)"
    using Cons.IH [OF s1(2)] by blast
  show ?case by (rule exI [of _ "tr1 @ e # tr2"]) (use e tr2 in auto)
qed simp

section \<open>When a transaction ends\<close>

text \<open>The reply of the first acknowledged attempt among \<open>n + 1\<close>.\<close>

fun attempts :: "'w network \<Rightarrow> tpcfollower_t \<Rightarrow> kvrequest_t \<Rightarrow> nat \<Rightarrow> 'w \<Rightarrow> (kvresponse_t option option \<times> 'w) option" where
  "attempts net f req 0 w = leader_rpc net w f req"
| "attempts net f req (Suc n) w = do {
     (r, w1) \<leftarrow> leader_rpc net w f req;
     (if is_ack r then Some (r, w1) else attempts net f req n w1)
   }"

lemma ack_loop_attempts: "attempts net f req n w = Some (r, w') \<Longrightarrow> is_ack r \<Longrightarrow> ack_loop net f req w = Some w'"
proof (induction n arbitrary: w)
  case (Suc n)
  then show ?case by (subst ack_loop.simps) (auto simp: bind_eq_Some_conv split: if_splits)
qed (simp add: ack_loop.simps)

lemma acks_end:
  assumes "\<forall>f \<in> set fs. \<forall>w. \<exists>n r w'. attempts net f req n w = Some (r, w') \<and> is_ack r"
  shows "\<exists>w'. fold_opt (\<lambda>f. ack_loop net f req) fs w = Some w'"
  using assms
proof (induction fs arbitrary: w)
  case (Cons f fs)
  then obtain n r w1 where "attempts net f req n w = Some (r, w1)" "is_ack r" by (meson list.set_intros(1))
  then have "ack_loop net f req w = Some w1" by (rule ack_loop_attempts)
  moreover obtain w' where "fold_opt (\<lambda>f. ack_loop net f req) fs w1 = Some w'" using Cons by (meson list.set_intros(2))
  ultimately show ?case by auto
qed simp

lemma polls_end:
  assumes "\<forall>f \<in> set fs. \<forall>w. leader_rpc net w f req \<noteq> None"
  shows "\<exists>a' w'. fold_opt (poll net req) fs (a, w) = Some (a', w')"
  using assms
proof (induction fs arbitrary: a w)
  case (Cons f fs)
  then obtain r w1 where "leader_rpc net w f req = Some (r, w1)" by fastforce
  then have "poll net req f (a, w) = Some (if votes_commit r then a else a + 1, w1)" by (simp add: poll_def)
  with Cons show ?case by auto
qed simp

text \<open>A follower that never acknowledges keeps the leader in its loop.\<close>

lemma ack_loop_stuck:
  "ack_loop net f req w = Some w' \<Longrightarrow> \<exists>w0 r w1. leader_rpc net w0 f req = Some (r, w1) \<and> is_ack r"
  by (induction rule: ack_loop_induct) auto

section \<open>Properties of a transaction\<close>

text \<open>A network whose followers all vote to commit and acknowledge every decision.\<close>

definition willing_reply :: "kvrequest_t option option \<Rightarrow> kvresponse_t" where
  "willing_reply r = (case r of
     Some (Some q) \<Rightarrow> if req_type q \<in> {COMMIT, ABORT} then \<lparr>res_type = ACK, res_body = None\<rparr> else vote_commit
   | _ \<Rightarrow> \<lparr>res_type = ERROR, res_body = None\<rparr>)"

definition willing_net :: "unit network" where
  "willing_net = \<lparr>nw_connect = (\<lambda>_ _ _. (Some all_written, ())),
     nw_exchange = (\<lambda>_ _ _ sent. (the (kvresponse_wire (willing_reply (kvrequest_recieve sent))), ()))\<rparr>"

lemma willing_rpc:
  assumes "kvrequest_ok req"
  shows "leader_rpc willing_net w f req = Some (Some (Some (with_body (willing_reply (Some (Some req))))), ())"
proof -
  obtain n bs where bs: "kvrequest_send all_written req = Some (n, bs)" "kvrequest_recieve bs = Some (Some req)"
    using req_codec.encodes [OF assms] by (auto simp: kvrequest_wire_def)
  have "kvresponse_ok (willing_reply (Some (Some req)))"
    by (simp add: willing_reply_def kvresponse_ok_def opt_len_def vote_commit_def)
  then obtain cs where "kvresponse_wire (willing_reply (Some (Some req))) = Some cs"
    "kvresponse_recieve cs = Some (Some (with_body (willing_reply (Some (Some req)))))"
    using res_codec.encodes by blast
  with bs show ?thesis by (simp add: leader_rpc_def willing_net_def)
qed

lemma rpc_traced_defined:
  assumes "leader_rpc net w f req = Some (r, w')"
  shows "\<exists>tr'. leader_rpc (traced net) (w, tr) f req = Some (r, w', tr')"
proof -
  obtain c w1 where c: "nw_connect net w (f_host f) (f_port f) = (c, w1)" by (cases "nw_connect net w (f_host f) (f_port f)")
  show ?thesis
  proof (cases c)
    case (Some ws)
    then obtain n sent where sent: "kvrequest_send ws req = Some (n, sent)" using assms c by (auto simp: leader_rpc_def bind_eq_Some_conv)
    obtain reply w2 where "nw_exchange net w1 (f_host f) (f_port f) sent = (reply, w2)" by (cases "nw_exchange net w1 (f_host f) (f_port f) sent")
    with assms c Some sent show ?thesis by (auto simp: leader_rpc_def traced_def bind_eq_Some_conv)
  qed (use assms c in \<open>simp add: leader_rpc_def traced_def\<close>)
qed

lemma willing_traced:
  assumes "kvrequest_ok req"
  shows "\<exists>tr'. leader_rpc (traced willing_net) s f req = Some (Some (Some (with_body (willing_reply (Some (Some req))))), (), tr')"
  using rpc_traced_defined [OF willing_rpc [OF assms], where tr = "snd s"] by (cases s) simp

lemma replicas_length:
  assumes "leader_ring L ps" "ps \<noteq> []" "replica_count L \<le> length ps"
  shows "length (replicas L ps key) = replica_count L"
proof -
  have "linked (follower_heap L) ps" using assms(1) by (simp add: leader_ring_def)
  from ring_from_linked [OF this primary_of_in [OF assms(2), of L key]] assms(3) show ?thesis
    by (auto simp: replicas_def)
qed

lemma acks_stuck:
  "f \<in> set fs \<Longrightarrow> \<forall>w r w'. leader_rpc net w f req = Some (r, w') \<longrightarrow> \<not> is_ack r \<Longrightarrow> fold_opt (\<lambda>f. ack_loop net f req) fs w = None"
proof (induction fs arbitrary: w)
  case (Cons g fs)
  show ?case
  proof (cases "ack_loop net g req w")
    case (Some w1)
    then have "f \<noteq> g" using ack_loop_stuck [OF Some] Cons.prems(2) by blast
    with Cons Some show ?thesis by simp
  qed simp
qed simp

text \<open>A transaction ends when every call returns and every replica acknowledges at last.\<close>

lemma handle_tpc_ends:
  assumes "leader_ring L ps" "ps \<noteq> []" "length ps = unat (follower_capacity L)" "replica_count L \<le> length ps" "req_key req = Some key"
    and "\<forall>f \<in> set (replicas L ps key). \<forall>w. leader_rpc net w f req \<noteq> None"
    and "\<forall>f \<in> set (replicas L ps key). \<forall>t \<in> {COMMIT, ABORT}. \<forall>w. \<exists>n r w'. attempts net f (req\<lparr>req_type := t\<rparr>) n w = Some (r, w') \<and> is_ack r"
  shows "\<exists>res w'. tpcleader_handle_tpc net L req w = Some (res, w')"
proof -
  obtain a w1 where p1: "fold_opt (poll net req) (replicas L ps key) (0, w) = Some (a, w1)"
    using polls_end [OF assms(6)] by blast
  obtain w2 where "fold_opt (\<lambda>f. ack_loop net f (req\<lparr>req_type := (if a > 0 then ABORT else COMMIT)\<rparr>)) (replicas L ps key) w1 = Some w2"
    using acks_end [of "replicas L ps key" net "req\<lparr>req_type := (if a > 0 then ABORT else COMMIT)\<rparr>" w1] assms(7)
    by (cases "a > 0") auto
  with p1 show ?thesis unfolding handle_tpc_spec [OF assms(1-5)] tpc_spec_def by simp
qed

lemma willing_put_calls:
  "leader_rpc (traced willing_net) w f (put_request ''k'' ''v'') \<noteq> None"
  "t \<in> {COMMIT, ABORT} \<Longrightarrow>
     \<exists>n r w'. attempts (traced willing_net) f (put_request ''k'' ''v''\<lparr>req_type := t\<rparr>) n w = Some (r, w') \<and> is_ack r"
proof -
  have "kvrequest_ok (put_request ''k'' ''v'')" by (simp add: put_request_def kvrequest_ok_def arg_ok_def opt_len_def)
  then show "leader_rpc (traced willing_net) w f (put_request ''k'' ''v'') \<noteq> None" using willing_traced by fastforce
next
  assume t: "t \<in> {COMMIT, ABORT}"
  then have "kvrequest_ok (put_request ''k'' ''v''\<lparr>req_type := t\<rparr>)"
    by (auto simp: put_request_def kvrequest_ok_def arg_ok_def opt_len_def)
  from willing_traced [OF this, of w f] t
  show "\<exists>n r w'. attempts (traced willing_net) f (put_request ''k'' ''v''\<lparr>req_type := t\<rparr>) n w = Some (r, w') \<and> is_ack r"
    by (intro exI [of _ 0]) (auto simp: is_ack_def willing_reply_def with_body_def)
qed

text \<open>C2. Agreement: whatever the followers and the network do, when \<open>tpcleader_handle_tpc\<close> returns, the
  messages it has exchanged are the request sent to followers, then one decision, the same for all: COMMIT when the
  client is told SUCCESS, ABORT when it is told an error. It is COMMIT only if every replica of the key was asked
  in turn and answered with a vote to commit; and every replica has acknowledged the decision.\<close>

theorem tpcleader_agreement:
  assumes "leader_ring L ps" and "ps \<noteq> []" and "length ps = unat (follower_capacity L)" and "replica_count L \<le> length ps"
    and "req_key req = Some key"
    and "tpcleader_handle_tpc (traced net) L req (w, []) = Some (res, w', tr)"
  shows "\<exists>votes acks. tr = votes @ acks \<and> list_all (asks req) votes \<and>
    list_all (asks (req\<lparr>req_type := (if res_type res = SUCCESS then COMMIT else ABORT)\<rparr>)) acks \<and>
    res \<in> {\<lparr>res_type = SUCCESS, res_body = None\<rparr>, \<lparr>res_type = ERROR, res_body = Some ERRMSG_GENERIC_ERROR\<rparr>} \<and>
    (res_type res = SUCCESS \<longrightarrow> list_all2 (\<lambda>f e. with_follower f e \<and> votes_commit (answer e)) (replicas L ps key) votes) \<and>
    (\<forall>f \<in> set (replicas L ps key). \<exists>e \<in> set acks. with_follower f e \<and> is_ack (answer e))"
proof -
  obtain a s1 where p1: "fold_opt (poll (traced net) req) (replicas L ps key) (0, w, []) = Some (a, s1)"
    and p2: "fold_opt (\<lambda>f. ack_loop (traced net) f (req\<lparr>req_type := (if a > 0 then ABORT else COMMIT)\<rparr>)) (replicas L ps key) s1 = Some (w', tr)"
    and res: "res = (if a > 0 then \<lparr>res_type = ERROR, res_body = Some ERRMSG_GENERIC_ERROR\<rparr> else \<lparr>res_type = SUCCESS, res_body = None\<rparr>)"
    using assms(6) unfolding handle_tpc_spec [OF assms(1-5)] tpc_spec_def by (auto simp: bind_eq_Some_conv split: if_splits)
  obtain votes where votes: "snd s1 = votes" "list_all (asks req) votes"
    "a = 0 \<longrightarrow> list_all2 (\<lambda>f e. with_follower f e \<and> votes_commit (answer e)) (replicas L ps key) votes"
    using polls_traced [of net req "replicas L ps key" 0 w "[]" a "fst s1" "snd s1"] p1 by auto
  obtain acks where acks: "tr = votes @ acks" "list_all (asks (req\<lparr>req_type := (if a > 0 then ABORT else COMMIT)\<rparr>)) acks"
    "\<forall>f \<in> set (replicas L ps key). \<exists>e \<in> set acks. with_follower f e \<and> is_ack (answer e)"
    using acks_traced [OF p2] votes(1) by auto
  show ?thesis
    by (rule exI [of _ votes], rule exI [of _ acks]) (use votes acks res in \<open>auto split: if_splits\<close>)
qed

theorem tpcleader_agreement_witness:
  "\<exists>L ps res w' votes acks. leader_ring L ps \<and> replicas L ps ''k'' \<noteq> [] \<and>
     tpcleader_handle_tpc (traced willing_net) L (put_request ''k'' ''v'') ((), []) = Some (res, w', votes @ acks) \<and>
     (\<forall>f \<in> set (replicas L ps ''k''). \<exists>e \<in> set acks. with_follower f e \<and> is_ack (answer e))"
proof -
  obtain L ps where L: "leader_ring L ps" "length ps = 1" "follower_capacity L = 1" "redundancy L = 1" using one_follower by blast
  have r: "replica_count L = 1" by (simp add: replica_count_def L(4))
  have pre: "ps \<noteq> []" "length ps = unat (follower_capacity L)" "replica_count L \<le> length ps" "req_key (put_request ''k'' ''v'') = Some ''k''"
    using L r by (auto simp: put_request_def)
  obtain res s where run: "tpcleader_handle_tpc (traced willing_net) L (put_request ''k'' ''v'') ((), []) = Some (res, s)"
    using handle_tpc_ends [OF L(1) pre, of "traced willing_net" "((), [])"] willing_put_calls by auto
  obtain w' tr where s: "s = (w', tr)" by (cases s)
  have "replicas L ps ''k'' \<noteq> []" using replicas_length [OF L(1) pre(1,3), of "''k''"] r by auto
  moreover obtain votes acks where "tr = votes @ acks" "\<forall>f \<in> set (replicas L ps ''k''). \<exists>e \<in> set acks. with_follower f e \<and> is_ack (answer e)"
    using tpcleader_agreement [OF L(1) pre, of willing_net "()" res w' tr] run by (auto simp: s)
  ultimately show ?thesis using run L(1) unfolding s by blast
qed

text \<open>C10. A transaction ends: when every call to a replica of the key returns and every replica, asked for a
  decision again and again, acknowledges it in the end, \<open>tpcleader_handle_tpc\<close> returns, although phase 2 has no bound
  on its attempts. When it returns, every replica has answered some call with an acknowledgement, so a replica
  that has failed for good holds the leader in its loop.\<close>

theorem tpcleader_transaction_ends:
  assumes "leader_ring L ps" and "ps \<noteq> []" and "length ps = unat (follower_capacity L)" and "replica_count L \<le> length ps"
    and "req_key req = Some key"
  shows "((\<forall>f \<in> set (replicas L ps key). \<forall>w. leader_rpc net w f req \<noteq> None) \<and>
      (\<forall>f \<in> set (replicas L ps key). \<forall>t \<in> {COMMIT, ABORT}. \<forall>w. \<exists>n r w'. attempts net f (req\<lparr>req_type := t\<rparr>) n w = Some (r, w') \<and> is_ack r)
      \<longrightarrow> tpcleader_handle_tpc net L req w \<noteq> None) \<and>
    ((\<exists>f \<in> set (replicas L ps key). \<forall>t \<in> {COMMIT, ABORT}. \<forall>w r w'. leader_rpc net w f (req\<lparr>req_type := t\<rparr>) = Some (r, w') \<longrightarrow> \<not> is_ack r)
      \<longrightarrow> tpcleader_handle_tpc net L req w = None)"
    (is "_ \<and> (?dead \<longrightarrow> _)")
proof (rule conjI; rule impI)
  assume ?dead
  then obtain f where f: "f \<in> set (replicas L ps key)"
    "\<forall>t \<in> {COMMIT, ABORT}. \<forall>w r w'. leader_rpc net w f (req\<lparr>req_type := t\<rparr>) = Some (r, w') \<longrightarrow> \<not> is_ack r" by blast
  have "fold_opt (\<lambda>f. ack_loop net f (req\<lparr>req_type := (if a > 0 then ABORT else COMMIT)\<rparr>)) (replicas L ps key) w1 = None" for a :: nat and w1
    by (rule acks_stuck [OF f(1)]) (use f(2) in auto)
  then show "tpcleader_handle_tpc net L req w = None"
    unfolding handle_tpc_spec [OF assms] tpc_spec_def
    by (cases "fold_opt (poll net req) (replicas L ps key) (0, w)") auto
qed (use handle_tpc_ends [OF assms, of net w] in auto)

text \<open>A network on which no follower can be reached.\<close>

definition dead_net :: "unit network" where
  "dead_net = \<lparr>nw_connect = (\<lambda>_ _ _. (None, ())), nw_exchange = (\<lambda>_ _ _ _. ([], ()))\<rparr>"

lemma dead_rpc: "leader_rpc dead_net w f req = Some (None, ())"
  by (simp add: leader_rpc_def dead_net_def)

theorem tpcleader_transaction_ends_witness:
  "\<exists>L ps. leader_ring L ps \<and> replicas L ps ''k'' \<noteq> [] \<and>
     tpcleader_handle_tpc (traced willing_net) L (put_request ''k'' ''v'') ((), []) \<noteq> None \<and>
     tpcleader_handle_tpc dead_net L (put_request ''k'' ''v'') () = None"
proof -
  obtain L ps where L: "leader_ring L ps" "length ps = 1" "follower_capacity L = 1" "redundancy L = 1" using one_follower by blast
  have r: "replica_count L = 1" by (simp add: replica_count_def L(4))
  have pre: "ps \<noteq> []" "length ps = unat (follower_capacity L)" "replica_count L \<le> length ps" "req_key (put_request ''k'' ''v'') = Some ''k''"
    using L r by (auto simp: put_request_def)
  have ne: "replicas L ps ''k'' \<noteq> []" using replicas_length [OF L(1) pre(1,3), of "''k''"] r by auto
  then have "\<exists>f \<in> set (replicas L ps ''k''). \<forall>t \<in> {COMMIT, ABORT}. \<forall>w r w'.
      leader_rpc dead_net w f ((put_request ''k'' ''v'')\<lparr>req_type := t\<rparr>) = Some (r, w') \<longrightarrow> \<not> is_ack r"
    by (intro bexI [OF _ hd_in_set]) (auto simp: dead_rpc is_ack_def)
  then have "tpcleader_handle_tpc dead_net L (put_request ''k'' ''v'') () = None"
    using tpcleader_transaction_ends [OF L(1) pre, of dead_net "()"] by blast
  moreover have "tpcleader_handle_tpc (traced willing_net) L (put_request ''k'' ''v'') ((), []) \<noteq> None"
    using tpcleader_transaction_ends [OF L(1) pre, of "traced willing_net" "((), [])"] willing_put_calls by auto
  ultimately show ?thesis using L(1) ne by blast
qed

end
