(* ===== verification/Cluster.thy ===== *)
theory Cluster
  imports TpcLeader
begin

text \<open>
  The leader together with its followers: a network whose hosts run \<open>kvserver_handle\<close>, each on its own
  store and file system, so that a call of the leader goes through the bytes of \<open>kvrequest_send\<close>, the follower's
  whole handler and the bytes of its response. The lemmas lift the refinement of one follower
  (\<open>KvServer\<close>) to all of them.
\<close>

section \<open>A network of followers\<close>

type_synonym address = "string \<times> u32"

type_synonym cluster = "address \<rightharpoonup> kvserver_t \<times> fsys"

definition follower_net :: "cluster network" where
  "follower_net = \<lparr>
     nw_connect = (\<lambda>c h p. (if c (h, p) = None then None else Some all_written, c)),
     nw_exchange = (\<lambda>c h p sent. case c (h, p) of
         None \<Rightarrow> ([], c)
       | Some (server, fs) \<Rightarrow> (case kvserver_handle all_written fs server sent of
           Some (Reply_bytes bs, s') \<Rightarrow> (bs, c((h, p) \<mapsto> s'))
         | _ \<Rightarrow> ([], c)))\<rparr>"

definition addr :: "tpcfollower_t \<Rightarrow> address" where
  "addr f = (f_host f, f_port f)"

text \<open>What each running follower holds: its map and the request it has voted for.\<close>

type_synonym holdings = "address \<Rightarrow> (string \<rightharpoonup> string) \<times> kv_op option"

definition cluster_holds :: "cluster \<Rightarrow> holdings \<Rightarrow> bool" where
  "cluster_holds c A \<longleftrightarrow> (\<forall>a s. c a = Some s \<longrightarrow> server_holds s (fst (A a)) (snd (A a)))"

section \<open>One call\<close>

lemma kvstore_holds_entry:
  assumes "kvstore_holds store fs m" "m k = Some v"
  shows "entry_ok k v"
proof -
  obtain cs where cs: "kv_chains fs (ks_dirname store) cs" "m = chains_map cs" using assms(1) by (auto simp: kvstore_holds_def)
  then have "chain_ok (strhash64 k) (cs (strhash64 k))" "map_of (cs (strhash64 k)) k = Some v"
    using assms(2) by (simp_all add: kv_chains_def chains_map_def)
  then show ?thesis using map_of_SomeD by (fastforce simp: chain_ok_def)
qed

lemma kvrequest_ok_args: "kvrequest_ok req \<Longrightarrow> req_args_ok req"
  by (auto simp: kvrequest_ok_def req_args_ok_def arg_ok_def option.pred_set)

lemma participant_response_ok:
  assumes "server_holds s m p" "kvrequest_ok req"
  shows "kvresponse_ok (fst (participant_step (m, p) req))"
proof -
  have e: "nonul v \<and> length v \<le> 8000" if "m k = Some v" for k v
    using kvstore_holds_entry that assms(1) by (fastforce simp: server_holds_def entry_ok_def limits)
  show ?thesis
  proof (cases "req_type req = GETREQ")
    case True
    then show ?thesis using e
      by (cases "m (the (req_key req))") (auto simp: participant_step_def kvresponse_ok_def opt_len_def ERRMSG_NO_KEY_def)
  next
    case False
    then show ?thesis using assms(2)
      by (cases "req_type req") (auto simp: participant_step_def kvresponse_ok_def opt_len_def vote_commit_def Let_def kvrequest_ok_def
          ERRMSG_INVALID_REQUEST_def ERRMSG_END_OF_HANDLE_TPC_def)
  qed
qed

text \<open>The bytes of a request through the whole handler of a follower and back.\<close>

lemma kvserver_handle_wire:
  assumes "server_holds (server, fs) m p" "kvrequest_ok req" "card (dom m) + 1 < 2 ^ 31"
  shows "\<exists>n bs reply s'. kvrequest_send all_written req = Some (n, bs) \<and> kvserver_handle all_written fs server bs = Some (Reply_bytes reply, s') \<and>
    kvresponse_recieve reply = Some (Some (with_body (fst (participant_step (m, p) req)))) \<and>
    server_holds s' (fst (snd (participant_step (m, p) req))) (snd (snd (participant_step (m, p) req)))"
proof -
  define res where "res = fst (participant_step (m, p) req)"
  obtain n bs where bs: "kvrequest_send all_written req = Some (n, bs)" "kvrequest_recieve bs = Some (Some req)"
    using req_codec.encodes [OF assms(2)] by (auto simp: kvrequest_wire_def)
  obtain s' where s': "server_handle (server, fs) req = Some (res, s')"
    "server_holds s' (fst (snd (participant_step (m, p) req))) (snd (snd (participant_step (m, p) req)))"
    using server_step [OF assms(1) kvrequest_ok_args [OF assms(2)] assms(3)] by (auto simp: res_def)
  obtain k reply where reply: "kvresponse_send all_written res = Some (k, reply)" "kvresponse_recieve reply = Some (Some (with_body res))"
    using res_codec.encodes [OF participant_response_ok [OF assms(1,2)]] by (auto simp: kvresponse_wire_def res_def)
  have "req_type req \<noteq> INDEX" using assms(2) by (auto simp: kvrequest_ok_def)
  with bs s'(1) reply(1) have "kvserver_handle all_written fs server bs = Some (Reply_bytes reply, s')"
    by (cases s') (simp add: kvserver_handle_def server_handle_def)
  with bs(1) s'(2) reply(2) show ?thesis unfolding res_def by blast
qed

text \<open>A call changes only the follower it goes to.\<close>

lemma follower_rpc_at:
  assumes "c (addr f) = Some s" "server_holds s m p" "kvrequest_ok req" "card (dom m) + 1 < 2 ^ 31"
  shows "\<exists>s'. leader_rpc follower_net c f req = Some (Some (Some (with_body (fst (participant_step (m, p) req)))), c(addr f \<mapsto> s')) \<and>
    server_holds s' (fst (snd (participant_step (m, p) req))) (snd (snd (participant_step (m, p) req)))"
proof -
  obtain server fs where s: "s = (server, fs)" by (cases s)
  obtain n bs reply s' where w: "kvrequest_send all_written req = Some (n, bs)" "kvserver_handle all_written fs server bs = Some (Reply_bytes reply, s')"
    "kvresponse_recieve reply = Some (Some (with_body (fst (participant_step (m, p) req))))"
    "server_holds s' (fst (snd (participant_step (m, p) req))) (snd (snd (participant_step (m, p) req)))"
    using kvserver_handle_wire [OF assms(2) [unfolded s] assms(3,4)] by blast
  then show ?thesis using assms(1) s by (intro exI [of _ s']) (simp add: leader_rpc_def follower_net_def addr_def)
qed

lemma follower_rpc:
  assumes "cluster_holds c A" "addr f \<in> dom c" "kvrequest_ok req" "card (dom (fst (A (addr f)))) + 1 < 2 ^ 31"
  shows "\<exists>c'. leader_rpc follower_net c f req = Some (Some (Some (with_body (fst (participant_step (A (addr f)) req)))), c') \<and>
    cluster_holds c' (A(addr f := snd (participant_step (A (addr f)) req))) \<and> dom c' = dom c"
proof -
  obtain s where s: "c (addr f) = Some s" using assms(2) by auto
  have h: "server_holds s (fst (A (addr f))) (snd (A (addr f)))" using assms(1) s unfolding cluster_holds_def by blast
  obtain s' where w: "leader_rpc follower_net c f req = Some (Some (Some (with_body (fst (participant_step (A (addr f)) req)))), c(addr f \<mapsto> s'))"
    "server_holds s' (fst (snd (participant_step (A (addr f)) req))) (snd (snd (participant_step (A (addr f)) req)))"
    using follower_rpc_at [of c f, OF s h assms(3,4)] unfolding prod.collapse by blast
  have "cluster_holds (c(addr f \<mapsto> s')) (A(addr f := snd (participant_step (A (addr f)) req)))"
    using assms(1) w(2) by (auto simp: cluster_holds_def)
  with w(1) assms(2) show ?thesis by (intro exI [of _ "c(addr f \<mapsto> s')"]) auto
qed

section \<open>Calls to several followers\<close>

text \<open>The holdings after each of several followers has handled a request.\<close>

definition all_step :: "holdings \<Rightarrow> kvrequest_t \<Rightarrow> address set \<Rightarrow> holdings" where
  "all_step A req S = (\<lambda>a. if a \<in> S then snd (participant_step (A a) req) else A a)"

definition vote_at :: "holdings \<Rightarrow> kvrequest_t \<Rightarrow> tpcfollower_t \<Rightarrow> bool" where
  "vote_at A req f \<longleftrightarrow> votes_commit (Some (Some (with_body (fst (participant_step (A (addr f)) req)))))"

lemma all_step_upd:
  assumes "addr f \<notin> S"
  shows "all_step (A(addr f := snd (participant_step (A (addr f)) req))) req S = all_step A req (insert (addr f) S)"
  using assms by (auto simp: all_step_def)

lemma poll_followers:
  "cluster_holds c A \<Longrightarrow> addr ` set fs \<subseteq> dom c \<Longrightarrow> distinct (map addr fs) \<Longrightarrow> kvrequest_ok req \<Longrightarrow>
   \<forall>f \<in> set fs. card (dom (fst (A (addr f)))) + 1 < 2 ^ 31 \<Longrightarrow>
   \<exists>c'. fold_opt (poll follower_net req) fs (n, c) = Some (n + length (filter (\<lambda>f. \<not> vote_at A req f) fs), c') \<and>
     cluster_holds c' (all_step A req (addr ` set fs)) \<and> dom c' = dom c"
proof (induction fs arbitrary: c A n)
  case Nil
  then show ?case by (simp add: all_step_def)
next
  case (Cons f fs)
  let ?A = "A(addr f := snd (participant_step (A (addr f)) req))"
  obtain c1 where c1: "leader_rpc follower_net c f req = Some (Some (Some (with_body (fst (participant_step (A (addr f)) req)))), c1)"
    "cluster_holds c1 ?A" "dom c1 = dom c"
    using follower_rpc [OF Cons.prems(1), of f req] Cons.prems(2,4,5) by auto
  have new: "addr f \<notin> addr ` set fs" "distinct (map addr fs)" using Cons.prems(3) by auto
  have ne: "addr g \<noteq> addr f" if "g \<in> set fs" for g using that new(1) by (metis imageI)
  then have v: "vote_at ?A req g = vote_at A req g" "?A (addr g) = A (addr g)" if "g \<in> set fs" for g
    using that by (simp_all add: vote_at_def)
  have room: "addr ` set fs \<subseteq> dom c1" "\<forall>g \<in> set fs. card (dom (fst (?A (addr g)))) + 1 < 2 ^ 31"
    using Cons.prems(2,5) c1(3) v(2) by simp_all
  obtain c2 where "fold_opt (poll follower_net req) fs (if vote_at A req f then n else n + 1, c1) =
      Some ((if vote_at A req f then n else n + 1) + length (filter (\<lambda>f. \<not> vote_at ?A req f) fs), c2)"
    "cluster_holds c2 (all_step ?A req (addr ` set fs))" "dom c2 = dom c1"
    using Cons.IH [OF c1(2) room(1) new(2) Cons.prems(4) room(2), of "if vote_at A req f then n else n + 1"] by blast
  moreover have "filter (\<lambda>f. \<not> vote_at ?A req f) fs = filter (\<lambda>f. \<not> vote_at A req f) fs" using v(1) by (intro filter_cong) auto
  moreover have "poll follower_net req f (n, c) = Some (if vote_at A req f then n else n + 1, c1)"
    using c1(1) by (simp add: poll_def vote_at_def)
  ultimately show ?case using c1(3) all_step_upd [OF new(1)] by auto
qed

lemma ack_followers:
  "cluster_holds c A \<Longrightarrow> addr ` set fs \<subseteq> dom c \<Longrightarrow> distinct (map addr fs) \<Longrightarrow> kvrequest_ok req \<Longrightarrow> req_type req \<in> {COMMIT, ABORT} \<Longrightarrow>
   \<forall>f \<in> set fs. card (dom (fst (A (addr f)))) + 1 < 2 ^ 31 \<Longrightarrow>
   \<exists>c'. fold_opt (\<lambda>f. ack_loop follower_net f req) fs c = Some c' \<and> cluster_holds c' (all_step A req (addr ` set fs)) \<and> dom c' = dom c"
proof (induction fs arbitrary: c A)
  case Nil
  then show ?case by (simp add: all_step_def)
next
  case (Cons f fs)
  let ?A = "A(addr f := snd (participant_step (A (addr f)) req))"
  obtain c1 where c1: "leader_rpc follower_net c f req = Some (Some (Some (with_body (fst (participant_step (A (addr f)) req)))), c1)"
    "cluster_holds c1 ?A" "dom c1 = dom c"
    using follower_rpc [OF Cons.prems(1), of f req] Cons.prems(2,4,6) by auto
  have "is_ack (Some (Some (with_body (fst (participant_step (A (addr f)) req)))))"
    using Cons.prems(5) by (cases "A (addr f)") (auto simp: participant_step_def is_ack_def with_body_def)
  with c1(1) have ack: "ack_loop follower_net f req c = Some c1" by (subst ack_loop.simps) simp
  have new: "addr f \<notin> addr ` set fs" "distinct (map addr fs)" using Cons.prems(3) by auto
  have "addr g \<noteq> addr f" if "g \<in> set fs" for g using that new(1) by (metis imageI)
  then have room: "addr ` set fs \<subseteq> dom c1" "\<forall>g \<in> set fs. card (dom (fst (?A (addr g)))) + 1 < 2 ^ 31"
    using Cons.prems(2,6) c1(3) by simp_all
  obtain c2 where "fold_opt (\<lambda>f. ack_loop follower_net f req) fs c1 = Some c2" "cluster_holds c2 (all_step ?A req (addr ` set fs))" "dom c2 = dom c1"
    using Cons.IH [OF c1(2) room(1) new(2) Cons.prems(4,5) room(2)] by blast
  with ack c1(3) all_step_upd [OF new(1)] show ?case by auto
qed

section \<open>A whole transaction\<close>

text \<open>The operation a PUT or DELETE asks for.\<close>

definition tpc_op :: "kvrequest_t \<Rightarrow> kv_op" where
  "tpc_op req = (if req_type req = PUTREQ then Put (the (req_key req)) (the (req_val req)) else Del (the (req_key req)))"

text \<open>Whether a follower that holds a map votes for an operation.\<close>

fun accepts :: "(string \<rightharpoonup> string) \<Rightarrow> kv_op \<Rightarrow> bool" where
  "accepts m (Put k v) = True"
| "accepts m (Del k) \<longleftrightarrow> k \<noteq> [] \<and> m k \<noteq> None"

definition tpc_outcome :: "holdings \<Rightarrow> address set \<Rightarrow> kv_op \<Rightarrow> holdings" where
  "tpc_outcome A S op =
     (\<lambda>a. if a \<in> S then (if \<forall>b \<in> S. accepts (fst (A b)) op then kv_commit (fst (A a)) (Some op) else fst (A a), None) else A a)"

lemma kvrequest_ok_decision: "kvrequest_ok req \<Longrightarrow> t \<in> {COMMIT, ABORT} \<Longrightarrow> kvrequest_ok (req\<lparr>req_type := t\<rparr>)"
  by (auto simp: kvrequest_ok_def)

lemma vote_at_accepts:
  assumes "req_type req \<in> {PUTREQ, DELREQ}"
  shows "vote_at A req f = accepts (fst (A (addr f))) (tpc_op req)"
    "fst (snd (participant_step (A a) req)) = fst (A a)"
    "accepts (fst (A a)) (tpc_op req) \<Longrightarrow> snd (participant_step (A a) req) = (fst (A a), Some (tpc_op req))"
proof -
  have *: "participant_step (m, p) req = (if accepts m (tpc_op req) then (vote_commit, m, Some (tpc_op req))
      else (\<lparr>res_type = ERROR, res_body = Some ERRMSG_INVALID_REQUEST\<rparr>, m, p))" for m p
    using assms by (auto simp: participant_step_def tpc_op_def Let_def)
  have c: "votes_commit (Some (Some (with_body vote_commit)))" "\<not> votes_commit (Some (Some (with_body \<lparr>res_type = ERROR, res_body = b\<rparr>)))" for b
    by (simp_all add: votes_commit_def with_body_def vote_commit_def MSG_COMMIT_def)
  show "vote_at A req f = accepts (fst (A (addr f))) (tpc_op req)"
    using c * [of "fst (A (addr f))" "snd (A (addr f))"] by (simp add: vote_at_def)
  show "fst (snd (participant_step (A a) req)) = fst (A a)"
    "accepts (fst (A a)) (tpc_op req) \<Longrightarrow> snd (participant_step (A a) req) = (fst (A a), Some (tpc_op req))"
    using * [of "fst (A a)" "snd (A a)"] by simp_all
qed

lemma decision_step:
  "participant_step (m, p) (req\<lparr>req_type := COMMIT\<rparr>) = (\<lparr>res_type = ACK, res_body = None\<rparr>, kv_commit m p, None)"
  "participant_step (m, p) (req\<lparr>req_type := ABORT\<rparr>) = (\<lparr>res_type = ACK, res_body = None\<rparr>, m, None)"
  by (simp_all add: participant_step_def)

lemma tpc_steps:
  assumes "req_type req \<in> {PUTREQ, DELREQ}"
  shows "all_step (all_step A req S) (req\<lparr>req_type := (if \<forall>a \<in> S. accepts (fst (A a)) (tpc_op req) then COMMIT else ABORT)\<rparr>) S =
    tpc_outcome A S (tpc_op req)"
proof (rule ext)
  fix a
  let ?s = "snd (participant_step (A a) req)"
  have s: "?s = (fst (A a), snd ?s)" using vote_at_accepts(2) [OF assms, of A a] by (simp add: prod_eq_iff)
  show "all_step (all_step A req S) (req\<lparr>req_type := (if \<forall>a \<in> S. accepts (fst (A a)) (tpc_op req) then COMMIT else ABORT)\<rparr>) S a =
      tpc_outcome A S (tpc_op req) a"
  proof (cases "a \<in> S \<and> (\<forall>b \<in> S. accepts (fst (A b)) (tpc_op req))")
    case True
    then have "?s = (fst (A a), Some (tpc_op req))" using vote_at_accepts(3) [OF assms] by blast
    with True show ?thesis by (simp add: all_step_def tpc_outcome_def decision_step(1))
  next
    case False
    then show ?thesis using decision_step(2) [of "fst (A a)" "snd ?s" req] s by (auto simp: all_step_def tpc_outcome_def)
  qed
qed

lemma cluster_tpc:
  assumes "cluster_holds c A" "addr ` set fs \<subseteq> dom c" "distinct (map addr fs)" "kvrequest_ok req" "req_type req \<in> {PUTREQ, DELREQ}"
    and "\<forall>f \<in> set fs. card (dom (fst (A (addr f)))) + 1 < 2 ^ 31"
  shows "\<exists>c'. tpc_spec follower_net fs req c =
      Some (if \<forall>f \<in> set fs. accepts (fst (A (addr f))) (tpc_op req) then \<lparr>res_type = SUCCESS, res_body = None\<rparr>
            else \<lparr>res_type = ERROR, res_body = Some ERRMSG_GENERIC_ERROR\<rparr>, c') \<and>
    cluster_holds c' (tpc_outcome A (addr ` set fs) (tpc_op req)) \<and> dom c' = dom c"
proof -
  let ?all = "\<forall>f \<in> set fs. accepts (fst (A (addr f))) (tpc_op req)"
  let ?d = "req\<lparr>req_type := (if ?all then COMMIT else ABORT)\<rparr>"
  let ?n = "length (filter (\<lambda>f. \<not> vote_at A req f) fs)"
  obtain c1 where c1: "fold_opt (poll follower_net req) fs (0, c) = Some (?n, c1)" "cluster_holds c1 (all_step A req (addr ` set fs))" "dom c1 = dom c"
    using poll_followers [OF assms(1-4,6), of 0] by auto
  have n: "?n > 0 \<longleftrightarrow> \<not> ?all" using vote_at_accepts(1) [OF assms(5)] by (auto simp: filter_empty_conv)
  have d: "kvrequest_ok ?d" "req_type ?d \<in> {COMMIT, ABORT}" using kvrequest_ok_decision [OF assms(4)] by auto
  have "\<forall>f \<in> set fs. card (dom (fst (all_step A req (addr ` set fs) (addr f)))) + 1 < 2 ^ 31"
    using assms(6) vote_at_accepts(2) [OF assms(5), of A] by (auto simp: all_step_def)
  then obtain c2 where "fold_opt (\<lambda>f. ack_loop follower_net f ?d) fs c1 = Some c2"
    "cluster_holds c2 (all_step (all_step A req (addr ` set fs)) ?d (addr ` set fs))" "dom c2 = dom c1"
    using ack_followers [OF c1(2) _ assms(3) d] assms(2) c1(3) by blast
  moreover have "all_step (all_step A req (addr ` set fs)) ?d (addr ` set fs) = tpc_outcome A (addr ` set fs) (tpc_op req)"
    using tpc_steps [OF assms(5), of A "addr ` set fs"] by simp
  moreover have "?d = req\<lparr>req_type := (if ?n > 0 then ABORT else COMMIT)\<rparr>" using n by simp
  ultimately show ?thesis using c1(1,3) n by (intro exI [of _ c2]) (simp add: tpc_spec_def)
qed

section \<open>Reading through the leader\<close>

text \<open>The loop of \<open>tpcleader_handle_get\<close> over a list of followers.\<close>

fun get_list :: "'w network \<Rightarrow> kvrequest_t \<Rightarrow> tpcfollower_t list \<Rightarrow> 'w \<Rightarrow> (string option option \<times> 'w) option" where
  "get_list net req [] w = Some (None, w)"
| "get_list net req (f # fs) w = (case nw_connect net w (f_host f) (f_port f) of
      (None, w1) \<Rightarrow> do {
        _ \<leftarrow> kvrequest_send [-1] req;
        get_list net req fs w1
      }
    | (Some ws, w1) \<Rightarrow> do {
        (req_send, sent) \<leftarrow> kvrequest_send ws req;
        let (chunk, w2) = nw_exchange net w1 (f_host f) (f_port f) sent;
        (if req_send = -1 then get_list net req fs w2
         else do {
           response \<leftarrow> kvresponse_recieve chunk;
           res \<leftarrow> response;
           (if res_type res = GETRESP then Some (Some (res_body res), w2) else get_list net req fs w2)
         })
      })"

lemma get_loop_ring:
  "linked h (q # qs) \<Longrightarrow> r \<le> length (q # qs) \<Longrightarrow>
   get_loop net h req r (Some q) w = get_list net req (map (\<lambda>p. h ! p) (take r (q # qs))) w"
proof (induction r arbitrary: q qs w)
  case (Suc r)
  have lt: "deref h q = Some (h ! q)" using Suc.prems(1) by (simp add: linked_def deref_def)
  have rest: "get_loop net h req r (Some (f_next (h ! q))) w' = get_list net req (map (\<lambda>p. h ! p) (take r qs)) w'" for w'
  proof (cases qs)
    case Nil
    then show ?thesis using Suc.prems(2) by simp
  next
    case (Cons q' qs')
    have "linked h (q' # qs' @ [q])" using linked_rotate [OF Suc.prems(1), of 1] by (simp add: Cons)
    from Suc.IH [OF this] Suc.prems(2) have "get_loop net h req r (Some q') w' = get_list net req (map (\<lambda>p. h ! p) (take r (q' # qs' @ [q]))) w'"
      by (simp add: Cons)
    moreover have "take r (q' # qs' @ [q]) = take r qs" using Suc.prems(2) by (cases r) (simp_all add: Cons)
    moreover have "f_next (h ! q) = q'" using Suc.prems(1) by (simp add: linked_def Cons)
    ultimately show ?thesis by simp
  qed
  show ?case by (simp add: lt) (unfold rest, rule refl)
qed simp

lemma handle_get_replicas:
  assumes "leader_ring L ps" "ps \<noteq> []" "length ps = unat (follower_capacity L)" "replica_count L \<le> length ps" "req_key req = Some key"
  shows "tpcleader_handle_get net L req w = do {
     (found, w') \<leftarrow> get_list net req (replicas L ps key) w;
     Some (case found of
        Some body \<Rightarrow> (\<lparr>res_type = GETRESP, res_body = body\<rparr>, w')
      | None \<Rightarrow> (\<lparr>res_type = ERROR, res_body = Some ERRMSG_NO_KEY\<rparr>, w')) }"
proof -
  have link: "linked (follower_heap L) ps" using assms(1) by (simp add: leader_ring_def)
  obtain qs where qs: "ring_from ps (primary_of L ps key) = primary_of L ps key # qs" "linked (follower_heap L) (primary_of L ps key # qs)"
    "length (primary_of L ps key # qs) = length ps"
    using ring_from_linked [OF link primary_of_in [OF assms(2), of L key]] by auto
  have "replica_count L \<le> length (primary_of L ps key # qs)" using assms(4) qs(3) by simp
  then have "get_loop net (follower_heap L) req (replica_count L) (Some (primary_of L ps key)) w = get_list net req (replicas L ps key) w"
    unfolding replicas_def qs(1) by (rule get_loop_ring [OF qs(2)])
  with get_primary_ring [OF assms(1-3), of key] assms(5) show ?thesis by (simp add: tpcleader_handle_get_def)
qed

lemma get_followers:
  "cluster_holds c A \<Longrightarrow> addr ` set fs \<subseteq> dom c \<Longrightarrow> kvrequest_ok (get_request k) \<Longrightarrow> \<forall>f \<in> set fs. card (dom (fst (A (addr f)))) + 1 < 2 ^ 31 \<Longrightarrow>
   \<exists>c'. get_list follower_net (get_request k) fs c =
       Some (map_option (\<lambda>f. fst (A (addr f)) k) (find (\<lambda>f. fst (A (addr f)) k \<noteq> None) fs), c') \<and> cluster_holds c' A \<and> dom c' = dom c"
proof (induction fs arbitrary: c)
  case (Cons f fs)
  obtain server fs' where s: "c (addr f) = Some (server, fs')" using Cons.prems(2) by auto
  have h: "server_holds (server, fs') (fst (A (addr f))) (snd (A (addr f)))" using Cons.prems(1) s unfolding cluster_holds_def by blast
  have step: "participant_step (fst (A (addr f)), snd (A (addr f))) (get_request k) = (case fst (A (addr f)) k of
      None \<Rightarrow> (\<lparr>res_type = ERROR, res_body = Some ERRMSG_NO_KEY\<rparr>, A (addr f)) | Some v \<Rightarrow> (\<lparr>res_type = GETRESP, res_body = Some v\<rparr>, A (addr f)))"
    by (cases "A (addr f)") (auto simp: participant_step_def get_request_def split: option.split)
  obtain n bs reply s' where w: "kvrequest_send all_written (get_request k) = Some (n, bs)" "kvserver_handle all_written fs' server bs = Some (Reply_bytes reply, s')"
    "kvresponse_recieve reply = Some (Some (with_body (fst (participant_step (fst (A (addr f)), snd (A (addr f))) (get_request k)))))"
    "server_holds s' (fst (A (addr f))) (snd (A (addr f)))"
    using kvserver_handle_wire [OF h Cons.prems(3)] Cons.prems(4) step by (auto split: option.splits)
  have "kvrequest_recieve bs = Some (Some (get_request k))"
    using req_codec.decode_encode [OF Cons.prems(3)] w(1) by (simp add: kvrequest_wire_def)
  then have "bs \<noteq> []" by (auto simp: kvrequest_recieve_def http_request_parse_def)
  then have n: "n \<noteq> -1" using kvrequest_send_length [OF w(1)] by simp
  have c1: "cluster_holds (c(addr f \<mapsto> s')) A" "dom (c(addr f \<mapsto> s')) = dom c"
    using Cons.prems(1,2) w(4) by (auto simp: cluster_holds_def)
  have room: "addr ` set fs \<subseteq> dom (c(addr f \<mapsto> s'))" "\<forall>f \<in> set fs. card (dom (fst (A (addr f)))) + 1 < 2 ^ 31"
    using Cons.prems(2,4) by auto
  obtain c2 where "get_list follower_net (get_request k) fs (c(addr f \<mapsto> s')) =
      Some (map_option (\<lambda>f. fst (A (addr f)) k) (find (\<lambda>f. fst (A (addr f)) k \<noteq> None) fs), c2)" "cluster_holds c2 A" "dom c2 = dom c"
    using Cons.IH [OF c1(1) room(1) Cons.prems(3) room(2)] unfolding c1(2) by blast
  with s w n c1 step show ?case
    by (cases "fst (A (addr f)) k") (auto simp: follower_net_def addr_def with_body_def)
qed simp

section \<open>The leader's connection handler\<close>

lemma leader_handle_wire:
  assumes "kvrequest_ok req" "kvrequest_wire req = Some bs" "kvresponse_ok res"
    and "req_type req \<noteq> REGISTER"
    and "(if req_type req = GETREQ then tpcleader_handle_get net L req w else tpcleader_handle_tpc net L req w) = Some (res, w')"
  shows "\<exists>reply. tpcleader_handle all_written net L bs w = Some (Reply_bytes reply, L, w') \<and> kvresponse_recieve reply = Some (Some (with_body res))"
proof -
  have "kvrequest_recieve bs = Some (Some req)" using req_codec.decode_encode [OF assms(1,2)] .
  moreover obtain k reply where "kvresponse_send all_written res = Some (k, reply)" "kvresponse_recieve reply = Some (Some (with_body res))"
    using res_codec.encodes [OF assms(3)] by (auto simp: kvresponse_wire_def)
  moreover have "req_type req \<noteq> INDEX" using assms(1) by (auto simp: kvrequest_ok_def)
  ultimately show ?thesis using assms(4,5) by (auto simp: tpcleader_handle_def split: if_splits)
qed

text \<open>All followers are registered, the replicas of the key are running at addresses of their own, and hold what
  \<open>A\<close> says.\<close>

definition cluster_ready :: "tpcleader_t \<Rightarrow> nat list \<Rightarrow> string \<Rightarrow> cluster \<Rightarrow> holdings \<Rightarrow> bool" where
  "cluster_ready L ps key c A \<longleftrightarrow> leader_ring L ps \<and> ps \<noteq> [] \<and> length ps = unat (follower_capacity L) \<and>
     0 < replica_count L \<and> replica_count L \<le> length ps \<and>
     addr ` set (replicas L ps key) \<subseteq> dom c \<and> distinct (map addr (replicas L ps key)) \<and> cluster_holds c A \<and>
     (\<forall>f \<in> set (replicas L ps key). card (dom (fst (A (addr f)))) + 1 < 2 ^ 31)"

lemma ready_tpc:
  assumes "cluster_ready L ps key c A" "kvrequest_ok req" "req_type req \<in> {PUTREQ, DELREQ}" "req_key req = Some key"
  defines "S \<equiv> addr ` set (replicas L ps key)"
  shows "\<exists>c'. tpcleader_handle_tpc follower_net L req c =
      Some (if \<forall>a \<in> S. accepts (fst (A a)) (tpc_op req) then \<lparr>res_type = SUCCESS, res_body = None\<rparr>
            else \<lparr>res_type = ERROR, res_body = Some ERRMSG_GENERIC_ERROR\<rparr>, c') \<and>
    cluster_holds c' (tpc_outcome A S (tpc_op req)) \<and> dom c' = dom c"
proof -
  have r: "leader_ring L ps" "ps \<noteq> []" "length ps = unat (follower_capacity L)" "replica_count L \<le> length ps" "cluster_holds c A"
    "addr ` set (replicas L ps key) \<subseteq> dom c" "distinct (map addr (replicas L ps key))"
    using assms(1) unfolding cluster_ready_def by blast+
  have room: "\<forall>f \<in> set (replicas L ps key). card (dom (fst (A (addr f)))) + 1 < 2 ^ 31" using assms(1) by (auto simp: cluster_ready_def)
  show ?thesis
    unfolding handle_tpc_spec [OF r(1-4) assms(4)] S_def using cluster_tpc [OF r(5-7) assms(2,3) room] by simp
qed

lemma ready_get:
  assumes "cluster_ready L ps key c A" "kvrequest_ok (get_request key)" "\<forall>f \<in> set (replicas L ps key). fst (A (addr f)) key = Some v"
  shows "\<exists>c'. tpcleader_handle_get follower_net L (get_request key) c = Some (\<lparr>res_type = GETRESP, res_body = Some v\<rparr>, c') \<and> cluster_holds c' A \<and> dom c' = dom c"
proof -
  have r: "leader_ring L ps" "ps \<noteq> []" "length ps = unat (follower_capacity L)" "replica_count L \<le> length ps" "0 < replica_count L"
    "cluster_holds c A" "addr ` set (replicas L ps key) \<subseteq> dom c"
    using assms(1) unfolding cluster_ready_def by blast+
  have room: "\<forall>f \<in> set (replicas L ps key). card (dom (fst (A (addr f)))) + 1 < 2 ^ 31" using assms(1) by (auto simp: cluster_ready_def)
  have "replicas L ps key \<noteq> []" using replicas_length [OF r(1,2,4), of key] r(5) by auto
  then have "map_option (\<lambda>f. fst (A (addr f)) key) (find (\<lambda>f. fst (A (addr f)) key \<noteq> None) (replicas L ps key)) = Some (Some v)"
    using assms(3) by (cases "replicas L ps key") auto
  moreover have "req_key (get_request key) = Some key" by (simp add: get_request_def)
  ultimately show ?thesis
    using get_followers [OF r(6,7) assms(2) room] handle_get_replicas [OF r(1-4), of "get_request key" key follower_net c] by auto
qed

section \<open>A small cluster\<close>

definition one_leader :: tpcleader_t where
  "one_leader = \<lparr>follower_capacity = 1, follower_count = 1, redundancy = 1, followers_head = Some 0,
     follower_heap = [\<lparr>f_id = strhash64 ''1:h'', f_host = ''h'', f_port = 1, f_next = 0, f_prev = 0\<rparr>]\<rparr>"

lemma one_leader_ready:
  "cluster_ready one_leader [0] ''k'' [(''h'', 1) \<mapsto> (start_server, empty_fs)] (\<lambda>_. (Map.empty, None))"
proof -
  have ring: "leader_ring one_leader [0]" by (simp add: leader_ring_def one_leader_def linked_def)
  have "replicas one_leader [0] ''k'' = [follower_heap one_leader ! 0]"
    by (simp add: replicas_def primary_of_def ring_from_def replica_count_def one_leader_def)
  with ring start_server_holds show ?thesis
    by (simp add: cluster_ready_def cluster_holds_def addr_def replica_count_def) (simp add: one_leader_def)
qed

end
