(* ===== verification/WorkQueue.thy ===== *)
theory WorkQueue
  imports Prelude
begin

text \<open>
  The work queue of \<open>hw4/src/wq.c\<close>, with the two macros of \<open>hw4/src/utlist.h\<close> it is built on. The
  items are cells of an explicit heap; a cell that has been freed is \<open>None\<close>, so that a use after
  \<open>free\<close> has no outcome. Each call holds the mutex and is one step. A call of \<open>wq_pop\<close> on an empty
  queue waits: its result is \<open>Some None\<close>, and the caller tries again after a \<open>wq_push\<close>. The
  contract \<open>fifo_queue\<close> says what makes the operations a first-in-first-out queue.
\<close>

section \<open>Items\<close>

record 'a wq_item_t =
  wi_item :: 'a
  wi_next :: "nat option"
  wi_prev :: "nat option"

type_synonym 'a wq_heap = "'a wq_item_t option list"

record 'a wq_t =
  wq_size :: int
  wq_head :: "nat option"
  wq_heap :: "'a wq_heap"

text \<open>Reading and writing through a pointer, which may be NULL or freed.\<close>

definition load :: "'a wq_heap \<Rightarrow> nat option \<Rightarrow> 'a wq_item_t option" where
  "load h p = (case p of None \<Rightarrow> None | Some a \<Rightarrow> if a < length h then h ! a else None)"

definition modify :: "('a wq_item_t \<Rightarrow> 'a wq_item_t) \<Rightarrow> 'a wq_heap \<Rightarrow> nat option \<Rightarrow> 'a wq_heap option" where
  "modify f h p = do { a \<leftarrow> p; c \<leftarrow> load h p; Some (h[a := Some (f c)]) }"

section \<open>The list macros\<close>

definition DL_APPEND :: "'a wq_heap \<Rightarrow> nat option \<Rightarrow> nat option \<Rightarrow> ('a wq_heap \<times> nat option) option" where
  "DL_APPEND h head add =
     (if head \<noteq> None then do {
        hc \<leftarrow> load h head;
        h1 \<leftarrow> modify (\<lambda>c. c\<lparr>wi_prev := wi_prev hc\<rparr>) h add;
        hc1 \<leftarrow> load h1 head;
        h2 \<leftarrow> modify (\<lambda>c. c\<lparr>wi_next := add\<rparr>) h1 (wi_prev hc1);
        h3 \<leftarrow> modify (\<lambda>c. c\<lparr>wi_prev := add\<rparr>) h2 head;
        h4 \<leftarrow> modify (\<lambda>c. c\<lparr>wi_next := None\<rparr>) h3 add;
        Some (h4, head)
      } else do {
        h1 \<leftarrow> modify (\<lambda>c. c\<lparr>wi_prev := add\<rparr>) h add;
        h2 \<leftarrow> modify (\<lambda>c. c\<lparr>wi_next := None\<rparr>) h1 add;
        Some (h2, add)
      })"

definition DL_DELETE :: "'a wq_heap \<Rightarrow> nat option \<Rightarrow> nat option \<Rightarrow> ('a wq_heap \<times> nat option) option" where
  "DL_DELETE h head del = do {
     dc \<leftarrow> load h del;
     (if wi_prev dc = None then None
      else if wi_prev dc = del then Some (h, None)
      else if del = head then do {
        h1 \<leftarrow> modify (\<lambda>c. c\<lparr>wi_prev := wi_prev dc\<rparr>) h (wi_next dc);
        dc1 \<leftarrow> load h1 del;
        Some (h1, wi_next dc1)
      } else do {
        h1 \<leftarrow> modify (\<lambda>c. c\<lparr>wi_next := wi_next dc\<rparr>) h (wi_prev dc);
        dc1 \<leftarrow> load h1 del;
        (if wi_next dc1 \<noteq> None then do {
           h2 \<leftarrow> modify (\<lambda>c. c\<lparr>wi_prev := wi_prev dc1\<rparr>) h1 (wi_next dc1);
           Some (h2, head)
         } else do {
           h2 \<leftarrow> modify (\<lambda>c. c\<lparr>wi_prev := wi_prev dc1\<rparr>) h1 head;
           Some (h2, head)
         })
      })
   }"

section \<open>Operations\<close>

definition wq_init :: "'a wq_t \<Rightarrow> 'a wq_t" where
  "wq_init wq = wq\<lparr>wq_size := 0, wq_head := None\<rparr>"

text \<open>The size is an \<open>int\<close>: past its largest value the increment is undefined.\<close>

definition wq_push :: "'a wq_t \<Rightarrow> 'a \<Rightarrow> 'a wq_t option" where
  "wq_push wq x = do {
     let item = length (wq_heap wq);
     let h = wq_heap wq @ [Some \<lparr>wi_item = x, wi_next = None, wi_prev = None\<rparr>];
     (h1, head) \<leftarrow> DL_APPEND h (wq_head wq) (Some item);
     (if wq_size wq + 1 < 2 ^ 31 then Some (wq\<lparr>wq_heap := h1, wq_head := head, wq_size := wq_size wq + 1\<rparr>) else None)
   }"

definition wq_pop :: "'a wq_t \<Rightarrow> ('a \<times> 'a wq_t) option option" where
  "wq_pop wq =
     (if wq_size wq = 0 then Some None
      else do {
        item \<leftarrow> wq_head wq;
        c \<leftarrow> load (wq_heap wq) (wq_head wq);
        (h1, head) \<leftarrow> DL_DELETE (wq_heap wq) (wq_head wq) (wq_head wq);
        Some (Some (wi_item c, wq\<lparr>wq_size := wq_size wq - 1, wq_head := head, wq_heap := h1[item := None]\<rparr>))
      })"

section \<open>Doubly linked lists\<close>

text \<open>The cells at \<open>ps\<close> hold \<open>xs\<close>: each links to the one behind it, the first links back to the last.\<close>

definition dl_cell :: "nat list \<Rightarrow> 'a list \<Rightarrow> nat \<Rightarrow> 'a wq_item_t" where
  "dl_cell ps xs i =
     \<lparr>wi_item = xs ! i, wi_next = (if Suc i < length ps then Some (ps ! Suc i) else None),
      wi_prev = Some (if i = 0 then last ps else ps ! (i - 1))\<rparr>"

definition dl_list :: "'a wq_heap \<Rightarrow> nat list \<Rightarrow> 'a list \<Rightarrow> bool" where
  "dl_list h ps xs \<longleftrightarrow> distinct ps \<and> length xs = length ps \<and>
     (\<forall>i < length ps. ps ! i < length h \<and> h ! (ps ! i) = Some (dl_cell ps xs i))"

definition wq_holds :: "'a wq_t \<Rightarrow> 'a list \<Rightarrow> bool" where
  "wq_holds wq xs \<longleftrightarrow> wq_size wq = int (length xs) \<and> length xs < 2 ^ 31 \<and>
     (\<exists>ps. dl_list (wq_heap wq) ps xs \<and> wq_head wq = (case ps of [] \<Rightarrow> None | p # _ \<Rightarrow> Some p))"

lemma load_dl: "dl_list h ps xs \<Longrightarrow> i < length ps \<Longrightarrow> load h (Some (ps ! i)) = Some (dl_cell ps xs i)"
  by (simp add: dl_list_def load_def)

lemma dl_list_frame:
  "dl_list h ps xs \<Longrightarrow> \<forall>p \<in> set ps. p < length h' \<and> h' ! p = h ! p \<Longrightarrow> dl_list h' ps xs"
  by (auto simp: dl_list_def)

text \<open>Appending a fresh cell behind the list.\<close>

lemma append_dl:
  assumes "dl_list h ps xs"
  shows "\<exists>h'. DL_APPEND (h @ [Some \<lparr>wi_item = x, wi_next = None, wi_prev = None\<rparr>]) (case ps of [] \<Rightarrow> None | p # _ \<Rightarrow> Some p) (Some (length h)) =
      Some (h', Some (hd (ps @ [length h]))) \<and> dl_list h' (ps @ [length h]) (xs @ [x])"
proof (cases ps rule: rev_cases)
  case Nil
  then show ?thesis using assms by (simp add: DL_APPEND_def modify_def load_def dl_list_def dl_cell_def)
next
  case (snoc qs q)
  define n where "n = length h"
  define h0 where "h0 = h @ [Some \<lparr>wi_item = x, wi_next = None, wi_prev = None\<rparr>]"
  define p where "p = ps ! 0"
  have q: "q = ps ! (length ps - 1)" "last ps = q" and ne: "ps \<noteq> []" by (simp_all add: snoc)
  have lt: "ps ! i < n" "h0 ! (ps ! i) = Some (dl_cell ps xs i)" if "i < length ps" for i
    using assms that by (simp_all add: dl_list_def h0_def nth_append n_def)
  have pn: "p < n" "q < n" using lt(1) ne by (simp_all add: p_def q(1))
  define h1 where "h1 = h0[n := Some \<lparr>wi_item = x, wi_next = None, wi_prev = Some q\<rparr>]"
  define h2 where "h2 = h1[q := Some ((dl_cell ps xs (length ps - 1))\<lparr>wi_next := Some n\<rparr>)]"
  define h3 where "h3 = h2[p := Some ((the (h2 ! p))\<lparr>wi_prev := Some n\<rparr>)]"
  have len: "length h0 = Suc n" "length h1 = Suc n" "length h2 = Suc n" "length h3 = Suc n"
    by (simp_all add: h0_def h1_def h2_def h3_def n_def)
  have c: "load h0 (Some p) = Some (dl_cell ps xs 0)" "load h1 (Some p) = Some (dl_cell ps xs 0)"
    "load h0 (Some n) = Some \<lparr>wi_item = x, wi_next = None, wi_prev = None\<rparr>" "load h1 (Some q) = Some (dl_cell ps xs (length ps - 1))"
    using lt(2) ne pn len by (simp_all add: load_def p_def h1_def q(1)) (simp_all add: h0_def n_def)
  have c2: "load h2 (Some p) = Some (the (h2 ! p))" using pn lt(2) [of 0] ne by (auto simp: load_def h2_def h1_def p_def nth_list_update len)
  have c3: "load h3 (Some n) = Some \<lparr>wi_item = x, wi_next = None, wi_prev = Some q\<rparr>"
    using pn by (simp add: load_def h3_def h2_def h1_def len)
  have "h3[n := Some \<lparr>wi_item = x, wi_next = None, wi_prev = Some q\<rparr>] = h3"
    by (rule list_update_same_conv [THEN iffD2]) (use c3 len in \<open>simp_all add: load_def\<close>)
  then have run: "DL_APPEND h0 (Some p) (Some n) = Some (h3, Some p)"
    using c c2 c3 q(2) h1_def h2_def h3_def by (simp add: DL_APPEND_def modify_def dl_cell_def)
  have idx: "ps ! i = p \<longleftrightarrow> i = 0" "ps ! i = q \<longleftrightarrow> i = length ps - 1" if "i < length ps" for i
    using assms that ne by (auto simp: dl_list_def p_def q(1) nth_eq_iff_index_eq)
  have old: "h3 ! (ps ! i) = Some (dl_cell (ps @ [n]) (xs @ [x]) i)" if i: "i < length ps" for i
    using lt(1,2) [OF i] idx [OF i] i pn ne assms len
    by (auto simp: h3_def h2_def h1_def nth_list_update dl_cell_def nth_append dl_list_def)
  have new: "h3 ! n = Some (dl_cell (ps @ [n]) (xs @ [x]) (length ps))"
    using pn len ne assms q(2) by (auto simp: h3_def h2_def h1_def dl_cell_def dl_list_def nth_append last_conv_nth)
  have "dl_list h3 (ps @ [n]) (xs @ [x])"
    unfolding dl_list_def
  proof (intro conjI allI impI)
    fix i assume i: "i < length (ps @ [n])"
    show "(ps @ [n]) ! i < length h3" using i lt(1) len by (auto simp: nth_append less_Suc_eq)
    show "h3 ! ((ps @ [n]) ! i) = Some (dl_cell (ps @ [n]) (xs @ [x]) i)"
      using i old new by (cases "i < length ps") (auto simp: nth_append less_Suc_eq)
  qed (use assms lt(1) in \<open>auto simp: dl_list_def in_set_conv_nth\<close>)
  moreover have "(case ps of [] \<Rightarrow> None | p # _ \<Rightarrow> Some p) = Some p" "hd (ps @ [n]) = p" using ne by (cases ps; simp add: p_def)+
  ultimately show ?thesis using run by (auto simp: h0_def [symmetric] n_def [symmetric])
qed

text \<open>Removing the first cell.\<close>

lemma delete_dl:
  assumes "dl_list h (p # ps) (x # xs)"
  shows "\<exists>h'. DL_DELETE h (Some p) (Some p) = Some (h', case ps of [] \<Rightarrow> None | q # _ \<Rightarrow> Some q) \<and>
    load h (Some p) = Some (dl_cell (p # ps) (x # xs) 0) \<and> dl_list (h'[p := None]) ps xs"
proof (cases ps)
  case Nil
  then show ?thesis using assms by (simp add: DL_DELETE_def dl_list_def load_def dl_cell_def)
next
  case (Cons q qs)
  have lt: "(p # ps) ! i < length h" "h ! ((p # ps) ! i) = Some (dl_cell (p # ps) (x # xs) i)" if "i < Suc (length ps)" for i
    using assms that by (simp_all add: dl_list_def)
  have di: "distinct (p # ps)" "length xs = length ps" using assms by (simp_all add: dl_list_def)
  have c0: "load h (Some p) = Some (dl_cell (p # ps) (x # xs) 0)" using lt [of 0] by (simp add: load_def)
  have c1: "load h (Some q) = Some (dl_cell (p # ps) (x # xs) 1)" using lt [of 1] by (simp add: load_def Cons)
  define h' where "h' = h[q := Some ((dl_cell (p # ps) (x # xs) 1)\<lparr>wi_prev := Some (last ps)\<rparr>)]"
  have "load h' (Some p) = Some (dl_cell (p # ps) (x # xs) 0)" using c0 di lt [of 0] by (auto simp: load_def h'_def Cons)
  moreover have "last ps \<noteq> p" using di by (metis Cons last_in_set distinct.simps(2) list.distinct(1))
  ultimately have run: "DL_DELETE h (Some p) (Some p) = Some (h', Some q)"
    using c0 c1 by (simp add: DL_DELETE_def modify_def dl_cell_def Cons h'_def)
  have "dl_list (h'[p := None]) ps xs"
    unfolding dl_list_def
  proof (intro conjI allI impI)
    fix i assume i: "i < length ps"
    have "ps ! i \<noteq> p" "ps ! i = q \<longleftrightarrow> i = 0" using di i by (auto simp: Cons nth_Cons' in_set_conv_nth)
    then show "h'[p := None] ! (ps ! i) = Some (dl_cell ps xs i)"
      using lt [of "Suc i"] i by (auto simp: h'_def nth_list_update dl_cell_def Cons nth_Cons')
    show "ps ! i < length (h'[p := None])" using lt [of "Suc i"] i by (simp add: h'_def)
  qed (use di in simp_all)
  with run c0 show ?thesis by (auto simp: Cons)
qed

section \<open>The contract of a queue\<close>

datatype 'a queue_op = Push 'a | Pop

text \<open>A client that pushes and pops; a pop that has to wait is left out.\<close>

fun queue_ops :: "('q \<Rightarrow> 'a \<Rightarrow> 'q option) \<Rightarrow> ('q \<Rightarrow> ('a \<times> 'q) option option) \<Rightarrow> 'q \<Rightarrow> 'a queue_op list \<Rightarrow> ('a list \<times> 'q) option" where
  "queue_ops push pop q [] = Some ([], q)"
| "queue_ops push pop q (Push x # ops) = do { q' \<leftarrow> push q x; queue_ops push pop q' ops }"
| "queue_ops push pop q (Pop # ops) = do {
     r \<leftarrow> pop q;
     (case r of
        None \<Rightarrow> queue_ops push pop q ops
      | Some (x, q') \<Rightarrow> do { (ys, q'') \<leftarrow> queue_ops push pop q' ops; Some (x # ys, q'') })
   }"

fun pushed :: "'a queue_op list \<Rightarrow> 'a list" where
  "pushed [] = []"
| "pushed (Push x # ops) = x # pushed ops"
| "pushed (Pop # ops) = pushed ops"

locale fifo_queue =
  fixes holds :: "'q \<Rightarrow> 'a list \<Rightarrow> bool"
    and push :: "'q \<Rightarrow> 'a \<Rightarrow> 'q option"
    and pop :: "'q \<Rightarrow> ('a \<times> 'q) option option"
    and capacity :: nat
  assumes push_back: "holds q xs \<Longrightarrow> length xs < capacity \<Longrightarrow> \<exists>q'. push q x = Some q' \<and> holds q' (xs @ [x])"
    and pop_front: "holds q (x # xs) \<Longrightarrow> \<exists>q'. pop q = Some (Some (x, q')) \<and> holds q' xs"
    and pop_waits: "holds q [] \<Longrightarrow> pop q = Some None"
begin

lemma push_SomeD: "holds q xs \<Longrightarrow> length xs < capacity \<Longrightarrow> push q x = Some q' \<Longrightarrow> holds q' (xs @ [x])"
  using push_back [of q xs x] by auto

lemma pop_SomeD: "holds q xs \<Longrightarrow> pop q = Some (Some (x, q')) \<Longrightarrow> \<exists>ys. xs = x # ys \<and> holds q' ys"
  using pop_front [of q "hd xs" "tl xs"] pop_waits [of q] by (cases xs) auto

lemma fifo:
  "holds q xs \<Longrightarrow> length xs + length ops \<le> capacity \<Longrightarrow>
   \<exists>ys q' zs. queue_ops push pop q ops = Some (ys, q') \<and> holds q' zs \<and> xs @ pushed ops = ys @ zs"
proof (induction ops arbitrary: q xs)
  case (Cons op ops)
  show ?case
  proof (cases op)
    case (Push x)
    obtain q1 where q1: "push q x = Some q1" "holds q1 (xs @ [x])" using push_back [OF Cons.prems(1), of x] Cons.prems(2) by auto
    from Cons.IH [OF q1(2)] Cons.prems(2) q1(1) Push show ?thesis by simp
  next
    case Pop
    show ?thesis
    proof (cases xs)
      case Nil
      with Cons.IH [OF Cons.prems(1)] Cons.prems Pop pop_waits [of q] show ?thesis by simp
    next
      case (Cons x xs')
      obtain q1 where q1: "pop q = Some (Some (x, q1))" "holds q1 xs'" using pop_front Cons.prems(1) Cons by blast
      from Cons.IH [OF q1(2)] Cons.prems(2) Cons q1(1) Pop show ?thesis by fastforce
    qed
  qed
qed auto

end

interpretation wq: fifo_queue wq_holds wq_push wq_pop "2 ^ 31 - 1"
proof unfold_locales
  fix q :: "'a wq_t" and xs x
  assume "wq_holds q xs" and len: "length xs < 2 ^ 31 - 1"
  then obtain ps where ps: "dl_list (wq_heap q) ps xs" "wq_head q = (case ps of [] \<Rightarrow> None | p # _ \<Rightarrow> Some p)" "wq_size q = int (length xs)"
    by (auto simp: wq_holds_def)
  obtain h' where "DL_APPEND (wq_heap q @ [Some \<lparr>wi_item = x, wi_next = None, wi_prev = None\<rparr>]) (wq_head q) (Some (length (wq_heap q))) =
      Some (h', Some (hd (ps @ [length (wq_heap q)])))" "dl_list h' (ps @ [length (wq_heap q)]) (xs @ [x])"
    using append_dl [OF ps(1), of x] ps(2) by auto
  with len ps(3) show "\<exists>q'. wq_push q x = Some q' \<and> wq_holds q' (xs @ [x])"
    by (auto simp: wq_push_def wq_holds_def Let_def intro!: exI [of _ "ps @ [length (wq_heap q)]"] split: list.split)
next
  fix q :: "'a wq_t" and x xs
  assume "wq_holds q (x # xs)"
  then obtain p ps where ps: "dl_list (wq_heap q) (p # ps) (x # xs)" "wq_head q = Some p" and size: "wq_size q = 1 + int (length xs)"
    and len: "Suc (length xs) < 2 ^ 31"
    by (auto simp: wq_holds_def) (metis (no_types, lifting) dl_list_def length_0_conv list.exhaust list.simps(3,5))
  obtain h' where h': "DL_DELETE (wq_heap q) (Some p) (Some p) = Some (h', case ps of [] \<Rightarrow> None | q # _ \<Rightarrow> Some q)"
    "load (wq_heap q) (Some p) = Some (dl_cell (p # ps) (x # xs) 0)" "dl_list (h'[p := None]) ps xs"
    using delete_dl [OF ps(1)] by blast
  from h'(1,2) ps(2) size have "wq_pop q = Some (Some (x, q\<lparr>wq_size := int (length xs), wq_head := case ps of [] \<Rightarrow> None | q # _ \<Rightarrow> Some q,
      wq_heap := h'[p := None]\<rparr>))"
    by (simp add: wq_pop_def dl_cell_def)
  with h'(3) len show "\<exists>q'. wq_pop q = Some (Some (x, q')) \<and> wq_holds q' xs" by (auto simp: wq_holds_def)
qed (simp add: wq_pop_def wq_holds_def)

lemma wq_push_room: "wq_holds wq xs \<Longrightarrow> wq_push wq x = Some wq' \<Longrightarrow> length xs < 2 ^ 31 - 1"
  by (cases "DL_APPEND (wq_heap wq @ [Some \<lparr>wi_item = x, wi_next = None, wi_prev = None\<rparr>]) (wq_head wq) (Some (length (wq_heap wq)))")
    (auto simp: wq_push_def wq_holds_def Let_def split: if_splits)

lemma wq_init_holds: "wq_holds (wq_init wq) []"
  by (auto simp: wq_init_def wq_holds_def dl_list_def)

section \<open>Properties\<close>

text \<open>C19. The work queue is a first-in-first-out queue: from \<open>wq_init\<close> on, any sequence of pushes and pops runs
  without touching a freed or missing item, the items popped are the first ones pushed, in the order they were
  pushed, and the queue holds the rest; the next pop returns the first of the rest, and waits only if there is none.\<close>

theorem wq_fifo:
  assumes "length ops < 2 ^ 31"
  shows "\<exists>ys wq' zs. queue_ops wq_push wq_pop (wq_init wq) ops = Some (ys, wq') \<and> wq_holds wq' zs \<and> pushed ops = ys @ zs \<and>
    map_option (map_option fst) (wq_pop wq') = Some (if zs = [] then None else Some (hd zs))"
proof -
  obtain ys wq' zs where q: "queue_ops wq_push wq_pop (wq_init wq) ops = Some (ys, wq')" "wq_holds wq' zs" "pushed ops = ys @ zs"
    using wq.fifo [OF wq_init_holds, of ops wq] assms by auto
  have "map_option (map_option fst) (wq_pop wq') = Some (if zs = [] then None else Some (hd zs))"
    using q(2) wq.pop_waits wq.pop_front [of wq' "hd zs" "tl zs"] by (cases zs) auto
  with q show ?thesis by blast
qed

theorem wq_fifo_witness:
  "\<exists>ys wq' zs. queue_ops wq_push wq_pop (wq_init \<lparr>wq_size = 5, wq_head = Some 3, wq_heap = []\<rparr>) [Push CHR ''a'', Pop, Pop, Push CHR ''b''] = Some (ys, wq') \<and>
     wq_holds wq' zs \<and> ''ab'' = ys @ zs \<and> map_option (map_option fst) (wq_pop wq') = Some (if zs = [] then None else Some (hd zs))"
  using wq_fifo [of "[Push CHR ''a'', Pop, Pop, Push CHR ''b'']" "\<lparr>wq_size = 5, wq_head = Some 3, wq_heap = []\<rparr>"] by simp

end
