(* ===== verification/SocketServer.thy ===== *)
theory SocketServer
  imports WorkQueue "HOL-Library.Multiset"
begin

text \<open>
  The threaded server of \<open>hw4/src/socket_server.c\<close>: \<open>server_run\<close> accepts connections into the work
  queue, its worker threads take them out and call the handler of the leader or of the follower, and
  \<open>server_stop\<close> clears the flag all of them test. The threads are program counters that take steps in
  any order; what the handlers do with a connection is the subject of \<open>KvServer\<close> and \<open>TpcLeader\<close>, here
  a call has a beginning and an end, and \<open>returns\<close> says of each call, by its number, whether it ends at all. A
  worker that finds the queue empty sleeps on the condition variable until it is woken, by the broadcast of
  \<open>wq_push\<close> or for no reason at all, as POSIX allows. The results of the system calls are parameters.
\<close>

type_synonym u16 = "16 word"

section \<open>Connecting\<close>

text \<open>What the network calls return: a new descriptor, the address of a host, the result of
  \<open>connect\<close>.\<close>

record net_os =
  nos_socket :: int
  nos_gethostbyname :: "string \<Rightarrow> bytes option"
  nos_connect :: "int \<Rightarrow> bytes \<Rightarrow> u16 \<Rightarrow> int option \<Rightarrow> int"

text \<open>The result with the descriptors left open; the receive timeout of the socket is the last argument
  of \<open>nos_connect\<close>. A port is cut to 16 bits by \<open>htons\<close>.\<close>

definition connect_to :: "net_os \<Rightarrow> string \<Rightarrow> int \<Rightarrow> int \<Rightarrow> int \<times> int list" where
  "connect_to os host port timeout =
     (let sockfd = nos_socket os; opened = (if sockfd = -1 then [] else [sockfd]) in
      case nos_gethostbyname os host of
        None \<Rightarrow> (-1, opened)
      | Some addr \<Rightarrow>
          if nos_connect os sockfd addr (word_of_int port) (if timeout > 0 then Some timeout else None) < 0
          then (-1, opened)
          else (sockfd, opened))"

section \<open>The server and its threads\<close>

record server_t =
  leader :: bool
  listening :: bool
  sockfd :: int
  max_threads :: int
  port :: int
  hostname :: string
  wq :: "int wq_t"

datatype role = Leader_handle | Follower_handle

text \<open>Where a worker is: before the test of the flag, at the test of the size in \<open>wq_pop\<close>, asleep in its
  \<open>pthread_cond_wait\<close>, in the call of a handler with its number and its socket; a worker whose \<open>pthread_create\<close>
  failed is absent.\<close>

datatype worker = Absent | At_test | At_pop | At_wait | In_call nat int | Returned

definition pthread_cond_broadcast :: "worker list \<Rightarrow> worker list" where
  "pthread_cond_broadcast ws = map (\<lambda>w. if w = At_wait then At_pop else w) ws"

datatype main_pc = Main_test | Main_accept | Main_done

record run =
  srv :: server_t
  main_pc :: main_pc
  workers :: "worker list"
  accepted :: "int list"
  calls :: "(role \<times> int) list"
  closed :: "int list"
  sock_closes :: "int list"

record server_os =
  os_socket :: int
  os_setsockopt :: "int \<Rightarrow> int"
  os_bind :: "int \<Rightarrow> u16 \<Rightarrow> int"
  os_listen :: "int \<Rightarrow> int \<Rightarrow> int"
  os_errno :: int
  os_pthread_create :: "nat \<Rightarrow> int"

text \<open>\<open>server_run\<close> up to its loop: the process ends with \<open>errno\<close>, or the workers exist. An array of
  no workers is undefined.\<close>

definition server_run_setup :: "server_os \<Rightarrow> string \<Rightarrow> int \<Rightarrow> server_t \<Rightarrow> (int + run) option" where
  "server_run_setup os host prt server =
     (let sock_fd = os_socket os;
          server1 = server\<lparr>wq := wq_init (wq server), listening := True, port := prt, hostname := host, sockfd := sock_fd\<rparr>
      in if sock_fd = -1 then Some (Inl (os_errno os))
         else if os_setsockopt os sock_fd = -1 then Some (Inl (os_errno os))
         else if os_bind os sock_fd (word_of_int prt) = -1 then Some (Inl (os_errno os))
         else if os_listen os sock_fd 1024 = -1 then Some (Inl (os_errno os))
         else if max_threads server \<le> 0 then None
         else Some (Inr \<lparr>srv = server1, main_pc = Main_test,
                workers = map (\<lambda>i. if os_pthread_create os i = 0 then At_test else Absent) [0 ..< nat (max_threads server)],
                accepted = [], calls = [], closed = [], sock_closes = []\<rparr>))"

text \<open>One step of the accepting loop; \<open>client_sock\<close> is what \<open>accept\<close> returns. The broadcast at the end of
  \<open>wq_push\<close> is done here, where the threads are. The inner \<open>None\<close>: the loop has ended.\<close>

definition server_run_step :: "run \<Rightarrow> int \<Rightarrow> run option option" where
  "server_run_step s client_sock = (case main_pc s of
     Main_test \<Rightarrow>
       if listening (srv s) then Some (Some (s\<lparr>main_pc := Main_accept\<rparr>))
       else Some (Some (s\<lparr>main_pc := Main_done, sock_closes := sock_closes s @ [sockfd (srv s)]\<rparr>))
   | Main_accept \<Rightarrow>
       if client_sock > 0 then do {
         q \<leftarrow> wq_push (wq (srv s)) client_sock;
         Some (Some (s\<lparr>main_pc := Main_test, srv := (srv s)\<lparr>wq := q\<rparr>, workers := pthread_cond_broadcast (workers s),
                       accepted := accepted s @ [client_sock]\<rparr>))
       } else Some (Some (s\<lparr>main_pc := Main_test\<rparr>))
   | Main_done \<Rightarrow> Some None)"

text \<open>One step of worker \<open>i\<close> in the loop that both handlers have. The inner \<open>None\<close>: the worker is asleep, in a
  call that does not return, or has returned itself.\<close>

definition handle_loop :: "(nat \<Rightarrow> bool) \<Rightarrow> role \<Rightarrow> run \<Rightarrow> nat \<Rightarrow> run option option" where
  "handle_loop returns r s i = (case workers s ! i of
     At_test \<Rightarrow> Some (Some (s\<lparr>workers := (workers s)[i := if listening (srv s) then At_pop else Returned]\<rparr>))
   | At_pop \<Rightarrow> do {
       popped \<leftarrow> wq_pop (wq (srv s));
       (case popped of
          None \<Rightarrow> Some (Some (s\<lparr>workers := (workers s)[i := At_wait]\<rparr>))
        | Some (fd, q) \<Rightarrow> Some (Some (s\<lparr>srv := (srv s)\<lparr>wq := q\<rparr>, workers := (workers s)[i := In_call (length (calls s)) fd],
                                          calls := calls s @ [(r, fd)]\<rparr>)))
     }
   | In_call n fd \<Rightarrow>
       if returns n then Some (Some (s\<lparr>workers := (workers s)[i := At_test], closed := closed s @ [fd]\<rparr>)) else Some None
   | _ \<Rightarrow> Some None)"

definition handle_leader :: "(nat \<Rightarrow> bool) \<Rightarrow> run \<Rightarrow> nat \<Rightarrow> run option option" where
  "handle_leader returns s i = handle_loop returns Leader_handle s i"

definition handle_follower :: "(nat \<Rightarrow> bool) \<Rightarrow> run \<Rightarrow> nat \<Rightarrow> run option option" where
  "handle_follower returns s i = handle_loop returns Follower_handle s i"

definition handle :: "(nat \<Rightarrow> bool) \<Rightarrow> run \<Rightarrow> nat \<Rightarrow> run option option" where
  "handle returns s i = (if leader (srv s) then handle_leader returns s i else handle_follower returns s i)"

definition server_stop :: "run \<Rightarrow> run" where
  "server_stop s = s\<lparr>srv := (srv s)\<lparr>listening := False\<rparr>, sock_closes := sock_closes s @ [sockfd (srv s)]\<rparr>"

text \<open>The threads take steps in any order, a sleeping worker may wake up, and \<open>server_stop\<close> may be called at any time.\<close>

inductive step :: "(nat \<Rightarrow> bool) \<Rightarrow> run \<Rightarrow> run \<Rightarrow> bool" for returns where
  main: "server_run_step s client_sock = Some (Some t) \<Longrightarrow> step returns s t"
| worker: "i < length (workers s) \<Longrightarrow> handle returns s i = Some (Some t) \<Longrightarrow> step returns s t"
| wakeup: "i < length (workers s) \<Longrightarrow> workers s ! i = At_wait \<Longrightarrow> step returns s (s\<lparr>workers := (workers s)[i := At_pop]\<rparr>)"
| stop: "step returns s (server_stop s)"

section \<open>The invariant of a run\<close>

definition run_role :: "run \<Rightarrow> role" where
  "run_role s = (if leader (srv s) then Leader_handle else Follower_handle)"

definition call_of :: "worker \<Rightarrow> int multiset" where
  "call_of w = (case w of In_call n fd \<Rightarrow> {#fd#} | _ \<Rightarrow> {#})"

definition open_calls :: "worker list \<Rightarrow> int multiset" where
  "open_calls ws = sum_list (map call_of ws)"

text \<open>The open calls that never end.\<close>

definition stuck_of :: "(nat \<Rightarrow> bool) \<Rightarrow> worker \<Rightarrow> int multiset" where
  "stuck_of returns w = (case w of In_call n fd \<Rightarrow> if returns n then {#} else {#fd#} | _ \<Rightarrow> {#})"

definition stuck_calls :: "(nat \<Rightarrow> bool) \<Rightarrow> worker list \<Rightarrow> int multiset" where
  "stuck_calls returns ws = sum_list (map (stuck_of returns) ws)"

text \<open>A worker sleeps only while the queue is empty: no wake-up is lost.\<close>

definition run_inv :: "run \<Rightarrow> int list \<Rightarrow> bool" where
  "run_inv s queue \<longleftrightarrow> wq_holds (wq (srv s)) queue \<and> accepted s = map snd (calls s) @ queue \<and>
     (\<forall>c \<in> set (calls s). fst c = run_role s) \<and> mset (map snd (calls s)) = mset (closed s) + open_calls (workers s) \<and>
     (listening (srv s) \<longrightarrow> Returned \<notin> set (workers s)) \<and> (\<forall>fd \<in> set (accepted s). fd > 0) \<and>
     (At_wait \<in> set (workers s) \<longrightarrow> queue = [])"

lemma sum_list_replace:
  fixes f :: "worker \<Rightarrow> int multiset"
  shows "i < length ws \<Longrightarrow> sum_list (map f (ws[i := w])) + f (ws ! i) = sum_list (map f ws) + f w"
  by (induction ws arbitrary: i) (auto simp: nth_Cons split: nat.splits)

lemma open_calls_update:
  "i < length ws \<Longrightarrow> open_calls (ws[i := w]) + call_of (ws ! i) = open_calls ws + call_of w"
  unfolding open_calls_def by (rule sum_list_replace)

lemma stuck_calls_update:
  "i < length ws \<Longrightarrow> stuck_calls returns (ws[i := w]) + stuck_of returns (ws ! i) = stuck_calls returns ws + stuck_of returns w"
  unfolding stuck_calls_def by (rule sum_list_replace)

lemma open_calls_size: "size (open_calls ws) \<le> length ws"
  by (induction ws) (auto simp: open_calls_def call_of_def split: worker.split)

lemma open_calls_none: "open_calls ws = {#} \<longleftrightarrow> (\<forall>w \<in> set ws. call_of w = {#})"
  by (induction ws) (auto simp: open_calls_def)

lemma stuck_is_open: "\<forall>w \<in> set ws. call_of w = stuck_of returns w \<Longrightarrow> open_calls ws = stuck_calls returns ws"
  by (induction ws) (auto simp: open_calls_def stuck_calls_def)

lemma broadcast_simps [simp]:
  "length (pthread_cond_broadcast ws) = length ws" "open_calls (pthread_cond_broadcast ws) = open_calls ws"
  "stuck_calls returns (pthread_cond_broadcast ws) = stuck_calls returns ws"
  "At_wait \<notin> set (pthread_cond_broadcast ws)" "Returned \<in> set (pthread_cond_broadcast ws) \<longleftrightarrow> Returned \<in> set ws"
  by (induction ws) (auto simp: pthread_cond_broadcast_def open_calls_def call_of_def stuck_calls_def stuck_of_def)

lemma broadcast_nth: "i < length ws \<Longrightarrow> pthread_cond_broadcast ws ! i = (if ws ! i = At_wait then At_pop else ws ! i)"
  by (simp add: pthread_cond_broadcast_def)

lemma handle_alt: "handle returns s i = handle_loop returns (run_role s) s i"
  by (simp add: handle_def handle_leader_def handle_follower_def run_role_def)

lemma setup_SomeD:
  assumes "server_run_setup os host prt server = Some (Inr s)"
  shows "\<exists>server'. leader server' = leader server \<and> listening server' \<and> wq_holds (wq server') [] \<and>
    s = \<lparr>srv = server', main_pc = Main_test,
         workers = map (\<lambda>i. if os_pthread_create os i = 0 then At_test else Absent) [0 ..< nat (max_threads server)],
         accepted = [], calls = [], closed = [], sock_closes = []\<rparr>"
  using assms by (auto simp: server_run_setup_def Let_def wq_init_holds split: if_splits)

lemma setup_inv:
  assumes "server_run_setup os host prt server = Some (Inr s)"
  shows "run_inv s [] \<and> listening (srv s)"
proof -
  have "open_calls (workers s) = {#}" "Returned \<notin> set (workers s)" "At_wait \<notin> set (workers s)"
    using setup_SomeD [OF assms] by (auto simp: call_of_def open_calls_none)
  with setup_SomeD [OF assms] show ?thesis by (auto simp: run_inv_def)
qed

lemma main_inv:
  assumes "run_inv s queue" "server_run_step s c = Some (Some t)"
  shows "\<exists>queue'. run_inv t queue'"
proof (cases "main_pc s = Main_accept \<and> c > 0")
  case True
  then obtain q where q: "wq_push (wq (srv s)) c = Some q"
    and t: "t = s\<lparr>main_pc := Main_test, srv := (srv s)\<lparr>wq := q\<rparr>, workers := pthread_cond_broadcast (workers s), accepted := accepted s @ [c]\<rparr>"
    using assms(2) by (auto simp: server_run_step_def bind_eq_Some_conv)
  have "wq_holds (wq (srv s)) queue" using assms(1) by (simp add: run_inv_def)
  moreover from this q have "length queue < 2 ^ 31 - 1" by (rule wq_push_room)
  ultimately have "wq_holds q (queue @ [c])" using q by (rule wq.push_SomeD)
  with assms(1) True show ?thesis by (intro exI [of _ "queue @ [c]"]) (auto simp: run_inv_def t run_role_def)
next
  case False
  with assms show ?thesis
    by (intro exI [of _ queue]) (auto simp: run_inv_def server_run_step_def run_role_def split: main_pc.splits if_splits)
qed

text \<open>What a worker does to the list of workers, and what the invariant needs of it.\<close>

lemma worker_update_inv:
  assumes "run_inv s queue" "i < length (workers s)" "call_of w = call_of (workers s ! i)"
    and "listening (srv s) \<Longrightarrow> w \<noteq> Returned" "w = At_wait \<Longrightarrow> queue = []"
  shows "run_inv (s\<lparr>workers := (workers s)[i := w]\<rparr>) queue"
proof -
  have "open_calls ((workers s)[i := w]) = open_calls (workers s)" using open_calls_update [OF assms(2), of w] assms(3) by simp
  with assms(1,4,5) show ?thesis by (auto simp: run_inv_def run_role_def dest: set_update_subset_insert [THEN subsetD])
qed

lemma worker_inv:
  assumes "run_inv s queue" "handle returns s i = Some (Some t)" "i < length (workers s)"
  shows "\<exists>queue'. run_inv t queue'"
proof (cases "workers s ! i")
  case At_test
  then have t: "t = s\<lparr>workers := (workers s)[i := if listening (srv s) then At_pop else Returned]\<rparr>"
    using assms(2) by (simp add: handle_alt handle_loop_def)
  show ?thesis unfolding t by (rule exI, rule worker_update_inv [OF assms(1,3)]) (auto simp: At_test call_of_def split: if_splits)
next
  case At_pop
  show ?thesis
  proof (cases queue)
    case Nil
    then have t: "t = s\<lparr>workers := (workers s)[i := At_wait]\<rparr>"
      using assms(1,2) At_pop by (simp add: handle_alt handle_loop_def run_inv_def wq.pop_waits)
    show ?thesis unfolding t by (rule exI, rule worker_update_inv [OF assms(1,3)]) (simp_all add: At_pop call_of_def Nil)
  next
    case (Cons fd queue')
    obtain q where pop: "wq_pop (wq (srv s)) = Some (Some (fd, q))" using wq.pop_front [of "wq (srv s)" fd queue'] assms(1) Cons by (auto simp: run_inv_def)
    then have t: "t = s\<lparr>srv := (srv s)\<lparr>wq := q\<rparr>, workers := (workers s)[i := In_call (length (calls s)) fd], calls := calls s @ [(run_role s, fd)]\<rparr>"
      using assms(2) At_pop by (simp add: handle_alt handle_loop_def)
    have "wq_holds q queue'" using wq.pop_SomeD [OF _ pop] assms(1) Cons by (auto simp: run_inv_def)
    moreover have "open_calls (workers t) = open_calls (workers s) + {#fd#}"
      using open_calls_update [OF assms(3), of "In_call (length (calls s)) fd"] At_pop by (simp add: t call_of_def)
    ultimately show ?thesis using assms(1) Cons
      by (intro exI [of _ queue']) (auto simp: run_inv_def t run_role_def dest: set_update_subset_insert [THEN subsetD])
  qed
next
  case (In_call n fd)
  then have t: "t = s\<lparr>workers := (workers s)[i := At_test], closed := closed s @ [fd]\<rparr>"
    using assms(2) by (simp add: handle_alt handle_loop_def split: if_splits)
  have "open_calls (workers t) + {#fd#} = open_calls (workers s)"
    using open_calls_update [OF assms(3), of At_test] In_call by (simp add: t call_of_def)
  with assms(1) show ?thesis
    by (intro exI [of _ queue]) (auto simp: run_inv_def t run_role_def dest: set_update_subset_insert [THEN subsetD])
qed (use assms(2) in \<open>simp_all add: handle_alt handle_loop_def\<close>)

lemma step_inv: "step returns s t \<Longrightarrow> run_inv s queue \<Longrightarrow> \<exists>queue'. run_inv t queue'"
proof (induction rule: step.induct)
  case (wakeup i s)
  then have "run_inv (s\<lparr>workers := (workers s)[i := At_pop]\<rparr>) queue" by (intro worker_update_inv) (simp_all add: call_of_def)
  then show ?case by blast
next
  case (stop s)
  then show ?case by (auto simp: run_inv_def server_stop_def run_role_def)
qed (blast intro: main_inv worker_inv)+

lemma steps_inv: "(step returns)\<^sup>*\<^sup>* s t \<Longrightarrow> run_inv s queue \<Longrightarrow> \<exists>queue'. run_inv t queue'"
  by (induction arbitrary: queue rule: converse_rtranclp_induct) (blast dest: step_inv)+

section \<open>Progress\<close>

lemma step_length: "step returns s t \<Longrightarrow> length (workers t) = length (workers s)"
  by (erule step.cases) (auto simp: server_run_step_def handle_alt handle_loop_def server_stop_def bind_eq_Some_conv
      split: main_pc.splits worker.splits option.splits if_splits)

text \<open>Two states with the same connections, the same calls that never end, seen from a run that listens.\<close>

definition same_run :: "(nat \<Rightarrow> bool) \<Rightarrow> run \<Rightarrow> run \<Rightarrow> bool" where
  "same_run returns s t \<longleftrightarrow> listening (srv t) = listening (srv s) \<and> accepted t = accepted s \<and> length (workers t) = length (workers s) \<and>
     stuck_calls returns (workers t) = stuck_calls returns (workers s) \<and> length (calls s) \<le> length (calls t)"

lemma same_run_trans: "same_run returns s t \<Longrightarrow> same_run returns t u \<Longrightarrow> same_run returns s u"
  by (simp add: same_run_def)

lemma same_run_refl [simp]: "same_run returns s s"
  by (simp add: same_run_def)

text \<open>A worker that is neither absent nor in a call that never ends.\<close>

definition free_worker :: "(nat \<Rightarrow> bool) \<Rightarrow> run \<Rightarrow> nat \<Rightarrow> bool" where
  "free_worker returns s i \<longleftrightarrow> i < length (workers s) \<and> workers s ! i \<noteq> Absent \<and> (\<forall>n fd. workers s ! i = In_call n fd \<longrightarrow> returns n)"

lemma worker_move:
  assumes "run_inv s queue" "listening (srv s)" "i < length (workers s)"
  shows "workers s ! i = At_test \<Longrightarrow> \<exists>t. step returns s t \<and> run_inv t queue \<and> same_run returns s t \<and> workers t = (workers s)[i := At_pop]"
    and "workers s ! i = In_call n fd \<Longrightarrow> returns n \<Longrightarrow>
      \<exists>t. step returns s t \<and> run_inv t queue \<and> same_run returns s t \<and> workers t = (workers s)[i := At_test]"
    and "workers s ! i = At_pop \<Longrightarrow> queue = fd # queue' \<Longrightarrow> returns (length (calls s)) \<Longrightarrow>
      \<exists>t. step returns s t \<and> run_inv t queue' \<and> same_run returns s t \<and> workers t = (workers s)[i := In_call (length (calls s)) fd]"
proof -
  have move: "\<exists>q. run_inv t q \<and> accepted t = map snd (calls t) @ q" "step returns s t" if "handle returns s i = Some (Some t)" for t
    using worker_inv [OF assms(1) that assms(3)] step.worker [OF assms(3) that] by (auto simp: run_inv_def)
  have acc: "accepted s = map snd (calls s) @ queue" using assms(1) by (simp add: run_inv_def)
  note stuck = stuck_calls_update [OF assms(3), of returns] stuck_of_def
  { assume "workers s ! i = At_test"
    moreover from this have t: "handle returns s i = Some (Some (s\<lparr>workers := (workers s)[i := At_pop]\<rparr>))"
      using assms(2) by (simp add: handle_alt handle_loop_def)
    ultimately show "\<exists>t. step returns s t \<and> run_inv t queue \<and> same_run returns s t \<and> workers t = (workers s)[i := At_pop]"
      using move [OF t] acc stuck(1) [of At_pop] by (auto simp: same_run_def stuck(2)) }
  { assume "workers s ! i = In_call n fd" "returns n"
    moreover from this have t: "handle returns s i = Some (Some (s\<lparr>workers := (workers s)[i := At_test], closed := closed s @ [fd]\<rparr>))"
      by (simp add: handle_alt handle_loop_def)
    ultimately show "\<exists>t. step returns s t \<and> run_inv t queue \<and> same_run returns s t \<and> workers t = (workers s)[i := At_test]"
      using move [OF t] acc stuck(1) [of At_test] by (auto simp: same_run_def stuck(2)) }
  { assume at: "workers s ! i = At_pop" and queue: "queue = fd # queue'" and ret: "returns (length (calls s))"
    obtain q where "wq_pop (wq (srv s)) = Some (Some (fd, q))"
      using wq.pop_front [of "wq (srv s)" fd queue'] assms(1) queue by (auto simp: run_inv_def)
    with at have t: "handle returns s i = Some (Some (s\<lparr>srv := (srv s)\<lparr>wq := q\<rparr>, workers := (workers s)[i := In_call (length (calls s)) fd],
        calls := calls s @ [(run_role s, fd)]\<rparr>))"
      by (simp add: handle_alt handle_loop_def)
    show "\<exists>t. step returns s t \<and> run_inv t queue' \<and> same_run returns s t \<and> workers t = (workers s)[i := In_call (length (calls s)) fd]"
      using move [OF t] acc queue at ret stuck(1) [of "In_call (length (calls s)) fd"] by (auto simp: same_run_def stuck(2)) }
qed

text \<open>While the server listens and the queue is not empty, a free worker can come to \<open>wq_pop\<close>: it does not sleep.\<close>

lemma worker_ready:
  assumes "run_inv s queue" "listening (srv s)" "free_worker returns s i" "queue \<noteq> []"
  shows "\<exists>t. (step returns)\<^sup>*\<^sup>* s t \<and> run_inv t queue \<and> same_run returns s t \<and> workers t ! i = At_pop"
proof -
  have i: "i < length (workers s)" "workers s ! i \<noteq> Absent" using assms(3) by (simp_all add: free_worker_def)
  have test: "\<exists>t. (step returns)\<^sup>*\<^sup>* s t \<and> run_inv t queue \<and> same_run returns s t \<and> workers t ! i = At_pop"
    if s: "run_inv s queue" "listening (srv s)" "i < length (workers s)" "workers s ! i = At_test" for s
  proof -
    obtain t where t: "step returns s t" "run_inv t queue" "same_run returns s t" "workers t = (workers s)[i := At_pop]"
      using worker_move(1) [OF s] by blast
    then have "workers t ! i = At_pop" using s(3) by simp
    with t show ?thesis by blast
  qed
  show ?thesis
  proof (cases "workers s ! i")
    case (In_call n fd)
    then have "returns n" using assms(3) by (simp add: free_worker_def)
    then obtain t where t: "step returns s t" "run_inv t queue" "same_run returns s t" "workers t = (workers s)[i := At_test]"
      using worker_move(2) [OF assms(1,2) i(1) In_call] by blast
    then obtain u where "(step returns)\<^sup>*\<^sup>* t u" "run_inv u queue" "same_run returns t u" "workers u ! i = At_pop"
      using test [of t] assms(2) i(1) by (auto simp: same_run_def)
    with t show ?thesis by (meson converse_rtranclp_into_rtranclp same_run_trans)
  next
    case Returned
    then have False using assms(1,2) nth_mem [OF i(1)] by (simp add: run_inv_def)
    then show ?thesis ..
  next
    case At_wait
    then have False using assms(1,4) nth_mem [OF i(1)] by (simp add: run_inv_def)
    then show ?thesis ..
  next
    case At_pop
    then show ?thesis using assms(1) by auto
  qed (use assms i test in auto)
qed

lemma drain_queue:
  "run_inv s queue \<Longrightarrow> listening (srv s) \<Longrightarrow> free_worker returns s i \<Longrightarrow> \<forall>n \<ge> length (calls s). returns n \<Longrightarrow>
   \<exists>t. (step returns)\<^sup>*\<^sup>* s t \<and> run_inv t [] \<and> same_run returns s t"
proof (induction queue arbitrary: s)
  case Nil
  then show ?case by auto
next
  case (Cons fd queue)
  obtain t where t: "(step returns)\<^sup>*\<^sup>* s t" "run_inv t (fd # queue)" "same_run returns s t" "workers t ! i = At_pop"
    using worker_ready [OF Cons.prems(1-3)] by blast
  have len: "listening (srv t)" "i < length (workers t)" "returns (length (calls t))"
    using t(3) Cons.prems(2-4) by (simp_all add: same_run_def free_worker_def)
  obtain u where u: "step returns t u" "run_inv u queue" "same_run returns t u" "workers u = (workers t)[i := In_call (length (calls t)) fd]"
    using worker_move(3) [OF t(2) len(1,2) t(4) refl, of returns] len(3) by blast
  have "listening (srv u)" "free_worker returns u i" "\<forall>n \<ge> length (calls u). returns n"
    using len t(3) u(3,4) Cons.prems(4) by (auto simp: same_run_def free_worker_def)
  then obtain v where "(step returns)\<^sup>*\<^sup>* u v" "run_inv v []" "same_run returns u v" using Cons.IH [OF u(2)] by blast
  with t(1,3) u(1,3) show ?case by (meson rtranclp.rtrancl_into_rtrancl rtranclp_trans same_run_trans)
qed

lemma finish_calls:
  "run_inv s queue \<Longrightarrow> listening (srv s) \<Longrightarrow> size (open_calls (workers s)) = n \<Longrightarrow>
   \<exists>t. (step returns)\<^sup>*\<^sup>* s t \<and> run_inv t queue \<and> same_run returns s t \<and> open_calls (workers t) = stuck_calls returns (workers t)"
proof (induction n arbitrary: s)
  case 0
  then have "\<forall>w \<in> set (workers s). call_of w = {#}" by (simp add: open_calls_none [symmetric])
  then have "\<forall>w \<in> set (workers s). call_of w = stuck_of returns w" by (auto simp: call_of_def stuck_of_def split: worker.splits)
  then have "open_calls (workers s) = stuck_calls returns (workers s)" by (rule stuck_is_open)
  with 0 show ?case by (intro exI [of _ s]) simp
next
  case (Suc n)
  show ?case
  proof (cases "\<forall>w \<in> set (workers s). call_of w = stuck_of returns w")
    case True
    then have "open_calls (workers s) = stuck_calls returns (workers s)" by (rule stuck_is_open)
    with Suc.prems show ?thesis by (intro exI [of _ s]) simp
  next
    case False
    then obtain i where i: "i < length (workers s)" "call_of (workers s ! i) \<noteq> stuck_of returns (workers s ! i)" by (auto simp: in_set_conv_nth)
    then obtain k fd where k: "workers s ! i = In_call k fd" "returns k"
      by (cases "workers s ! i") (auto simp: call_of_def stuck_of_def split: if_splits)
    obtain t where t: "step returns s t" "run_inv t queue" "same_run returns s t" "workers t = (workers s)[i := At_test]"
      using worker_move(2) [OF Suc.prems(1,2) i(1) k(1), of returns] k(2) by blast
    have "open_calls (workers t) + {#fd#} = open_calls (workers s)"
      using open_calls_update [OF i(1), of At_test] k(1) t(4) by (simp add: call_of_def)
    then have "size (open_calls (workers t)) = n" using Suc.prems(3) by (metis add.commute diff_Suc_1 size_single size_union plus_1_eq_Suc)
    moreover have "listening (srv t)" using t(3) Suc.prems(2) by (simp add: same_run_def)
    ultimately obtain u where "(step returns)\<^sup>*\<^sup>* t u" "run_inv u queue" "same_run returns t u" "open_calls (workers u) = stuck_calls returns (workers u)"
      using Suc.IH [OF t(2)] by blast
    with t show ?thesis by (meson converse_rtranclp_into_rtranclp same_run_trans)
  qed
qed

section \<open>After the stop\<close>

definition stopped_empty :: "run \<Rightarrow> nat \<Rightarrow> bool" where
  "stopped_empty s i \<longleftrightarrow> \<not> listening (srv s) \<and> main_pc s = Main_done \<and> wq_holds (wq (srv s)) [] \<and> workers s ! i \<in> {At_pop, At_wait}"

lemma stopped_step: "step returns s t \<Longrightarrow> stopped_empty s i \<Longrightarrow> stopped_empty t i"
proof (induction rule: step.induct)
  case (worker j s t)
  then have "wq_pop (wq (srv s)) = Some None" by (simp add: stopped_empty_def wq.pop_waits)
  with worker show ?case
    by (cases "j = i") (auto simp: stopped_empty_def handle_alt handle_loop_def split: worker.splits if_splits)
next
  case (wakeup j s)
  then show ?case by (cases "j = i") (auto simp: stopped_empty_def)
qed (auto simp: stopped_empty_def server_run_step_def server_stop_def)

lemma stopped_steps: "(step returns)\<^sup>*\<^sup>* s t \<Longrightarrow> stopped_empty s i \<Longrightarrow> stopped_empty t i"
  by (induction rule: rtranclp_induct) (blast dest: stopped_step)+

section \<open>Properties\<close>

definition demo_os :: server_os where
  "demo_os = \<lparr>os_socket = 3, os_setsockopt = (\<lambda>_. 0), os_bind = (\<lambda>_ _. 0), os_listen = (\<lambda>_ _. 0), os_errno = 0, os_pthread_create = (\<lambda>_. 0)\<rparr>"

definition demo_server :: server_t where
  "demo_server = \<lparr>leader = True, listening = False, sockfd = 0, max_threads = 1, port = 0, hostname = '''',
     wq = \<lparr>wq_size = 0, wq_head = None, wq_heap = []\<rparr>\<rparr>"

definition demo_run :: run where
  "demo_run = \<lparr>srv = demo_server\<lparr>listening := True, port := 80, hostname := ''h'', sockfd := 3\<rparr>, main_pc = Main_test, workers = [At_test],
     accepted = [], calls = [], closed = [], sock_closes = []\<rparr>"

definition demo_queued :: run where
  "demo_queued = demo_run\<lparr>accepted := [7], srv := (srv demo_run)\<lparr>wq := \<lparr>wq_size = 1, wq_head = Some 0,
     wq_heap = [Some \<lparr>wi_item = 7, wi_next = None, wi_prev = Some 0\<rparr>]\<rparr>\<rparr>\<rparr>"

lemmas demo_defs = demo_os_def demo_server_def demo_run_def demo_queued_def

lemma demo_setup: "server_run_setup demo_os ''h'' 80 demo_server = Some (Inr demo_run)"
  by (simp add: server_run_setup_def demo_defs wq_init_def)

lemma demo_steps: "(step returns)\<^sup>*\<^sup>* demo_run demo_queued"
proof -
  have "step returns demo_run (demo_run\<lparr>main_pc := Main_accept\<rparr>)"
    by (rule step.main [of _ 0]) (simp add: server_run_step_def demo_defs)
  moreover have "step returns (demo_run\<lparr>main_pc := Main_accept\<rparr>) demo_queued"
    by (rule step.main [of _ 7]) (simp add: server_run_step_def demo_defs pthread_cond_broadcast_def wq_push_def DL_APPEND_def modify_def load_def)
  ultimately show ?thesis by (meson r_into_rtranclp rtranclp.rtrancl_into_rtrancl)
qed

text \<open>C17. Every connection is served at most once and in order: at any point of a run, whatever the threads have
  done and whichever calls of a handler return, the accepted connections are those some worker has begun to serve, in the
  order they were accepted, followed by those in the queue; each call was made to the handler of the server's kind, the
  sockets of the finished calls and no others are closed, once each, and no more calls are open than there are workers.\<close>

theorem server_serves_once:
  assumes "server_run_setup os host prt server = Some (Inr s)" and "(step returns)\<^sup>*\<^sup>* s t"
  shows "\<exists>queue. wq_holds (wq (srv t)) queue \<and> accepted t = map snd (calls t) @ queue \<and>
    (\<forall>c \<in> set (calls t). fst c = (if leader (srv t) then Leader_handle else Follower_handle)) \<and>
    mset (map snd (calls t)) = mset (closed t) + open_calls (workers t) \<and>
    size (open_calls (workers t)) \<le> nat (max_threads server)"
proof -
  obtain queue where inv: "run_inv t queue" using steps_inv [OF assms(2)] setup_inv [OF assms(1)] by blast
  have "length (workers t) = length (workers s)" using assms(2) by (induction rule: rtranclp_induct) (simp_all add: step_length)
  then have "length (workers t) = nat (max_threads server)" using setup_SomeD [OF assms(1)] by auto
  with inv open_calls_size [of "workers t"] show ?thesis by (auto simp: run_inv_def run_role_def)
qed

theorem server_serves_once_witness:
  "\<exists>queue. wq_holds (wq (srv demo_queued)) queue \<and> [7] = map snd (calls demo_queued) @ queue"
  using server_serves_once [OF demo_setup demo_steps [of "\<lambda>_. True"]] by (auto simp: demo_defs)

text \<open>C18. No wake-up is lost, and no connection is stuck for want of one: in every state a run reaches, no worker sleeps
  while connections are queued. And while the server listens and some worker is neither absent nor in a call that never
  returns, the run can be continued, if the calls still to be made return, until every connection accepted so far is
  served, and all are closed but those of the calls that never return. Which calls return is arbitrary: a call of the
  leader's handler may wait for ever for a follower, and once such calls hold all workers nothing is served.\<close>

theorem server_can_serve_all:
  assumes "server_run_setup os host prt server = Some (Inr s)" and "(step returns)\<^sup>*\<^sup>* s t"
  shows "\<exists>queue. wq_holds (wq (srv t)) queue \<and> (queue \<noteq> [] \<longrightarrow> At_wait \<notin> set (workers t)) \<and>
    (listening (srv t) \<and> free_worker returns t i \<and> (\<forall>n \<ge> length (calls t). returns n) \<longrightarrow>
      (\<exists>u. (step returns)\<^sup>*\<^sup>* t u \<and> accepted u = accepted t \<and> map snd (calls u) = accepted t \<and>
        mset (closed u) + stuck_calls returns (workers t) = mset (accepted t)))"
proof -
  obtain queue where inv: "run_inv t queue" using steps_inv [OF assms(2)] setup_inv [OF assms(1)] by blast
  have "\<exists>u. (step returns)\<^sup>*\<^sup>* t u \<and> accepted u = accepted t \<and> map snd (calls u) = accepted t \<and>
      mset (closed u) + stuck_calls returns (workers t) = mset (accepted t)"
    if l: "listening (srv t)" "free_worker returns t i" "\<forall>n \<ge> length (calls t). returns n"
  proof -
    obtain u where u: "(step returns)\<^sup>*\<^sup>* t u" "run_inv u []" "same_run returns t u" using drain_queue [OF inv l] by blast
    then have "listening (srv u)" using l(1) by (simp add: same_run_def)
    then obtain v where v: "(step returns)\<^sup>*\<^sup>* u v" "run_inv v []" "same_run returns u v" "open_calls (workers v) = stuck_calls returns (workers v)"
      using finish_calls [OF u(2)] by blast
    have "accepted v = accepted t" "stuck_calls returns (workers v) = stuck_calls returns (workers t)" using u(3) v(3) by (simp_all add: same_run_def)
    moreover have "map snd (calls v) = accepted v" "mset (accepted v) = mset (closed v) + open_calls (workers v)"
      using v(2) by (auto simp: run_inv_def)
    ultimately show ?thesis using u(1) v(1,4) by (intro exI [of _ v]) (auto dest: rtranclp_trans)
  qed
  with inv show ?thesis by (intro exI [of _ queue]) (auto simp: run_inv_def)
qed

theorem server_can_serve_all_witness:
  "\<exists>u. (step (\<lambda>_. True))\<^sup>*\<^sup>* demo_queued u \<and> map snd (calls u) = [7] \<and> mset (closed u) = {#7#}"
  using server_can_serve_all [OF demo_setup demo_steps [of "\<lambda>_. True"], of 0]
  by (auto simp: demo_defs free_worker_def stuck_calls_def stuck_of_def)

text \<open>Once all workers are in calls that never return, the connections in the queue stay there: no worker makes a step.\<close>

lemma all_stuck:
  "\<forall>w \<in> set (workers s). \<exists>n fd. w = In_call n fd \<and> \<not> returns n \<Longrightarrow> i < length (workers s) \<Longrightarrow> handle returns s i = Some None"
  by (drule bspec, erule nth_mem) (auto simp: handle_alt handle_loop_def)

text \<open>\<open>server_stop\<close> does not end a waiting worker: once the flag is cleared, the accepting loop has ended and
  the queue is empty, a worker in \<open>wq_pop\<close> stays there for ever, since no one will push again; and the
  listening socket has been closed by both \<open>server_stop\<close> and \<open>server_run\<close>.\<close>

theorem server_stop_leaves_waiting:
  assumes "\<not> listening (srv s)" and "main_pc s = Main_done" and "wq_holds (wq (srv s)) []" and "workers s ! i \<in> {At_pop, At_wait}"
    and "(step returns)\<^sup>*\<^sup>* s t"
  shows "workers t ! i \<in> {At_pop, At_wait} \<and> wq_holds (wq (srv t)) []"
  using stopped_steps [OF assms(5)] assms(1-4) by (simp add: stopped_empty_def)

definition demo_waiting :: run where
  "demo_waiting = demo_run\<lparr>workers := [At_wait], main_pc := Main_done, srv := (srv demo_run)\<lparr>listening := False\<rparr>, sock_closes := [3, 3]\<rparr>"

theorem server_stop_leaves_waiting_witness:
  "(step (\<lambda>_. True))\<^sup>*\<^sup>* demo_run demo_waiting \<and> sock_closes demo_waiting = [3, 3] \<and>
   (\<forall>t. (step (\<lambda>_. True))\<^sup>*\<^sup>* demo_waiting t \<longrightarrow> workers t ! 0 \<in> {At_pop, At_wait})"
proof -
  let ?r = "\<lambda>_. True" and ?s = "demo_run\<lparr>workers := [At_wait]\<rparr>"
  have h: "wq_holds (wq (srv demo_waiting)) []" "wq_holds (wq (srv demo_run)) []" "workers demo_run = [At_test]" "listening (srv demo_run)"
    using setup_inv [OF demo_setup] by (simp_all add: demo_waiting_def run_inv_def) (simp_all add: demo_defs)
  have "step ?r demo_run (demo_run\<lparr>workers := [At_pop]\<rparr>)"
    by (rule step.worker [of 0]) (simp_all add: handle_alt handle_loop_def h)
  moreover have "step ?r (demo_run\<lparr>workers := [At_pop]\<rparr>) ?s"
    by (rule step.worker [of 0]) (simp_all add: handle_alt handle_loop_def wq.pop_waits [OF h(2)])
  moreover have "step ?r ?s (server_stop ?s)" by (rule step.stop)
  moreover have "step ?r (server_stop ?s) demo_waiting"
    by (rule step.main [of _ 0]) (simp add: server_run_step_def server_stop_def demo_waiting_def demo_defs)
  ultimately have "(step ?r)\<^sup>*\<^sup>* demo_run demo_waiting" by (meson converse_rtranclp_into_rtranclp rtranclp.rtrancl_refl)
  moreover have "\<forall>t. (step ?r)\<^sup>*\<^sup>* demo_waiting t \<longrightarrow> workers t ! 0 \<in> {At_pop, At_wait}"
    using server_stop_leaves_waiting [of demo_waiting 0 ?r] h(1) by (simp add: demo_waiting_def)
  ultimately show ?thesis by (simp add: demo_waiting_def)
qed

text \<open>Whenever \<open>connect_to\<close> returns -1 although the socket could be created, the descriptor is still open and no
  longer known to the caller.\<close>

lemma connect_to_leaks:
  assumes "connect_to os host prt timeout = (-1, opened)" and "nos_socket os \<ge> 0"
  shows "opened = [nos_socket os]"
  using assms by (auto simp: connect_to_def Let_def split: option.splits if_splits)

end
