(* ===== verification/Programs.thy ===== *)
theory Programs
  imports Cluster SocketServer
begin

text \<open>
  The \<open>main\<close> functions of \<open>hw4/src/main\<close>: the command line, and what is done before \<open>server_run\<close>, where the model of
  the socket server goes on. Arguments are those behind the name of the program. The variables of the C program that are
  not initialised, and what the network returns, are parameters; the text printed is left out.
\<close>

definition atoi_int :: "string \<Rightarrow> int" where
  "atoi_int s = to_int32 (fst (strtol s))"

section \<open>The follower\<close>

text \<open>The two ports; \<open>None\<close> is the jump to \<open>usage\<close>.\<close>

definition follower_args :: "string list \<Rightarrow> (int \<times> int) option" where
  "follower_args args =
     (if length args = 1 then
        (if take 1 (args ! 0) \<noteq> ''-'' then Some (atoi_int (args ! 0), 16200) else None)
      else if length args = 2 then
        (if take 1 (args ! 0) \<noteq> ''-'' then
           (if take 1 (args ! 1) \<noteq> ''-'' then Some (atoi_int (args ! 0), atoi_int (args ! 1)) else None)
         else None)
      else Some (16201, 16200))"

text \<open>How a program ends, or with what it calls \<open>server_run\<close>.\<close>

datatype program = Returns int | Runs_follower kvserver_t server_t int | Runs_leader tpcleader_t server_t int

text \<open>The directory name is printed into 20 bytes. The result of \<open>kvserver_init\<close> is not looked at. Returned are the
  outcome, the bytes sent to the leader and the file system.\<close>

definition follower_main ::
  "net_os \<Rightarrow> int list \<Rightarrow> bytes \<Rightarrow> fsys \<Rightarrow> kvserver_t \<Rightarrow> server_t \<Rightarrow> string list \<Rightarrow> (program \<times> bytes \<times> fsys) option" where
  "follower_main os ws reply fs follower server args = (case follower_args args of
     None \<Rightarrow> Some (Returns 1, [], fs)
   | Some (follower_port, leader_port) \<Rightarrow>
       let server1 = server\<lparr>leader := False, max_threads := 3\<rparr>;
           follower_name = ''follower-port'' @ dec_int follower_port in
       if length follower_name + 1 > 20 then None
       else do {
         (_, follower1, fs1) \<leftarrow> kvserver_init fs follower follower_name 2 ''127.0.0.1'' follower_port;
         (if fst (connect_to os ''127.0.0.1'' leader_port 0) < 0 then Some (Returns 1, [], fs1)
          else do {
            (ret, sent) \<leftarrow> kvserver_register_leader ws follower1 reply;
            (if ret < 0 then Some (Returns 1, sent, fs1)
             else Some (Runs_follower follower1 server1 follower_port, sent, fs1))
          })
       })"

section \<open>The leader\<close>

definition leader_args :: "string list \<Rightarrow> (int \<times> int \<times> int) option" where
  "leader_args args =
     (if length args > 3 then None
      else Some (if length args > 0 then atoi_int (args ! 0) else 16200,
                 if length args > 1 then atoi_int (args ! 1) else 1,
                 if length args > 2 then atoi_int (args ! 2) else 1))"

definition leader_main :: "tpcleader_t \<Rightarrow> server_t \<Rightarrow> string list \<Rightarrow> program" where
  "leader_main tpc server args = (case leader_args args of
     None \<Rightarrow> Returns 1
   | Some (prt, followers, red) \<Rightarrow>
       Runs_leader (snd (tpcleader_init tpc (word_of_int followers) (word_of_int red)))
         (server\<lparr>leader := True, max_threads := 3\<rparr>) prt)"

section \<open>A follower joins\<close>

lemma atoi_int_dec: "n < 2 ^ 31 \<Longrightarrow> atoi_int (dec n) = int n"
  using strtol_dec [of n "[]"] by (simp add: atoi_int_def)

lemma dec_arg_ok: "arg_ok (dec n)"
  by (simp add: arg_ok_def not_digit_not_in_dec is_digit_def)

lemma init_empty_log:
  assumes "log_files fs d []"
  shows "kvserver_init fs old d threads host prt = Some (0, fresh_server old d 0 threads host prt, fs)"
proof -
  have "rebuild_loop fs (tpclog_iterate_begin (kv_log (fresh_server old d 0 threads host prt))) None = Some None"
    using log_stat [OF assms, of 0] by (subst rebuild_loop.simps) (simp add: tpclog_iterate_has_next_def tpclog_iterate_begin_def)
  then show ?thesis by (simp add: kvserver_init_rebuild [OF assms] kvserver_rebuild_state_def)
qed

text \<open>What the leader does with a registration.\<close>

lemma leader_handle_register:
  assumes "leader_ring L ps" "kvrequest_ok req" "kvrequest_wire req = Some bs" "req = \<lparr>req_type = REGISTER, req_key = Some host, req_val = Some val\<rparr>"
  shows "if length ps = unat (follower_capacity L)
    then \<exists>reply. tpcleader_handle all_written net L bs w = Some (Reply_bytes reply, L, w) \<and>
      kvresponse_recieve reply = Some (Some \<lparr>res_type = ERROR, res_body = Some ERRMSG_FOLLOWER_CAPACITY\<rparr>)
    else tpcleader_handle all_written net L bs w = None"
proof -
  have rec: "kvrequest_recieve bs = Some (Some req)" using req_codec.decode_encode [OF assms(2,3)] .
  have full: "follower_count L = follower_capacity L \<longleftrightarrow> length ps = unat (follower_capacity L)"
    using leader_ring_count [OF assms(1)] by (simp add: word_unat_eq_iff)
  have "kvresponse_ok \<lparr>res_type = ERROR, res_body = Some ERRMSG_FOLLOWER_CAPACITY\<rparr>"
    by (simp add: kvresponse_ok_def opt_len_def ERRMSG_FOLLOWER_CAPACITY_def)
  then obtain k reply where "kvresponse_send all_written \<lparr>res_type = ERROR, res_body = Some ERRMSG_FOLLOWER_CAPACITY\<rparr> = Some (k, reply)"
    "kvresponse_recieve reply = Some (Some \<lparr>res_type = ERROR, res_body = Some ERRMSG_FOLLOWER_CAPACITY\<rparr>)"
    using res_codec.encodes by (fastforce simp: kvresponse_wire_def with_body_def)
  with rec full assms(4) show ?thesis
    by (simp add: tpcleader_handle_def tpcleader_register_def follower_address_overflow)
qed

text \<open>C8. What comes of a follower's registration. A follower started with a port of at most five digits, in a
  directory with an empty log, that reaches the leader sends the bytes of a REGISTER request with its address. On these bytes
  the leader's handler has no defined outcome as long as a follower is missing: the array for the address overflows in every
  registration. With all followers there the leader keeps its state and answers with the capacity error; the follower serves
  all the same, as it does on every answer that can be parsed, with its store and log in its directory.\<close>

theorem follower_registration:
  assumes "follower_args args = Some (int n, leader_port)" and "n < 10 ^ 5"
    and "log_files fs (''follower-port'' @ dec n) []" and "fst (connect_to os ''127.0.0.1'' leader_port 0) \<ge> 0"
    and "leader_ring L ps"
    and "serves = Runs_follower (fresh_server follower (''follower-port'' @ dec n) 0 2 ''127.0.0.1'' (int n)) (server\<lparr>leader := False, max_threads := 3\<rparr>) (int n)"
  shows "\<exists>bs. kvrequest_recieve bs = Some (Some \<lparr>req_type = REGISTER, req_key = Some ''127.0.0.1'', req_val = Some (dec n)\<rparr>) \<and>
    (\<forall>reply r. kvresponse_recieve reply = Some r \<longrightarrow> follower_main os all_written reply fs follower server args = Some (serves, bs, fs)) \<and>
    (if length ps = unat (follower_capacity L)
     then \<exists>reply. tpcleader_handle all_written net L bs w = Some (Reply_bytes reply, L, w) \<and>
       kvresponse_recieve reply = Some (Some \<lparr>res_type = ERROR, res_body = Some ERRMSG_FOLLOWER_CAPACITY\<rparr>)
     else tpcleader_handle all_written net L bs w = None)"
proof -
  define req where "req = \<lparr>req_type = REGISTER, req_key = Some ''127.0.0.1'', req_val = Some (dec n)\<rparr>"
  have len: "length (dec n) \<le> 5" using length_dec_le [of n 5] assms(2) by simp
  have ok: "kvrequest_ok req" using len by (simp add: req_def kvrequest_ok_def dec_arg_ok opt_len_def) (simp add: arg_ok_def)
  obtain bs where bs: "kvrequest_wire req = Some bs" using req_codec.encodes [OF ok] by blast
  then obtain k where k: "kvrequest_send all_written req = Some (k, bs)" by (auto simp: kvrequest_wire_def)
  have "follower_main os all_written reply fs follower server args = Some (serves, bs, fs)" if r: "kvresponse_recieve reply = Some r" for reply r
  proof -
    have "\<exists>ret \<ge> 0. kvserver_register_leader all_written (fresh_server follower (''follower-port'' @ dec n) 0 2 ''127.0.0.1'' (int n)) reply = Some (ret, bs)"
      using len k r by (auto simp: kvserver_register_leader_def fresh_server_def dec_int_def req_def split: option.split)
    then show ?thesis
      using len assms(1,4,6) init_empty_log [OF assms(3)] by (auto simp: follower_main_def dec_int_def)
  qed
  with leader_handle_register [OF assms(5) ok bs req_def, of net w] req_codec.decode_encode [OF ok bs] show ?thesis
    unfolding req_def by (intro exI [of _ bs]) blast
qed

definition example_net :: net_os where
  "example_net = \<lparr>nos_socket = 3, nos_gethostbyname = (\<lambda>h. Some h), nos_connect = (\<lambda>s a p t. 0)\<rparr>"

definition example_server :: server_t where
  "example_server = \<lparr>leader = True, listening = False, sockfd = 0, max_threads = 0, port = 0, hostname = [],
     wq = \<lparr>wq_size = 0, wq_head = None, wq_heap = []\<rparr>\<rparr>"

text \<open>A freshly made directory of the follower has an empty log.\<close>

lemma fresh_dir_log:
  "log_files \<lparr>file_list = [], dir_list = [d], denied = (\<lambda>_. False), privileged = False\<rparr> d []"
  by (auto simp: log_files_def log_usable_def fs_dir_def fs_file_def log_path_def)

theorem follower_registration_witness:
  "\<exists>bs reply follower_end. tpcleader_handle all_written follower_net new_leader bs Map.empty = None \<and>
    tpcleader_handle all_written follower_net (snd (tpcleader_init new_leader 0 0)) bs Map.empty =
      Some (Reply_bytes reply, snd (tpcleader_init new_leader 0 0), Map.empty) \<and>
    follower_main example_net all_written reply
      \<lparr>file_list = [], dir_list = [''follower-port'' @ dec 16201], denied = (\<lambda>_. False), privileged = False\<rparr>
      start_server example_server [] = Some follower_end"
proof -
  let ?fs = "\<lparr>file_list = [], dir_list = [''follower-port'' @ dec 16201], denied = (\<lambda>_. False), privileged = False\<rparr>"
  have hyps: "follower_args [] = Some (int 16201, 16200)" "16201 < (10 :: nat) ^ 5" "fst (connect_to example_net ''127.0.0.1'' 16200 0) \<ge> 0"
    by (simp_all add: follower_args_def connect_to_def example_net_def)
  note reg = follower_registration [OF hyps(1,2) fresh_dir_log hyps(3) _ refl, of _ _ start_server example_server follower_net Map.empty]
  have cap: "unat (follower_capacity new_leader) = 2" "follower_capacity (snd (tpcleader_init new_leader 0 0)) = 0"
    by (simp_all add: new_leader_def tpcleader_init_def)
  obtain bs1 bs2 where
    1: "\<forall>reply r. kvresponse_recieve reply = Some r \<longrightarrow> (\<exists>e. follower_main example_net all_written reply ?fs start_server example_server [] = Some (e, bs1, ?fs))"
      "tpcleader_handle all_written follower_net new_leader bs1 Map.empty = None" and
    2: "\<exists>reply r. kvresponse_recieve reply = Some r \<and> tpcleader_handle all_written follower_net (snd (tpcleader_init new_leader 0 0)) bs2 Map.empty =
          Some (Reply_bytes reply, snd (tpcleader_init new_leader 0 0), Map.empty) \<and>
        (\<exists>e. follower_main example_net all_written reply ?fs start_server example_server [] = Some (e, bs2, ?fs))"
    using reg [OF new_leader_ring] reg [OF leader_ring_init [of new_leader 0 0]] cap by fastforce
  then have "bs1 = bs2" by fastforce
  with 1 2 show ?thesis by blast
qed

text \<open>The follower never gives up because of the leader's answer: it serves even when it was refused.\<close>

lemma follower_ignores_refusal:
  assumes "follower_main os ws reply fs follower server args = Some (Returns n, sent, fs')"
    and "follower_args args = Some (fp, lp)"
  shows "fst (connect_to os ''127.0.0.1'' lp 0) < 0"
proof (rule ccontr)
  assume c: "\<not> fst (connect_to os ''127.0.0.1'' lp 0) < 0"
  with assms obtain f1 ret where "kvserver_register_leader ws f1 reply = Some (ret, sent)" "ret < 0"
    by (auto simp: follower_main_def Let_def bind_eq_Some_conv split: if_splits)
  then show False
    unfolding kvserver_register_leader_def by (auto simp: bind_eq_Some_conv split: if_splits option.splits)
qed

text \<open>A port number of seven digits or more overflows the array of the directory name.\<close>

lemma follower_name_overflow:
  "follower_args args = Some (p, lp) \<Longrightarrow> length (dec_int p) \<ge> 7 \<Longrightarrow> follower_main os ws reply fs follower server args = None"
  by (simp add: follower_main_def)

end
