(* ===== verification/Interleaving.thy ===== *)
theory Interleaving
  imports Cluster
begin

text \<open>
  Several handlers of the leader at the same time. The worker threads of \<open>socket_server.c\<close> run \<open>tpcleader_handle_tpc\<close>
  without a common lock, so that between two calls of a follower another thread may run. Here the handler is a
  machine whose step is one call (or the part between the phases); a run follows a schedule, the list of the threads in
  the order they take their steps. Run alone, the machine is the handler. The contract \<open>interleaved\<close> says when
  threads do not disturb each other.
\<close>

section \<open>The handler in steps\<close>

text \<open>Where a handler stands: how many followers are left in the phase, the current one, and the counter of
  refusals.\<close>

datatype tpc_pc = Start | Phase1 nat nat nat | Phase2 nat nat nat | Responded kvresponse_t

definition tpc_thread_step :: "'w network \<Rightarrow> tpcleader_t \<Rightarrow> kvrequest_t \<Rightarrow> tpc_pc \<Rightarrow> 'w \<Rightarrow> (tpc_pc \<times> 'w) option" where
  "tpc_thread_step net leader req pc w = (case pc of
     Start \<Rightarrow>
       if follower_count leader \<noteq> follower_capacity leader
       then Some (Responded \<lparr>res_type = ERROR, res_body = Some ERRMSG_NOT_AT_CAPACITY\<rparr>, w)
       else do {
         key \<leftarrow> req_key req;
         primary \<leftarrow> tpcleader_get_primary leader key;
         cur \<leftarrow> primary;
         Some (Phase1 (replica_count leader) cur 0, w)
       }
   | Phase1 (Suc r_val) cur abortBool \<Rightarrow> do {
       f \<leftarrow> deref (follower_heap leader) cur;
       (reply, w1) \<leftarrow> leader_rpc net w f req;
       next \<leftarrow> tpcleader_get_successor leader cur;
       Some (Phase1 r_val next (if votes_commit reply then abortBool else abortBool + 1), w1)
     }
   | Phase1 0 cur abortBool \<Rightarrow> do {
       key \<leftarrow> req_key req;
       primary \<leftarrow> tpcleader_get_primary leader key;
       cur \<leftarrow> primary;
       Some (Phase2 (replica_count leader) cur abortBool, w)
     }
   | Phase2 (Suc r_val) cur abortBool \<Rightarrow> do {
       f \<leftarrow> deref (follower_heap leader) cur;
       (reply, w1) \<leftarrow> leader_rpc net w f (req\<lparr>req_type := (if abortBool > 0 then ABORT else COMMIT)\<rparr>);
       (if is_ack reply then do {
          next \<leftarrow> tpcleader_get_successor leader cur;
          Some (Phase2 r_val next abortBool, w1)
        } else Some (Phase2 (Suc r_val) cur abortBool, w1))
     }
   | Phase2 0 cur abortBool \<Rightarrow>
       Some (Responded (if abortBool > 0 then \<lparr>res_type = ERROR, res_body = Some ERRMSG_GENERIC_ERROR\<rparr>
                        else \<lparr>res_type = SUCCESS, res_body = None\<rparr>), w)
   | Responded res \<Rightarrow> Some (Responded res, w))"

lemmas thread_step_simps [simp] =
  tpc_thread_step_def [of _ _ _ Start, simplified] tpc_thread_step_def [of _ _ _ "Phase1 (Suc r) p ab" for r p ab, simplified]
  tpc_thread_step_def [of _ _ _ "Phase1 0 p ab" for p ab, simplified] tpc_thread_step_def [of _ _ _ "Phase2 (Suc r) p ab" for r p ab, simplified]
  tpc_thread_step_def [of _ _ _ "Phase2 0 p ab" for p ab, simplified] tpc_thread_step_def [of _ _ _ "Responded res" for res, simplified]

text \<open>A thread alone.\<close>

fun thread_alone :: "'w network \<Rightarrow> tpcleader_t \<Rightarrow> kvrequest_t \<Rightarrow> nat \<Rightarrow> tpc_pc \<times> 'w \<Rightarrow> (tpc_pc \<times> 'w) option" where
  "thread_alone net L req 0 s = Some s"
| "thread_alone net L req (Suc n) s = do { s' \<leftarrow> tpc_thread_step net L req (fst s) (snd s); thread_alone net L req n s' }"

lemma thread_alone_add:
  "thread_alone net L req m s = Some s' \<Longrightarrow> thread_alone net L req n s' = Some s'' \<Longrightarrow> thread_alone net L req (m + n) s = Some s''"
  by (induction m arbitrary: s) (auto simp: bind_eq_Some_conv)

lemma phase1_alone:
  "phase1 net L req r cur ab w = Some (ab', w') \<Longrightarrow>
   \<exists>n cur'. thread_alone net L req n (Phase1 r cur ab, w) = Some (Phase1 0 cur' ab', w')"
proof (induction r arbitrary: cur ab w)
  case 0
  then show ?case by (intro exI [of _ 0] exI [of _ cur]) simp
next
  case (Suc r)
  then obtain f reply w1 nxt where s: "deref (follower_heap L) cur = Some f" "leader_rpc net w f req = Some (reply, w1)"
    "tpcleader_get_successor L cur = Some nxt" "phase1 net L req r nxt (if votes_commit reply then ab else ab + 1) w1 = Some (ab', w')"
    by (auto simp: bind_eq_Some_conv)
  from Suc.IH [OF s(4)] obtain n cur' where
    "thread_alone net L req n (Phase1 r nxt (if votes_commit reply then ab else ab + 1), w1) = Some (Phase1 0 cur' ab', w')" by blast
  with s(1-3) show ?case by (intro exI [of _ "Suc n"] exI [of _ cur']) simp
qed

lemma ack_alone:
  assumes "ack_loop net f (req\<lparr>req_type := (if ab > 0 then ABORT else COMMIT)\<rparr>) w = Some w'"
    and "deref (follower_heap L) cur = Some f" "tpcleader_get_successor L cur = Some nxt"
  shows "\<exists>n. thread_alone net L req n (Phase2 (Suc r) cur ab, w) = Some (Phase2 r nxt ab, w')"
  using assms(1)
proof (induction rule: ack_loop_induct)
  case (ack w reply w1)
  with assms(2,3) show ?case by (intro exI [of _ 1]) simp
next
  case (retry w reply w1 w')
  then obtain n where "thread_alone net L req n (Phase2 (Suc r) cur ab, w1) = Some (Phase2 r nxt ab, w')" by blast
  with retry assms(2) show ?case by (intro exI [of _ "Suc n"]) simp
qed

lemma phase2_alone:
  "phase2 net L (req\<lparr>req_type := (if ab > 0 then ABORT else COMMIT)\<rparr>) r cur w = Some w' \<Longrightarrow>
   \<exists>n cur'. thread_alone net L req n (Phase2 r cur ab, w) = Some (Phase2 0 cur' ab, w')"
proof (induction r arbitrary: cur w)
  case 0
  then show ?case by (intro exI [of _ 0] exI [of _ cur]) simp
next
  case (Suc r)
  then obtain f w1 nxt where s: "deref (follower_heap L) cur = Some f"
    "ack_loop net f (req\<lparr>req_type := (if ab > 0 then ABORT else COMMIT)\<rparr>) w = Some w1" "tpcleader_get_successor L cur = Some nxt"
    "phase2 net L (req\<lparr>req_type := (if ab > 0 then ABORT else COMMIT)\<rparr>) r nxt w1 = Some w'"
    by (auto simp: bind_eq_Some_conv)
  obtain n1 where "thread_alone net L req n1 (Phase2 (Suc r) cur ab, w) = Some (Phase2 r nxt ab, w1)"
    using ack_alone [OF s(2,1,3)] by blast
  moreover obtain n2 cur' where "thread_alone net L req n2 (Phase2 r nxt ab, w1) = Some (Phase2 0 cur' ab, w')"
    using Suc.IH [OF s(4)] by blast
  ultimately show ?case using thread_alone_add by blast
qed

text \<open>The machine is the handler: whenever \<open>tpcleader_handle_tpc\<close> returns, a thread that takes its steps alone
  arrives at the same response, with the same effect on the network.\<close>

theorem thread_alone_handles:
  assumes "tpcleader_handle_tpc net L req w = Some (res, w')"
  shows "\<exists>n. thread_alone net L req n (Start, w) = Some (Responded res, w')"
proof (cases "follower_count L = follower_capacity L")
  case False
  with assms show ?thesis by (intro exI [of _ 1]) (auto simp: tpcleader_handle_tpc_def)
next
  case True
  with assms obtain key cur ab w1 where s: "req_key req = Some key" "tpcleader_get_primary L key = Some (Some cur)"
    "phase1 net L req (replica_count L) cur 0 w = Some (ab, w1)"
    "phase2 net L (req\<lparr>req_type := (if ab > 0 then ABORT else COMMIT)\<rparr>) (replica_count L) cur w1 = Some w'"
    and res: "res = (if ab > 0 then \<lparr>res_type = ERROR, res_body = Some ERRMSG_GENERIC_ERROR\<rparr> else \<lparr>res_type = SUCCESS, res_body = None\<rparr>)"
    by (auto simp: tpcleader_handle_tpc_def bind_eq_Some_conv Let_def)
  obtain n1 c1 where p1: "thread_alone net L req n1 (Phase1 (replica_count L) cur 0, w) = Some (Phase1 0 c1 ab, w1)"
    using phase1_alone [OF s(3)] by blast
  obtain n2 c2 where p2: "thread_alone net L req n2 (Phase2 (replica_count L) cur ab, w1) = Some (Phase2 0 c2 ab, w')"
    using phase2_alone [OF s(4)] by blast
  have "thread_alone net L req 1 (Start, w) = Some (Phase1 (replica_count L) cur 0, w)"
    "thread_alone net L req 1 (Phase1 0 c1 ab, w1) = Some (Phase2 (replica_count L) cur ab, w1)"
    "thread_alone net L req 1 (Phase2 0 c2 ab, w') = Some (Responded res, w')"
    using True s(1,2) res by simp_all
  with p1 p2 show ?thesis by (meson thread_alone_add)
qed

section \<open>Threads that do not disturb each other\<close>

text \<open>A run along a schedule; a number that is no thread is skipped.\<close>

fun run_schedule :: "(nat \<Rightarrow> 't \<Rightarrow> 'w \<Rightarrow> ('t \<times> 'w) option) \<Rightarrow> nat list \<Rightarrow> 't list \<Rightarrow> 'w \<Rightarrow> ('t list \<times> 'w) option" where
  "run_schedule step [] ts w = Some (ts, w)"
| "run_schedule step (i # sch) ts w =
     (if i < length ts then do { (t', w') \<leftarrow> step i (ts ! i) w; run_schedule step sch (ts[i := t']) w' }
      else run_schedule step sch ts w)"

lemma run_schedule_length: "run_schedule step sch ts w = Some (ts', w') \<Longrightarrow> length ts' = length ts"
  by (induction step sch ts w rule: run_schedule.induct) (auto split: if_splits bind_splits)

text \<open>Each thread keeps an invariant of its own, is never stuck and comes closer to its end with each step; no
  step of another one breaks the invariant.\<close>

locale interleaved =
  fixes step :: "nat \<Rightarrow> 't \<Rightarrow> 'w \<Rightarrow> ('t \<times> 'w) option"
    and inv :: "nat \<Rightarrow> 't \<Rightarrow> 'w \<Rightarrow> bool"
    and left :: "'t \<Rightarrow> nat"
  assumes keeps: "inv i t w \<Longrightarrow> \<exists>t' w'. step i t w = Some (t', w') \<and> inv i t' w' \<and> left t' \<le> left t - 1"
    and apart: "inv i t w \<Longrightarrow> inv j u w \<Longrightarrow> i \<noteq> j \<Longrightarrow> step i t w = Some (t', w') \<Longrightarrow> inv j u w'"
begin

lemma run_keeps:
  "\<forall>i < length ts. inv i (ts ! i) w \<Longrightarrow>
   \<exists>ts' w'. run_schedule step sch ts w = Some (ts', w') \<and> length ts' = length ts \<and>
     (\<forall>i < length ts. inv i (ts' ! i) w' \<and> left (ts' ! i) \<le> left (ts ! i) - count_list sch i)"
proof (induction sch arbitrary: ts w)
  case (Cons k sch)
  show ?case
  proof (cases "k < length ts")
    case False
    from Cons.IH [OF Cons.prems] obtain ts' w' where
      "run_schedule step sch ts w = Some (ts', w')" "length ts' = length ts"
      "\<forall>i < length ts. inv i (ts' ! i) w' \<and> left (ts' ! i) \<le> left (ts ! i) - count_list sch i" by blast
    with False show ?thesis by auto
  next
    case True
    then obtain t' w1 where s: "step k (ts ! k) w = Some (t', w1)" "inv k t' w1" "left t' \<le> left (ts ! k) - 1"
      using keeps Cons.prems by blast
    have "inv i (ts[k := t'] ! i) w1" if "i < length ts" for i
    proof (cases "i = k")
      case False
      then show ?thesis using apart [of k "ts ! k" w i "ts ! i"] s(1) Cons.prems that True by simp
    qed (use s(2) that in simp)
    then have "\<forall>i < length (ts[k := t']). inv i (ts[k := t'] ! i) w1" by simp
    from Cons.IH [OF this] obtain ts' w' where r: "run_schedule step sch (ts[k := t']) w1 = Some (ts', w')" "length ts' = length ts"
      "\<forall>i < length ts. inv i (ts' ! i) w' \<and> left (ts' ! i) \<le> left (ts[k := t'] ! i) - count_list sch i" by auto
    have "left (ts' ! i) \<le> left (ts ! i) - count_list (k # sch) i" if "i < length ts" for i
    proof -
      have le: "left (ts' ! i) \<le> left (ts[k := t'] ! i) - count_list sch i" using r(3) that by blast
      show ?thesis
      proof (cases "i = k")
        case True
        have "left (ts' ! i) \<le> left t' - count_list sch i" using le that True by simp
        then show ?thesis using s(3) True by simp
      qed (use le in simp)
    qed
    with r s(1) True show ?thesis by auto
  qed
qed auto

end

section \<open>Transactions on different followers\<close>

definition holds_on :: "cluster \<Rightarrow> address set \<Rightarrow> holdings \<Rightarrow> bool" where
  "holds_on c S A \<longleftrightarrow> (\<forall>a \<in> S. \<exists>s. c a = Some s \<and> server_holds s (fst (A a)) (snd (A a)))"

lemma all_step_take:
  assumes "distinct (map addr R)" "k < length R"
  shows "all_step A req (addr ` set (take (Suc k) R)) =
    (all_step A req (addr ` set (take k R)))(addr (R ! k) := snd (participant_step (A (addr (R ! k))) req))"
    and "addr (R ! k) \<notin> addr ` set (take k R)"
proof -
  have "distinct (map addr (take (Suc k) R))" using assms(1) by (metis distinct_take take_map)
  then show "addr (R ! k) \<notin> addr ` set (take k R)" using assms(2) by (auto simp: take_Suc_conv_app_nth)
  show "all_step A req (addr ` set (take (Suc k) R)) =
    (all_step A req (addr ` set (take k R)))(addr (R ! k) := snd (participant_step (A (addr (R ! k))) req))"
    using assms(2) by (auto simp: all_step_def take_Suc_conv_app_nth)
qed

text \<open>One call in a phase that has reached the first \<open>k\<close> replicas.\<close>

lemma phase_call:
  assumes "distinct (map addr R)" "k < length R" "kvrequest_ok req" "card (dom (fst (A (addr (R ! k))))) + 1 < 2 ^ 31"
    and "holds_on c (addr ` set R) (all_step A req (addr ` set (take k R)))"
  shows "\<exists>c'. leader_rpc follower_net c (R ! k) req = Some (Some (Some (with_body (fst (participant_step (A (addr (R ! k))) req)))), c') \<and>
    holds_on c' (addr ` set R) (all_step A req (addr ` set (take (Suc k) R))) \<and> (\<forall>a. a \<notin> addr ` set R \<longrightarrow> c' a = c a)"
proof -
  let ?a = "addr (R ! k)"
  have a: "?a \<in> addr ` set R" using assms(2) by auto
  have "all_step A req (addr ` set (take k R)) ?a = A ?a" using all_step_take(2) [OF assms(1,2)] by (simp add: all_step_def)
  then obtain s where s: "c ?a = Some s" "server_holds s (fst (A ?a)) (snd (A ?a))" using assms(5) a unfolding holds_on_def by force
  from follower_rpc_at [of c "R ! k", OF s assms(3,4)] obtain s' where
    "leader_rpc follower_net c (R ! k) req = Some (Some (Some (with_body (fst (participant_step (A ?a) req)))), c(?a \<mapsto> s'))"
    "server_holds s' (fst (snd (participant_step (A ?a) req))) (snd (snd (participant_step (A ?a) req)))"
    unfolding prod.collapse by blast
  moreover from this(2) have "holds_on (c(?a \<mapsto> s')) (addr ` set R) (all_step A req (addr ` set (take (Suc k) R)))"
    using assms(5) unfolding all_step_take(1) [OF assms(1,2)] holds_on_def by (cases s') auto
  ultimately show ?thesis using a by (intro exI [of _ "c(?a \<mapsto> s')"]) auto
qed

text \<open>The place on the ring after some steps from the primary.\<close>

definition ring_pos :: "tpcleader_t \<Rightarrow> nat list \<Rightarrow> string \<Rightarrow> nat \<Rightarrow> nat" where
  "ring_pos L ps key i = (let qs = ring_from ps (primary_of L ps key) in qs ! (i mod length qs))"

lemma ring_pos_facts:
  assumes "leader_ring L ps" "ps \<noteq> []" "replica_count L \<le> length ps"
  shows "ring_pos L ps key 0 = primary_of L ps key"
    and "tpcleader_get_successor L (ring_pos L ps key i) = Some (ring_pos L ps key (Suc i))"
    and "i < replica_count L \<Longrightarrow> deref (follower_heap L) (ring_pos L ps key i) = Some (replicas L ps key ! i)"
proof -
  have link: "linked (follower_heap L) ps" using assms(1) by (simp add: leader_ring_def)
  obtain qs where qs: "ring_from ps (primary_of L ps key) = primary_of L ps key # qs"
    "linked (follower_heap L) (primary_of L ps key # qs)" "length (primary_of L ps key # qs) = length ps"
    using ring_from_linked [OF link primary_of_in [OF assms(2), of L key]] by blast
  define rs where "rs = primary_of L ps key # qs"
  have rs: "ring_from ps (primary_of L ps key) = rs" "linked (follower_heap L) rs" "length rs = length ps" "rs \<noteq> []"
    using qs by (simp_all add: rs_def)
  have pos: "ring_pos L ps key j = rs ! (j mod length rs)" for j by (simp add: ring_pos_def rs(1))
  have lt: "rs ! (j mod length rs) < length (follower_heap L)" for j using rs(2,4) by (simp add: linked_def)
  show "ring_pos L ps key 0 = primary_of L ps key" by (simp add: pos rs_def)
  have "map (\<lambda>p. f_next (follower_heap L ! p)) rs = rotate1 rs" using rs(2) by (simp add: linked_def)
  then have "f_next (follower_heap L ! (rs ! (i mod length rs))) = rotate1 rs ! (i mod length rs)"
    using rs(4) by (metis length_greater_0_conv mod_less_divisor nth_map)
  also have "\<dots> = rs ! (Suc i mod length rs)" using rs(4) by (simp add: nth_rotate1 mod_Suc_eq)
  finally show "tpcleader_get_successor L (ring_pos L ps key i) = Some (ring_pos L ps key (Suc i))"
    using lt by (simp add: tpcleader_get_successor_def deref_def pos)
  show "deref (follower_heap L) (ring_pos L ps key i) = Some (replicas L ps key ! i)" if "i < replica_count L"
    using that assms(3) lt [of i] rs(3) by (simp add: deref_def pos replicas_def rs(1))
qed

text \<open>Transactions that run at the same time: none shares a follower with another.\<close>

abbreviation replicas_of :: "tpcleader_t \<Rightarrow> nat list \<Rightarrow> kvrequest_t \<Rightarrow> tpcfollower_t list" where
  "replicas_of L ps req \<equiv> replicas L ps (the (req_key req))"

definition transaction_ok :: "tpcleader_t \<Rightarrow> nat list \<Rightarrow> kvrequest_t \<Rightarrow> holdings \<Rightarrow> bool" where
  "transaction_ok L ps req A \<longleftrightarrow>
     leader_ring L ps \<and> ps \<noteq> [] \<and> length ps = unat (follower_capacity L) \<and> replica_count L \<le> length ps \<and>
     kvrequest_ok req \<and> req_type req \<in> {PUTREQ, DELREQ} \<and> distinct (map addr (replicas_of L ps req)) \<and>
     (\<forall>f \<in> set (replicas_of L ps req). card (dom (fst (A (addr f)))) + 1 < 2 ^ 31)"

definition apart_transactions :: "tpcleader_t \<Rightarrow> nat list \<Rightarrow> kvrequest_t list \<Rightarrow> holdings \<Rightarrow> bool" where
  "apart_transactions L ps reqs A \<longleftrightarrow> (\<forall>req \<in> set reqs. transaction_ok L ps req A) \<and>
     (\<forall>i j. i < length reqs \<longrightarrow> j < length reqs \<longrightarrow> i \<noteq> j \<longrightarrow>
        addr ` set (replicas_of L ps (reqs ! i)) \<inter> addr ` set (replicas_of L ps (reqs ! j)) = {})"

abbreviation decided :: "kvrequest_t \<Rightarrow> nat \<Rightarrow> kvrequest_t" where
  "decided req abortBool \<equiv> req\<lparr>req_type := (if abortBool > 0 then ABORT else COMMIT)\<rparr>"

abbreviation refusals :: "holdings \<Rightarrow> kvrequest_t \<Rightarrow> tpcfollower_t list \<Rightarrow> nat" where
  "refusals A req fs \<equiv> length (filter (\<lambda>f. \<not> vote_at A req f) fs)"

text \<open>What a thread knows, and what its followers hold, at each place.\<close>

definition thread_at :: "tpcleader_t \<Rightarrow> nat list \<Rightarrow> kvrequest_t \<Rightarrow> holdings \<Rightarrow> tpc_pc \<Rightarrow> cluster \<Rightarrow> bool" where
  "thread_at L ps req A pc c =
     (let R = replicas_of L ps req; S = addr ` set R; pos = (\<lambda>r. ring_pos L ps (the (req_key req)) (replica_count L - r)) in
      case pc of
        Start \<Rightarrow> holds_on c S A
      | Phase1 r cur ab \<Rightarrow> r \<le> replica_count L \<and> cur = pos r \<and> ab = refusals A req (take (replica_count L - r) R) \<and>
          holds_on c S (all_step A req (addr ` set (take (replica_count L - r) R)))
      | Phase2 r cur ab \<Rightarrow> r \<le> replica_count L \<and> cur = pos r \<and> ab = refusals A req R \<and>
          holds_on c S (all_step (all_step A req S) (decided req ab) (addr ` set (take (replica_count L - r) R)))
      | Responded res \<Rightarrow>
          res = (if \<forall>f \<in> set R. accepts (fst (A (addr f))) (tpc_op req) then \<lparr>res_type = SUCCESS, res_body = None\<rparr>
                 else \<lparr>res_type = ERROR, res_body = Some ERRMSG_GENERIC_ERROR\<rparr>) \<and>
          holds_on c S (tpc_outcome A S (tpc_op req)))"

definition steps_left :: "nat \<Rightarrow> tpc_pc \<Rightarrow> nat" where
  "steps_left n pc = (case pc of Start \<Rightarrow> 2 * n + 3 | Phase1 r _ _ \<Rightarrow> r + n + 2 | Phase2 r _ _ \<Rightarrow> r + 1 | Responded _ \<Rightarrow> 0)"

text \<open>A step that keeps this, uses up one of the steps left and touches no other follower.\<close>

definition step_fine :: "tpcleader_t \<Rightarrow> nat list \<Rightarrow> kvrequest_t \<Rightarrow> holdings \<Rightarrow> tpc_pc \<Rightarrow> cluster \<Rightarrow> bool" where
  "step_fine L ps req A pc c \<longleftrightarrow> (\<exists>pc' c'. tpc_thread_step follower_net L req pc c = Some (pc', c') \<and> thread_at L ps req A pc' c' \<and>
     steps_left (replica_count L) pc' \<le> steps_left (replica_count L) pc - 1 \<and>
     (\<forall>a. a \<notin> addr ` set (replicas_of L ps req) \<longrightarrow> c' a = c a))"

lemma step_fineI:
  "tpc_thread_step follower_net L req pc c = Some (pc', c') \<Longrightarrow> thread_at L ps req A pc' c' \<Longrightarrow>
   steps_left (replica_count L) pc' \<le> steps_left (replica_count L) pc - 1 \<Longrightarrow>
   \<forall>a. a \<notin> addr ` set (replicas_of L ps req) \<longrightarrow> c' a = c a \<Longrightarrow> step_fine L ps req A pc c"
  unfolding step_fine_def by blast

lemma transaction_facts:
  assumes "transaction_ok L ps req A"
  obtains key where "req_key req = Some key" "length (replicas L ps key) = replica_count L" "follower_count L = follower_capacity L"
    "tpcleader_get_primary L key = Some (Some (ring_pos L ps key 0))"
    "\<And>i. tpcleader_get_successor L (ring_pos L ps key i) = Some (ring_pos L ps key (Suc i))"
    "\<And>i. i < replica_count L \<Longrightarrow> deref (follower_heap L) (ring_pos L ps key i) = Some (replicas L ps key ! i)"
proof -
  have t: "leader_ring L ps" "ps \<noteq> []" "length ps = unat (follower_capacity L)" "replica_count L \<le> length ps"
    "kvrequest_ok req" "req_type req \<in> {PUTREQ, DELREQ}" using assms unfolding transaction_ok_def by blast+
  obtain key where key: "req_key req = Some key" using t(5,6) by (cases "req_key req") (auto simp: kvrequest_ok_def)
  have "follower_count L = follower_capacity L" using leader_ring_count [OF t(1)] t(3) by (simp add: word_unat_eq_iff)
  with key ring_pos_facts [OF t(1,2,4), where key = key] get_primary_ring [OF t(1-3), of key] replicas_length [OF t(1,2,4)]
  show thesis by (intro that [of key]) simp_all
qed

lemma thread_phase1:
  assumes ok: "transaction_ok L ps req A" and at: "thread_at L ps req A (Phase1 r cur ab) c"
  shows "step_fine L ps req A (Phase1 r cur ab) c"
proof -
  obtain key where key: "req_key req = Some key" "length (replicas L ps key) = replica_count L"
    "tpcleader_get_primary L key = Some (Some (ring_pos L ps key 0))"
    and pos: "\<And>i. tpcleader_get_successor L (ring_pos L ps key i) = Some (ring_pos L ps key (Suc i))"
    "\<And>i. i < replica_count L \<Longrightarrow> deref (follower_heap L) (ring_pos L ps key i) = Some (replicas L ps key ! i)"
    using transaction_facts [OF ok] by metis
  let ?n = "replica_count L" and ?R = "replicas L ps key"
  note unf = thread_at_def key(1) option.sel Let_def steps_left_def
  note h = at [unfolded unf, simplified]
  show ?thesis
  proof (cases r)
    case 0
    then show ?thesis using h key
      by (intro step_fineI [where pc' = "Phase2 ?n (ring_pos L ps key 0) ab" and c' = c]) (simp_all add: unf all_step_def [of _ _ "{}"])
  next
    case (Suc q)
    let ?k = "?n - r"
    have k: "?k < ?n" "?n - q = Suc ?k" using h Suc by auto
    obtain c' where c': "leader_rpc follower_net c (?R ! ?k) req =
        Some (Some (Some (with_body (fst (participant_step (A (addr (?R ! ?k))) req)))), c')"
      "holds_on c' (addr ` set ?R) (all_step A req (addr ` set (take (Suc ?k) ?R)))" "\<forall>a. a \<notin> addr ` set ?R \<longrightarrow> c' a = c a"
      using phase_call [of ?R ?k req A c] h ok k key by (auto simp: transaction_ok_def)
    have "take (Suc ?k) ?R = take ?k ?R @ [?R ! ?k]" using k key(2) by (simp add: take_Suc_conv_app_nth)
    then show ?thesis using h c' k Suc pos(1) [of ?k] pos(2) [of ?k]
      by (intro step_fineI [where pc' = "Phase1 q (ring_pos L ps key (Suc ?k)) (refusals A req (take (Suc ?k) ?R))" and c' = c'])
        (simp_all add: unf vote_at_def [symmetric])
  qed
qed

lemma thread_phase2:
  assumes ok: "transaction_ok L ps req A" and at: "thread_at L ps req A (Phase2 r cur ab) c"
  shows "step_fine L ps req A (Phase2 r cur ab) c"
proof -
  obtain key where key: "req_key req = Some key" "length (replicas L ps key) = replica_count L"
    and pos: "\<And>i. tpcleader_get_successor L (ring_pos L ps key i) = Some (ring_pos L ps key (Suc i))"
    "\<And>i. i < replica_count L \<Longrightarrow> deref (follower_heap L) (ring_pos L ps key i) = Some (replicas L ps key ! i)"
    using transaction_facts [OF ok] by metis
  let ?n = "replica_count L" and ?R = "replicas L ps key"
  let ?S = "addr ` set ?R" and ?d = "decided req ab"
  let ?B = "all_step A req ?S"
  note unf = thread_at_def key(1) option.sel Let_def steps_left_def
  note h = at [unfolded unf, simplified]
  have ty: "req_type req \<in> {PUTREQ, DELREQ}" "kvrequest_ok req" "distinct (map addr ?R)"
    "\<forall>f \<in> set ?R. card (dom (fst (A (addr f)))) + 1 < 2 ^ 31" using ok by (auto simp: transaction_ok_def key)
  have ab: "ab > 0 \<longleftrightarrow> \<not> (\<forall>f \<in> set ?R. accepts (fst (A (addr f))) (tpc_op req))"
    using h vote_at_accepts(1) [OF ty(1)] by (auto simp: filter_empty_conv)
  show ?thesis
  proof (cases r)
    case 0
    have "?d = req\<lparr>req_type := (if \<forall>a \<in> ?S. accepts (fst (A a)) (tpc_op req) then COMMIT else ABORT)\<rparr>" using ab by auto
    then have "all_step ?B ?d ?S = tpc_outcome A ?S (tpc_op req)" using tpc_steps [OF ty(1), of A ?S] by (simp only:)
    then show ?thesis using h 0 key(2) ab
      by (intro step_fineI [where pc' = "Responded (if ab > 0 then \<lparr>res_type = ERROR, res_body = Some ERRMSG_GENERIC_ERROR\<rparr>
          else \<lparr>res_type = SUCCESS, res_body = None\<rparr>)" and c' = c]) (auto simp: unf)
  next
    case (Suc q)
    let ?k = "?n - r"
    have k: "?k < ?n" "?n - q = Suc ?k" using h Suc by auto
    have "kvrequest_ok ?d" "card (dom (fst (?B (addr (?R ! ?k))))) + 1 < 2 ^ 31"
      using kvrequest_ok_decision [OF ty(2)] ty(4) k key(2) vote_at_accepts(2) [OF ty(1), of A] by (auto simp: all_step_def)
    then obtain c' where c': "leader_rpc follower_net c (?R ! ?k) ?d =
        Some (Some (Some (with_body (fst (participant_step (?B (addr (?R ! ?k))) ?d)))), c')"
      "holds_on c' ?S (all_step ?B ?d (addr ` set (take (Suc ?k) ?R)))" "\<forall>a. a \<notin> ?S \<longrightarrow> c' a = c a"
      using phase_call [OF ty(3), of ?k ?d ?B c] h k key(2) by auto
    have "is_ack (Some (Some (with_body (fst (participant_step (?B (addr (?R ! ?k))) ?d)))))"
      by (cases "?B (addr (?R ! ?k))") (simp add: participant_step_def is_ack_def with_body_def)
    then show ?thesis using h c' k Suc pos(1) [of ?k] pos(2) [of ?k]
      by (intro step_fineI [where pc' = "Phase2 q (ring_pos L ps key (Suc ?k)) ab" and c' = c']) (simp_all add: unf)
  qed
qed

lemma thread_step:
  assumes "transaction_ok L ps req A" and at: "thread_at L ps req A pc c"
  shows "step_fine L ps req A pc c"
proof -
  obtain key where "req_key req = Some key" "follower_count L = follower_capacity L"
    "tpcleader_get_primary L key = Some (Some (ring_pos L ps key 0))" using transaction_facts [OF assms(1)] by metis
  note start = this
  show ?thesis
  proof (cases pc)
    case Start
    with start at show ?thesis
      by (intro step_fineI [where pc' = "Phase1 (replica_count L) (ring_pos L ps key 0) 0" and c' = c])
        (simp_all add: thread_at_def steps_left_def all_step_def Let_def)
  next
    case (Responded res)
    with at show ?thesis by (intro step_fineI [where pc' = pc and c' = c]) (simp_all add: steps_left_def)
  qed (use assms thread_phase1 thread_phase2 in blast)+
qed

definition tpc_inv :: "tpcleader_t \<Rightarrow> nat list \<Rightarrow> kvrequest_t list \<Rightarrow> holdings \<Rightarrow> nat \<Rightarrow> tpc_pc \<Rightarrow> cluster \<Rightarrow> bool" where
  "tpc_inv L ps reqs A i pc c \<longleftrightarrow> apart_transactions L ps reqs A \<and> i < length reqs \<and> thread_at L ps (reqs ! i) A pc c"

lemma holds_on_frame: "holds_on c S A \<Longrightarrow> \<forall>a \<in> S. c' a = c a \<Longrightarrow> holds_on c' S A"
  by (simp add: holds_on_def)

lemma thread_at_frame:
  "thread_at L ps req A pc c \<Longrightarrow> \<forall>a \<in> addr ` set (replicas_of L ps req). c' a = c a \<Longrightarrow> thread_at L ps req A pc c'"
  by (cases pc) (auto simp: thread_at_def Let_def intro: holds_on_frame)

interpretation tpc: interleaved "\<lambda>i. tpc_thread_step follower_net L (reqs ! i)" "tpc_inv L ps reqs A" "steps_left (replica_count L)"
  for L ps reqs A
proof unfold_locales
  have fine: "step_fine L ps (reqs ! i) A pc c" if "tpc_inv L ps reqs A i pc c" for i pc c
    using that by (intro thread_step) (auto simp: tpc_inv_def apart_transactions_def)
  show "\<exists>t' w'. tpc_thread_step follower_net L (reqs ! i) t w = Some (t', w') \<and> tpc_inv L ps reqs A i t' w' \<and>
      steps_left (replica_count L) t' \<le> steps_left (replica_count L) t - 1" if "tpc_inv L ps reqs A i t w" for i t w
    using fine [OF that] that unfolding step_fine_def tpc_inv_def by blast
  show "tpc_inv L ps reqs A j u w'" if "tpc_inv L ps reqs A i t w" "tpc_inv L ps reqs A j u w" "i \<noteq> j"
    "tpc_thread_step follower_net L (reqs ! i) t w = Some (t', w')" for i t w j u t' w'
  proof -
    have "\<forall>a. a \<notin> addr ` set (replicas_of L ps (reqs ! i)) \<longrightarrow> w' a = w a"
      using fine [OF that(1)] that(4) unfolding step_fine_def by fastforce
    moreover have "addr ` set (replicas_of L ps (reqs ! i)) \<inter> addr ` set (replicas_of L ps (reqs ! j)) = {}"
      using that(1-3) unfolding tpc_inv_def apart_transactions_def by blast
    ultimately show ?thesis using that(2) unfolding tpc_inv_def by (blast intro: thread_at_frame)
  qed
qed

section \<open>Properties\<close>

lemma cluster_holds_on: "cluster_holds c A \<Longrightarrow> S \<subseteq> dom c \<Longrightarrow> holds_on c S A"
  unfolding cluster_holds_def holds_on_def by blast

text \<open>The client has its answer, SUCCESS exactly when all replicas accept the request, and the replicas hold what they do after
  this transaction alone.\<close>

definition transaction_done :: "tpcleader_t \<Rightarrow> nat list \<Rightarrow> kvrequest_t \<Rightarrow> holdings \<Rightarrow> tpc_pc \<Rightarrow> cluster \<Rightarrow> bool" where
  "transaction_done L ps req A pc c =
     (let R = replicas_of L ps req; op = tpc_op req; all_accept = (\<forall>f \<in> set R. accepts (fst (A (addr f))) op) in
      pc = Responded (if all_accept then \<lparr>res_type = SUCCESS, res_body = None\<rparr>
                      else \<lparr>res_type = ERROR, res_body = Some ERRMSG_GENERIC_ERROR\<rparr>) \<and>
      (\<forall>f \<in> set R. \<exists>s. c (addr f) = Some s \<and>
         server_holds s (if all_accept then kv_commit (fst (A (addr f))) (Some op) else fst (A (addr f))) None))"

lemma thread_at_done:
  assumes "thread_at L ps req A (Responded res) c"
  shows "transaction_done L ps req A (Responded res) c"
proof -
  let ?S = "addr ` set (replicas_of L ps req)"
  have "holds_on c ?S (tpc_outcome A ?S (tpc_op req))" using assms by (simp add: thread_at_def Let_def)
  moreover have "tpc_outcome A ?S (tpc_op req) (addr f) =
      (if \<forall>g \<in> set (replicas_of L ps req). accepts (fst (A (addr g))) (tpc_op req) then kv_commit (fst (A (addr f))) (Some (tpc_op req))
       else fst (A (addr f)), None)" if "f \<in> set (replicas_of L ps req)" for f
    using that by (simp add: tpc_outcome_def)
  ultimately show ?thesis using assms unfolding holds_on_def transaction_done_def thread_at_def Let_def by (simp split del: if_split)
qed

text \<open>C5. Transactions on different followers do not disturb each other: when several handlers run at the same time, their
  calls interleaved in any order, no handler is ever stuck, and each that has taken enough steps has answered its
  client, with SUCCESS exactly when all replicas of its key accept the request, and its replicas then hold what
  they would after this transaction alone.\<close>

theorem concurrent_apart_atomic:
  assumes "apart_transactions L ps reqs A" and "cluster_holds c A"
    and "\<forall>req \<in> set reqs. addr ` set (replicas_of L ps req) \<subseteq> dom c"
  shows "\<exists>pcs c'. run_schedule (\<lambda>i. tpc_thread_step follower_net L (reqs ! i)) sch (replicate (length reqs) Start) c = Some (pcs, c') \<and>
    (\<forall>i < length reqs. 2 * replica_count L + 3 \<le> count_list sch i \<longrightarrow> transaction_done L ps (reqs ! i) A (pcs ! i) c')"
proof -
  have "thread_at L ps (reqs ! i) A Start c" if "i < length reqs" for i
    using assms(2,3) that by (simp add: thread_at_def Let_def cluster_holds_on)
  then have "\<forall>i < length (replicate (length reqs) Start). tpc_inv L ps reqs A i (replicate (length reqs) Start ! i) c"
    using assms(1) by (simp add: tpc_inv_def)
  from tpc.run_keeps [OF this, of sch] obtain pcs c' where
    r: "run_schedule (\<lambda>i. tpc_thread_step follower_net L (reqs ! i)) sch (replicate (length reqs) Start) c = Some (pcs, c')"
    "\<forall>i < length reqs. tpc_inv L ps reqs A i (pcs ! i) c' \<and> steps_left (replica_count L) (pcs ! i) \<le> 2 * replica_count L + 3 - count_list sch i"
    by (auto simp: steps_left_def)
  have "transaction_done L ps (reqs ! i) A (pcs ! i) c'" if "i < length reqs" "2 * replica_count L + 3 \<le> count_list sch i" for i
  proof -
    have "thread_at L ps (reqs ! i) A (pcs ! i) c'" "steps_left (replica_count L) (pcs ! i) = 0" using r(2) that by (force simp: tpc_inv_def)+
    then show ?thesis using thread_at_done by (cases "pcs ! i") (auto simp: steps_left_def)
  qed
  with r(1) show ?thesis by blast
qed

text \<open>A PUT to one follower, step by step, with what the follower holds in between.\<close>

lemma put_thread_facts:
  assumes "transaction_ok L ps (put_request k v) A" "replicas L ps k = [f]"
  shows "replica_count L = 1" "follower_count L = follower_capacity L" "tpcleader_get_primary L k = Some (Some (ring_pos L ps k 0))"
    and "deref (follower_heap L) (ring_pos L ps k 0) = Some f" "tpcleader_get_successor L (ring_pos L ps k 0) = Some (ring_pos L ps k 1)"
proof -
  obtain key where key: "req_key (put_request k v) = Some key" "length (replicas L ps key) = replica_count L"
    "follower_count L = follower_capacity L" "tpcleader_get_primary L key = Some (Some (ring_pos L ps key 0))"
    and pos: "\<And>i. tpcleader_get_successor L (ring_pos L ps key i) = Some (ring_pos L ps key (Suc i))"
    "\<And>i. i < replica_count L \<Longrightarrow> deref (follower_heap L) (ring_pos L ps key i) = Some (replicas L ps key ! i)"
    using transaction_facts [OF assms(1)] by metis
  have "key = k" using key(1) by (simp add: put_request_def)
  with key pos(1) [of 0] pos(2) [of 0] assms(2) show "replica_count L = 1" "follower_count L = follower_capacity L"
    "tpcleader_get_primary L k = Some (Some (ring_pos L ps k 0))" "deref (follower_heap L) (ring_pos L ps k 0) = Some f"
    "tpcleader_get_successor L (ring_pos L ps k 0) = Some (ring_pos L ps k 1)" by auto
qed

lemma put_thread_local:
  assumes "transaction_ok L ps (put_request k v) A" "replicas L ps k = [f]"
  shows "tpc_thread_step follower_net L (put_request k v) Start c = Some (Phase1 1 (ring_pos L ps k 0) 0, c)"
    and "tpc_thread_step follower_net L (put_request k v) (Phase1 0 cur 0) c = Some (Phase2 1 (ring_pos L ps k 0) 0, c)"
    and "tpc_thread_step follower_net L (put_request k v) (Phase2 0 cur 0) c = Some (Responded \<lparr>res_type = SUCCESS, res_body = None\<rparr>, c)"
  using put_thread_facts [OF assms] by (simp_all add: put_request_def)

lemma put_thread_calls:
  assumes ok: "transaction_ok L ps (put_request k v) A" "replicas L ps k = [f]"
    and holds: "c (addr f) = Some s" "server_holds s m p" "card (dom m) + 1 < 2 ^ 31"
  shows "\<exists>s'. tpc_thread_step follower_net L (put_request k v) (Phase1 1 (ring_pos L ps k 0) 0) c =
        Some (Phase1 0 (ring_pos L ps k 1) 0, c(addr f \<mapsto> s')) \<and> server_holds s' m (Some (Put k v))"
    and "\<exists>s'. tpc_thread_step follower_net L (put_request k v) (Phase2 1 (ring_pos L ps k 0) 0) c =
        Some (Phase2 0 (ring_pos L ps k 1) 0, c(addr f \<mapsto> s')) \<and> server_holds s' (kv_commit m p) None"
proof -
  note facts = put_thread_facts [OF ok]
  have q: "kvrequest_ok (put_request k v)" "kvrequest_ok (put_request k v\<lparr>req_type := COMMIT\<rparr>)"
    using ok(1) kvrequest_ok_decision [of "put_request k v" COMMIT] by (simp_all add: transaction_ok_def)
  have v: "participant_step (m, p) (put_request k v) = (vote_commit, m, Some (Put k v))"
    "votes_commit (Some (Some (with_body vote_commit)))" "is_ack (Some (Some (with_body \<lparr>res_type = ACK, res_body = None\<rparr>)))"
    by (simp_all add: participant_step_def put_request_def votes_commit_def with_body_def vote_commit_def MSG_COMMIT_def is_ack_def)
  obtain s1 where "leader_rpc follower_net c f (put_request k v) = Some (Some (Some (with_body vote_commit)), c(addr f \<mapsto> s1))"
    "server_holds s1 m (Some (Put k v))" using follower_rpc_at [of c f, OF holds(1,2) q(1) holds(3)] v(1) by auto
  then show "\<exists>s'. tpc_thread_step follower_net L (put_request k v) (Phase1 1 (ring_pos L ps k 0) 0) c =
        Some (Phase1 0 (ring_pos L ps k 1) 0, c(addr f \<mapsto> s')) \<and> server_holds s' m (Some (Put k v))"
    using facts v(2) by (intro exI [of _ s1]) simp
  obtain s2 where "leader_rpc follower_net c f (put_request k v\<lparr>req_type := COMMIT\<rparr>) =
      Some (Some (Some (with_body \<lparr>res_type = ACK, res_body = None\<rparr>)), c(addr f \<mapsto> s2))" "server_holds s2 (kv_commit m p) None"
    using follower_rpc_at [of c f, OF holds(1,2) q(2) holds(3)] decision_step(1) [of m p "put_request k v"] by auto
  then show "\<exists>s'. tpc_thread_step follower_net L (put_request k v) (Phase2 1 (ring_pos L ps k 0) 0) c =
        Some (Phase2 0 (ring_pos L ps k 1) 0, c(addr f \<mapsto> s')) \<and> server_holds s' (kv_commit m p) None"
    using facts v(3) by (intro exI [of _ s2]) simp
qed

text \<open>C28. Transactions on the same follower may lose an update: when two PUTs of different keys with the same single
  replica run at the same time, there is an order of their calls (both polls before both decisions) in which both clients
  are answered SUCCESS, yet the follower has stored only the second value: its slot for the request it has voted for was
  overwritten, and the first COMMIT has committed the other request.\<close>

theorem concurrent_puts_lose:
  assumes "transaction_ok L ps (put_request k1 v1) A" and "transaction_ok L ps (put_request k2 v2) A"
    and "replicas L ps k1 = [f]" and "replicas L ps k2 = [f]" and "k2 \<noteq> []" and "entry_ok k2 v2"
    and "cluster_holds c A" and "addr f \<in> dom c" and "card (dom (fst (A (addr f)))) + 2 < 2 ^ 31"
  shows "\<exists>c' s. run_schedule (\<lambda>i. tpc_thread_step follower_net L ([put_request k1 v1, put_request k2 v2] ! i))
      [0, 0, 1, 1, 0, 0, 0, 1, 1, 1] [Start, Start] c =
        Some ([Responded \<lparr>res_type = SUCCESS, res_body = None\<rparr>, Responded \<lparr>res_type = SUCCESS, res_body = None\<rparr>], c') \<and>
    c' (addr f) = Some s \<and> server_holds s ((fst (A (addr f)))(k2 \<mapsto> v2)) None"
proof -
  define m where "m = fst (A (addr f))"
  note put1 = put_thread_calls [OF assms(1,3)] and put2 = put_thread_calls [OF assms(2,4)]
  obtain s0 where s0: "c (addr f) = Some s0" "server_holds s0 m (snd (A (addr f)))"
    using assms(7,8) unfolding cluster_holds_def m_def by blast
  have r: "card (dom m) + 1 < 2 ^ 31" "card (dom (m(k2 \<mapsto> v2))) + 1 < 2 ^ 31"
    using assms(9) s0(2) by (auto simp: m_def card_insert_if server_holds_def kvstore_holds_def)
  have com: "kv_commit m (Some (Put k2 v2)) = m(k2 \<mapsto> v2)" using assms(5,6) by simp
  obtain s1 where s1: "tpc_thread_step follower_net L (put_request k1 v1) (Phase1 1 (ring_pos L ps k1 0) 0) c =
      Some (Phase1 0 (ring_pos L ps k1 1) 0, c(addr f \<mapsto> s1))"
    "server_holds s1 m (Some (Put k1 v1))" using put1(1) [of c, OF s0 r(1)] by blast
  obtain s2 where s2: "tpc_thread_step follower_net L (put_request k2 v2) (Phase1 1 (ring_pos L ps k2 0) 0) (c(addr f \<mapsto> s1)) =
      Some (Phase1 0 (ring_pos L ps k2 1) 0, c(addr f \<mapsto> s2))" "server_holds s2 m (Some (Put k2 v2))"
    using put2(1) [of "c(addr f \<mapsto> s1)", OF _ s1(2) r(1)] by auto
  obtain s3 where s3: "tpc_thread_step follower_net L (put_request k1 v1) (Phase2 1 (ring_pos L ps k1 0) 0) (c(addr f \<mapsto> s2)) =
      Some (Phase2 0 (ring_pos L ps k1 1) 0, c(addr f \<mapsto> s3))" "server_holds s3 (m(k2 \<mapsto> v2)) None"
    using put1(2) [of "c(addr f \<mapsto> s2)", OF _ s2(2) r(1)] com by auto
  obtain s4 where s4: "tpc_thread_step follower_net L (put_request k2 v2) (Phase2 1 (ring_pos L ps k2 0) 0) (c(addr f \<mapsto> s3)) =
      Some (Phase2 0 (ring_pos L ps k2 1) 0, c(addr f \<mapsto> s4))" "server_holds s4 (m(k2 \<mapsto> v2)) None"
    using put2(2) [of "c(addr f \<mapsto> s3)", OF _ s3(2) r(2)] by auto
  note steps = s1(1) s2(1) s3(1) s4(1) put_thread_local [OF assms(1,3)] put_thread_local [OF assms(2,4)]
  show ?thesis
    by (rule exI [of _ "c(addr f \<mapsto> s4)"], rule exI [of _ s4])
      (use s4(2) in \<open>simp add: m_def steps [unfolded One_nat_def] del: thread_step_simps\<close>)
qed

lemma one_leader_put_ok:
  assumes "k \<noteq> []" "arg_ok k" "arg_ok v" "length k + length v \<le> 100"
  shows "transaction_ok one_leader [0] (put_request k v) (\<lambda>_. (Map.empty, None))"
    and "replicas one_leader [0] k = [follower_heap one_leader ! 0]"
proof -
  have ring: "leader_ring one_leader [0]" by (simp add: leader_ring_def one_leader_def linked_def)
  show r: "replicas one_leader [0] k = [follower_heap one_leader ! 0]"
    by (simp add: replicas_def primary_of_def ring_from_def replica_count_def one_leader_def)
  show "transaction_ok one_leader [0] (put_request k v) (\<lambda>_. (Map.empty, None))"
    using ring r assms by (simp add: transaction_ok_def kvrequest_ok_def put_request_def opt_len_def replica_count_def)
      (simp add: one_leader_def)
qed

abbreviation one_cluster :: cluster where
  "one_cluster \<equiv> [(''h'', 1) \<mapsto> (start_server, empty_fs)]"

lemma one_cluster_holds: "cluster_holds one_cluster (\<lambda>_. (Map.empty, None))" "addr (follower_heap one_leader ! 0) = (''h'', 1)"
  using start_server_holds by (simp_all add: cluster_holds_def addr_def one_leader_def)

theorem concurrent_puts_lose_witness:
  "\<exists>c' s. run_schedule (\<lambda>i. tpc_thread_step follower_net one_leader ([put_request ''a'' ''1'', put_request ''b'' ''2''] ! i))
      [0, 0, 1, 1, 0, 0, 0, 1, 1, 1] [Start, Start] one_cluster =
        Some ([Responded \<lparr>res_type = SUCCESS, res_body = None\<rparr>, Responded \<lparr>res_type = SUCCESS, res_body = None\<rparr>], c') \<and>
    c' (''h'', 1) = Some s \<and> server_holds s [''b'' \<mapsto> ''2''] None"
  using concurrent_puts_lose [of one_leader "[0]" "''a''" "''1''" "\<lambda>_. (Map.empty, None)" "''b''" "''2''" "follower_heap one_leader ! 0" one_cluster]
    one_leader_put_ok [of "''a''" "''1''"] one_leader_put_ok [of "''b''" "''2''"] one_cluster_holds
  by (simp add: arg_ok_def entry_ok_def limits)

text \<open>Two followers with their identifiers on different sides of the hash of the second key, so that the two keys have different
  replicas.\<close>

definition two_leader :: tpcleader_t where
  "two_leader = \<lparr>follower_capacity = 2, follower_count = 2, redundancy = 1, followers_head = Some 0,
     follower_heap = [\<lparr>f_id = 0xb000000000000000, f_host = ''g'', f_port = 1, f_next = 1, f_prev = 1\<rparr>,
                      \<lparr>f_id = 0xf000000000000000, f_host = ''h'', f_port = 1, f_next = 0, f_prev = 0\<rparr>]\<rparr>"

abbreviation two_cluster :: cluster where
  "two_cluster \<equiv> [(''g'', 1) \<mapsto> (start_server, empty_fs), (''h'', 1) \<mapsto> (start_server, empty_fs)]"

lemma two_replicas:
  "replicas two_leader [0, Suc 0] ''a'' = [follower_heap two_leader ! 0]" "replicas two_leader [0, Suc 0] ''b'' = [follower_heap two_leader ! 1]"
  by (simp_all add: replicas_def primary_of_def ring_from_def replica_count_def two_leader_def strhash64_known)

lemma two_leader_apart: "apart_transactions two_leader [0, Suc 0] [put_request ''a'' ''1'', put_request ''b'' ''2''] (\<lambda>_. (Map.empty, None))"
proof -
  have "leader_ring two_leader [0, Suc 0]" by (simp add: leader_ring_def two_leader_def linked_def)
  moreover have "kvrequest_ok (put_request ''a'' ''1'')" "kvrequest_ok (put_request ''b'' ''2'')"
    by (simp_all add: kvrequest_ok_def put_request_def opt_len_def arg_ok_def)
  moreover have "addr (follower_heap two_leader ! 0) \<noteq> addr (follower_heap two_leader ! 1)" "replica_count two_leader = 1" "unat (follower_capacity two_leader) = 2"
    by (simp_all add: addr_def two_leader_def replica_count_def)
  ultimately show ?thesis
    by (auto simp: apart_transactions_def transaction_ok_def put_request_def two_replicas less_Suc_eq)
qed

theorem concurrent_apart_atomic_witness:
  "\<exists>c' s1 s2. run_schedule (\<lambda>i. tpc_thread_step follower_net two_leader ([put_request ''a'' ''1'', put_request ''b'' ''2''] ! i))
      [0, 1, 1, 0, 0, 1, 0, 1, 1, 0] [Start, Start] two_cluster =
        Some ([Responded \<lparr>res_type = SUCCESS, res_body = None\<rparr>, Responded \<lparr>res_type = SUCCESS, res_body = None\<rparr>], c') \<and>
    c' (''g'', 1) = Some s1 \<and> server_holds s1 [''a'' \<mapsto> ''1''] None \<and> c' (''h'', 1) = Some s2 \<and> server_holds s2 [''b'' \<mapsto> ''2''] None"
proof -
  let ?reqs = "[put_request ''a'' ''1'', put_request ''b'' ''2'']"
  have h: "cluster_holds two_cluster (\<lambda>_. (Map.empty, None))" using start_server_holds by (auto simp: cluster_holds_def)
  have a: "addr (follower_heap two_leader ! 0) = (''g'', 1)" "addr (follower_heap two_leader ! 1) = (''h'', 1)" "replica_count two_leader = 1"
    by (simp_all add: addr_def two_leader_def replica_count_def)
  obtain pcs c' where r: "run_schedule (\<lambda>i. tpc_thread_step follower_net two_leader (?reqs ! i)) [0, 1, 1, 0, 0, 1, 0, 1, 1, 0] [Start, Start] two_cluster = Some (pcs, c')"
    and d: "transaction_done two_leader [0, Suc 0] (?reqs ! 0) (\<lambda>_. (Map.empty, None)) (pcs ! 0) c'"
      "transaction_done two_leader [0, Suc 0] (?reqs ! 1) (\<lambda>_. (Map.empty, None)) (pcs ! 1) c'"
    using concurrent_apart_atomic [OF two_leader_apart h, of "[0, 1, 1, 0, 0, 1, 0, 1, 1, 0]"] a
    by (auto simp: put_request_def two_replicas less_Suc_eq all_conj_distrib simp del: run_schedule.simps)
  have "length pcs = 2" using run_schedule_length [OF r] by simp
  then obtain p q where pcs: "pcs = [p, q]" by (metis (no_types) One_nat_def Suc_1 length_0_conv length_Suc_conv)
  have e: "entry_ok ''a'' ''1''" "entry_ok ''b'' ''2''" by (simp_all add: entry_ok_def limits)
  from d a show ?thesis unfolding r pcs
    by (auto simp: transaction_done_def two_replicas put_request_def tpc_op_def e Let_def)
qed

theorem thread_alone_handles_witness:
  "\<exists>n res w'. thread_alone follower_net one_leader (put_request ''k'' ''v'') n (Start, one_cluster) = Some (Responded res, w')"
proof -
  have "kvrequest_ok (put_request ''k'' ''v'')" using one_leader_put_ok(1) [of "''k''" "''v''"] by (simp add: arg_ok_def transaction_ok_def)
  then obtain res c' where "tpcleader_handle_tpc follower_net one_leader (put_request ''k'' ''v'') one_cluster = Some (res, c')"
    using ready_tpc [OF one_leader_ready, of "put_request ''k'' ''v''"] by (auto simp: put_request_def)
  from thread_alone_handles [OF this] show ?thesis by blast
qed

end
