(* ===== verification/WordCount.thy ===== *)
theory WordCount
  imports Prelude
begin

text \<open>
  The word counter of \<open>hw0/wc.c\<close>. Its two loops, over standard input and over a file, are written out
  separately, as in the code; both are proved equal to a reference count. The input is the list of bytes
  that \<open>getchar\<close> or \<open>fgetc\<close> return before \<open>EOF\<close>, and what \<open>fopen\<close> returns is a parameter. The
  counters are \<open>long\<close> and stay in range for every input that can be read.
\<close>

section \<open>The counters\<close>

record wc_state =
  charCount :: int
  lineCount :: int
  wordCount :: int
  noWordBefore :: bool

definition wc_start :: wc_state where
  "wc_start = \<lparr>charCount = 0, lineCount = 0, wordCount = 0, noWordBefore = True\<rparr>"

section \<open>The loops\<close>

text \<open>Standard input.\<close>

definition stdin_step :: "int \<Rightarrow> wc_state \<Rightarrow> wc_state" where
  "stdin_step c s =
     (if c = 12 then s\<lparr>noWordBefore := True, charCount := charCount s + 1\<rparr>
      else if c = 0 then s\<lparr>charCount := charCount s + 1\<rparr>
      else if c = 13 \<or> c = 11 then s\<lparr>noWordBefore := True, charCount := charCount s + 1\<rparr>
      else
        let s1 = (if c = 10 then s\<lparr>noWordBefore := True, lineCount := lineCount s + 1\<rparr>
                  else if c = 32 then s\<lparr>noWordBefore := True\<rparr>
                  else if noWordBefore s = True then s\<lparr>noWordBefore := False, wordCount := wordCount s + 1\<rparr>
                  else s)
        in s1\<lparr>charCount := charCount s1 + 1\<rparr>)"

fun stdin_loop :: "u8 list \<Rightarrow> wc_state \<Rightarrow> wc_state" where
  "stdin_loop [] s = s"
| "stdin_loop (b # bs) s = stdin_loop bs (stdin_step (uint b) s)"

text \<open>A file.\<close>

definition file_step :: "int \<Rightarrow> wc_state \<Rightarrow> wc_state" where
  "file_step c s =
     (if c = 12 then s\<lparr>noWordBefore := True, charCount := charCount s + 1\<rparr>
      else if c = 0 then s\<lparr>charCount := charCount s + 1\<rparr>
      else if c = 13 \<or> c = 11 then s\<lparr>noWordBefore := True, charCount := charCount s + 1\<rparr>
      else
        let s1 = (if c = 10 then s\<lparr>noWordBefore := True, lineCount := lineCount s + 1\<rparr>
                  else if c = 32 then s\<lparr>noWordBefore := True\<rparr>
                  else if noWordBefore s = True then s\<lparr>noWordBefore := False, wordCount := wordCount s + 1\<rparr>
                  else s)
        in s1\<lparr>charCount := charCount s1 + 1\<rparr>)"

fun file_loop :: "u8 list \<Rightarrow> wc_state \<Rightarrow> wc_state" where
  "file_loop [] s = s"
| "file_loop (b # bs) s = file_loop bs (file_step (uint b) s)"

section \<open>The program\<close>

text \<open>\<open>argv[1]\<close> is NULL when the program has no argument, and \<open>fopen\<close> is called even then; a stream that
  could not be opened is read from all the same.\<close>

definition wc_main :: "(string option \<Rightarrow> u8 list option) \<Rightarrow> u8 list \<Rightarrow> string list \<Rightarrow> string option" where
  "wc_main fopen stdin argv = (if argv = [] then None else
     (let buffer = (if 1 < length argv then Some (argv ! 1) else None); fp = fopen buffer in
      case buffer of
        None \<Rightarrow>
          (let s = stdin_loop stdin wc_start in
           Some (dec (nat (lineCount s)) @ '' '' @ dec (nat (wordCount s)) @ '' '' @ dec (nat (charCount s)) @ '' '' @ [lf]))
      | Some name \<Rightarrow> do {
          input \<leftarrow> fp;
          let s = file_loop input wc_start;
          Some (dec (nat (lineCount s)) @ '' '' @ dec (nat (wordCount s)) @ '' '' @ dec (nat (charCount s)) @ '' '' @ name @ '' '' @ [lf])
        }))"

section \<open>Reference\<close>

text \<open>A word is a maximal piece between separators, once the NUL bytes are taken out.\<close>

definition is_separator :: "u8 \<Rightarrow> bool" where
  "is_separator b \<longleftrightarrow> b \<in> {10, 11, 12, 13, 32}"

definition words_of :: "u8 list \<Rightarrow> u8 list list" where
  "words_of bs = filter (\<lambda>w. w \<noteq> []) (split_fields is_separator (filter (\<lambda>b. b \<noteq> 0) bs))"

section \<open>Both loops count the words\<close>

lemma file_step_eq: "file_step = stdin_step"
  by (intro ext) (simp add: file_step_def stdin_step_def)

lemma file_loop_eq: "file_loop bs s = stdin_loop bs s"
  by (induction bs arbitrary: s) (simp_all add: file_step_eq)

lemma uint_byte_eq: "uint (b :: u8) = 12 \<longleftrightarrow> b = 12" "uint b = 0 \<longleftrightarrow> b = 0" "uint b = 13 \<longleftrightarrow> b = 13" "uint b = 11 \<longleftrightarrow> b = 11"
  "uint b = 10 \<longleftrightarrow> b = 10" "uint b = 32 \<longleftrightarrow> b = 32"
  by (simp_all add: word_uint_eq_iff)

lemma stdin_step_cases:
  "stdin_step (uint b) s = s\<lparr>charCount := charCount s + 1, lineCount := lineCount s + (if b = 10 then 1 else 0),
     wordCount := wordCount s + (if b \<noteq> 0 \<and> \<not> is_separator b \<and> noWordBefore s then 1 else 0),
     noWordBefore := (if b = 0 then noWordBefore s else is_separator b)\<rparr>"
  by (auto simp: stdin_step_def uint_byte_eq is_separator_def Let_def)

text \<open>In the middle of a word, the rest of that word is not counted again.\<close>

lemma stdin_loop_counts:
  "let s' = stdin_loop bs s; fs = split_fields is_separator (filter (\<lambda>b. b \<noteq> 0) bs) in
   charCount s' = charCount s + int (length bs) \<and> lineCount s' = lineCount s + int (length (filter (\<lambda>b. b = 10) bs)) \<and>
   wordCount s' = wordCount s + int (length (filter (\<lambda>w. w \<noteq> []) (if noWordBefore s then fs else tl fs)))"
proof (induction bs arbitrary: s)
  case (Cons b bs)
  have "split_fields is_separator (filter (\<lambda>b. b \<noteq> 0) bs) = hd (split_fields is_separator (filter (\<lambda>b. b \<noteq> 0) bs)) # tl (split_fields is_separator (filter (\<lambda>b. b \<noteq> 0) bs))"
    by simp
  with Cons.IH [of "stdin_step (uint b) s"] show ?case
    by (auto simp: Let_def stdin_step_cases split: if_splits)
qed simp

section \<open>Properties\<close>

text \<open>The counts of an input as they are printed.\<close>

definition count_text :: "u8 list \<Rightarrow> string" where
  "count_text bs = dec (length (filter (\<lambda>b. b = 10) bs)) @ '' '' @ dec (length (words_of bs)) @ '' '' @ dec (length bs) @ '' ''"

lemma loops_count:
  "let s = stdin_loop bs wc_start in
   dec (nat (lineCount s)) @ '' '' @ dec (nat (wordCount s)) @ '' '' @ dec (nat (charCount s)) @ '' '' = count_text bs"
  using stdin_loop_counts [of bs wc_start] by (simp add: Let_def wc_start_def count_text_def words_of_def)

text \<open>C40. The word counter against its reference: started without an argument it prints, for standard input, the
  number of line feeds, of words and of bytes, where a word is a maximal piece without a separator (line feed, vertical
  tab, form feed, carriage return, blank), NUL bytes left out; started with a name it prints the same counts of that
  file with the name behind them; a file that cannot be opened makes it read from a NULL stream.\<close>

theorem wc_main_counts:
  "wc_main fopen stdin [prog] = Some (count_text stdin @ [lf]) \<and>
   wc_main fopen stdin (prog # name # rest) = map_option (\<lambda>input. count_text input @ name @ '' '' @ [lf]) (fopen (Some name))"
  using loops_count [of stdin] loops_count [of "the (fopen (Some name))"]
  by (cases "fopen (Some name)") (simp_all add: wc_main_def Let_def file_loop_eq)

text \<open>A tab is taken for a letter: two words with a tab between them count as one.\<close>

lemma wc_tab_joins_words: "length (words_of [97, 9, 98]) = 1 \<and> length (words_of [97, 32, 98]) = 2"
  by (simp add: words_of_def is_separator_def)

end
