(* ===== verification/Shell.thy ===== *)
theory Shell
  imports Prelude
begin

text \<open>
  The shell of \<open>hw1\<close>: reading of lines (\<open>io.c\<close>), tokens (\<open>parse.c\<close>), the built-in commands, the main loop and
  what a forked child does before it is replaced (\<open>shell.c\<close>). A token array has \<open>MAXTOKS\<close> places, unused ones NULL;
  reading behind it has no outcome. The system calls are parameters: \<open>execv\<close> says which paths it runs (it then does
  not return), \<open>open\<close>, \<open>chdir\<close> and \<open>getcwd\<close> give results, and \<open>fork\<close> may fail. The terminal, the signal
  dispositions and the processes that run beside the shell are the subject of \<open>JobControl\<close>.
\<close>

section \<open>Reading lines\<close>

definition MAXLINE :: nat where
  "MAXLINE = 1024"

text \<open>\<open>fgets\<close>: up to a line feed, which is kept, and at most \<open>n - 1\<close> bytes; with what is left.\<close>

definition fgets :: "nat \<Rightarrow> bytes \<Rightarrow> (bytes \<times> bytes) option" where
  "fgets n bs =
     (if bs = [] then None
      else let l = takeWhile (\<lambda>c. c \<noteq> lf) bs;
               k = min (n - 1) (if length l < length bs then length l + 1 else length l)
           in Some (take k bs, drop k bs))"

definition freadln :: "bytes \<Rightarrow> (string \<times> bytes) option" where
  "freadln ifile = map_option (\<lambda>(s, rest). (cstr s, rest)) (fgets MAXLINE ifile)"

section \<open>Tokens\<close>

definition MAXTOKS :: nat where
  "MAXTOKS = 100"

definition TOKseparator :: "char \<Rightarrow> bool" where
  "TOKseparator c \<longleftrightarrow> c \<in> {CHR '' '', lf, CHR '':''}"

text \<open>\<open>strtok\<close>: the next token and what it will go on with.\<close>

definition strtok :: "(char \<Rightarrow> bool) \<Rightarrow> string \<Rightarrow> (string \<times> string) option" where
  "strtok sep s =
     (let t = dropWhile sep s in
      if t = [] then None
      else Some (takeWhile (\<lambda>c. \<not> sep c) t, drop 1 (dropWhile (\<lambda>c. \<not> sep c) t)))"

text \<open>A loop over \<open>strtok\<close> that takes at most \<open>n\<close> tokens.\<close>

fun tok_loop :: "nat \<Rightarrow> (char \<Rightarrow> bool) \<Rightarrow> string \<Rightarrow> string list" where
  "tok_loop 0 sep s = []"
| "tok_loop (Suc n) sep s = (case strtok sep s of None \<Rightarrow> [] | Some (c, rest) \<Rightarrow> c # tok_loop n sep rest)"

type_synonym toks = "string option list"

definition get_toks :: "string \<Rightarrow> toks" where
  "get_toks line = (let ts = tok_loop MAXTOKS TOKseparator line in map Some ts @ replicate (MAXTOKS - length ts) None)"

fun fprint_tok_loop :: "nat \<Rightarrow> toks \<Rightarrow> string" where
  "fprint_tok_loop (Suc n) (Some t # ts) = t @ '' '' @ fprint_tok_loop n ts"
| "fprint_tok_loop n ts = ''''"

definition fprint_tok :: "toks \<Rightarrow> string" where
  "fprint_tok t = fprint_tok_loop MAXTOKS t @ [lf]"

text \<open>Only the first characters are compared, and a string that is found at place 0 cannot be told from one that is
  not found.\<close>

fun direct_loop :: "nat \<Rightarrow> nat \<Rightarrow> toks \<Rightarrow> string \<Rightarrow> nat" where
  "direct_loop i (Suc n) (Some t # ts) R = (if take 1 t = take 1 R then i else direct_loop (i + 1) n ts R)"
| "direct_loop i n ts R = 0"

definition is_direct_tok :: "toks \<Rightarrow> string \<Rightarrow> nat" where
  "is_direct_tok t R = direct_loop 0 (MAXTOKS - 1) t R"

section \<open>Built-in commands\<close>

datatype cmd_fun_t = cmd_help | cmd_quit | cmd_pwd | cmd_cd

record fun_desc_t =
  desc_fun :: cmd_fun_t
  desc_cmd :: string
  desc_doc :: string

definition cmd_table :: "fun_desc_t list" where
  "cmd_table =
     [\<lparr>desc_fun = cmd_help, desc_cmd = ''?'', desc_doc = ''show this help menu''\<rparr>,
      \<lparr>desc_fun = cmd_quit, desc_cmd = ''quit'', desc_doc = ''quit the command shell''\<rparr>,
      \<lparr>desc_fun = cmd_pwd, desc_cmd = ''pwd'', desc_doc = ''prints current working directory''\<rparr>,
      \<lparr>desc_fun = cmd_cd, desc_cmd = ''cd'', desc_doc = ''change to a new working directory''\<rparr>]"

fun lookup_loop :: "int \<Rightarrow> fun_desc_t list \<Rightarrow> string option \<Rightarrow> int" where
  "lookup_loop i [] cmd = -1"
| "lookup_loop i (d # ds) cmd = (if cmd = Some (desc_cmd d) then i else lookup_loop (i + 1) ds cmd)"

definition lookup_cmd :: "string option \<Rightarrow> int" where
  "lookup_cmd cmd = lookup_loop 0 cmd_table cmd"

text \<open>The system as the shell sees it; what depends on the working directory takes it as its first argument.\<close>

record shell_os =
  os_getcwd :: "string \<Rightarrow> nat \<Rightarrow> string option"
  os_chdir :: "string \<Rightarrow> string option \<Rightarrow> string option"
  os_open :: "string \<Rightarrow> string \<Rightarrow> int"
  os_execv :: "string \<Rightarrow> string \<Rightarrow> string list \<Rightarrow> bool"
  os_PATH :: "string option"

text \<open>A forked child either becomes a program or leaves \<open>shell\<close> with a result.\<close>

datatype child_end = Replaced string "string list" | Returned_from_shell int

type_synonym child = "((int \<times> int) option \<times> child_end) option"

datatype event = Out string | Err string | Forked child | Fork_failed | Waited | Exit int

definition run_pwd :: "shell_os \<Rightarrow> string \<Rightarrow> event list" where
  "run_pwd os cwd = (case os_getcwd os cwd 1024 of Some d \<Rightarrow> [Out (d @ [lf])] | None \<Rightarrow> [])"

text \<open>Without an argument the message prints a NULL string, which is undefined.\<close>

definition run_cd :: "shell_os \<Rightarrow> string \<Rightarrow> string option \<Rightarrow> (event list \<times> string) option" where
  "run_cd os cwd arg = (case os_chdir os cwd arg of
     None \<Rightarrow> map_option (\<lambda>a. ([Err (''cd: '' @ a @ '': No such file or directory'' @ [lf])], cwd)) arg
   | Some cwd' \<Rightarrow> Some ([], cwd'))"

definition run_help :: "event list" where
  "run_help = map (\<lambda>d. Out (desc_cmd d @ '' - '' @ desc_doc d @ [lf])) cmd_table"

definition run_builtin :: "shell_os \<Rightarrow> string \<Rightarrow> cmd_fun_t \<Rightarrow> string option \<Rightarrow> (event list \<times> string) option" where
  "run_builtin os cwd f arg = (case f of
     cmd_help \<Rightarrow> Some (run_help, cwd)
   | cmd_quit \<Rightarrow> Some ([Exit 0], cwd)
   | cmd_pwd \<Rightarrow> Some (run_pwd os cwd, cwd)
   | cmd_cd \<Rightarrow> run_cd os cwd arg)"

section \<open>Programs\<close>

text \<open>The loop that counts the tokens reads behind an array without a NULL.\<close>

fun token_len :: "toks \<Rightarrow> nat option" where
  "token_len [] = None"
| "token_len (None # ts) = Some 0"
| "token_len (Some t # ts) = map_option Suc (token_len ts)"

definition in_background :: "toks \<Rightarrow> nat \<Rightarrow> bool" where
  "in_background tokens tokenLen \<longleftrightarrow> tokenLen \<ge> 2 \<and> tokens ! (tokenLen - 1) = Some ''&''"

text \<open>The redirection: the arguments of \<open>dup2\<close>, if any, and the tokens that are left.\<close>

definition redirect :: "shell_os \<Rightarrow> string \<Rightarrow> toks \<Rightarrow> nat \<Rightarrow> (int \<times> int) option \<times> toks" where
  "redirect os cwd tokens tokenLen =
     (if tokenLen > 2 then
        (if tokens ! (tokenLen - 2) = Some ''>''
         then (Some (os_open os cwd (the (tokens ! (tokenLen - 1))), 1), tokens[tokenLen - 2 := None])
         else if tokens ! (tokenLen - 2) = Some ''<''
         then (Some (os_open os cwd (the (tokens ! (tokenLen - 1))), 0), tokens[tokenLen - 2 := None])
         else (None, tokens))
      else (None, tokens))"

definition argv_of :: "toks \<Rightarrow> string list" where
  "argv_of tokens = map the (takeWhile (\<lambda>t. t \<noteq> None) tokens)"

text \<open>The search along \<open>PATH\<close>; the path is put together in an array of 1024 bytes, and a line without a token makes
  \<open>strcat\<close> read from NULL.\<close>

fun path_loop :: "shell_os \<Rightarrow> string \<Rightarrow> string list \<Rightarrow> string option \<Rightarrow> string list \<Rightarrow> child_end option" where
  "path_loop os cwd [] tok0 argv = Some (Returned_from_shell 1)"
| "path_loop os cwd (d # ds) tok0 argv = do {
     t \<leftarrow> tok0;
     (if length d + 1 + length t + 1 \<le> 1024 then
        (let path = d @ ''/'' @ t in
         if os_execv os cwd path argv then Some (Replaced path argv) else path_loop os cwd ds tok0 argv)
      else None)
   }"

text \<open>The directories of \<open>PATH\<close>; a string has no more tokens than characters.\<close>

definition path_dirs :: "shell_os \<Rightarrow> string list" where
  "path_dirs os = (case os_PATH os of None \<Rightarrow> [] | Some p \<Rightarrow> tok_loop (length p) (\<lambda>c. c = CHR '':'') p)"

definition shell_child :: "shell_os \<Rightarrow> string \<Rightarrow> toks \<Rightarrow> nat \<Rightarrow> child" where
  "shell_child os cwd tokens tokenLen =
     (let inBackground = in_background tokens tokenLen;
          (dup, tokens1) = redirect os cwd tokens tokenLen;
          tokens2 = (if inBackground then tokens1[tokenLen - 1 := None] else tokens1);
          argv = argv_of tokens2
      in case tokens2 ! 0 of
           Some t \<Rightarrow>
             if os_execv os cwd t argv then Some (dup, Replaced t argv)
             else map_option (Pair dup) (path_loop os cwd (path_dirs os) (Some t) argv)
         | None \<Rightarrow> map_option (Pair dup) (path_loop os cwd (path_dirs os) None argv))"

text \<open>One line: what happens, and the working directory behind it. \<open>forked\<close> says whether \<open>fork\<close> succeeds; when it
  returns \<open>-1\<close> there is no child, and the shell goes on as the parent.\<close>

definition shell_line :: "shell_os \<Rightarrow> bool \<Rightarrow> string \<Rightarrow> string \<Rightarrow> (event list \<times> string) option" where
  "shell_line os forked cwd line =
     (let tokens = get_toks line; fundex = lookup_cmd (tokens ! 0) in
      if fundex \<ge> 0 then run_builtin os cwd (desc_fun (cmd_table ! nat fundex)) (tokens ! 1)
      else do {
        tokenLen \<leftarrow> token_len tokens;
        Some ((if forked then Forked (shell_child os cwd tokens tokenLen) else Fork_failed) # (if in_background tokens tokenLen then [] else [Waited]), cwd)
      })"

lemma fgets_shorter: "fgets n bs = Some (l, rest) \<Longrightarrow> 1 < n \<Longrightarrow> length rest < length bs"
  using length_takeWhile_le [of "\<lambda>c. c \<noteq> lf" bs]
  by (cases bs) (auto simp: fgets_def Let_def split: if_splits)

text \<open>The loop; \<open>quit\<close> ends the process. \<open>forks n\<close> says whether the \<open>fork\<close> of line \<open>n\<close> succeeds.\<close>

function shell_loop :: "shell_os \<Rightarrow> (nat \<Rightarrow> bool) \<Rightarrow> bool \<Rightarrow> nat \<Rightarrow> string \<Rightarrow> bytes \<Rightarrow> event list option" where
  "shell_loop os forks interactive line_num cwd input = (case freadln input of
     None \<Rightarrow> Some [Exit 0]
   | Some (line, rest) \<Rightarrow> do {
       (ev, cwd') \<leftarrow> shell_line os (forks line_num) cwd line;
       (if Exit 0 \<in> set ev then Some ev
        else do {
          evs \<leftarrow> shell_loop os forks interactive (line_num + 1) cwd' rest;
          Some (ev @ (if interactive then [Out (dec (line_num + 1) @ '': '')] else []) @ evs)
        })
     })"
  by pat_completeness auto

termination
  by (relation "measure (\<lambda>(_, _, _, _, _, input). length input)")
    (auto simp: freadln_def MAXLINE_def dest: fgets_shorter)

definition shell :: "shell_os \<Rightarrow> (nat \<Rightarrow> bool) \<Rightarrow> bool \<Rightarrow> string \<Rightarrow> bytes \<Rightarrow> event list option" where
  "shell os forks interactive cwd input =
     map_option (\<lambda>evs. (if interactive then [Out ''0: ''] else []) @ evs) (shell_loop os forks interactive 0 cwd input)"

section \<open>Tokens are fields\<close>

lemma strtok_None: "strtok sep s = None \<Longrightarrow> filter (\<lambda>w. w \<noteq> []) (split_fields sep s) = []"
  by (induction s) (auto simp: strtok_def Let_def split: if_splits)

lemma strtok_Some:
  "strtok sep s = Some (c, rest) \<Longrightarrow> filter (\<lambda>w. w \<noteq> []) (split_fields sep s) = c # filter (\<lambda>w. w \<noteq> []) (split_fields sep rest) \<and>
     c \<noteq> [] \<and> list_all (\<lambda>x. \<not> sep x) c \<and> length rest < length s"
proof (induction s)
  case (Cons x s)
  show ?case
  proof (cases "sep x")
    case True
    with Cons have "strtok sep s = Some (c, rest)" by (simp add: strtok_def)
    with Cons.IH True show ?thesis by simp
  next
    case False
    define u where "u = dropWhile (\<lambda>c. \<not> sep c) (x # s)"
    have c: "c = takeWhile (\<lambda>c. \<not> sep c) (x # s)" "rest = drop 1 u" using Cons.prems False by (simp_all add: strtok_def u_def)
    have ns: "list_all (\<lambda>x. \<not> sep x) c" "c \<noteq> []" using False by (auto simp: c(1) list_all_iff dest: set_takeWhileD)
    have split: "x # s = c @ u" by (simp add: c(1) u_def)
    have "length u \<le> length s" using False by (simp add: u_def length_dropWhile_le)
    moreover have "filter (\<lambda>w. w \<noteq> []) (split_fields sep (x # s)) = c # filter (\<lambda>w. w \<noteq> []) (split_fields sep rest)"
    proof (cases u)
      case Nil
      then show ?thesis using ns unfolding split by (simp add: fields_no_sep c(2))
    next
      case (Cons y v)
      then have "sep y" using hd_dropWhile [of "\<lambda>c. \<not> sep c" "x # s"] by (simp add: u_def)
      with Cons ns show ?thesis unfolding split by (simp add: fields_append_sep c(2))
    qed
    ultimately show ?thesis using ns c(2) by auto
  qed
qed (simp add: strtok_def)

lemma tok_loop_fields: "tok_loop n sep s = take n (filter (\<lambda>w. w \<noteq> []) (split_fields sep s))"
  by (induction n arbitrary: s) (auto simp: strtok_None dest: strtok_Some split: option.split)

lemma fields_count: "length (filter (\<lambda>w. w \<noteq> []) (split_fields sep (s :: string))) \<le> length s"
proof (induction s rule: length_induct)
  case (1 s)
  show ?case
  proof (cases "strtok sep s")
    case (Some p)
    then obtain c rest where "strtok sep s = Some (c, rest)" by (cases p) auto
    from strtok_Some [OF this] 1 show ?thesis by fastforce
  qed (simp add: strtok_None)
qed

lemma path_dirs_fields: "os_PATH os = Some p \<Longrightarrow> path_dirs os = filter (\<lambda>w. w \<noteq> []) (split_fields (\<lambda>c. c = CHR '':'') p)"
  using fields_count [of "\<lambda>c. c = CHR '':''" p] by (simp add: path_dirs_def tok_loop_fields)

abbreviation words_of :: "string \<Rightarrow> string list" where
  "words_of line \<equiv> filter (\<lambda>w. w \<noteq> []) (split_fields TOKseparator line)"

text \<open>\<open>get_toks\<close> gives an array of exactly \<open>MAXTOKS\<close> places that holds the first \<open>MAXTOKS\<close> non-empty pieces of
  the line between separators, in order, and NULL behind them.\<close>

theorem get_toks_fields:
  "get_toks line = map Some (take MAXTOKS (words_of line)) @ replicate (MAXTOKS - length (words_of line)) None \<and>
   length (get_toks line) = MAXTOKS"
  by (auto simp: get_toks_def tok_loop_fields Let_def min_def)

section \<open>What a line runs\<close>

lemma get_toks_short:
  "length (words_of line) < MAXTOKS \<Longrightarrow>
     \<exists>n. get_toks line = map Some (words_of line) @ None # replicate n None"
  by (rule exI [of _ "MAXTOKS - length (words_of line) - 1"])
    (auto simp: get_toks_def tok_loop_fields Let_def replicate_Suc [symmetric] simp del: replicate_Suc)

lemma token_len_Some: "token_len (map Some ws @ None # ts) = Some (length ws)"
  by (induction ws) auto

lemma token_len_full: "token_len (map Some ws) = None"
  by (induction ws) auto

lemma argv_of_Some: "argv_of (map Some ws @ None # ts) = ws"
  by (induction ws) (auto simp: argv_of_def)

lemma toks_cut:
  "i \<le> length ws \<Longrightarrow> (map Some ws @ None # ts)[i := None] = map Some (take i ws) @ None # drop (Suc i) (map Some ws @ None # ts)"
  by (subst upd_conv_take_nth_drop) (auto simp: take_map)

lemma last_word: "ws \<noteq> [] \<Longrightarrow> (map Some ws @ ts) ! (length ws - Suc 0) = Some (last ws)"
  by (simp add: nth_append last_conv_nth)

lemma path_loop_find:
  "list_all (\<lambda>d. length d + length t + 2 \<le> 1024) ds \<Longrightarrow>
   path_loop os cwd ds (Some t) argv = Some (case find (\<lambda>p. os_execv os cwd p argv) (map (\<lambda>d. d @ ''/'' @ t) ds) of
     Some p \<Rightarrow> Replaced p argv | None \<Rightarrow> Returned_from_shell 1)"
  by (induction ds) (auto simp: Let_def)

text \<open>The meaning of a line of words: whether it is run in the background, what standard stream is redirected from
  which file, and the arguments of the program.\<close>

definition runs_background :: "string list \<Rightarrow> bool" where
  "runs_background ws \<longleftrightarrow> length ws \<ge> 2 \<and> last ws = ''&''"

definition runs_redirected :: "string list \<Rightarrow> nat option" where
  "runs_redirected ws =
     (if length ws > 2 \<and> ws ! (length ws - 2) = ''>'' then Some 1
      else if length ws > 2 \<and> ws ! (length ws - 2) = ''<'' then Some 0 else None)"

definition runs_argv :: "string list \<Rightarrow> string list" where
  "runs_argv ws = (if runs_redirected ws \<noteq> None then take (length ws - 2) ws
                   else if runs_background ws then butlast ws else ws)"

definition runs_path :: "shell_os \<Rightarrow> string \<Rightarrow> string \<Rightarrow> string list \<Rightarrow> child_end" where
  "runs_path os cwd t argv =
     (case find (\<lambda>p. os_execv os cwd p argv) (t # map (\<lambda>d. d @ ''/'' @ t) (path_dirs os)) of
        Some p \<Rightarrow> Replaced p argv | None \<Rightarrow> Returned_from_shell 1)"

lemma in_background_words: "in_background (map Some ws @ None # ts) (length ws) = runs_background ws"
  by (cases "ws = []") (auto simp: in_background_def runs_background_def last_word)

lemma redirect_words:
  "redirect os cwd (map Some ws @ None # ts) (length ws) =
     (map_option (\<lambda>n. (os_open os cwd (last ws), int n)) (runs_redirected ws),
      if runs_redirected ws \<noteq> None then (map Some ws @ None # ts)[length ws - 2 := None] else map Some ws @ None # ts)"
proof (cases "length ws > 2")
  case True
  then have "(map Some ws @ None # ts) ! (length ws - 2) = Some (ws ! (length ws - 2))" "ws \<noteq> []"
    by (auto simp: nth_append)
  with True show ?thesis by (auto simp: redirect_def runs_redirected_def last_word)
qed (auto simp: redirect_def runs_redirected_def)

lemma argv_words:
  "argv_of (let ts1 = snd (redirect os cwd (map Some ws @ None # ts) (length ws))
            in if runs_background ws then ts1[length ws - 1 := None] else ts1) = runs_argv ws"
proof (cases "runs_redirected ws")
  case None
  then show ?thesis
    by (auto simp: redirect_words toks_cut argv_of_Some runs_argv_def butlast_conv_take)
next
  case (Some n)
  then have "length ws > 2" by (auto simp: runs_redirected_def split: if_splits)
  then have "(map Some (take (length ws - 2) ws) @ None # us)[length ws - 1 := None] =
      map Some (take (length ws - 2) ws) @ None # us[0 := None]" for us
    by (auto simp: list_update_append min_def)
  with Some show ?thesis by (auto simp: redirect_words toks_cut argv_of_Some runs_argv_def Let_def simp del: drop_append)
qed

lemma argv_of_hd: "ts \<noteq> [] \<Longrightarrow> argv_of ts = t # us \<Longrightarrow> ts ! 0 = Some t"
  by (cases ts) (auto simp: argv_of_def split: if_splits)

lemma runs_argv_hd: "ws = t # us \<Longrightarrow> \<exists>vs. runs_argv ws = t # vs"
  by (auto simp: runs_argv_def runs_redirected_def runs_background_def take_Cons' split: if_splits)

lemma shell_child_words:
  assumes "ws = t # us" "list_all (\<lambda>d. length d + length t + 2 \<le> 1024) (path_dirs os)"
  shows "shell_child os cwd (map Some ws @ None # ts) (length ws) =
    Some (map_option (\<lambda>n. (os_open os cwd (last ws), int n)) (runs_redirected ws), runs_path os cwd t (runs_argv ws))"
proof -
  define ts2 where "ts2 = (let ts1 = snd (redirect os cwd (map Some ws @ None # ts) (length ws))
                           in if runs_background ws then ts1[length ws - 1 := None] else ts1)"
  have argv: "argv_of ts2 = runs_argv ws" unfolding ts2_def by (rule argv_words)
  moreover have "ts2 \<noteq> []" by (auto simp: ts2_def redirect_words Let_def)
  ultimately have "ts2 ! 0 = Some t" using runs_argv_hd [OF assms(1)] argv_of_hd by metis
  then show ?thesis
    unfolding shell_child_def in_background_words Let_def case_prod_unfold ts2_def [unfolded Let_def, symmetric] argv
    by (simp add: redirect_words path_loop_find [OF assms(2)] runs_path_def)
qed

text \<open>C38. A line whose first word is not a built-in command, of fewer than \<open>MAXTOKS\<close> words, runs exactly one child when \<open>fork\<close> succeeds. The
  child becomes the first of the word itself and the word behind each directory of \<open>PATH\<close>, in order, that \<open>execv\<close>
  can run, or leaves the shell with 1 when there is none; its arguments are the words up to a redirection or a
  closing ampersand, and standard output or input is the file named last. The shell waits exactly when the last word
  is not an ampersand, and keeps its working directory. When \<open>fork\<close> fails no child runs and the shell does the same.\<close>

theorem shell_line_runs:
  assumes "words_of line = t # us" "length (words_of line) < MAXTOKS" "lookup_cmd (Some t) = -1"
    and "list_all (\<lambda>d. length d + length t + 2 \<le> 1024) (path_dirs os)"
  shows "shell_line os forked cwd line =
    Some ((if forked
           then Forked (Some (map_option (\<lambda>n. (os_open os cwd (last (words_of line)), int n)) (runs_redirected (words_of line)),
                              runs_path os cwd t (runs_argv (words_of line))))
           else Fork_failed)
          # (if runs_background (words_of line) then [] else [Waited]), cwd)"
proof -
  obtain n where gt: "get_toks line = map Some (words_of line) @ None # replicate n None"
    using get_toks_short [OF assms(2)] by blast
  have "get_toks line ! 0 = Some t" by (simp add: gt assms(1))
  then show ?thesis
    using assms(3) shell_child_words [OF assms(1,4)] by (simp add: shell_line_def gt token_len_Some in_background_words)
qed

definition example_os :: shell_os where
  "example_os = \<lparr>os_getcwd = \<lambda>cwd n. Some cwd, os_chdir = \<lambda>cwd d. d, os_open = \<lambda>cwd f. 5,
     os_execv = \<lambda>cwd p argv. p = ''/bin/ls'', os_PATH = Some ''/usr:/bin''\<rparr>"

lemma shell_line_runs_witness:
  "shell_line example_os True ''/'' (''ls -l > out'' @ [lf]) =
    Some ([Forked (Some (Some (5, 1), Replaced ''/bin/ls'' [''ls'', ''-l''])), Waited], ''/'')"
proof -
  have w: "words_of (''ls -l > out'' @ [lf]) = [''ls'', ''-l'', ''>'', ''out'']" by (simp add: TOKseparator_def)
  have d: "path_dirs example_os = [''/usr'', ''/bin'']"
    by (simp add: path_dirs_fields [of _ "''/usr:/bin''"] example_os_def)
  show ?thesis
    using shell_line_runs [of "''ls -l > out'' @ [lf]" "''ls''" "[''-l'', ''>'', ''out'']" example_os True "''/''"]
    unfolding w d runs_path_def
    by (simp add: MAXTOKS_def lookup_cmd_def cmd_table_def runs_redirected_def runs_argv_def runs_background_def
        runs_path_def d) (simp add: example_os_def)
qed

text \<open>A redirection in front of an ampersand is not seen: the program is given it as arguments.\<close>

lemma shell_background_not_redirected:
  "runs_redirected [c, ''>'', f, ''&''] = (if f = ''>'' then Some 1 else if f = ''<'' then Some 0 else None) \<and>
   (f \<noteq> ''>'' \<and> f \<noteq> ''<'' \<longrightarrow> runs_argv [c, ''>'', f, ''&''] = [c, ''>'', f])"
  by (simp add: runs_redirected_def runs_argv_def runs_background_def)

text \<open>A line of \<open>MAXTOKS\<close> words or more makes the shell read behind the token array.\<close>

lemma shell_line_many_words:
  assumes "length (words_of line) \<ge> MAXTOKS" "lookup_cmd (Some (hd (words_of line))) = -1"
  shows "shell_line os forked cwd line = None"
proof -
  have gt: "get_toks line = map Some (take MAXTOKS (words_of line))"
    using assms(1) by (simp add: get_toks_def tok_loop_fields Let_def)
  moreover have "words_of line \<noteq> []" using assms(1) by (auto simp: MAXTOKS_def)
  ultimately have "get_toks line ! 0 = Some (hd (words_of line))" by (simp add: MAXTOKS_def hd_conv_nth)
  then show ?thesis using assms(2) by (simp add: shell_line_def gt token_len_full)
qed

text \<open>An empty line forks a child that reads from NULL as soon as \<open>PATH\<close> has a directory.\<close>

lemma shell_empty_line_crashes:
  assumes "words_of line = []" "path_dirs os \<noteq> []"
  shows "shell_line os True cwd line = Some ([Forked None, Waited], cwd)"
proof -
  obtain n where gt: "get_toks line = None # replicate n None"
    using get_toks_short [of line] assms(1) by (auto simp: MAXTOKS_def)
  obtain d ds where "path_dirs os = d # ds" using assms(2) by (cases "path_dirs os") auto
  then show ?thesis
    by (simp add: shell_line_def gt lookup_cmd_def cmd_table_def shell_child_def redirect_def in_background_def)
qed

text \<open>\<open>cd\<close> without a directory has no defined outcome when \<open>chdir\<close> refuses NULL.\<close>

lemma shell_cd_alone:
  assumes "words_of line = [''cd'']" "os_chdir os cwd None = None"
  shows "shell_line os forked cwd line = None"
proof -
  obtain n where gt: "get_toks line = Some ''cd'' # None # replicate n None"
    using get_toks_short [of line] assms(1) by (auto simp: MAXTOKS_def)
  then show ?thesis using assms(2)
    by (simp add: shell_line_def lookup_cmd_def cmd_table_def run_builtin_def run_cd_def)
qed

end
