(* ===== verification/JobControl.thy ===== *)
theory JobControl
  imports Shell
begin

text \<open>
  Signals and the terminal of the shell of \<open>hw1\<close>: \<open>init_shell\<close>, what the forked child and the shell do around a program
  (\<open>shell.c\<close>), and \<open>process.c\<close>. The state has the dispositions of the signals in the process, the group in the
  foreground of the terminal, the modes of the terminal, the groups of the session and the signals sent. A call of
  \<open>tcsetpgrp\<close> with a number that is no group of the session fails and changes nothing; its result is never looked at.

  The shell and the processes of its session run side by side: a step is one of the shell, of a forked child on its way
  to the program, or of a program. A program may do to the terminal what it wants, at any time it is alive, and may
  leave processes of its own behind. \<open>wait\<close> is the one of POSIX: with \<open>SIGCHLD\<close> ignored it returns only when no child
  is left.
\<close>

section \<open>State\<close>

datatype signal = SIGCHLD | SIGINT | SIGQUIT | SIGTSTP | SIGTTIN | SIGTTOU | SIGCONT

datatype disposition = SIG_DFL | SIG_IGN

record 'm jobs =
  dispositions :: "signal \<Rightarrow> disposition"
  tty_pgrp :: int
  tty_modes :: 'm
  session_groups :: "int list"
  shell_pgid :: int
  shell_tmodes :: 'm
  kills :: "(int \<times> signal) list"

definition tcsetpgrp :: "int \<Rightarrow> 'm jobs \<Rightarrow> 'm jobs" where
  "tcsetpgrp pgrp j = (if pgrp \<in> set (session_groups j) then j\<lparr>tty_pgrp := pgrp\<rparr> else j)"

definition signals :: "(signal \<times> disposition) list \<Rightarrow> 'm jobs \<Rightarrow> 'm jobs" where
  "signals ss j = fold (\<lambda>(s, d) j. j\<lparr>dispositions := (dispositions j)(s := d)\<rparr>) ss j"

section \<open>The shell\<close>

text \<open>The loop that waits for the foreground: the list holds what \<open>tcgetpgrp\<close> and \<open>getpgrp\<close> return, one pair for each
  turn, and bounds it; a turn in the background stops the process with \<open>SIGTTIN\<close>.\<close>

fun foreground_loop :: "(int \<times> int) list \<Rightarrow> 'm jobs \<Rightarrow> 'm jobs option" where
  "foreground_loop [] j = None"
| "foreground_loop ((fg, pgrp) # turns) j =
     (let j1 = j\<lparr>shell_pgid := pgrp\<rparr> in
      if fg \<noteq> shell_pgid j1 then foreground_loop turns (j1\<lparr>kills := kills j1 @ [(- shell_pgid j1, SIGTTIN)]\<rparr>) else Some j1)"

definition init_shell :: "bool \<Rightarrow> (int \<times> int) list \<Rightarrow> int \<Rightarrow> 'm jobs \<Rightarrow> 'm jobs option" where
  "init_shell tty turns pid j = do {
     j1 \<leftarrow> (if tty then do {
              j1 \<leftarrow> foreground_loop turns j;
              let j2 = tcsetpgrp pid (j1\<lparr>shell_pgid := pid\<rparr>);
              Some (j2\<lparr>shell_tmodes := tty_modes j2\<rparr>)
            } else Some j);
     Some (signals [(SIGCHLD, SIG_IGN), (SIGINT, SIG_IGN), (SIGQUIT, SIG_IGN), (SIGTSTP, SIG_IGN), (SIGTTIN, SIG_IGN), (SIGTTOU, SIG_IGN)] j1)
   }"

text \<open>The child, whose \<open>pid\<close> is 0, up to the program it becomes; then the shell behind the program.\<close>

definition put_process_in_background :: "int \<Rightarrow> bool \<Rightarrow> 'm jobs \<Rightarrow> 'm jobs" where
  "put_process_in_background pid cont j = (if cont then j\<lparr>kills := kills j @ [(- pid, SIGCONT)]\<rparr> else j)"

definition child_jobs :: "bool \<Rightarrow> 'm jobs \<Rightarrow> 'm jobs" where
  "child_jobs inBackground j =
     (let j1 = tcsetpgrp 0 j;
          j2 = signals [(SIGCHLD, SIG_DFL), (SIGINT, SIG_DFL), (SIGQUIT, SIG_DFL), (SIGTSTP, SIG_DFL), (SIGTTIN, SIG_DFL), (SIGTTOU, SIG_DFL)] j1
      in if inBackground then put_process_in_background 0 True j2 else j2)"

definition parent_jobs :: "int \<Rightarrow> 'm jobs \<Rightarrow> 'm jobs" where
  "parent_jobs pid j = tcsetpgrp pid j"

section \<open>The session\<close>

text \<open>A forked child is first at the code of \<open>shell\<close>, then right before \<open>execv\<close>, then a program (or, when nothing could
  be executed, at the end of \<open>main\<close>). \<open>is_child\<close> tells the children of the shell from the processes that programs leave
  behind.\<close>

datatype place = Child_start bool | At_exec | Program

record proc =
  is_child :: bool
  place :: place
  proc_disp :: "signal \<Rightarrow> disposition"

datatype sh_place = At_prompt | At_wait | At_regain

record 'm session =
  jobs_of :: "'m jobs"
  procs :: "proc list"
  zombies :: nat
  sh_at :: sh_place

definition start_session :: "'m jobs \<Rightarrow> 'm session" where
  "start_session j = \<lparr>jobs_of = j, procs = [], zombies = 0, sh_at = At_prompt\<rparr>"

text \<open>A line that runs a program: \<open>fork\<close>, which may fail, and the branch of the parent. The child has the dispositions of
  the shell.\<close>

definition start_program :: "bool \<Rightarrow> bool \<Rightarrow> 'm session \<Rightarrow> 'm session" where
  "start_program inBackground forked s =
     s\<lparr>procs := procs s @ (if forked then [\<lparr>is_child = True, place = Child_start inBackground, proc_disp = dispositions (jobs_of s)\<rparr>] else []),
       sh_at := (if \<not> inBackground then At_wait else At_regain)\<rparr>"

definition child_setup :: "nat \<Rightarrow> bool \<Rightarrow> 'm session \<Rightarrow> 'm session" where
  "child_setup i inBackground s =
     (let p = procs s ! i; c = child_jobs inBackground ((jobs_of s)\<lparr>dispositions := proc_disp p\<rparr>)
      in s\<lparr>jobs_of := c\<lparr>dispositions := dispositions (jobs_of s)\<rparr>,
           procs := (procs s)[i := p\<lparr>place := At_exec, proc_disp := dispositions c\<rparr>]\<rparr>)"

text \<open>The end of a process: a child stays a zombie unless the shell ignores \<open>SIGCHLD\<close>.\<close>

definition end_process :: "nat \<Rightarrow> 'm session \<Rightarrow> 'm session" where
  "end_process i s =
     s\<lparr>procs := take i (procs s) @ drop (Suc i) (procs s),
       zombies := zombies s + (if is_child (procs s ! i) \<and> dispositions (jobs_of s) SIGCHLD \<noteq> SIG_IGN then 1 else 0)\<rparr>"

text \<open>\<open>wait\<close>, where \<open>None\<close> is that it blocks.\<close>

definition shell_wait :: "'m session \<Rightarrow> 'm session option" where
  "shell_wait s =
     (if dispositions (jobs_of s) SIGCHLD \<noteq> SIG_IGN \<and> zombies s > 0 then Some (s\<lparr>zombies := zombies s - 1, sh_at := At_regain\<rparr>)
      else if list_ex is_child (procs s) then None else Some (s\<lparr>sh_at := At_regain\<rparr>))"

text \<open>The \<open>tcsetpgrp\<close> of the shell; a process in the background that does not ignore \<open>SIGTTOU\<close> is stopped by it.\<close>

definition shell_regain :: "int \<Rightarrow> 'm session \<Rightarrow> 'm session option" where
  "shell_regain pid s =
     (let j = jobs_of s in
      if tty_pgrp j = pid \<or> dispositions j SIGTTOU = SIG_IGN then Some (s\<lparr>jobs_of := parent_jobs pid j, sh_at := At_prompt\<rparr>)
      else None)"

text \<open>The steps. A program sets the foreground group, the modes and the groups of the session as it likes, except that
  the shell, which never changes its own group, stays a member of it.\<close>

datatype label = Line bool bool | Set_up | Exec | Acts bool | Leaves | Ends | Waits | Regains

inductive session_step :: "int \<Rightarrow> 'm session \<Rightarrow> label \<Rightarrow> 'm session \<Rightarrow> bool" for pid where
  line: "sh_at s = At_prompt \<Longrightarrow> session_step pid s (Line b forked) (start_program b forked s)"
| set_up: "i < length (procs s) \<Longrightarrow> place (procs s ! i) = Child_start b \<Longrightarrow> session_step pid s Set_up (child_setup i b s)"
| exec: "i < length (procs s) \<Longrightarrow> place (procs s ! i) = At_exec \<Longrightarrow>
    session_step pid s Exec (s\<lparr>procs := (procs s)[i := (procs s ! i)\<lparr>place := Program\<rparr>]\<rparr>)"
| acts: "i < length (procs s) \<Longrightarrow> place (procs s ! i) = Program \<Longrightarrow> (pid \<in> set (session_groups (jobs_of s)) \<longrightarrow> pid \<in> set gs) \<Longrightarrow>
    session_step pid s (Acts (is_child (procs s ! i))) (s\<lparr>jobs_of := (jobs_of s)\<lparr>tty_pgrp := fg, tty_modes := m, session_groups := gs\<rparr>\<rparr>)"
| leaves: "i < length (procs s) \<Longrightarrow> place (procs s ! i) = Program \<Longrightarrow>
    session_step pid s Leaves (s\<lparr>procs := procs s @ [(procs s ! i)\<lparr>is_child := False\<rparr>]\<rparr>)"
| ends: "i < length (procs s) \<Longrightarrow> session_step pid s Ends (end_process i s)"
| waits: "sh_at s = At_wait \<Longrightarrow> shell_wait s = Some s' \<Longrightarrow> session_step pid s Waits s'"
| regains: "sh_at s = At_regain \<Longrightarrow> shell_regain pid s = Some s' \<Longrightarrow> session_step pid s Regains s'"

inductive session_run :: "int \<Rightarrow> 'm session \<Rightarrow> label list \<Rightarrow> 'm session \<Rightarrow> bool" for pid s where
  none: "session_run pid s [] s"
| more: "session_run pid s ls s1 \<Longrightarrow> session_step pid s1 l s2 \<Longrightarrow> session_run pid s (ls @ [l]) s2"

section \<open>The functions of process.c\<close>

text \<open>\<open>program\<close> is what runs while the shell waits. Returned is also what is stored through \<open>tmodes\<close>, if it is given.\<close>

definition put_process_in_foreground ::
  "int \<Rightarrow> bool \<Rightarrow> 'm option \<Rightarrow> (int \<Rightarrow> 'm \<Rightarrow> int \<times> 'm) \<Rightarrow> 'm jobs \<Rightarrow> 'm option \<times> 'm jobs" where
  "put_process_in_foreground pid cont tmodes program j =
     (let j1 = tcsetpgrp pid j;
          j2 = (case tmodes of Some m \<Rightarrow> j1\<lparr>tty_modes := m\<rparr> | None \<Rightarrow> j1);
          j3 = (if cont then j2\<lparr>kills := kills j2 @ [(- pid, SIGCONT)]\<rparr> else j2);
          (fg, modes) = program (tty_pgrp j3) (tty_modes j3);
          j4 = tcsetpgrp (shell_pgid j3) (j3\<lparr>tty_pgrp := fg, tty_modes := modes\<rparr>);
          saved = (case tmodes of Some _ \<Rightarrow> Some (tty_modes j4) | None \<Rightarrow> None)
      in (saved, j4\<lparr>tty_modes := shell_tmodes j4\<rparr>))"

section \<open>Properties\<close>

abbreviation job_signals :: "signal list" where
  "job_signals \<equiv> [SIGCHLD, SIGINT, SIGQUIT, SIGTSTP, SIGTTIN, SIGTTOU]"

definition ignores_jobs :: "'m jobs \<Rightarrow> bool" where
  "ignores_jobs j \<longleftrightarrow> list_all (\<lambda>s. dispositions j s = SIG_IGN) job_signals"

definition owns_terminal :: "int \<Rightarrow> 'm jobs \<Rightarrow> bool" where
  "owns_terminal pid j \<longleftrightarrow> tty_pgrp j = pid \<and> pid \<in> set (session_groups j) \<and> ignores_jobs j"

lemma signals_simps [simp]:
  "signals [] j = j" "signals ((s, d) # ss) j = signals ss (j\<lparr>dispositions := (dispositions j)(s := d)\<rparr>)"
  by (simp_all add: signals_def)

lemma tcsetpgrp_simps [simp]:
  "dispositions (tcsetpgrp p j) = dispositions j" "session_groups (tcsetpgrp p j) = session_groups j"
  "tty_modes (tcsetpgrp p j) = tty_modes j" "shell_pgid (tcsetpgrp p j) = shell_pgid j" "shell_tmodes (tcsetpgrp p j) = shell_tmodes j"
  "p \<in> set (session_groups j) \<Longrightarrow> tty_pgrp (tcsetpgrp p j) = p"
  by (simp_all add: tcsetpgrp_def)

lemma foreground_loop_frame:
  "foreground_loop turns j = Some j' \<Longrightarrow> session_groups j' = session_groups j \<and> dispositions j' = dispositions j"
  by (induction turns arbitrary: j) (auto simp: Let_def split: if_splits)

lemma init_shell_owns:
  assumes "init_shell True turns pid j = Some j'" "pid \<in> set (session_groups j)"
  shows "owns_terminal pid j'"
proof -
  obtain j1 where "foreground_loop turns j = Some j1" using assms(1) by (auto simp: init_shell_def bind_eq_Some_conv)
  with assms foreground_loop_frame [of turns j j1] show ?thesis
    by (auto simp: init_shell_def owns_terminal_def ignores_jobs_def)
qed

text \<open>What a run says: whether the last line that ran a program was one for the background, and whether a process left
  behind by a program has acted on the terminal since the shell last took it.\<close>

definition background_last :: "label list \<Rightarrow> bool" where
  "background_last ls = fold (\<lambda>l b. case l of Line bg _ \<Rightarrow> bg | _ \<Rightarrow> b) ls False"

definition left_acts :: "label list \<Rightarrow> bool" where
  "left_acts ls = fold (\<lambda>l b. case l of Regains \<Rightarrow> False | Acts own \<Rightarrow> b \<or> \<not> own | _ \<Rightarrow> b) ls False"

lemma run_labels_simps [simp]:
  "background_last [] = False" "left_acts [] = False"
  "background_last (ls @ [l]) = (case l of Line bg _ \<Rightarrow> bg | _ \<Rightarrow> background_last ls)"
  "left_acts (ls @ [l]) = (case l of Regains \<Rightarrow> False | Acts own \<Rightarrow> left_acts ls \<or> \<not> own | _ \<Rightarrow> left_acts ls)"
  by (simp_all add: background_last_def left_acts_def split: label.split)

definition default_jobs :: "proc \<Rightarrow> bool" where
  "default_jobs p \<longleftrightarrow> list_all (\<lambda>g. proc_disp p g = SIG_DFL) job_signals"

text \<open>The invariant: behind a line for the foreground no child is alive once \<open>wait\<close> has returned.\<close>

definition session_inv :: "int \<Rightarrow> label list \<Rightarrow> 'm session \<Rightarrow> bool" where
  "session_inv pid ls s \<longleftrightarrow> ignores_jobs (jobs_of s) \<and> pid \<in> set (session_groups (jobs_of s)) \<and>
     (\<forall>p \<in> set (procs s). (place p = At_exec \<longrightarrow> default_jobs p) \<and> (place p \<noteq> Program \<longrightarrow> is_child p)) \<and>
     (sh_at s \<noteq> At_wait \<and> \<not> background_last ls \<longrightarrow> \<not> list_ex is_child (procs s)) \<and>
     (sh_at s = At_prompt \<and> \<not> background_last ls \<longrightarrow> tty_pgrp (jobs_of s) = pid \<or> left_acts ls)"

lemma child_jobs_frame [simp]:
  "session_groups (child_jobs b j) = session_groups j"
  "g \<in> set job_signals \<Longrightarrow> dispositions (child_jobs b j) g = SIG_DFL"
  by (auto simp: child_jobs_def put_process_in_background_def Let_def)

lemma session_inv_step:
  assumes "session_step pid s l s'" "session_inv pid ls s"
  shows "session_inv pid (ls @ [l]) s'"
  using assms
proof (induction rule: session_step.induct)
  case (set_up i s b)
  then have "is_child (procs s ! i)" by (auto simp: session_inv_def dest: nth_mem)
  then have "list_ex is_child (procs s)" using set_up(1) by (auto simp: list_ex_iff)
  with set_up show ?case
    by (auto simp: session_inv_def child_setup_def Let_def default_jobs_def ignores_jobs_def list_ex_iff dest!: set_update_subset_insert [THEN subsetD])
next
  case (exec i s)
  then show ?case
    by (auto simp: session_inv_def list_ex_iff dest!: set_update_subset_insert [THEN subsetD] dest: nth_mem)
next
  case (acts i s gs fg m)
  then show ?case by (auto simp: session_inv_def ignores_jobs_def list_ex_iff dest: nth_mem)
next
  case (leaves i s)
  then show ?case by (auto simp: session_inv_def list_ex_iff dest: nth_mem)
next
  case (ends i s)
  then show ?case by (auto simp: session_inv_def end_process_def list_ex_iff dest: in_set_takeD in_set_dropD)
next
  case (waits s s')
  then show ?case by (auto simp: session_inv_def shell_wait_def ignores_jobs_def split: if_splits)
next
  case (regains s s')
  then show ?case
    by (auto simp: session_inv_def shell_regain_def parent_jobs_def ignores_jobs_def Let_def split: if_splits)
qed (auto simp: session_inv_def start_program_def)

lemma session_inv_run: "session_run pid s ls s' \<Longrightarrow> session_inv pid [] s \<Longrightarrow> session_inv pid ls s'"
  by (induction rule: session_run.induct) (auto intro: session_inv_step)

lemma session_inv_start: "owns_terminal pid j \<Longrightarrow> session_inv pid [] (start_session j)"
  by (simp add: session_inv_def start_session_def owns_terminal_def)

text \<open>The way back to the prompt: the children end, \<open>wait\<close> returns and the shell takes the terminal.\<close>

lemma session_run_one: "session_step pid s l s' \<Longrightarrow> session_run pid s [l] s'"
  using session_run.more [OF session_run.none] by fastforce

lemma session_run_trans: "session_run pid s1 ls' s2 \<Longrightarrow> session_run pid s ls s1 \<Longrightarrow> session_run pid s (ls @ ls') s2"
proof (induction rule: session_run.induct)
  case (more ls' s2 l s3)
  then show ?case using session_run.more by (metis append_assoc)
qed simp

lemma regain_terminal:
  assumes "ignores_jobs (jobs_of s)" "pid \<in> set (session_groups (jobs_of s))" "sh_at s = At_regain"
  shows "\<exists>s'. session_run pid s [Regains] s' \<and> sh_at s' = At_prompt \<and> tty_pgrp (jobs_of s') = pid"
proof -
  have "shell_regain pid s = Some (s\<lparr>jobs_of := parent_jobs pid (jobs_of s), sh_at := At_prompt\<rparr>)"
    using assms(1) by (simp add: shell_regain_def ignores_jobs_def)
  with assms show ?thesis
    by (intro exI [of _ "s\<lparr>jobs_of := parent_jobs pid (jobs_of s), sh_at := At_prompt\<rparr>"])
      (auto simp: parent_jobs_def intro: session_run_one session_step.regains)
qed

lemma wait_returns:
  assumes "ignores_jobs (jobs_of s)" "pid \<in> set (session_groups (jobs_of s))" "sh_at s = At_wait"
  shows "\<exists>ls' s'. session_run pid s ls' s' \<and> sh_at s' = At_prompt \<and> tty_pgrp (jobs_of s') = pid"
  using assms
proof (induction "length (procs s)" arbitrary: s rule: less_induct)
  case less
  show ?case
  proof (cases "procs s")
    case Nil
    then have "session_step pid s Waits (s\<lparr>sh_at := At_regain\<rparr>)"
      using less.prems by (intro session_step.waits) (auto simp: shell_wait_def ignores_jobs_def)
    moreover obtain s' where "session_run pid (s\<lparr>sh_at := At_regain\<rparr>) [Regains] s'" "sh_at s' = At_prompt" "tty_pgrp (jobs_of s') = pid"
      using regain_terminal [of "s\<lparr>sh_at := At_regain\<rparr>" pid] less.prems by auto
    ultimately show ?thesis using session_run_trans session_run_one by metis
  next
    case (Cons p ps)
    have "session_step pid s Ends (end_process 0 s)" using Cons by (intro session_step.ends) simp
    moreover obtain ls' s' where "session_run pid (end_process 0 s) ls' s'" "sh_at s' = At_prompt" "tty_pgrp (jobs_of s') = pid"
      using less.hyps [of "end_process 0 s"] less.prems Cons by (auto simp: end_process_def)
    ultimately show ?thesis using session_run_trans session_run_one by metis
  qed
qed

text \<open>C39. The shell keeps the terminal. Started on a terminal as the leader of its process group, in every run of the shell
  beside the processes of its session, it ignores the signals of job control, and every child has their default
  dispositions when it becomes a program. At a prompt behind a line for the foreground no child of the shell is alive,
  also none of earlier lines for the background, and the shell's group is in the foreground of the terminal, unless a
  process that a program left behind (no child of the shell) has acted on the terminal since the shell took it.
  Whenever the shell is not at the prompt, the ends of the processes bring it there with the terminal its own. Behind a
  line for the background there is no such promise.\<close>

theorem shell_keeps_terminal:
  assumes "init_shell True turns pid j = Some j0" and "pid \<in> set (session_groups j)"
    and "session_run pid (start_session j0) ls s"
  shows "list_all (\<lambda>g. dispositions (jobs_of s) g = SIG_IGN) job_signals \<and>
    list_all (\<lambda>p. place p = At_exec \<longrightarrow> list_all (\<lambda>g. proc_disp p g = SIG_DFL) job_signals) (procs s) \<and>
    (sh_at s = At_prompt \<and> \<not> background_last ls \<longrightarrow>
      \<not> list_ex is_child (procs s) \<and> (tty_pgrp (jobs_of s) = pid \<or> left_acts ls)) \<and>
    (sh_at s \<noteq> At_prompt \<longrightarrow> (\<exists>ls' s'. session_run pid s ls' s' \<and> sh_at s' = At_prompt \<and> tty_pgrp (jobs_of s') = pid))"
proof -
  have inv: "session_inv pid ls s"
    using session_inv_run [OF assms(3)] session_inv_start [OF init_shell_owns [OF assms(1,2)]] by blast
  then have "\<exists>ls' s'. session_run pid s ls' s' \<and> sh_at s' = At_prompt \<and> tty_pgrp (jobs_of s') = pid" if "sh_at s \<noteq> At_prompt"
    using that wait_returns [of s pid] regain_terminal [of s pid] by (cases "sh_at s") (auto simp: session_inv_def)
  with inv show ?thesis by (auto simp: session_inv_def ignores_jobs_def default_jobs_def list_all_iff)
qed

definition example_jobs :: "nat jobs" where
  "example_jobs = \<lparr>dispositions = (\<lambda>_. SIG_DFL), tty_pgrp = 7, tty_modes = 0, session_groups = [7, 9], shell_pgid = 0,
     shell_tmodes = 5, kills = []\<rparr>"

text \<open>A program that takes the terminal: the run up to that point, from a line for the foreground or the background.\<close>

lemma lone_child_acts:
  assumes "procs s = [p]" "place p = Child_start b" "is_child p" "pid \<in> set (session_groups (jobs_of s))"
  shows "\<exists>s'. session_run pid s [Set_up, Exec, Acts True] s' \<and> tty_pgrp (jobs_of s') = g \<and> length (procs s') = 1 \<and>
    dispositions (jobs_of s') = dispositions (jobs_of s) \<and> session_groups (jobs_of s') = session_groups (jobs_of s) \<and> sh_at s' = sh_at s"
proof -
  define s1 where "s1 = child_setup 0 b s"
  define s2 where "s2 = s1\<lparr>procs := (procs s1)[0 := (procs s1 ! 0)\<lparr>place := Program\<rparr>]\<rparr>"
  define s3 where "s3 = s2\<lparr>jobs_of := (jobs_of s2)\<lparr>tty_pgrp := g, tty_modes := tty_modes (jobs_of s2), session_groups := session_groups (jobs_of s2)\<rparr>\<rparr>"
  have "session_step pid s Set_up s1" using assms unfolding s1_def by (intro session_step.set_up) auto
  moreover have "session_step pid s1 Exec s2" unfolding s2_def
    by (intro session_step.exec) (auto simp: s1_def child_setup_def assms(1) Let_def)
  moreover have "session_step pid s2 (Acts (is_child (procs s2 ! 0))) s3" unfolding s3_def
    by (intro session_step.acts) (auto simp: s2_def s1_def child_setup_def assms(1) Let_def)
  moreover have "is_child (procs s2 ! 0)" by (simp add: s2_def s1_def child_setup_def assms Let_def)
  ultimately have "session_run pid s [Set_up, Exec, Acts True] s3"
    using session_run.more [OF session_run.more [OF session_run.more [OF session_run.none]]] by fastforce
  then show ?thesis
    by (intro exI [of _ s3]) (auto simp: s3_def s2_def s1_def child_setup_def assms(1) Let_def)
qed

lemma program_takes:
  assumes "owns_terminal pid j"
  shows "\<exists>s. session_run pid (start_session j) ([Line b True] @ (if b then [Regains] else []) @ [Set_up, Exec, Acts True]) s \<and>
    tty_pgrp (jobs_of s) = g \<and> length (procs s) = 1 \<and> dispositions (jobs_of s) = dispositions j \<and>
    session_groups (jobs_of s) = session_groups j \<and> sh_at s = (if b then At_prompt else At_wait)"
proof -
  define s1 where "s1 = start_program b True (start_session j)"
  define s2 where "s2 = (if b then s1\<lparr>jobs_of := parent_jobs pid j, sh_at := At_prompt\<rparr> else s1)"
  have l: "session_run pid (start_session j) [Line b True] s1"
    unfolding s1_def by (intro session_run_one session_step.line) (simp add: start_session_def)
  have "session_run pid s1 (if b then [Regains] else []) s2"
  proof (cases b)
    case True
    then have "shell_regain pid s1 = Some s2" "sh_at s1 = At_regain" using assms
      by (auto simp: shell_regain_def s1_def s2_def start_program_def start_session_def owns_terminal_def)
    with True show ?thesis by (auto intro: session_run_one session_step.regains)
  qed (simp add: s2_def session_run.none)
  moreover have "procs s2 = [\<lparr>is_child = True, place = Child_start b, proc_disp = dispositions j\<rparr>]" "jobs_of s2 = j"
    "sh_at s2 = (if b then At_prompt else At_wait)" using assms
    by (auto simp: s2_def s1_def start_program_def start_session_def parent_jobs_def tcsetpgrp_def owns_terminal_def)
  ultimately show ?thesis
    using lone_child_acts [of s2 _ b pid g] assms session_run_trans [OF _ session_run_trans [OF _ l]] by (fastforce simp: owns_terminal_def)
qed

text \<open>A run in which the program takes the terminal and ends: the shell has it again at the prompt.\<close>

lemma example_run:
  assumes "owns_terminal 7 j"
  shows "\<exists>s s'. session_run 7 (start_session j) [Line False True, Set_up, Exec, Acts True] s \<and> tty_pgrp (jobs_of s) = 9 \<and>
     session_run 7 (start_session j) [Line False True, Set_up, Exec, Acts True, Ends, Waits, Regains] s' \<and> sh_at s' = At_prompt"
proof -
  obtain s where s: "session_run 7 (start_session j) [Line False True, Set_up, Exec, Acts True] s" "tty_pgrp (jobs_of s) = 9"
    "length (procs s) = 1" "dispositions (jobs_of s) = dispositions j" "session_groups (jobs_of s) = session_groups j" "sh_at s = At_wait"
    using program_takes [OF assms, of False 9] by auto
  define s1 where "s1 = end_process 0 s"
  define s2 where "s2 = s1\<lparr>sh_at := At_regain\<rparr>"
  have i: "ignores_jobs (jobs_of s)" using assms s(4) by (simp add: owns_terminal_def ignores_jobs_def)
  have e: "session_step 7 s Ends s1" unfolding s1_def using s(3) by (intro session_step.ends) simp
  have w: "session_step 7 s1 Waits s2" unfolding s2_def using s(3,6) i
    by (intro session_step.waits) (auto simp: s1_def end_process_def shell_wait_def ignores_jobs_def)
  obtain s' where b: "session_run 7 s2 [Regains] s'" "sh_at s' = At_prompt"
    using regain_terminal [of s2 7] i assms s(5) by (auto simp: s1_def s2_def end_process_def owns_terminal_def)
  show ?thesis using session_run_trans [OF b(1) session_run.more [OF session_run.more [OF s(1) e] w]] s(1,2) b(2) by auto
qed

theorem shell_keeps_terminal_witness:
  "\<exists>j0 s s'. init_shell True [(9, 7), (7, 7)] 7 example_jobs = Some j0 \<and>
     session_run 7 (start_session j0) [Line False True, Set_up, Exec, Acts True] s \<and> tty_pgrp (jobs_of s) = 9 \<and>
     session_run 7 (start_session j0) [Line False True, Set_up, Exec, Acts True, Ends, Waits, Regains] s' \<and>
     sh_at s' = At_prompt \<and> \<not> list_ex is_child (procs s') \<and> tty_pgrp (jobs_of s') = 7"
proof -
  obtain j0 where j0: "init_shell True [(9, 7), (7, 7)] 7 example_jobs = Some j0" by (simp add: init_shell_def)
  have g: "7 \<in> set (session_groups example_jobs)" by (simp add: example_jobs_def)
  obtain s s' where r: "session_run 7 (start_session j0) [Line False True, Set_up, Exec, Acts True] s" "tty_pgrp (jobs_of s) = 9"
    "session_run 7 (start_session j0) [Line False True, Set_up, Exec, Acts True, Ends, Waits, Regains] s'" "sh_at s' = At_prompt"
    using example_run [OF init_shell_owns [OF j0 g]] by blast
  show ?thesis using shell_keeps_terminal [OF j0 g r(3)] j0 r
    by (auto simp: background_last_def left_acts_def)
qed

text \<open>A program in the background takes the terminal while the shell is at its prompt.\<close>

lemma background_takes_terminal:
  assumes "owns_terminal pid j"
  shows "\<exists>s. session_run pid (start_session j) [Line True True, Regains, Set_up, Exec, Acts True] s \<and>
    sh_at s = At_prompt \<and> tty_pgrp (jobs_of s) = g"
  using program_takes [OF assms, of True g] by auto

text \<open>A child never comes to the foreground of its own: 0 is no process group.\<close>

lemma child_stays_in_group: "0 \<notin> set (session_groups j) \<Longrightarrow> tty_pgrp (child_jobs b j) = tty_pgrp j"
  by (simp add: child_jobs_def tcsetpgrp_def put_process_in_background_def Let_def)

text \<open>The signal that should continue a program in the background goes to the whole group of the shell.\<close>

lemma background_continues_group: "kills (child_jobs True j) = kills j @ [(0, SIGCONT)]"
  by (simp add: child_jobs_def put_process_in_background_def Let_def tcsetpgrp_def)

text \<open>\<open>put_process_in_foreground\<close> saves the modes of the program and gives the terminal back to the shell, with the modes of
  the shell.\<close>

lemma put_process_in_foreground_restores:
  assumes "shell_pgid j \<in> set (session_groups j)" "put_process_in_foreground pid cont tmodes program j = (saved, j')"
  shows "tty_pgrp j' = shell_pgid j \<and> tty_modes j' = shell_tmodes j \<and> (saved = None \<longleftrightarrow> tmodes = None)"
  using assms by (auto simp: put_process_in_foreground_def Let_def split: prod.splits option.splits if_splits)

text \<open>A shell that is not the leader of its group does not get the terminal back.\<close>

lemma shell_not_leader:
  "pid \<notin> set (session_groups (jobs_of s)) \<Longrightarrow> shell_regain pid s = Some s' \<Longrightarrow> tty_pgrp (jobs_of s') = tty_pgrp (jobs_of s)"
  by (auto simp: shell_regain_def parent_jobs_def tcsetpgrp_def Let_def split: if_splits)

end
