(* ===== verification/FileServer.thy ===== *)
theory FileServer
  imports Prelude
begin

text \<open>
  The file and proxy server of \<open>hw2\<close> (\<open>libhttp.c\<close>, \<open>httpserver.c\<close>). Names that the library of \<open>hw4\<close> also has end in
  \<open>_www\<close>. The input of a connection is what its one call of \<open>read\<close> gives, or that it failed. A response is the list of
  the bytes sent. The file system and the results of system calls are parameters. A failed \<open>stat\<close> leaves its
  buffer as it was: the old contents are a parameter too, as is the byte behind a buffer that is not terminated.
\<close>

section \<open>Requests\<close>

definition LIBHTTP_REQUEST_MAX_SIZE :: nat where
  "LIBHTTP_REQUEST_MAX_SIZE = 8192"

record http_request_www =
  www_method :: string
  www_path :: string

definition is_upper :: "char \<Rightarrow> bool" where
  "is_upper c \<longleftrightarrow> 65 \<le> (of_char c :: nat) \<and> (of_char c :: nat) \<le> 90"

definition is_path_char :: "char \<Rightarrow> bool" where
  "is_path_char c \<longleftrightarrow> c \<noteq> CHR '' '' \<and> c \<noteq> lf"

text \<open>A failed \<open>read\<close> gives -1, and the terminator is written in front of the buffer.\<close>

definition http_request_parse_www :: "bytes option \<Rightarrow> http_request_www option option" where
  "http_request_parse_www chunk = do {
     got \<leftarrow> chunk;
     let read_buffer = cstr (take LIBHTTP_REQUEST_MAX_SIZE got);
     let meth = takeWhile is_upper read_buffer;
     let read_end = dropWhile is_upper read_buffer;
     Some (if meth = [] then None
           else if read_end = [] \<or> hd read_end \<noteq> CHR '' '' then None
           else let read_start = tl read_end;
                    path = takeWhile is_path_char read_start;
                    line_rest = dropWhile is_path_char read_start
                in if path = [] then None
                   else if dropWhile (\<lambda>c. c \<noteq> lf) line_rest = [] then None
                   else Some \<lparr>www_method = meth, www_path = path\<rparr>)
   }"

section \<open>Responses\<close>

definition http_get_response_message_www :: "int \<Rightarrow> string" where
  "http_get_response_message_www status_code =
     (if status_code = 100 then ''Continue''
      else if status_code = 200 then ''OK''
      else if status_code = 301 then ''Moved Permanently''
      else if status_code = 302 then ''Found''
      else if status_code = 304 then ''Not Modified''
      else if status_code = 400 then ''Bad Request''
      else if status_code = 401 then ''Unauthorized''
      else if status_code = 403 then ''Forbidden''
      else if status_code = 404 then ''Not Found''
      else if status_code = 405 then ''Method Not Allowed''
      else ''Internal Server Error'')"

definition http_start_response_www :: "int \<Rightarrow> bytes" where
  "http_start_response_www status_code =
     ''HTTP/1.0 '' @ dec (nat status_code) @ '' '' @ http_get_response_message_www status_code @ [cr, lf]"

definition http_send_header :: "string \<Rightarrow> string \<Rightarrow> bytes" where
  "http_send_header key val = key @ '': '' @ val @ [cr, lf]"

definition http_end_headers_www :: bytes where
  "http_end_headers_www = [cr, lf]"

text \<open>The list holds what the calls of \<open>write\<close> return; it bounds their number.\<close>

fun http_send_data :: "int list \<Rightarrow> bytes \<Rightarrow> bytes option" where
  "http_send_data ws data =
     (if data = [] then Some []
      else case ws of
        [] \<Rightarrow> None
      | bytes_sent # ws' \<Rightarrow>
          if bytes_sent < 0 then Some []
          else map_option (\<lambda>sent. take (nat bytes_sent) data @ sent) (http_send_data ws' (drop (nat bytes_sent) data)))"

declare http_send_data.simps [simp del]

definition http_send_string :: "int list \<Rightarrow> string \<Rightarrow> bytes option" where
  "http_send_string ws data = http_send_data ws data"

text \<open>\<open>strrchr\<close>: the end of the string from its last occurrence of the character.\<close>

definition strrchr :: "string \<Rightarrow> char \<Rightarrow> string option" where
  "strrchr s c = (if c \<in> set s then Some (c # rev (takeWhile (\<lambda>x. x \<noteq> c) (rev s))) else None)"

definition http_get_mime_type :: "string \<Rightarrow> string" where
  "http_get_mime_type file_name = (case strrchr file_name (CHR ''.'') of
     None \<Rightarrow> ''text/plain''
   | Some file_extension \<Rightarrow>
       if file_extension = ''.html'' \<or> file_extension = ''.htm'' then ''text/html''
       else if file_extension = ''.jpg'' \<or> file_extension = ''.jpeg'' then ''image/jpeg''
       else if file_extension = ''.png'' then ''image/png''
       else if file_extension = ''.css'' then ''text/css''
       else if file_extension = ''.js'' then ''application/javascript''
       else if file_extension = ''.pdf'' then ''application/pdf''
       else ''text/plain'')"

section \<open>Files\<close>

datatype st_mode = S_DIR | S_REG | S_OTHER

record www_fs =
  ws_stat :: "string \<Rightarrow> st_mode option"
  ws_readdir :: "string \<Rightarrow> string list option"
  ws_fopen :: "string \<Rightarrow> bytes option"

text \<open>What the handler finds in memory it has not written: the two buffers of \<open>stat\<close>, and the byte behind the
  contents of \<open>index.html\<close>.\<close>

record www_junk =
  junk_path_stat :: st_mode
  junk_full_path_stat :: st_mode
  junk_byte :: char

record www_config =
  server_port :: int
  server_files_directory :: string
  files_room :: nat
  files_malloced :: bool
  server_proxy_hostname :: string
  server_proxy_port :: int
  request_handler_proxy :: bool

definition stat_mode :: "www_fs \<Rightarrow> st_mode \<Rightarrow> string \<Rightarrow> st_mode" where
  "stat_mode fs junk path = (case ws_stat fs path of Some m \<Rightarrow> m | None \<Rightarrow> junk)"

definition strcat_room :: "nat \<Rightarrow> string \<Rightarrow> string \<Rightarrow> string option" where
  "strcat_room room s t = (if length s + length t + 1 \<le> room then Some (s @ t) else None)"

definition dir_entry :: "string \<Rightarrow> string \<Rightarrow> string" where
  "dir_entry path name = ''<a href='' @ [CHR 0x22] @ path @ ''/'' @ name @ [CHR 0x22] @ ''>'' @ name @ ''</a>'' @ ''<p>''"

fun readdir_loop :: "string \<Rightarrow> string \<Rightarrow> string list \<Rightarrow> string option" where
  "readdir_loop retvalue path [] = Some retvalue"
| "readdir_loop retvalue path (d_name # ents) = do {
     r \<leftarrow> strcat_room 1024 retvalue (dir_entry path d_name);
     readdir_loop r path ents
   }"

text \<open>\<open>strlen\<close> of the buffer that holds the bytes of a file and one byte more.\<close>

definition index_string :: "bytes \<Rightarrow> char \<Rightarrow> string option" where
  "index_string content behind = (if nul \<in> set (content @ [behind]) then Some (cstr (content @ [behind])) else None)"

definition not_found_page :: string where
  "not_found_page = ''<center><h1>ERROR 4040, NOT FOUND</h1><hr><p>This is a custom page</p></center>''"

definition ok_headers :: "string \<Rightarrow> nat \<Rightarrow> bytes" where
  "ok_headers mime len =
     http_start_response_www 200 @ http_send_header ''Content-type'' mime @ http_send_header ''Content-length'' (dec len) @
     http_end_headers_www"

definition handle_files_request ::
  "www_config \<Rightarrow> www_fs \<Rightarrow> www_junk \<Rightarrow> int list \<Rightarrow> bytes option \<Rightarrow> bytes option" where
  "handle_files_request cfg fs junk ws chunk = do {
     r \<leftarrow> http_request_parse_www chunk;
     request \<leftarrow> r;
     full_path \<leftarrow> strcat_room (files_room cfg) (server_files_directory cfg) (www_path request);
     (case stat_mode fs (junk_path_stat junk) full_path of
        S_DIR \<Rightarrow> do {
          retvalue \<leftarrow> (case ws_readdir fs full_path of None \<Rightarrow> Some [] | Some ents \<Rightarrow> readdir_loop [] (www_path request) ents);
          index_path \<leftarrow> strcat_room (files_room cfg) full_path ''/index.html'';
          (if stat_mode fs (junk_full_path_stat junk) index_path = S_REG then do {
             content \<leftarrow> ws_fopen fs index_path;
             buffer \<leftarrow> index_string content (junk_byte junk);
             sent \<leftarrow> http_send_string ws buffer;
             Some (ok_headers ''text/html'' (length buffer) @ sent)
           } else do {
             sent \<leftarrow> http_send_string ws retvalue;
             Some (ok_headers ''text/html'' (length retvalue) @ sent)
           })
        }
      | S_REG \<Rightarrow> do {
          content \<leftarrow> ws_fopen fs full_path;
          sent \<leftarrow> http_send_data ws content;
          Some (ok_headers (http_get_mime_type full_path) (length content) @ sent)
        }
      | S_OTHER \<Rightarrow> do {
          sent \<leftarrow> http_send_string ws not_found_page;
          Some (http_start_response_www 404 @ http_send_header ''Content-type'' ''text/html'' @ http_end_headers_www @ sent)
        })
   }"

section \<open>The proxy\<close>

text \<open>What one turn of the loop meets: the result of \<open>select\<close>, which of the two sockets are set, the bytes read (none
  at the end of the stream or on an error) and the result of \<open>write\<close>.\<close>

record poll =
  sel_ret :: int
  target_set :: bool
  client_set :: bool
  read_got :: bytes
  write_ret :: int

record relay =
  to_client :: bytes
  to_target :: bytes
  relay_ended :: bool

fun proxy_loop :: "poll list \<Rightarrow> relay \<Rightarrow> relay" where
  "proxy_loop [] r = r"
| "proxy_loop (p # ps) r =
     (if sel_ret p \<noteq> 0 \<and> target_set p then
        (if read_got p \<noteq> [] then
           (if write_ret p > 0 then proxy_loop ps (r\<lparr>to_client := to_client r @ take (nat (write_ret p)) (read_got p)\<rparr>)
            else r\<lparr>relay_ended := True\<rparr>)
         else r\<lparr>relay_ended := True\<rparr>)
      else if sel_ret p \<noteq> 0 \<and> client_set p then
        (if read_got p \<noteq> [] then
           (if write_ret p > 0 then proxy_loop ps (r\<lparr>to_target := to_target r @ take (nat (write_ret p)) (read_got p)\<rparr>)
            else r\<lparr>relay_ended := True\<rparr>)
         else r\<lparr>relay_ended := True\<rparr>)
      else proxy_loop ps r)"

record proxy_os =
  pos_gethostbyname :: "string \<Rightarrow> 32 word option"
  pos_connect :: "32 word \<Rightarrow> 16 word \<Rightarrow> int"

text \<open>An unknown name gives a NULL entry, which is used; a failed \<open>connect\<close> is only reported.\<close>

definition handle_proxy_request :: "www_config \<Rightarrow> proxy_os \<Rightarrow> poll list \<Rightarrow> (int \<times> relay) option" where
  "handle_proxy_request cfg os ps = do {
     found_addr \<leftarrow> pos_gethostbyname os (server_proxy_hostname cfg);
     let conn = pos_connect os found_addr (word_of_int (server_proxy_port cfg));
     Some (conn, proxy_loop ps \<lparr>to_client = [], to_target = [], relay_ended = False\<rparr>)
   }"

section \<open>Accepting connections\<close>

record serve_os =
  sos_socket :: int
  sos_setsockopt :: "int \<Rightarrow> int"
  sos_bind :: "int \<Rightarrow> 16 word \<Rightarrow> int"
  sos_listen :: "int \<Rightarrow> nat \<Rightarrow> int"
  sos_errno :: int

definition serve_setup :: "serve_os \<Rightarrow> www_config \<Rightarrow> int + int" where
  "serve_setup os cfg =
     (let socket_number = sos_socket os in
      if socket_number = -1 then Inl (sos_errno os)
      else if sos_setsockopt os socket_number = -1 then Inl (sos_errno os)
      else if sos_bind os socket_number (word_of_int (server_port cfg)) = -1 then Inl (sos_errno os)
      else if sos_listen os socket_number 1024 = -1 then Inl (sos_errno os)
      else Inr socket_number)"

text \<open>What happens in the parent and in its children; a child runs the handler on its copy of the connection.\<close>

datatype serve_event = Parent_close int | Child_close int | Child_handle int | Child_exit int | Parent_exit int

text \<open>The loop over what \<open>accept\<close> and \<open>fork\<close> return. In the child the result of \<open>fork\<close> is 0; the list has the result in
  the parent, so it is not 0.\<close>

fun serve_loop :: "serve_os \<Rightarrow> int \<Rightarrow> (int \<times> int) list \<Rightarrow> serve_event list" where
  "serve_loop os socket_number [] = []"
| "serve_loop os socket_number ((client_socket_number, pid) # as) =
     (if client_socket_number < 0 then serve_loop os socket_number as
      else if pid > 0 then
        [Child_close socket_number, Child_handle client_socket_number, Child_close client_socket_number, Child_exit 0,
         Parent_close client_socket_number] @ serve_loop os socket_number as
      else [Parent_exit (sos_errno os)])"

definition serve_forever :: "serve_os \<Rightarrow> www_config \<Rightarrow> (int \<times> int) list \<Rightarrow> serve_event list" where
  "serve_forever os cfg as = (case serve_setup os cfg of Inl e \<Rightarrow> [Parent_exit e] | Inr s \<Rightarrow> serve_loop os s as)"

section \<open>Arguments\<close>

datatype args_result = Run www_config | Usage string

text \<open>\<open>room\<close> is how many bytes may be written from the place of an argument on. The second \<open>--files\<close> frees a pointer that
  \<open>malloc\<close> has not given.\<close>

fun parse_args :: "(string \<Rightarrow> nat) \<Rightarrow> www_config \<Rightarrow> string list \<Rightarrow> args_result option" where
  "parse_args room cfg [] = Some (Run cfg)"
| "parse_args room cfg (a # as) =
     (if a = ''--files'' then
        (if \<not> files_malloced cfg then None
         else case as of
           [] \<Rightarrow> Some (Usage (''Expected argument after --files'' @ [lf]))
         | d # as' \<Rightarrow>
             parse_args room (cfg\<lparr>request_handler_proxy := False, server_files_directory := d, files_room := room d,
                                   files_malloced := False\<rparr>) as')
      else if a = ''--proxy'' then
        (case as of
           [] \<Rightarrow> Some (Usage (''Expected argument after --proxy'' @ [lf]))
         | proxy_target # as' \<Rightarrow>
             (case strchr proxy_target (CHR '':'') of
                Some colon_pointer \<Rightarrow>
                  parse_args room (cfg\<lparr>request_handler_proxy := True,
                    server_proxy_hostname := take (ptr_diff colon_pointer proxy_target) proxy_target,
                    server_proxy_port := to_int32 (fst (strtol (tl colon_pointer)))\<rparr>) as'
              | None \<Rightarrow>
                  parse_args room (cfg\<lparr>request_handler_proxy := True, server_proxy_hostname := proxy_target,
                    server_proxy_port := 80\<rparr>) as'))
      else if a = ''--port'' then
        (case as of
           [] \<Rightarrow> Some (Usage (''Expected argument after --port'' @ [lf]))
         | p # as' \<Rightarrow> parse_args room (cfg\<lparr>server_port := to_int32 (fst (strtol p))\<rparr>) as')
      else if a = ''--help'' then Some (Usage '''')
      else Some (Usage (''Unrecognized option: '' @ a @ [lf])))"

definition httpserver_main :: "(string \<Rightarrow> nat) \<Rightarrow> string \<Rightarrow> string list \<Rightarrow> args_result option" where
  "httpserver_main room cwd args =
     parse_args room \<lparr>server_port = 8000, server_files_directory = cwd, files_room = 1024, files_malloced = True,
       server_proxy_hostname = ''inst.eecs.berkeley.edu'', server_proxy_port = 80, request_handler_proxy = False\<rparr> args"

section \<open>What the parser accepts\<close>

lemma span_split:
  "list_all P xs \<Longrightarrow> ys = [] \<or> \<not> P (hd ys) \<Longrightarrow> takeWhile P (xs @ ys) = xs \<and> dropWhile P (xs @ ys) = ys"
  by (induction xs) (cases ys; auto)+

lemma parse_www_iff:
  "http_request_parse_www (Some got) = Some (Some \<lparr>www_method = m, www_path = p\<rparr>) \<longleftrightarrow>
     m \<noteq> [] \<and> list_all is_upper m \<and> p \<noteq> [] \<and> list_all is_path_char p \<and>
     (\<exists>line_rest. cstr (take LIBHTTP_REQUEST_MAX_SIZE got) = m @ '' '' @ p @ line_rest \<and>
        line_rest \<noteq> [] \<and> \<not> is_path_char (hd line_rest) \<and> lf \<in> set line_rest)"
proof
  define buf where "buf = cstr (take LIBHTTP_REQUEST_MAX_SIZE got)"
  define e where "e = dropWhile is_upper buf"
  assume "http_request_parse_www (Some got) = Some (Some \<lparr>www_method = m, www_path = p\<rparr>)"
  then have h: "m = takeWhile is_upper buf" "m \<noteq> []" "e \<noteq> []" "hd e = CHR '' ''" "p = takeWhile is_path_char (tl e)" "p \<noteq> []"
    and l: "dropWhile (\<lambda>c. c \<noteq> lf) (dropWhile is_path_char (tl e)) \<noteq> []"
    by (auto simp: http_request_parse_www_def Let_def buf_def [symmetric] e_def [symmetric] split: if_splits)
  define rest where "rest = dropWhile is_path_char (tl e)"
  have "lf \<in> set rest" using l by (auto simp: rest_def [symmetric])
  moreover from this have ne: "rest \<noteq> []" by auto
  moreover have "\<not> is_path_char (hd rest)" using hd_dropWhile [of is_path_char "tl e"] ne unfolding rest_def by blast
  moreover have "buf = m @ '' '' @ p @ rest"
  proof -
    have "buf = m @ e" by (simp add: h(1) e_def)
    moreover have "e = CHR '' '' # tl e" using h(3,4) by (cases e) auto
    moreover have "tl e = p @ rest" by (simp add: h(5) rest_def)
    ultimately show ?thesis by simp
  qed
  moreover have "list_all is_upper m" "list_all is_path_char p" by (auto simp: h(1,5) list_all_iff dest: set_takeWhileD)
  ultimately show "m \<noteq> [] \<and> list_all is_upper m \<and> p \<noteq> [] \<and> list_all is_path_char p \<and>
     (\<exists>line_rest. cstr (take LIBHTTP_REQUEST_MAX_SIZE got) = m @ '' '' @ p @ line_rest \<and>
        line_rest \<noteq> [] \<and> \<not> is_path_char (hd line_rest) \<and> lf \<in> set line_rest)"
    using h(2,6) unfolding buf_def [symmetric] by blast
next
  assume "m \<noteq> [] \<and> list_all is_upper m \<and> p \<noteq> [] \<and> list_all is_path_char p \<and>
     (\<exists>line_rest. cstr (take LIBHTTP_REQUEST_MAX_SIZE got) = m @ '' '' @ p @ line_rest \<and>
        line_rest \<noteq> [] \<and> \<not> is_path_char (hd line_rest) \<and> lf \<in> set line_rest)"
  then obtain rest where h: "m \<noteq> []" "list_all is_upper m" "p \<noteq> []" "list_all is_path_char p"
    and buf: "cstr (take LIBHTTP_REQUEST_MAX_SIZE got) = m @ '' '' @ p @ rest"
    and rest: "rest \<noteq> []" "\<not> is_path_char (hd rest)" "lf \<in> set rest" by auto
  have "takeWhile is_upper (m @ '' '' @ p @ rest) = m \<and> dropWhile is_upper (m @ '' '' @ p @ rest) = '' '' @ p @ rest"
    by (rule span_split [OF h(2)]) (simp add: is_upper_def)
  moreover have "takeWhile is_path_char (p @ rest) = p \<and> dropWhile is_path_char (p @ rest) = rest"
    by (rule span_split [OF h(4)]) (simp add: rest(2))
  moreover have "dropWhile (\<lambda>c. c \<noteq> lf) rest \<noteq> []" using rest(3) by (simp add: dropWhile_eq_Nil_conv)
  ultimately show "http_request_parse_www (Some got) = Some (Some \<lparr>www_method = m, www_path = p\<rparr>)"
    using h(1,3) by (simp add: http_request_parse_www_def buf)
qed

lemma upper_letters: "is_upper c \<longleftrightarrow> c \<in> set ''ABCDEFGHIJKLMNOPQRSTUVWXYZ''"
proof -
  have l: "''ABCDEFGHIJKLMNOPQRSTUVWXYZ'' = map char_of [65 ..< 91 :: nat]" by code_simp
  have "char_of (of_char c :: nat) \<in> char_of ` {65 ..< 91 :: nat}" if "(of_char c :: nat) \<in> {65 ..< 91}" using that by (rule imageI)
  then have "c \<in> char_of ` {65 ..< 91 :: nat} \<longleftrightarrow> (of_char c :: nat) \<in> {65 ..< 91}" by auto
  moreover have "(of_char c :: nat) \<in> {65 ..< 91} \<longleftrightarrow> is_upper c" unfolding is_upper_def by simp presburger
  ultimately show ?thesis unfolding l set_map set_upt by simp
qed

text \<open>C35. The parser of the file server accepts exactly the requests whose first 8192 bytes, up to a zero byte, are a method of
  capital letters, a space, a path without space or line feed, and the rest of the line, which begins with a space or
  line feed and is ended by a line feed; it then returns that method and that path. It refuses everything else with NULL.\<close>

theorem request_parse_www_iff:
  "(http_request_parse_www (Some got) = Some (Some \<lparr>www_method = m, www_path = p\<rparr>) \<longleftrightarrow>
     m \<noteq> [] \<and> set m \<subseteq> set ''ABCDEFGHIJKLMNOPQRSTUVWXYZ'' \<and> p \<noteq> [] \<and> CHR '' '' \<notin> set p \<and> CHR 0x0A \<notin> set p \<and>
     (\<exists>rest. cstr (take 8192 got) = m @ '' '' @ p @ rest \<and> rest \<noteq> [] \<and> hd rest \<in> {CHR '' '', CHR 0x0A} \<and> CHR 0x0A \<in> set rest)) \<and>
   (http_request_parse_www (Some got) = Some None \<longleftrightarrow> (\<nexists>m p. http_request_parse_www (Some got) = Some (Some \<lparr>www_method = m, www_path = p\<rparr>)))"
proof -
  have u: "list_all is_upper m \<longleftrightarrow> set m \<subseteq> set ''ABCDEFGHIJKLMNOPQRSTUVWXYZ''" unfolding list_all_iff subset_iff upper_letters by blast
  have a: "list_all is_path_char p \<longleftrightarrow> CHR '' '' \<notin> set p \<and> lf \<notin> set p" by (auto simp: list_all_iff is_path_char_def)
  have b: "\<not> is_path_char c \<longleftrightarrow> c \<in> {CHR '' '', lf}" for c by (auto simp: is_path_char_def)
  have "http_request_parse_www (Some got) = Some None \<or> (\<exists>m p. http_request_parse_www (Some got) = Some (Some \<lparr>www_method = m, www_path = p\<rparr>))"
    by (auto simp: http_request_parse_www_def Let_def)
  then show ?thesis using parse_www_iff [of got m p] unfolding LIBHTTP_REQUEST_MAX_SIZE_def a b u by auto
qed

section \<open>What is served\<close>

lemma send_data_complete:
  "list_all (\<lambda>w. 0 \<le> w) ws \<Longrightarrow> int (length data) \<le> sum_list ws \<Longrightarrow> http_send_data ws data = Some data"
proof (induction ws arbitrary: data)
  case Nil
  then show ?case by (simp add: http_send_data.simps)
next
  case (Cons w ws)
  have "http_send_data ws (drop (nat w) data) = Some (drop (nat w) data)"
    by (rule Cons.IH) (use Cons.prems sum_list_nonneg [of ws] in \<open>auto simp: list_all_iff\<close>)
  with Cons.prems show ?case by (subst http_send_data.simps) simp
qed

lemma readdir_loop_concat:
  "readdir_loop retvalue path ents =
     (if ents = [] \<or> length retvalue + length (concat (map (dir_entry path) ents)) < 1024
      then Some (retvalue @ concat (map (dir_entry path) ents)) else None)"
  by (induction ents arbitrary: retvalue) (auto simp: strcat_room_def)

text \<open>The specification of the answers, independent of the code: the media type goes by the piece of the name behind its
  last dot.\<close>

definition media_types :: "(string \<times> string) list" where
  "media_types =
     [(''html'', ''text/html''), (''htm'', ''text/html''), (''css'', ''text/css''), (''js'', ''application/javascript''),
      (''jpg'', ''image/jpeg''), (''jpeg'', ''image/jpeg''), (''png'', ''image/png''), (''pdf'', ''application/pdf'')]"

definition media_type :: "string \<Rightarrow> string" where
  "media_type name =
     (let pieces = split_fields (\<lambda>c. c = CHR ''.'') name in
      if length pieces = 1 then ''text/plain''
      else case map_of media_types (last pieces) of Some t \<Rightarrow> t | None \<Rightarrow> ''text/plain'')"

text \<open>What a path names: the body and its type, or that it is neither a file nor a directory. \<open>stat\<close> leaves its buffer
  alone when it finds nothing, and the handler goes by what that memory holds.\<close>

datatype page = Page string bytes | Missing

abbreviation missing_body :: string where
  "missing_body \<equiv> concat [''<center>'', ''<h1>ERROR 4040, NOT FOUND</h1>'', ''<hr>'', ''<p>This is a custom page</p>'', ''</center>'']"

fun page_body :: "page \<Rightarrow> bytes" where
  "page_body (Page mime body) = body"
| "page_body Missing = missing_body"

fun page_bytes :: "page \<Rightarrow> bytes" where
  "page_bytes (Page mime body) =
     ''HTTP/1.0 200 OK'' @ [cr, lf] @ ''Content-type: '' @ mime @ [cr, lf] @ ''Content-length: '' @ dec (length body) @
     [cr, lf, cr, lf] @ body"
| "page_bytes Missing =
     ''HTTP/1.0 404 Not Found'' @ [cr, lf] @ ''Content-type: text/html'' @ [cr, lf, cr, lf] @ missing_body"

definition listing :: "www_fs \<Rightarrow> string \<Rightarrow> string \<Rightarrow> string" where
  "listing fs full_path path =
     concat [concat [''<a href='', [CHR 0x22], path, ''/'', name, [CHR 0x22], ''>'', name, ''</a><p>''].
             name \<leftarrow> (case ws_readdir fs full_path of None \<Rightarrow> [] | Some names \<Rightarrow> names)]"

definition seen :: "www_fs \<Rightarrow> st_mode \<Rightarrow> string \<Rightarrow> st_mode" where
  "seen fs unwritten path = (if ws_stat fs path = None then unwritten else the (ws_stat fs path))"

definition page_of :: "www_fs \<Rightarrow> www_junk \<Rightarrow> string \<Rightarrow> string \<Rightarrow> page" where
  "page_of fs junk dir path =
     (let full = dir @ path; ind = full @ ''/index.html'' in
      case seen fs (junk_path_stat junk) full of
        S_REG \<Rightarrow> Page (media_type full) (the (ws_fopen fs full))
      | S_DIR \<Rightarrow>
          if seen fs (junk_full_path_stat junk) ind = S_REG then Page ''text/html'' (the (ws_fopen fs ind))
          else Page ''text/html'' (listing fs full path)
      | S_OTHER \<Rightarrow> Missing)"

text \<open>The conditions under which the handler stays within its buffers and can read what it serves.\<close>

definition www_sane :: "www_config \<Rightarrow> www_fs \<Rightarrow> www_junk \<Rightarrow> string \<Rightarrow> bool" where
  "www_sane cfg fs junk path \<longleftrightarrow>
     (let full = server_files_directory cfg @ path; ind = full @ ''/index.html'' in
      length ind < files_room cfg \<and> length (listing fs full path) < 1024 \<and>
      (seen fs (junk_path_stat junk) full = S_REG \<longrightarrow> ws_fopen fs full \<noteq> None) \<and>
      (seen fs (junk_full_path_stat junk) ind = S_REG \<longrightarrow> (\<exists>s. ws_fopen fs ind = Some s \<and> nonul s) \<and> junk_byte junk = nul))"

text \<open>The code against the specification, part by part.\<close>

lemma fields_one: "length (split_fields sep xs) = 1 \<longleftrightarrow> list_all (\<lambda>x. \<not> sep x) xs"
proof (induction xs)
  case (Cons x xs)
  then show ?case by (cases "split_fields sep xs") auto
qed simp

lemma fields_last: "last (split_fields sep xs) = rev (takeWhile (\<lambda>x. \<not> sep x) (rev xs))"
proof (induction xs)
  case (Cons x xs)
  show ?case
  proof (cases "list_all (\<lambda>x. \<not> sep x) xs")
    case True
    then show ?thesis by (auto simp: fields_no_sep list_all_iff takeWhile_append takeWhile_eq_all_conv)
  next
    case False
    then have "tl (split_fields sep xs) \<noteq> []" using fields_one [of sep xs] by (cases "split_fields sep xs") auto
    moreover obtain y where "y \<in> set (rev xs)" "sep y" using False by (auto simp: list_all_iff)
    then have "takeWhile (\<lambda>x. \<not> sep x) (rev xs @ [x]) = takeWhile (\<lambda>x. \<not> sep x) (rev xs)" by (intro takeWhile_append1) auto
    ultimately show ?thesis using Cons by (simp add: last_tl)
  qed
qed simp

lemma mime_type_media: "http_get_mime_type name = media_type name"
  unfolding media_type_def Let_def fields_one fields_last
  by (auto simp: http_get_mime_type_def strrchr_def media_types_def list_all_iff)

lemma dir_entries_listing: "concat (map (dir_entry path) (case ws_readdir fs full of None \<Rightarrow> [] | Some ents \<Rightarrow> ents)) = listing fs full path"
  by (simp add: listing_def dir_entry_def [abs_def])

lemma not_found_missing: "not_found_page = missing_body"
  by (simp add: not_found_page_def)

lemma stat_mode_seen: "stat_mode fs junk path = seen fs junk path"
  by (simp add: stat_mode_def seen_def split: option.split)

lemmas response_defs = ok_headers_def http_start_response_www_def http_send_header_def http_end_headers_www_def
  http_get_response_message_www_def http_send_string_def

lemma dec_status: "dec 200 = ''200''" "dec 404 = ''404''"
  by code_simp+

text \<open>C36. As its comment promises, \<open>handle_files_request\<close> answers with an existing file, with the \<open>index.html\<close> of a
  directory, with the list of a directory without one, or with 404, in that order; the type (by the extension of the
  name, for a file), the length and all bytes of the body are those of what is served. Conditions: the request is
  accepted by the parser; the path with \<open>/index.html\<close> fits into the array of the directory's name and a list into 1024
  bytes; a file that is served can be opened; an \<open>index.html\<close> has no zero byte, and the byte behind it in memory is
  zero; the calls of \<open>write\<close> do not fail and in the end take all bytes. For a path that does not exist the answer is
  404 only when the unwritten memory of the \<open>stat\<close> buffer reads as neither a file nor a directory; when it reads as a
  directory the answer is that of a directory.\<close>

theorem files_request_serves:
  assumes "http_request_parse_www chunk = Some (Some r)" and "www_sane cfg fs junk (www_path r)"
    and "list_all (\<lambda>w. 0 \<le> w) ws"
    and "int (length (page_body (page_of fs junk (server_files_directory cfg) (www_path r)))) \<le> sum_list ws"
  shows "handle_files_request cfg fs junk ws chunk = Some (page_bytes (page_of fs junk (server_files_directory cfg) (www_path r)))"
proof -
  define full where "full = server_files_directory cfg @ www_path r"
  define ind where "ind = full @ ''/index.html''"
  note send = send_data_complete [OF assms(3)]
  have sane: "length ind < files_room cfg" "length (listing fs full (www_path r)) < 1024"
    "seen fs (junk_path_stat junk) full = S_REG \<Longrightarrow> \<exists>s. ws_fopen fs full = Some s"
    "seen fs (junk_full_path_stat junk) ind = S_REG \<Longrightarrow> (\<exists>s. ws_fopen fs ind = Some s \<and> nonul s) \<and> junk_byte junk = nul"
    using assms(2) by (auto simp: www_sane_def full_def ind_def Let_def)
  have cat: "strcat_room (files_room cfg) (server_files_directory cfg) (www_path r) = Some full"
    "strcat_room (files_room cfg) full ''/index.html'' = Some ind"
    using sane(1) by (simp_all add: strcat_room_def full_def ind_def)
  have list: "(case ws_readdir fs full of None \<Rightarrow> Some [] | Some ents \<Rightarrow> readdir_loop [] (www_path r) ents) =
      Some (listing fs full (www_path r))"
    using sane(2) by (auto simp: dir_entries_listing [symmetric] readdir_loop_concat split: option.splits)
  note handler = handle_files_request_def assms(1) cat list stat_mode_seen response_defs dec_status index_string_def
    mime_type_media not_found_missing
  note page = page_of_def full_def [symmetric] ind_def [symmetric]
  show ?thesis
  proof (cases "seen fs (junk_path_stat junk) full")
    case S_DIR
    show ?thesis
    proof (cases "seen fs (junk_full_path_stat junk) ind = S_REG")
      case True
      with sane(4) obtain s where s: "ws_fopen fs ind = Some s" "nonul s" by blast
      with True S_DIR assms(4) sane(4) send show ?thesis by (simp add: handler page)
    next
      case False
      with S_DIR assms(4) send show ?thesis by (simp add: handler page)
    qed
  next
    case S_REG
    with sane(3) obtain s where "ws_fopen fs full = Some s" by blast
    with S_REG assms(4) send show ?thesis by (simp add: handler page)
  next
    case S_OTHER
    with assms(4) send show ?thesis by (simp add: handler page)
  qed
qed

definition example_www :: www_fs where
  "example_www = \<lparr>ws_stat = (\<lambda>p. if p = ''/srv/a.css'' then Some S_REG else None), ws_readdir = (\<lambda>p. None),
     ws_fopen = (\<lambda>p. if p = ''/srv/a.css'' then Some ''b{}'' else None)\<rparr>"

definition example_config :: www_config where
  "example_config = \<lparr>server_port = 8000, server_files_directory = ''/srv'', files_room = 1024, files_malloced = True,
     server_proxy_hostname = [], server_proxy_port = 80, request_handler_proxy = False\<rparr>"

definition example_junk :: www_junk where
  "example_junk = \<lparr>junk_path_stat = S_OTHER, junk_full_path_stat = S_OTHER, junk_byte = nul\<rparr>"

lemma example_parse:
  "http_request_parse_www (Some (''GET /a.css HTTP/1.0'' @ [cr, lf])) = Some (Some \<lparr>www_method = ''GET'', www_path = ''/a.css''\<rparr>)"
  "http_request_parse_www (Some (''GET /b HTTP/1.0'' @ [cr, lf])) = Some (Some \<lparr>www_method = ''GET'', www_path = ''/b''\<rparr>)"
  by (simp_all add: http_request_parse_www_def LIBHTTP_REQUEST_MAX_SIZE_def cstr_def is_upper_def is_path_char_def)

theorem files_request_serves_witness:
  "handle_files_request example_config example_www example_junk [2, 5] (Some (''GET /a.css HTTP/1.0'' @ [cr, lf])) =
    Some (page_bytes (Page ''text/css'' ''b{}'')) \<and>
   handle_files_request example_config example_www example_junk [50, 50] (Some (''GET /b HTTP/1.0'' @ [cr, lf])) = Some (page_bytes Missing)"
proof -
  have page: "page_of example_www example_junk (server_files_directory example_config) ''/a.css'' = Page ''text/css'' ''b{}''"
    "page_of example_www example_junk (server_files_directory example_config) ''/b'' = Missing"
    by (simp_all add: page_of_def seen_def example_www_def example_config_def example_junk_def media_type_def media_types_def)
  have "www_sane example_config example_www example_junk ''/a.css''" "www_sane example_config example_www example_junk ''/b''"
    by (simp_all add: www_sane_def seen_def example_www_def example_config_def example_junk_def listing_def)
  then show ?thesis
    using files_request_serves [OF example_parse(1), of example_config example_www example_junk "[2, 5]"]
      files_request_serves [OF example_parse(2), of example_config example_www example_junk "[50, 50]"] by (simp add: page)
qed

text \<open>A directory whose list needs 1024 bytes or more overflows the array, even when it has an \<open>index.html\<close>.\<close>

lemma files_request_listing_overflow:
  assumes "http_request_parse_www chunk = Some (Some r)" "full = server_files_directory cfg @ www_path r"
    and "length full < files_room cfg" "ws_stat fs full = Some S_DIR" "length (listing fs full (www_path r)) \<ge> 1024"
  shows "handle_files_request cfg fs junk ws chunk = None"
proof -
  obtain ents where ents: "ws_readdir fs full = Some ents" "ents \<noteq> []"
    using assms(5) by (cases "ws_readdir fs full"; cases "the (ws_readdir fs full)") (auto simp: listing_def)
  then have "readdir_loop [] (www_path r) ents = None" using assms(5) by (simp add: readdir_loop_concat dir_entries_listing [symmetric])
  with ents assms(1-4) show ?thesis by (simp add: handle_files_request_def strcat_room_def stat_mode_def)
qed

text \<open>A request that is not accepted is used through a NULL pointer instead of being answered.\<close>

lemma files_request_bad_request: "http_request_parse_www chunk = Some None \<Longrightarrow> handle_files_request cfg fs junk ws chunk = None"
  by (simp add: handle_files_request_def)

text \<open>A path that does not exist is answered with whatever the memory of \<open>path_stat\<close> held before.\<close>

lemma files_request_missing_depends:
  assumes "http_request_parse_www chunk = Some (Some r)" "full = server_files_directory cfg @ www_path r"
    and "length full < files_room cfg" "ws_stat fs full = None" "ws_fopen fs full = None" "junk_path_stat junk = S_REG"
  shows "handle_files_request cfg fs junk ws chunk = None"
  using assms by (simp add: handle_files_request_def strcat_room_def stat_mode_def)

section \<open>What is relayed\<close>

abbreviation from_target :: "poll \<Rightarrow> bool" where
  "from_target p \<equiv> sel_ret p \<noteq> 0 \<and> target_set p"

abbreviation from_client :: "poll \<Rightarrow> bool" where
  "from_client p \<equiv> sel_ret p \<noteq> 0 \<and> \<not> target_set p \<and> client_set p"

abbreviation stream_ends :: "poll \<Rightarrow> bool" where
  "stream_ends p \<equiv> (from_target p \<or> from_client p) \<and> read_got p = []"

lemma proxy_loop_relays:
  "list_all (\<lambda>p. read_got p \<noteq> [] \<longrightarrow> write_ret p = int (length (read_got p))) ps \<Longrightarrow>
   relay_ended r = False \<Longrightarrow>
   proxy_loop ps r =
     \<lparr>to_client = to_client r @ concat (map read_got (filter from_target (takeWhile (\<lambda>p. \<not> stream_ends p) ps))),
      to_target = to_target r @ concat (map read_got (filter from_client (takeWhile (\<lambda>p. \<not> stream_ends p) ps))),
      relay_ended = list_ex stream_ends ps\<rparr>"
  by (induction ps arbitrary: r) auto

text \<open>C37. While every \<open>write\<close> takes all bytes it is given, the proxy passes on exactly what it reads: the client gets
  all bytes read from the target and the target all bytes read from the client, each in order, up to the first
  end of one of the streams, and then the relay ends.\<close>

theorem proxy_relays:
  assumes "pos_gethostbyname os (server_proxy_hostname cfg) = Some adr"
    and "list_all (\<lambda>p. read_got p \<noteq> [] \<longrightarrow> write_ret p = int (length (read_got p))) ps"
  shows "handle_proxy_request cfg os ps = Some (pos_connect os adr (word_of_int (server_proxy_port cfg)),
     \<lparr>to_client = concat (map read_got (filter from_target (takeWhile (\<lambda>p. \<not> stream_ends p) ps))),
      to_target = concat (map read_got (filter from_client (takeWhile (\<lambda>p. \<not> stream_ends p) ps))),
      relay_ended = list_ex stream_ends ps\<rparr>)"
  by (simp add: handle_proxy_request_def assms(1) proxy_loop_relays [OF assms(2)])

theorem proxy_relays_witness:
  "handle_proxy_request example_config \<lparr>pos_gethostbyname = (\<lambda>h. Some 1), pos_connect = (\<lambda>a p. 0)\<rparr>
     [\<lparr>sel_ret = 1, target_set = False, client_set = True, read_got = ''GET'', write_ret = 3\<rparr>,
      \<lparr>sel_ret = 2, target_set = True, client_set = True, read_got = ''OK'', write_ret = 2\<rparr>,
      \<lparr>sel_ret = 1, target_set = True, client_set = False, read_got = [], write_ret = 0\<rparr>] =
   Some (0, \<lparr>to_client = ''OK'', to_target = ''GET'', relay_ended = True\<rparr>)"
  by (subst proxy_relays [of _ _ 1]) simp_all

text \<open>What a short \<open>write\<close> leaves is lost.\<close>

lemma proxy_short_write:
  "xs \<noteq> [] \<Longrightarrow>
   proxy_loop [\<lparr>sel_ret = 1, target_set = True, client_set = False, read_got = xs @ ys, write_ret = int (length xs)\<rparr>] r =
     r\<lparr>to_client := to_client r @ xs\<rparr>"
  by simp

section \<open>Connections and arguments\<close>

text \<open>Every accepted connection is handled in one child, in order, and is closed by the child and by the parent; only a
  failed \<open>fork\<close> ends the loop.\<close>

lemma serve_loop_handles:
  assumes "list_all (\<lambda>(c, pid). pid > 0) as"
  shows "[c. Child_handle c \<leftarrow> serve_loop os s as] = filter (\<lambda>c. c \<ge> 0) (map fst as)"
    and "[c. Parent_close c \<leftarrow> serve_loop os s as] = filter (\<lambda>c. c \<ge> 0) (map fst as)"
    and "[c. Child_close c \<leftarrow> serve_loop os s as] = concat (map (\<lambda>c. [s, c]) (filter (\<lambda>c. c \<ge> 0) (map fst as)))"
  using assms by (induction as) auto

text \<open>Two directories on the command line make the program free a pointer into its arguments.\<close>

lemma httpserver_files_twice: "httpserver_main room cwd [''--files'', d1, ''--files'', d2] = None"
  by (simp add: httpserver_main_def)

lemma httpserver_port_and_files:
  "n < 2 ^ 31 \<Longrightarrow> httpserver_main room cwd [''--files'', d, ''--port'', dec n] =
     Some (Run \<lparr>server_port = int n, server_files_directory = d, files_room = room d, files_malloced = False,
       server_proxy_hostname = ''inst.eecs.berkeley.edu'', server_proxy_port = 80, request_handler_proxy = False\<rparr>)"
  using strtol_dec [of n "[]"] by (simp add: httpserver_main_def)

end
