(* ===== verification/MsgMemory.thy ===== *)
theory MsgMemory
  imports KvMessage
begin

text \<open>
  Who owns the memory of the messages: \<open>kvmessage.c\<close>, \<open>libhttp.c\<close> and \<open>liburl.c\<close> of \<open>hw4/src\<close> with their calls of \<open>malloc\<close> and
  \<open>free\<close>. A block is a string or one of the structures, whose pointers are addresses of blocks; freeing or using an address without a
  block gives \<open>None\<close>. The values that the functions compute are those of the theories \<open>LibHttp\<close>, \<open>LibUrl\<close> and \<open>KvMessage\<close>.
\<close>

section \<open>Blocks\<close>

type_synonym ptr = "nat option"

datatype block = Chars string | Http_req ptr ptr | Http_res int ptr | Url_params ptr ptr ptr | Kv_req msgtype_t ptr ptr | Kv_res msgtype_t ptr

record mheap =
  blocks :: "nat \<rightharpoonup> block"
  fresh :: nat

definition malloc :: "block \<Rightarrow> mheap \<Rightarrow> nat \<times> mheap" where
  "malloc b h = (fresh h, \<lparr>blocks = (blocks h)(fresh h \<mapsto> b), fresh = fresh h + 1\<rparr>)"

fun cfree :: "ptr \<Rightarrow> mheap \<Rightarrow> mheap option" where
  "cfree None h = Some h"
| "cfree (Some p) h = (if blocks h p = None then None else Some (h\<lparr>blocks := (blocks h)(p := None)\<rparr>))"

definition store :: "nat \<Rightarrow> block \<Rightarrow> mheap \<Rightarrow> mheap option" where
  "store p b h = (if blocks h p = None then None else Some (h\<lparr>blocks := (blocks h)(p \<mapsto> b)\<rparr>))"

text \<open>A pointer to a string, and the string that it points to.\<close>

fun chars :: "mheap \<Rightarrow> ptr \<Rightarrow> string option option" where
  "chars h None = Some None"
| "chars h (Some p) = (case blocks h p of Some (Chars s) \<Rightarrow> Some (Some s) | _ \<Rightarrow> None)"

text \<open>The macro \<open>alloc_msg\<close> of \<open>kvconstants.h\<close>.\<close>

definition alloc_msg :: "string option \<Rightarrow> mheap \<Rightarrow> ptr \<times> mheap" where
  "alloc_msg msg h = (case msg of None \<Rightarrow> (None, h) | Some s \<Rightarrow> (case malloc (Chars s) h of (p, h') \<Rightarrow> (Some p, h')))"

section \<open>Releasing\<close>

fun http_request_free :: "ptr \<Rightarrow> mheap \<Rightarrow> mheap option" where
  "http_request_free None h = Some h"
| "http_request_free (Some p) h = (case blocks h p of
     Some (Http_req m u) \<Rightarrow> do { h1 \<leftarrow> cfree m h; h2 \<leftarrow> cfree u h1; cfree (Some p) h2 }
   | _ \<Rightarrow> None)"

fun http_response_free :: "ptr \<Rightarrow> mheap \<Rightarrow> mheap option" where
  "http_response_free None h = Some h"
| "http_response_free (Some p) h = (case blocks h p of
     Some (Http_res _ body) \<Rightarrow> do { h1 \<leftarrow> cfree body h; cfree (Some p) h1 }
   | _ \<Rightarrow> None)"

fun url_params_free :: "ptr \<Rightarrow> mheap \<Rightarrow> mheap option" where
  "url_params_free None h = Some h"
| "url_params_free (Some p) h = (case blocks h p of
     Some (Url_params u k v) \<Rightarrow> do { h1 \<leftarrow> cfree u h; h2 \<leftarrow> cfree k h1; h3 \<leftarrow> cfree v h2; cfree (Some p) h3 }
   | _ \<Rightarrow> None)"

fun kvrequest_free :: "ptr \<Rightarrow> mheap \<Rightarrow> mheap option" where
  "kvrequest_free None h = Some h"
| "kvrequest_free (Some p) h = (case blocks h p of
     Some (Kv_req _ k v) \<Rightarrow> do { h1 \<leftarrow> cfree k h; h2 \<leftarrow> cfree v h1; cfree (Some p) h2 }
   | _ \<Rightarrow> None)"

fun kvresponse_free :: "ptr \<Rightarrow> mheap \<Rightarrow> mheap option" where
  "kvresponse_free None h = Some h"
| "kvresponse_free (Some p) h = (case blocks h p of
     Some (Kv_res _ body) \<Rightarrow> do { h1 \<leftarrow> cfree body h; cfree (Some p) h1 }
   | _ \<Rightarrow> None)"

section \<open>Receiving\<close>

definition http_request_parse_mem :: "bytes \<Rightarrow> mheap \<Rightarrow> (ptr \<times> mheap) option" where
  "http_request_parse_mem chunk h = (case malloc (Http_req None None) h of (req, h0) \<Rightarrow>
     let error = (\<lambda>h'. map_option (Pair None) (http_request_free (Some req) h'))
     in if chunk = [] then error h0
        else let read_buffer = cstr (take LIBHTTP_MESSAGE_MAX_SIZE chunk) in
          case strchr read_buffer (CHR '' '') of
            None \<Rightarrow> error h0
          | Some read_end \<Rightarrow>
              let read_size = ptr_diff read_end read_buffer; read_start = tl read_end in
              if \<not> http_is_valid_method read_buffer read_size then error h0
              else (case malloc (Chars (take read_size read_buffer)) h0 of (m, h1) \<Rightarrow> do {
                h2 \<leftarrow> store req (Http_req (Some m) None) h1;
                (if read_start = [] \<or> hd read_start \<noteq> CHR ''/'' then error h2
                 else (case path_end (tl read_start) of
                     None \<Rightarrow> error h2
                   | Some e \<Rightarrow> (case malloc (Chars (take (ptr_diff e read_start) read_start)) h2 of (u, h3) \<Rightarrow>
                       map_option (Pair (Some req)) (store req (Http_req (Some m) (Some u)) h3))))
              }))"

definition http_response_parse_mem :: "bytes \<Rightarrow> mheap \<Rightarrow> (ptr \<times> mheap) option" where
  "http_response_parse_mem chunk h = (case malloc (Http_res 0 None) h of (res, h0) \<Rightarrow> do {
     r \<leftarrow> http_response_parse chunk;
     (case r of
        None \<Rightarrow> map_option (Pair None) (http_response_free (Some res) h0)
      | Some v \<Rightarrow> (case malloc (Chars (rs_body v)) h0 of (body, h1) \<Rightarrow>
          map_option (Pair (Some res)) (store res (Http_res (rs_status v) (Some body)) h1)))
   })"

text \<open>Setting a member of the parameters: what it has pointed to is not freed.\<close>

definition set_param_mem :: "url_field \<Rightarrow> nat \<Rightarrow> nat \<Rightarrow> mheap \<Rightarrow> mheap option" where
  "set_param_mem field value params h = (case blocks h params of
     Some (Url_params u k v) \<Rightarrow>
       (case field of
          Field_key \<Rightarrow> store params (Url_params u (Some value) v) h
        | Field_val \<Rightarrow> store params (Url_params u k (Some value)) h)
   | _ \<Rightarrow> None)"

function url_decode_loop_mem :: "string \<Rightarrow> string \<Rightarrow> nat \<Rightarrow> mheap \<Rightarrow> mheap option" where
  "url_decode_loop_mem url read_end params h =
     (if read_end = [] then Some h
      else case strchr url (CHR ''='') of
        None \<Rightarrow> Some h
      | Some key_end \<Rightarrow>
          let read_end' = (case strchr url (CHR ''&'') of None \<Rightarrow> [] | Some r \<Rightarrow> r) in
          case param_ptr url (ptr_diff key_end url) of
            None \<Rightarrow> if url = [] then Some h else url_decode_loop_mem (tl read_end') read_end' params h
          | Some field \<Rightarrow>
              if length key_end \<le> length read_end' then None
              else (case malloc (Chars (take (ptr_diff read_end' key_end - 1) (tl key_end))) h of (v, h1) \<Rightarrow>
                case set_param_mem field v params h1 of
                  None \<Rightarrow> None
                | Some h2 \<Rightarrow> url_decode_loop_mem (tl read_end') read_end' params h2))"
  by pat_completeness auto
termination
  by (relation "measure (\<lambda>(url, _). length url)") (auto dest: strchr_shorter split: option.split)

declare url_decode_loop_mem.simps [simp del]

definition url_decode_mem :: "string \<Rightarrow> mheap \<Rightarrow> (nat \<times> mheap) option" where
  "url_decode_mem url h = (case malloc (Url_params None None None) h of (params, h0) \<Rightarrow>
     (case strchr url (CHR ''?'') of
        None \<Rightarrow> (case alloc_msg (if length url > 1 then Some (tl url) else None) h0 of (u, h1) \<Rightarrow>
          map_option (Pair params) (store params (Url_params u None None) h1))
      | Some read_end \<Rightarrow>
          let pathlen = ptr_diff read_end url in
          (case alloc_msg (if pathlen > 1 then Some (take (pathlen - 1) (tl url)) else None) h0 of (u, h1) \<Rightarrow> do {
             h2 \<leftarrow> store params (Url_params u None None) h1;
             map_option (Pair params) (url_decode_loop_mem (tl read_end) read_end params h2)
           })))"

text \<open>The structures as the code reads them through their pointers.\<close>

definition read_params :: "mheap \<Rightarrow> nat \<Rightarrow> url_params option" where
  "read_params h p = (case blocks h p of
     Some (Url_params u k v) \<Rightarrow> do {
       path \<leftarrow> chars h u; key \<leftarrow> chars h k; val \<leftarrow> chars h v;
       Some \<lparr>up_path = path, up_key = key, up_val = val\<rparr>
     }
   | _ \<Rightarrow> None)"

definition read_request :: "mheap \<Rightarrow> nat \<Rightarrow> http_request option" where
  "read_request h p = (case blocks h p of
     Some (Http_req (Some m) (Some u)) \<Rightarrow>
       (case (blocks h m, blocks h u) of (Some (Chars s), Some (Chars t)) \<Rightarrow> Some \<lparr>rq_method = s, rq_path = t\<rparr> | _ \<Rightarrow> None)
   | _ \<Rightarrow> None)"

definition kvrequest_recieve_mem :: "bytes \<Rightarrow> mheap \<Rightarrow> (ptr \<times> mheap) option" where
  "kvrequest_recieve_mem chunk h = (case malloc (Kv_req EMPTY None None) h of (kvreq, h0) \<Rightarrow> do {
     (req, h1) \<leftarrow> http_request_parse_mem chunk h0;
     (case req of
        None \<Rightarrow> map_option (Pair None) (kvrequest_free (Some kvreq) h1)
      | Some rq \<Rightarrow> do {
          request \<leftarrow> read_request h1 rq;
          (params, h2) \<leftarrow> url_decode_mem (rq_path request) h1;
          ps \<leftarrow> read_params h2 params;
          (case request_type (rq_method request) ps of
             None \<Rightarrow> do {
               h3 \<leftarrow> http_request_free (Some rq) h2;
               h4 \<leftarrow> url_params_free (Some params) h3;
               map_option (Pair None) (kvrequest_free (Some kvreq) h4)
             }
           | Some type \<Rightarrow> (case blocks h2 params of
               Some (Url_params u k v) \<Rightarrow> do {
                 h3 \<leftarrow> store kvreq (Kv_req type k v) h2;
                 h4 \<leftarrow> http_request_free (Some rq) h3;
                 h5 \<leftarrow> cfree u h4;
                 map_option (Pair (Some kvreq)) (cfree (Some params) h5)
               }
             | _ \<Rightarrow> None))
        })
   })"

definition kvresponse_recieve_mem :: "bytes \<Rightarrow> mheap \<Rightarrow> (ptr \<times> mheap) option" where
  "kvresponse_recieve_mem chunk h = (case malloc (Kv_res EMPTY None) h of (kvres, h0) \<Rightarrow> do {
     (res, h1) \<leftarrow> http_response_parse_mem chunk h0;
     (case res of
        None \<Rightarrow> map_option (Pair None) (kvresponse_free (Some kvres) h1)
      | Some r \<Rightarrow> (case blocks h1 r of
          Some (Http_res status body) \<Rightarrow>
            let type = kvresponse_get_status_code status in
            if type = EMPTY then do {
              h2 \<leftarrow> http_response_free (Some r) h1;
              map_option (Pair None) (kvresponse_free (Some kvres) h2)
            } else do {
              h2 \<leftarrow> store kvres (Kv_res type body) h1;
              map_option (Pair (Some kvres)) (cfree (Some r) h2)
            }
        | _ \<Rightarrow> None))
   })"

text \<open>The messages behind the pointers that are returned.\<close>

fun kvrequest_at :: "mheap \<Rightarrow> ptr \<Rightarrow> kvrequest_t option option" where
  "kvrequest_at h None = Some None"
| "kvrequest_at h (Some p) = (case blocks h p of
     Some (Kv_req t k v) \<Rightarrow> do { key \<leftarrow> chars h k; val \<leftarrow> chars h v; Some (Some \<lparr>req_type = t, req_key = key, req_val = val\<rparr>) }
   | _ \<Rightarrow> None)"

fun kvresponse_at :: "mheap \<Rightarrow> ptr \<Rightarrow> kvresponse_t option option" where
  "kvresponse_at h None = Some None"
| "kvresponse_at h (Some p) = (case blocks h p of
     Some (Kv_res t b) \<Rightarrow> do { body \<leftarrow> chars h b; Some (Some \<lparr>res_type = t, res_body = body\<rparr>) }
   | _ \<Rightarrow> None)"

section \<open>Added blocks\<close>

text \<open>The blocks of \<open>M\<close> have been added to the heap \<open>h\<close>, whose own are untouched.\<close>

definition heap_ok :: "mheap \<Rightarrow> bool" where
  "heap_ok h \<longleftrightarrow> (\<forall>a. fresh h \<le> a \<longrightarrow> blocks h a = None)"

definition adds :: "mheap \<Rightarrow> mheap \<Rightarrow> (nat \<rightharpoonup> block) \<Rightarrow> bool" where
  "adds h h' M \<longleftrightarrow> heap_ok h \<and> blocks h' = blocks h ++ M \<and> dom M \<subseteq> {fresh h..<fresh h'} \<and> fresh h \<le> fresh h'"

lemma adds_start: "heap_ok h \<Longrightarrow> adds h h Map.empty"
  by (simp add: adds_def)

lemma adds_load: "adds h h' M \<Longrightarrow> M p = Some b \<Longrightarrow> blocks h' p = Some b"
  by (simp add: adds_def)

lemma adds_ok: "adds h h' M \<Longrightarrow> heap_ok h'"
  by (force simp: adds_def heap_ok_def map_add_def split: option.splits)

lemma adds_finite: "adds h h' M \<Longrightarrow> finite (dom M)"
  by (auto simp: adds_def intro: finite_subset)

lemma adds_malloc: "adds h h' M \<Longrightarrow> malloc b h' = (p, h'') \<Longrightarrow> adds h h'' (M(p \<mapsto> b)) \<and> M p = None \<and> fresh h'' = p + 1 \<and> fresh h' = p"
  by (auto simp: adds_def malloc_def map_add_def fun_eq_iff)

lemma adds_store: "adds h h' M \<Longrightarrow> M p \<noteq> None \<Longrightarrow> \<exists>h''. store p b h' = Some h'' \<and> adds h h'' (M(p \<mapsto> b))"
  by (auto simp: adds_def store_def map_add_def fun_eq_iff split: option.splits)

lemma adds_free: "adds h h' M \<Longrightarrow> M p \<noteq> None \<Longrightarrow> \<exists>h''. cfree (Some p) h' = Some h'' \<and> adds h h'' (M(p := None))"
  by (force simp: adds_def heap_ok_def map_add_def fun_eq_iff split: option.splits)

lemma adds_trans: "adds h h' M \<Longrightarrow> adds h' h'' N \<Longrightarrow> adds h h'' (M ++ N) \<and> dom M \<inter> dom N = {}"
  by (force simp: adds_def)

text \<open>Several blocks released one after the other.\<close>

fun free_all :: "ptr list \<Rightarrow> mheap \<Rightarrow> mheap option" where
  "free_all [] h = Some h"
| "free_all (q # qs) h = do { h1 \<leftarrow> cfree q h; free_all qs h1 }"

fun addrs :: "ptr list \<Rightarrow> nat list" where
  "addrs [] = []"
| "addrs (None # qs) = addrs qs"
| "addrs (Some a # qs) = a # addrs qs"

lemma free_all_adds:
  "adds h h' M \<Longrightarrow> distinct (addrs qs) \<Longrightarrow> set (addrs qs) \<subseteq> dom M \<Longrightarrow> \<exists>h''. free_all qs h' = Some h'' \<and> adds h h'' (M |` (- set (addrs qs)))"
proof (induction qs arbitrary: h' M)
  case (Cons q qs)
  show ?case
  proof (cases q)
    case (Some a)
    obtain h1 where h1: "cfree q h' = Some h1" "adds h h1 (M(a := None))" using adds_free [OF Cons.prems(1), of a] Cons.prems(3) Some by auto
    have "set (addrs qs) \<subseteq> dom (M(a := None))" "distinct (addrs qs)" using Cons.prems(2,3) Some by auto
    from Cons.IH [OF h1(2) this(2,1)] obtain h2 where "free_all qs h1 = Some h2" "adds h h2 ((M(a := None)) |` (- set (addrs qs)))" by blast
    moreover have "(M(a := None)) |` (- set (addrs qs)) = M |` (- set (addrs (q # qs)))" using Some by (auto simp: restrict_map_def fun_eq_iff)
    ultimately show ?thesis using h1(1) by simp
  qed (use Cons in auto)
qed (simp add: restrict_map_def)

lemma free_all_fun: "free_all [] = Some" "free_all (q # qs) = (\<lambda>h. do { h1 \<leftarrow> cfree q h; free_all qs h1 })"
  by (simp_all add: fun_eq_iff)

lemma set_addrs: "set (addrs []) = {}" "set (addrs (q # qs)) = set_option q \<union> set (addrs qs)"
  by (cases q; simp)+

lemma distinct_addrs: "distinct (addrs [])" "distinct (addrs (q # qs)) \<longleftrightarrow> distinct (addrs qs) \<and> set_option q \<inter> set (addrs qs) = {}"
  by (simp, cases q) auto

lemmas addr_sets = set_addrs distinct_addrs

lemma free_all_addrs: "free_all (map Some (addrs qs)) h = free_all qs h"
  by (induction qs arbitrary: h rule: addrs.induct) simp_all

lemma free_is_free_all:
  "blocks h p = Some (Http_req m u) \<Longrightarrow> http_request_free (Some p) h = free_all [m, u, Some p] h"
  "blocks h p = Some (Http_res n b) \<Longrightarrow> http_response_free (Some p) h = free_all [b, Some p] h"
  "blocks h p = Some (Url_params u k v) \<Longrightarrow> url_params_free (Some p) h = free_all [u, k, v, Some p] h"
  "blocks h p = Some (Kv_req t k v) \<Longrightarrow> kvrequest_free (Some p) h = free_all [k, v, Some p] h"
  "blocks h p = Some (Kv_res t b) \<Longrightarrow> kvresponse_free (Some p) h = free_all [b, Some p] h"
  by (simp_all split: bind_split)

text \<open>Where a string, or NULL, is in the added blocks.\<close>

definition chars_at :: "(nat \<rightharpoonup> block) \<Rightarrow> ptr \<Rightarrow> string option \<Rightarrow> bool" where
  "chars_at M q s \<longleftrightarrow> (case s of None \<Rightarrow> q = None | Some x \<Rightarrow> \<exists>a. q = Some a \<and> M a = Some (Chars x))"

lemma chars_at_simps [simp]: "chars_at M q None \<longleftrightarrow> q = None" "chars_at M q (Some x) \<longleftrightarrow> (\<exists>a. q = Some a \<and> M a = Some (Chars x))"
  "chars_at M None s \<longleftrightarrow> s = None"
  by (auto simp: chars_at_def split: option.splits)

lemma chars_at_chars: "adds h h' M \<Longrightarrow> chars_at M q s \<Longrightarrow> chars h' q = Some s"
  by (cases s) (auto dest: adds_load)

lemma chars_at_mono: "chars_at M q s \<Longrightarrow> \<forall>a x. M a = Some (Chars x) \<longrightarrow> N a = Some (Chars x) \<Longrightarrow> chars_at N q s"
  by (cases s) auto

lemma chars_at_addrs: "chars_at M q s \<Longrightarrow> set (addrs [q]) \<subseteq> dom M"
  by (cases s) auto

section \<open>Parsing a request\<close>

lemma request_error:
  assumes "adds h h' M" "M p = Some (Http_req m u)" "distinct (addrs [m, u, Some p])" "dom M = set (addrs [m, u, Some p])"
  shows "\<exists>h''. http_request_free (Some p) h' = Some h'' \<and> adds h h'' Map.empty"
proof -
  have "M |` (- set (addrs [m, u, Some p])) = Map.empty" using assms(4) by (metis Compl_iff domIff restrict_map_def)
  with free_all_adds [OF assms(1,3)] free_is_free_all(1) [OF adds_load [OF assms(1,2)]] assms(4) show ?thesis by auto
qed

lemma http_request_parse_adds:
  assumes "heap_ok h"
  shows "case http_request_parse chunk of
    None \<Rightarrow> \<exists>h'. http_request_parse_mem chunk h = Some (None, h') \<and> adds h h' Map.empty
  | Some rq \<Rightarrow> \<exists>h' p m u. http_request_parse_mem chunk h = Some (Some p, h') \<and> distinct [p, m, u] \<and>
      adds h h' [p \<mapsto> Http_req (Some m) (Some u), m \<mapsto> Chars (rq_method rq), u \<mapsto> Chars (rq_path rq)]"
proof -
  obtain p h0 where h0: "malloc (Http_req None None) h = (p, h0)" by fastforce
  have a0: "adds h h0 [p \<mapsto> Http_req None None]" using adds_malloc [OF adds_start [OF assms] h0] by simp
  obtain e0 where e0: "http_request_free (Some p) h0 = Some e0" "adds h e0 Map.empty" using request_error [OF a0, of p] by auto
  show ?thesis
  proof (cases "chunk = [] \<or> strchr (cstr (take LIBHTTP_MESSAGE_MAX_SIZE chunk)) (CHR '' '') = None")
    case True
    with e0 h0 show ?thesis by (auto simp: http_request_parse_def http_request_parse_mem_def Let_def)
  next
    case False
    define buf where "buf = cstr (take LIBHTTP_MESSAGE_MAX_SIZE chunk)"
    obtain e where e: "strchr buf (CHR '' '') = Some e" using False by (auto simp: buf_def)
    show ?thesis
    proof (cases "http_is_valid_method buf (ptr_diff e buf)")
      case False
      with e0 h0 e \<open>\<not> (chunk = [] \<or> _)\<close> show ?thesis
        by (simp add: http_request_parse_def http_request_parse_mem_def Let_def buf_def [symmetric])
    next
      case True
      let ?m = "take (ptr_diff e buf) buf"
      obtain m h1 where h1: "malloc (Chars ?m) h0 = (m, h1)" by fastforce
      have a1: "adds h h1 [p \<mapsto> Http_req None None, m \<mapsto> Chars ?m]" "m \<noteq> p" using adds_malloc [OF a0 h1] by (auto split: if_splits)
      obtain h2 where h2: "store p (Http_req (Some m) None) h1 = Some h2" "adds h h2 [p \<mapsto> Http_req (Some m) None, m \<mapsto> Chars ?m]"
        using adds_store [OF a1(1), of p] a1(2) by (auto simp: fun_upd_twist)
      obtain e2 where e2: "http_request_free (Some p) h2 = Some e2" "adds h e2 Map.empty" using request_error [OF h2(2), of p] a1(2) by auto
      show ?thesis
      proof (cases "tl e = [] \<or> hd (tl e) \<noteq> CHR ''/'' \<or> path_end (tl (tl e)) = None")
        case bad: True
        with e2 h0 h1 h2 e True \<open>\<not> (chunk = [] \<or> _)\<close> show ?thesis
          by (auto simp: http_request_parse_def http_request_parse_mem_def Let_def buf_def [symmetric])
      next
        case good: False
        then obtain f where f: "path_end (tl (tl e)) = Some f" by auto
        let ?u = "take (ptr_diff f (tl e)) (tl e)"
        obtain u h3 where h3: "malloc (Chars ?u) h2 = (u, h3)" by fastforce
        have a3: "adds h h3 [p \<mapsto> Http_req (Some m) None, m \<mapsto> Chars ?m, u \<mapsto> Chars ?u]" "u \<noteq> p" "u \<noteq> m"
          using adds_malloc [OF h2(2) h3] by (auto split: if_splits)
        obtain h4 where h4: "store p (Http_req (Some m) (Some u)) h3 = Some h4"
          "adds h h4 [p \<mapsto> Http_req (Some m) (Some u), m \<mapsto> Chars ?m, u \<mapsto> Chars ?u]"
          using adds_store [OF a3(1), of p] a1(2) a3(2) by (auto simp: fun_upd_twist)
        with h0 h1 h2 h3 e f True good a1(2) a3(2,3) \<open>\<not> (chunk = [] \<or> _)\<close> show ?thesis
          by (auto simp: http_request_parse_def http_request_parse_mem_def Let_def buf_def [symmetric])
      qed
    qed
  qed
qed

section \<open>Parameters\<close>

text \<open>The members that the loop sets, one after the other, and how often a member is set that has been set before.\<close>

function url_fields :: "string \<Rightarrow> string \<Rightarrow> url_field list" where
  "url_fields url read_end =
     (if read_end = [] then []
      else case strchr url (CHR ''='') of
        None \<Rightarrow> []
      | Some key_end \<Rightarrow>
          let read_end' = (case strchr url (CHR ''&'') of None \<Rightarrow> [] | Some r \<Rightarrow> r) in
          case param_ptr url (ptr_diff key_end url) of
            None \<Rightarrow> if url = [] then [] else url_fields (tl read_end') read_end'
          | Some field \<Rightarrow> field # url_fields (tl read_end') read_end')"
  by pat_completeness auto
termination
  by (relation "measure (\<lambda>(url, _). length url)") (auto dest: strchr_shorter split: option.split)

declare url_fields.simps [simp del]

fun overwritten :: "url_field set \<Rightarrow> url_field list \<Rightarrow> nat" where
  "overwritten S [] = 0"
| "overwritten S (f # fs) = (if f \<in> S then 1 else 0) + overwritten (insert f S) fs"

definition fields_set :: "url_params \<Rightarrow> url_field set" where
  "fields_set params = {f. case f of Field_key \<Rightarrow> up_key params \<noteq> None | Field_val \<Rightarrow> up_val params \<noteq> None}"

lemma fields_set_simps [simp]:
  "fields_set (set_param f v params) = insert f (fields_set params)" "Field_key \<in> fields_set params \<longleftrightarrow> up_key params \<noteq> None"
  "Field_val \<in> fields_set params \<longleftrightarrow> up_val params \<noteq> None"
  by (cases f; auto simp: fields_set_def split: url_field.splits) (auto simp: fields_set_def)

definition params_at :: "(nat \<rightharpoonup> block) \<Rightarrow> nat \<Rightarrow> url_params \<Rightarrow> nat list \<Rightarrow> bool" where
  "params_at M p params as \<longleftrightarrow> (\<exists>u k v. M p = Some (Url_params u k v) \<and> chars_at M u (up_path params) \<and> chars_at M k (up_key params) \<and>
     chars_at M v (up_val params) \<and> as = addrs [u, k, v, Some p] \<and> distinct as)"

lemma params_at_owned: "params_at M p params as \<Longrightarrow> set as \<subseteq> dom M \<and> distinct as"
  by (cases "up_path params"; cases "up_key params"; cases "up_val params") (auto simp: params_at_def)

lemma set_param_adds:
  assumes "adds h h1 M" "params_at M p params as" "malloc (Chars s) h1 = (a, h2)"
  shows "\<exists>h3 M' as'. set_param_mem f a p h2 = Some h3 \<and> adds h h3 M' \<and> params_at M' p (set_param f s params) as' \<and>
    card (dom M' - set as') = card (dom M - set as) + (if f \<in> fields_set params then 1 else 0)"
proof -
  obtain u k v where p: "M p = Some (Url_params u k v)" "chars_at M u (up_path params)" "chars_at M k (up_key params)" "chars_at M v (up_val params)"
    "as = addrs [u, k, v, Some p]" "distinct as" using assms(2) by (auto simp: params_at_def)
  have m: "adds h h2 (M(a \<mapsto> Chars s))" "M a = None" using adds_malloc [OF assms(1,3)] by auto
  have own: "set as \<subseteq> dom M" using params_at_owned [OF assms(2)] by simp
  have ne: "a \<noteq> p" "a \<notin> set as" using m(2) p(1) own by auto
  have l: "blocks h2 p = Some (Url_params u k v)" using adds_load [OF m(1), of p] p(1) ne by simp
  have fin: "finite (dom M - set as)" using adds_finite [OF assms(1)] by simp
  define new where "new = (case f of Field_key \<Rightarrow> Url_params u (Some a) v | Field_val \<Rightarrow> Url_params u k (Some a))"
  define as' where "as' = (case f of Field_key \<Rightarrow> addrs [u, Some a, v, Some p] | Field_val \<Rightarrow> addrs [u, k, Some a, Some p])"
  let ?M = "M(a \<mapsto> Chars s, p \<mapsto> new)"
  obtain h3 where h3: "store p new h2 = Some h3" "adds h h3 ?M" using adds_store [OF m(1), of p new] p(1) ne(1) by auto
  have sp: "set_param_mem f a p h2 = Some h3" using l h3(1) by (cases f) (simp_all add: set_param_mem_def new_def)
  have c: "chars_at ?M q t" if "chars_at M q t" for q t using that m(2) p(1) by (intro chars_at_mono [OF that]) auto
  have pa: "params_at ?M p (set_param f s params) as'"
    using p(2-6) ne c by (cases f) (auto simp: params_at_def new_def as'_def addr_sets simp del: addrs.simps)
  define X where "X = set (case f of Field_key \<Rightarrow> addrs [k] | Field_val \<Rightarrow> addrs [v])"
  have d: "dom ?M - set as' = (dom M - set as) \<union> X"
    using own ne p(1,5,6) m(2) by (cases f) (auto simp: as'_def X_def addr_sets simp del: addrs.simps)
  have x: "X \<subseteq> set as" using p(5) by (cases f) (auto simp: X_def addr_sets simp del: addrs.simps)
  have "card X = (if f \<in> fields_set params then 1 else 0)"
    using p(3,4) by (cases f; cases "up_key params"; cases "up_val params") (auto simp: X_def)
  moreover have "card ((dom M - set as) \<union> X) = card (dom M - set as) + card X"
    using x by (intro card_Un_disjoint [OF fin]) (auto intro: finite_subset)
  ultimately have "card (dom ?M - set as') = card (dom M - set as) + (if f \<in> fields_set params then 1 else 0)" by (simp only: d)
  with sp pa h3(2) show ?thesis by blast
qed

lemma url_decode_loop_adds:
  assumes "adds h h1 M" "params_at M p params as" "url_decode_loop url read_end params = Some params'"
  shows "\<exists>h2 M' as'. url_decode_loop_mem url read_end p h1 = Some h2 \<and> adds h h2 M' \<and> params_at M' p params' as' \<and>
    card (dom M' - set as') = card (dom M - set as) + overwritten (fields_set params) (url_fields url read_end)"
  using assms
proof (induction url read_end params arbitrary: h1 M as rule: url_decode_loop.induct)
  case (1 url read_end params)
  let ?e = "case strchr url (CHR ''&'') of None \<Rightarrow> [] | Some r \<Rightarrow> r"
  show ?case
  proof (cases "read_end = [] \<or> strchr url (CHR ''='') = None")
    case True
    then have "url_decode_loop_mem url read_end p h1 = Some h1" "url_fields url read_end = []" "params' = params"
      using "1.prems"(3) by (cases "read_end = []"; simp add: url_decode_loop_mem.simps [of url] url_fields.simps [of url] url_decode_loop.simps [of url])+
    with "1.prems"(1,2) show ?thesis by auto
  next
    case False
    then obtain k where k: "strchr url (CHR ''='') = Some k" and r: "read_end \<noteq> []" by auto
    then have url: "url \<noteq> []" using strchr_shorter by blast
    show ?thesis
    proof (cases "param_ptr url (ptr_diff k url)")
      case None
      then have "url_decode_loop (tl ?e) ?e params = Some params'" using "1.prems"(3) k r url by (simp add: url_decode_loop.simps [of url] Let_def)
      from "1.IH"(1) [OF r k refl None url "1.prems"(1,2) this] show ?thesis
        using None k r url by (simp add: url_decode_loop_mem.simps [of url] url_fields.simps [of url] Let_def)
    next
      case (Some f)
      note b = param_ptr_bound [OF k Some]
      let ?s = "take (ptr_diff ?e k - 1) (tl k)"
      have rest: "url_decode_loop (tl ?e) ?e (set_param f ?s params) = Some params'"
        using "1.prems"(3) k r Some b by (simp add: url_decode_loop.simps [of url] not_le Let_def)
      obtain a h2 where m: "malloc (Chars ?s) h1 = (a, h2)" by fastforce
      obtain h3 M' as' where s: "set_param_mem f a p h2 = Some h3" "adds h h3 M'" "params_at M' p (set_param f ?s params) as'"
        "card (dom M' - set as') = card (dom M - set as) + (if f \<in> fields_set params then 1 else 0)"
        using set_param_adds [OF "1.prems"(1,2) m] by blast
      have nb: "\<not> length k \<le> length ?e" using b by simp
      from "1.IH"(2) [OF r k refl Some nb s(2,3) rest] show ?thesis
        using Some k r m s(1,4) nb
        by (cases "f \<in> fields_set params") (simp_all add: url_decode_loop_mem.simps [of url] url_fields.simps [of url] Let_def)
    qed
  qed
qed

lemma url_decode_adds:
  assumes "heap_ok h" "url_decode url = Some params"
  shows "\<exists>h' M p as. url_decode_mem url h = Some (p, h') \<and> adds h h' M \<and> params_at M p params as \<and>
    card (dom M - set as) = (case strchr url (CHR ''?'') of None \<Rightarrow> 0 | Some read_end \<Rightarrow> overwritten {} (url_fields (tl read_end) read_end))"
proof -
  obtain p h0 where h0: "malloc (Url_params None None None) h = (p, h0)" by fastforce
  have a0: "adds h h0 [p \<mapsto> Url_params None None None]" using adds_malloc [OF adds_start [OF assms(1)] h0] by simp
  have path: "\<exists>u h1 h2 M. alloc_msg s h0 = (u, h1) \<and> store p (Url_params u None None) h1 = Some h2 \<and> adds h h2 M \<and>
    params_at M p \<lparr>up_path = s, up_key = None, up_val = None\<rparr> (addrs [u, Some p]) \<and> dom M = set (addrs [u, Some p])" for s
  proof (cases s)
    case None
    obtain h2 where "store p (Url_params None None None) h0 = Some h2" "adds h h2 [p \<mapsto> Url_params None None None]"
      using adds_store [OF a0, of p "Url_params None None None"] by auto
    with None show ?thesis by (auto simp: alloc_msg_def params_at_def intro!: exI [of _ "[p \<mapsto> Url_params None None None]"] split: if_splits)
  next
    case (Some x)
    obtain u h1 where m: "malloc (Chars x) h0 = (u, h1)" by fastforce
    have a1: "adds h h1 [p \<mapsto> Url_params None None None, u \<mapsto> Chars x]" "u \<noteq> p" using adds_malloc [OF a0 m] by (auto split: if_splits)
    obtain h2 where "store p (Url_params (Some u) None None) h1 = Some h2" "adds h h2 [p \<mapsto> Url_params (Some u) None None, u \<mapsto> Chars x]"
      using adds_store [OF a1(1), of p "Url_params (Some u) None None"] a1(2) by (auto simp: fun_upd_twist)
    with m Some a1(2) show ?thesis
      by (auto simp: alloc_msg_def params_at_def intro!: exI [of _ "[p \<mapsto> Url_params (Some u) None None, u \<mapsto> Chars x]"] split: if_splits)
  qed
  show ?thesis
  proof (cases "strchr url (CHR ''?'')")
    case None
    with path [of "if length url > 1 then Some (tl url) else None"] h0 assms(2) show ?thesis
      by (fastforce simp: url_decode_mem_def url_decode_def)
  next
    case (Some e)
    let ?s = "if ptr_diff e url > 1 then Some (take (ptr_diff e url - 1) (tl url)) else None"
    have d: "url_decode_loop (tl e) e \<lparr>up_path = ?s, up_key = None, up_val = None\<rparr> = Some params" using assms(2) Some by (simp add: url_decode_def Let_def)
    obtain u h1 h2 M where m: "alloc_msg ?s h0 = (u, h1)" "store p (Url_params u None None) h1 = Some h2" "adds h h2 M"
      "params_at M p \<lparr>up_path = ?s, up_key = None, up_val = None\<rparr> (addrs [u, Some p])" "dom M = set (addrs [u, Some p])" using path [of ?s] by blast
    obtain h3 M' as' where r: "url_decode_loop_mem (tl e) e p h2 = Some h3" "adds h h3 M'" "params_at M' p params as'"
      "card (dom M' - set as') = card (dom M - set (addrs [u, Some p])) + overwritten (fields_set \<lparr>up_path = ?s, up_key = None, up_val = None\<rparr>) (url_fields (tl e) e)"
      using url_decode_loop_adds [OF m(3,4) d] by blast
    moreover have "fields_set \<lparr>up_path = ?s, up_key = None, up_val = None\<rparr> = {}" by (auto simp: fields_set_def split: url_field.splits)
    moreover have "url_decode_mem url h = Some (p, h3)" using Some h0 m(1,2) r(1) by (simp add: url_decode_mem_def Let_def)
    ultimately show ?thesis using Some m(5) by (intro exI [of _ h3] exI [of _ M'] exI [of _ p] exI [of _ as']) simp
  qed
qed

section \<open>Messages\<close>

text \<open>How many strings a request loses: those of parameters that occur again.\<close>

definition lost_params :: "bytes \<Rightarrow> nat" where
  "lost_params chunk = (case http_request_parse chunk of
     None \<Rightarrow> 0
   | Some rq \<Rightarrow> (case strchr (rq_path rq) (CHR ''?'') of None \<Rightarrow> 0 | Some e \<Rightarrow> overwritten {} (url_fields (tl e) e)))"

lemma read_params_at: "adds h h' M \<Longrightarrow> params_at M p params as \<Longrightarrow> read_params h' p = Some params"
  by (auto simp: params_at_def read_params_def adds_load chars_at_chars)

lemma adds_only: "adds h h' M \<Longrightarrow> (\<forall>a. blocks h a \<noteq> None \<longrightarrow> blocks h' a = blocks h a) \<and> dom (blocks h') - dom (blocks h) = dom M"
proof -
  assume a: "adds h h' M"
  have "M a = None" if "blocks h a \<noteq> None" for a
  proof (rule ccontr)
    assume "M a \<noteq> None"
    then have "fresh h \<le> a" using a by (auto simp: adds_def)
    then show False using a that by (simp add: adds_def heap_ok_def)
  qed
  then show ?thesis using a by (fastforce simp: adds_def map_add_def split: option.splits)
qed

lemma kvrequest_recieve_adds:
  assumes "heap_ok h" "kvrequest_recieve chunk = Some r"
  shows "\<exists>q h' M as. kvrequest_recieve_mem chunk h = Some (q, h') \<and> adds h h' M \<and> kvrequest_at h' q = Some r \<and>
    distinct as \<and> set as \<subseteq> dom M \<and> card (dom M - set as) = lost_params chunk \<and> kvrequest_free q h' = free_all (map Some as) h'"
proof -
  obtain k h0 where h0: "malloc (Kv_req EMPTY None None) h = (k, h0)" by fastforce
  have a0: "adds h h0 [k \<mapsto> Kv_req EMPTY None None]" using adds_malloc [OF adds_start [OF assms(1)] h0] by simp
  note ok0 = adds_ok [OF a0]
  show ?thesis
  proof (cases "http_request_parse chunk")
    case None
    then obtain h1 where h1: "http_request_parse_mem chunk h0 = Some (None, h1)" "adds h0 h1 Map.empty"
      using http_request_parse_adds [OF ok0, of chunk] by auto
    have a1: "adds h h1 [k \<mapsto> Kv_req EMPTY None None]" using adds_trans [OF a0 h1(2)] by simp
    obtain h2 where "cfree (Some k) h1 = Some h2" "adds h h2 Map.empty" using adds_free [OF a1, of k] by auto
    moreover have "blocks h1 k = Some (Kv_req EMPTY None None)" using adds_load [OF a1] by simp
    ultimately show ?thesis using None h0 h1 assms(2)
      by (intro exI [of _ None] exI [of _ h2] exI [of _ Map.empty] exI [of _ "[]"]) (auto simp: kvrequest_recieve_mem_def kvrequest_recieve_def lost_params_def)
  next
    case (Some rq)
    then obtain h1 p m u where h1: "http_request_parse_mem chunk h0 = Some (Some p, h1)" "distinct [p, m, u]"
      "adds h0 h1 [p \<mapsto> Http_req (Some m) (Some u), m \<mapsto> Chars (rq_method rq), u \<mapsto> Chars (rq_path rq)]" (is "adds _ _ ?R")
      using http_request_parse_adds [OF ok0, of chunk] by auto
    have rd: "read_request h1 p = Some rq" using adds_load [OF h1(3)] h1(2) by (auto simp: read_request_def)
    obtain params where params: "url_decode (rq_path rq) = Some params" "r = map_option (\<lambda>type. \<lparr>req_type = type, req_key = up_key params, req_val = up_val params\<rparr>) (request_type (rq_method rq) params)"
      using assms(2) Some by (auto simp: kvrequest_recieve_def split: bind_splits)
    obtain h2 N q as where n: "url_decode_mem (rq_path rq) h1 = Some (q, h2)" "adds h1 h2 N" "params_at N q params as" "card (dom N - set as) = lost_params chunk"
      using url_decode_adds [OF adds_ok [OF h1(3)] params(1)] Some by (auto simp: lost_params_def)
    obtain u' k' v' where b: "N q = Some (Url_params u' k' v')" "chars_at N u' (up_path params)" "chars_at N k' (up_key params)" "chars_at N v' (up_val params)"
      "as = addrs [u', k', v', Some q]" "distinct as" using n(3) by (auto simp: params_at_def)
    define T where "T = [k \<mapsto> Kv_req EMPTY None None] ++ (?R ++ N)"
    have j: "adds h0 h2 (?R ++ N)" "dom ?R \<inter> dom N = {}" using adds_trans [OF h1(3) n(2)] by auto
    have T: "adds h h2 T" "{k} \<inter> dom (?R ++ N) = {}" using adds_trans [OF a0 j(1)] by (auto simp: T_def)
    have own: "set as \<subseteq> dom N" using params_at_owned [OF n(3)] by simp
    have dT: "dom T = insert k {p, m, u} \<union> dom N" and ne: "{k, p, m, u} \<inter> dom N = {}" "k \<notin> {p, m, u}" using j(2) T(2) by (auto simp: T_def)
    have TN: "T a = N a" if "a \<in> dom N" for a using that by (auto simp: T_def map_add_def)
    have Tp: "T p = Some (Http_req (Some m) (Some u))" "T k = Some (Kv_req EMPTY None None)" using ne h1(2) by (auto simp: T_def map_add_def split: option.splits)
    have rp: "read_params h2 q = Some params" by (rule read_params_at [OF n(2,3)])
    have pre: "kvrequest_recieve_mem chunk h = (case request_type (rq_method rq) params of
        None \<Rightarrow> do { h3 \<leftarrow> http_request_free (Some p) h2; h4 \<leftarrow> url_params_free (Some q) h3; map_option (Pair None) (kvrequest_free (Some k) h4) }
      | Some t \<Rightarrow> do { h3 \<leftarrow> store k (Kv_req t k' v') h2; h4 \<leftarrow> http_request_free (Some p) h3; h5 \<leftarrow> cfree u' h4; map_option (Pair (Some k)) (cfree (Some q) h5) })"
      using h0 h1(1) rd n(1) rp adds_load [OF n(2) b(1)] by (simp add: kvrequest_recieve_mem_def split: option.split)
    show ?thesis
    proof (cases "request_type (rq_method rq) params")
      case None
      obtain h3 where h3: "free_all [Some m, Some u, Some p] h2 = Some h3" "adds h h3 (T |` (- {m, u, p}))"
        using free_all_adds [OF T(1), of "[Some m, Some u, Some p]"] h1(2) dT by auto
      have "set as \<subseteq> dom (T |` (- {m, u, p}))" using own ne dT by auto
      then obtain h4 where h4: "free_all [u', k', v', Some q] h3 = Some h4" "adds h h4 (T |` (- {m, u, p}) |` (- set as))"
        using free_all_adds [OF h3(2), of "[u', k', v', Some q]"] b(5,6) by auto
      define T4 where "T4 = T |` (- {m, u, p}) |` (- set as)"
      have k4: "T4 k = Some (Kv_req EMPTY None None)" using Tp(2) ne own by (auto simp: T4_def restrict_map_def)
      obtain h5 where h5: "cfree (Some k) h4 = Some h5" "adds h h5 (T4(k := None))" using adds_free [OF h4(2) [folded T4_def], of k] k4 by auto
      have "q \<notin> {m, u, p}" "T q = N q" using b(1) ne(1) TN [of q] by auto
      then have l: "blocks h3 q = Some (Url_params u' k' v')" using adds_load [OF h3(2), of q] b(1) by simp
      have "kvrequest_recieve_mem chunk h = Some (None, h5)"
        using pre None free_is_free_all(1) [OF adds_load [OF T(1) Tp(1)]] h3(1) free_is_free_all(3) [OF l] h4(1) adds_load [OF h4(2) [folded T4_def] k4] h5(1) by simp
      moreover have "dom (T4(k := None)) = dom N - set as" using dT ne own by (auto simp: T4_def)
      ultimately show ?thesis using h5(2) n(4) params(2) None
        by (intro exI [of _ None] exI [of _ h5] exI [of _ "T4(k := None)"] exI [of _ "[]"]) simp
    next
      case (Some t)
      let ?K = "Kv_req t k' v'"
      obtain h3 where h3: "store k ?K h2 = Some h3" "adds h h3 (T(k \<mapsto> ?K))" using adds_store [OF T(1), of k ?K] Tp(2) by auto
      let ?F = "[Some m, Some u, Some p, u', Some q]"
      have F: "distinct (addrs ?F)" "set (addrs ?F) \<subseteq> dom (T(k \<mapsto> ?K))" using h1(2) ne own b(5,6) dT by (auto simp: addr_sets simp del: addrs.simps)
      obtain h5 where h5: "free_all ?F h3 = Some h5" "adds h h5 (T(k \<mapsto> ?K) |` (- set (addrs ?F)))" using free_all_adds [OF h3(2) F] by blast
      define T5 where "T5 = T(k \<mapsto> ?K) |` (- set (addrs ?F))"
      have l: "blocks h3 p = Some (Http_req (Some m) (Some u))" using adds_load [OF h3(2), of p] Tp(1) ne by auto
      have fr: "free_all ?F h3 = do { h4 \<leftarrow> http_request_free (Some p) h3; h5 \<leftarrow> cfree u' h4; cfree (Some q) h5 }"
        unfolding free_is_free_all(1) [OF l] by (simp add: free_all_fun del: cfree.simps free_all.simps)
      have run: "kvrequest_recieve_mem chunk h = Some (Some k, h5)"
        using pre Some h3(1) fr h5(1) by (auto simp del: http_request_free.simps cfree.simps free_all.simps split: bind_splits)
      have kF: "k \<notin> set (addrs ?F)" using ne own b(5) by (auto simp: addr_sets simp del: addrs.simps)
      have k5: "T5 k = Some ?K" using kF by (simp add: T5_def restrict_map_def)
      have c5: "chars_at T5 x s" if c: "chars_at N x s" "set (addrs [x]) \<inter> set (addrs ?F) = {}" for x s
      proof (cases s)
        case (Some y)
        then obtain a where a: "x = Some a" "N a = Some (Chars y)" using c(1) by auto
        then have "a \<noteq> k" "T a = N a" using ne(1) TN [of a] by auto
        then show ?thesis using a c(2) Some by (auto simp: T5_def)
      qed (use c in simp)
      have "set (addrs [k']) \<inter> set (addrs ?F) = {}" "set (addrs [v']) \<inter> set (addrs ?F) = {}"
        using b(5,6) own ne by (auto simp: addr_sets simp del: addrs.simps)
      then have cs: "chars_at T5 k' (up_key params)" "chars_at T5 v' (up_val params)" using c5 b(3,4) by blast+
      let ?as = "addrs [k', v', Some k]"
      have "kvrequest_at h5 (Some k) = Some r"
        using adds_load [OF h5(2) [folded T5_def] k5] chars_at_chars [OF h5(2) [folded T5_def]] cs params(2) Some by simp
      moreover have "distinct ?as" using b(5,6) own ne by (auto simp: addr_sets simp del: addrs.simps)
      moreover have "set ?as \<subseteq> dom T5" using cs k5 by (cases "up_key params"; cases "up_val params") auto
      moreover have "dom T5 - set ?as = dom N - set as" using dT ne unfolding T5_def b(5) dom_restrict dom_fun_upd set_addrs by auto
      moreover have "kvrequest_free (Some k) h5 = free_all (map Some ?as) h5"
        using free_is_free_all(4) [OF adds_load [OF h5(2) [folded T5_def] k5]] by (simp only: free_all_addrs)
      ultimately show ?thesis using run h5(2) [folded T5_def] n(4) by (intro exI [of _ "Some k"] exI [of _ h5] exI [of _ T5] exI [of _ ?as]) simp
    qed
  qed
qed

lemma http_response_parse_adds:
  assumes "heap_ok h" "http_response_parse chunk = Some r"
  shows "case r of
    None \<Rightarrow> \<exists>h'. http_response_parse_mem chunk h = Some (None, h') \<and> adds h h' Map.empty
  | Some v \<Rightarrow> \<exists>h' p b. http_response_parse_mem chunk h = Some (Some p, h') \<and> p \<noteq> b \<and>
      adds h h' [p \<mapsto> Http_res (rs_status v) (Some b), b \<mapsto> Chars (rs_body v)]"
proof -
  obtain p h0 where h0: "malloc (Http_res 0 None) h = (p, h0)" by fastforce
  have a0: "adds h h0 [p \<mapsto> Http_res 0 None]" using adds_malloc [OF adds_start [OF assms(1)] h0] by simp
  show ?thesis
  proof (cases r)
    case None
    obtain h1 where "cfree (Some p) h0 = Some h1" "adds h h1 Map.empty" using adds_free [OF a0, of p] by auto
    moreover have "blocks h0 p = Some (Http_res 0 None)" using adds_load [OF a0] by simp
    ultimately show ?thesis using None h0 assms(2) by (simp add: http_response_parse_mem_def)
  next
    case (Some v)
    obtain b h1 where m: "malloc (Chars (rs_body v)) h0 = (b, h1)" by fastforce
    have a1: "adds h h1 [p \<mapsto> Http_res 0 None, b \<mapsto> Chars (rs_body v)]" "p \<noteq> b" using adds_malloc [OF a0 m] by (auto split: if_splits)
    obtain h2 where "store p (Http_res (rs_status v) (Some b)) h1 = Some h2" "adds h h2 [p \<mapsto> Http_res (rs_status v) (Some b), b \<mapsto> Chars (rs_body v)]"
      using adds_store [OF a1(1), of p "Http_res (rs_status v) (Some b)"] a1(2) by (auto simp: fun_upd_twist)
    then show ?thesis using Some h0 m a1(2) assms(2) by (auto simp: http_response_parse_mem_def)
  qed
qed

lemma kvresponse_recieve_adds:
  assumes "heap_ok h" "kvresponse_recieve chunk = Some r"
  shows "\<exists>q h' M as. kvresponse_recieve_mem chunk h = Some (q, h') \<and> adds h h' M \<and> kvresponse_at h' q = Some r \<and>
    distinct as \<and> set as = dom M \<and> kvresponse_free q h' = free_all (map Some as) h'"
proof -
  obtain k h0 where h0: "malloc (Kv_res EMPTY None) h = (k, h0)" by fastforce
  let ?E = "[k \<mapsto> Kv_res EMPTY None]"
  have a0: "adds h h0 ?E" using adds_malloc [OF adds_start [OF assms(1)] h0] by simp
  obtain v where v: "http_response_parse chunk = Some v" using assms(2) by (auto simp: kvresponse_recieve_def split: bind_splits)
  have fail: "\<exists>h2. kvresponse_free (Some k) h1 = Some h2 \<and> adds h h2 Map.empty" if "adds h h1 ?E" for h1
    using adds_free [OF that, of k] adds_load [OF that, of k] by auto
  show ?thesis
  proof (cases v)
    case None
    obtain h1 where h1: "http_response_parse_mem chunk h0 = Some (None, h1)" "adds h0 h1 Map.empty"
      using http_response_parse_adds [OF adds_ok [OF a0] v] None by auto
    have "adds h h1 ?E" using adds_trans [OF a0 h1(2)] by simp
    then obtain h2 where h2: "kvresponse_free (Some k) h1 = Some h2" "adds h h2 Map.empty" using fail by blast
    have r: "r = None" using assms(2) v None by (simp add: kvresponse_recieve_def)
    show ?thesis using h0 h1(1) h2 r
      by (intro exI [of _ None] exI [of _ h2] exI [of _ Map.empty] exI [of _ "[]"]) (simp add: kvresponse_recieve_mem_def del: kvresponse_free.simps(2))
  next
    case (Some w)
    obtain h1 p b where h1: "http_response_parse_mem chunk h0 = Some (Some p, h1)" "p \<noteq> b" "adds h0 h1 [p \<mapsto> Http_res (rs_status w) (Some b), b \<mapsto> Chars (rs_body w)]"
      using http_response_parse_adds [OF adds_ok [OF a0] v] Some by auto
    let ?T = "[k \<mapsto> Kv_res EMPTY None, p \<mapsto> Http_res (rs_status w) (Some b), b \<mapsto> Chars (rs_body w)]"
    have T: "adds h h1 ?T" "k \<noteq> p" "k \<noteq> b" using adds_trans [OF a0 h1(3)] by (auto split: if_splits)
    have l: "blocks h1 p = Some (Http_res (rs_status w) (Some b))" using adds_load [OF T(1), of p] h1(2) by simp
    let ?t = "kvresponse_get_status_code (rs_status w)"
    show ?thesis
    proof (cases "?t = EMPTY")
      case True
      obtain h2 where h2: "free_all [Some b, Some p] h1 = Some h2" "adds h h2 (?T |` (- set (addrs [Some b, Some p])))"
        using free_all_adds [OF T(1), of "[Some b, Some p]"] h1(2) by auto
      have "?T |` (- set (addrs [Some b, Some p])) = ?E" using T(2,3) by (auto simp: restrict_map_def fun_eq_iff)
      then obtain h3 where h3: "kvresponse_free (Some k) h2 = Some h3" "adds h h3 Map.empty" using fail [of h2] h2(2) by auto
      have r: "r = None" using assms(2) v Some True by (simp add: kvresponse_recieve_def)
      have "kvresponse_recieve_mem chunk h = Some (None, h3)" using h0 h1(1) l True free_is_free_all(2) [OF l] h2(1) h3(1)
        by (simp add: kvresponse_recieve_mem_def del: kvresponse_free.simps(2) http_response_free.simps(2) free_all.simps)
      then show ?thesis using h3(2) r by (intro exI [of _ None] exI [of _ h3] exI [of _ Map.empty] exI [of _ "[]"]) simp
    next
      case False
      let ?K = "Kv_res ?t (Some b)"
      obtain h2 where h2: "store k ?K h1 = Some h2" "adds h h2 (?T(k \<mapsto> ?K))" using adds_store [OF T(1), of k ?K] T(2,3) by auto
      obtain h3 where h3: "cfree (Some p) h2 = Some h3" "adds h h3 (?T(k \<mapsto> ?K, p := None))" using adds_free [OF h2(2), of p] T(2) h1(2) by auto
      define T3 where "T3 = ?T(k \<mapsto> ?K, p := None)"
      have b: "T3 k = Some ?K" "T3 b = Some (Chars (rs_body w))" "dom T3 = set [b, k]" using T(2,3) h1(2) by (auto simp: T3_def split: if_splits)
      note ld = adds_load [OF h3(2) [folded T3_def]]
      have r: "r = Some \<lparr>res_type = ?t, res_body = Some (rs_body w)\<rparr>" using assms(2) v Some False by (simp add: kvresponse_recieve_def Let_def)
      have "kvresponse_recieve_mem chunk h = Some (Some k, h3)" using h0 h1(1) l False h2(1) h3(1) by (simp add: kvresponse_recieve_mem_def Let_def del: cfree.simps)
      moreover have "kvresponse_at h3 (Some k) = Some r" using ld [OF b(1)] ld [OF b(2)] r by simp
      moreover have "kvresponse_free (Some k) h3 = free_all (map Some [b, k]) h3" using free_is_free_all(5) [OF ld [OF b(1)]] by simp
      ultimately show ?thesis using h3(2) [folded T3_def] b(3) T(3) by (intro exI [of _ "Some k"] exI [of _ h3] exI [of _ T3] exI [of _ "[b, k]"]) simp
    qed
  qed
qed

section \<open>Properties\<close>

lemma addrs_map_Some [simp]: "addrs (map Some as) = as"
  by (induction as) simp_all

lemma recieve_total: "\<exists>r. kvrequest_recieve chunk = Some r"
proof (cases "http_request_parse chunk")
  case (Some rq)
  then show ?thesis using url_decode_total [of "rq_path rq"] by (auto simp: kvrequest_recieve_def)
qed (simp add: kvrequest_recieve_def)

text \<open>C27. The memory of messages is handled safely: whatever bytes arrive, receiving a request and releasing it afterwards frees no block
  twice and uses none that has been freed, on every path through the parsers; the request behind the pointer is the one that
  \<open>kvrequest_recieve\<close> is to return, no block of anyone else is touched, and exactly the strings of parameters that occur again in the URL
  are never freed. Receiving and releasing a response, when its body fits its announced length, leaves no block behind.\<close>

theorem messages_free_memory:
  assumes "heap_ok h"
  shows "(\<exists>q h1 h2. kvrequest_recieve_mem chunk h = Some (q, h1) \<and> kvrequest_at h1 q = kvrequest_recieve chunk \<and> kvrequest_free q h1 = Some h2 \<and>
      (\<forall>a. blocks h a \<noteq> None \<longrightarrow> blocks h1 a = blocks h a \<and> blocks h2 a = blocks h a) \<and> card (dom (blocks h2) - dom (blocks h)) = lost_params chunk) \<and>
    (kvresponse_recieve chunk \<noteq> None \<longrightarrow> (\<exists>q h1 h2. kvresponse_recieve_mem chunk h = Some (q, h1) \<and> kvresponse_at h1 q = kvresponse_recieve chunk \<and>
      kvresponse_free q h1 = Some h2 \<and> blocks h2 = blocks h))"
proof (intro conjI impI)
  obtain r where r: "kvrequest_recieve chunk = Some r" using recieve_total by blast
  obtain q h1 M as where m: "kvrequest_recieve_mem chunk h = Some (q, h1)" "adds h h1 M" "kvrequest_at h1 q = Some r" "distinct as" "set as \<subseteq> dom M"
    "card (dom M - set as) = lost_params chunk" "kvrequest_free q h1 = free_all (map Some as) h1"
    using kvrequest_recieve_adds [OF assms r] by blast
  obtain h2 where h2: "free_all (map Some as) h1 = Some h2" "adds h h2 (M |` (- set as))" using free_all_adds [OF m(2), of "map Some as"] m(4,5) by auto
  have "dom (M |` (- set as)) = dom M - set as" by auto
  then show "\<exists>q h1 h2. kvrequest_recieve_mem chunk h = Some (q, h1) \<and> kvrequest_at h1 q = kvrequest_recieve chunk \<and> kvrequest_free q h1 = Some h2 \<and>
      (\<forall>a. blocks h a \<noteq> None \<longrightarrow> blocks h1 a = blocks h a \<and> blocks h2 a = blocks h a) \<and> card (dom (blocks h2) - dom (blocks h)) = lost_params chunk"
    using m(1,3,6,7) r h2(1) adds_only [OF m(2)] adds_only [OF h2(2)] by auto
next
  assume "kvresponse_recieve chunk \<noteq> None"
  then obtain s where s: "kvresponse_recieve chunk = Some s" by blast
  obtain q h1 M as where n: "kvresponse_recieve_mem chunk h = Some (q, h1)" "adds h h1 M" "kvresponse_at h1 q = Some s" "distinct as" "set as = dom M"
    "kvresponse_free q h1 = free_all (map Some as) h1" using kvresponse_recieve_adds [OF assms s] by blast
  obtain h2 where h2: "free_all (map Some as) h1 = Some h2" "adds h h2 (M |` (- set as))" using free_all_adds [OF n(2), of "map Some as"] n(4,5) by auto
  have "M |` (- set as) = Map.empty" using n(5) by (auto simp: restrict_map_def fun_eq_iff)
  then have "blocks h2 = blocks h" using h2(2) by (simp add: adds_def)
  then show "\<exists>q h1 h2. kvresponse_recieve_mem chunk h = Some (q, h1) \<and> kvresponse_at h1 q = kvresponse_recieve chunk \<and>
      kvresponse_free q h1 = Some h2 \<and> blocks h2 = blocks h" using n(1,3,6) s h2(1) by auto
qed

definition no_blocks :: mheap where
  "no_blocks = \<lparr>blocks = Map.empty, fresh = 0\<rparr>"

theorem messages_free_memory_witness:
  "\<exists>q h1 h2. kvrequest_recieve_mem ''DELETE /?key=a '' no_blocks = Some (q, h1) \<and> kvrequest_free q h1 = Some h2 \<and> card (dom (blocks h2)) = 0"
proof -
  have "heap_ok no_blocks" by (simp add: heap_ok_def no_blocks_def)
  moreover have "lost_params ''DELETE /?key=a '' = 0" by code_simp
  moreover have "dom (blocks no_blocks) = {}" by (simp add: no_blocks_def)
  ultimately show ?thesis using messages_free_memory [of no_blocks "''DELETE /?key=a ''"] by auto
qed

text \<open>A name that occurs twice: the first value is lost.\<close>

lemma repeated_key_lost: "lost_params ''GET /?key=a&key=b '' = 1"
  by code_simp

end
