(* ===== verification/UtHash.thy ===== *)
theory UtHash
  imports Prelude "HOL-Library.Multiset"
begin

unbundle bit_operations_syntax

text \<open>
  The hash table of \<open>hw4/src/uthash.h\<close>. An element is an address; the fields of the handle inside it are functions of
  addresses, and \<open>ELMT_FROM_HH\<close> and \<open>hho\<close>, which convert between an element and its handle, are left out. The handles of one table
  share it, so that the state has one table, \<open>None\<close> when it has not been made or has been freed. A key is the list of its bytes, which
  the caller does not change while the element is in the table; its length fits an \<open>unsigned\<close>. \<open>fcn\<close> is the hash function
  chosen at compile time, Jenkins's by default, and \<open>alloc\<close> tells whether \<open>malloc\<close> gives a block of some size: where it does
  not, \<open>uthash_fatal\<close> ends the program and the result is \<open>Some None\<close>. \<open>None\<close> is a NULL pointer that is used, an index
  outside an array, a division by 0 or a loop that does not end. Bloom filters are off, as they are by default.
\<close>

section \<open>Hash functions\<close>

type_synonym hkey = "8 word list"

definition HASH_BER :: "hkey \<Rightarrow> 32 word" where
  "HASH_BER key = fold (\<lambda>c hashv. (push_bit 5 hashv + hashv) + signed_take_bit 7 (ucast c)) key 0"

definition HASH_SAX :: "hkey \<Rightarrow> 32 word" where
  "HASH_SAX key = fold (\<lambda>c hashv. hashv XOR (push_bit 5 hashv + drop_bit 2 hashv + signed_take_bit 7 (ucast c))) key 0"

definition HASH_FNV :: "hkey \<Rightarrow> 32 word" where
  "HASH_FNV key = fold (\<lambda>c hashv. (hashv XOR signed_take_bit 7 (ucast c)) * 16777619) key 2166136261"

definition HASH_OAT :: "hkey \<Rightarrow> 32 word" where
  "HASH_OAT key =
     (let h = fold (\<lambda>c hashv.
            let h1 = hashv + signed_take_bit 7 (ucast c);
                h2 = h1 + push_bit 10 h1
            in h2 XOR drop_bit 6 h2) key 0;
          h1 = h + push_bit 3 h;
          h2 = h1 XOR drop_bit 11 h1
      in h2 + push_bit 15 h2)"

definition HASH_JEN_MIX :: "32 word \<Rightarrow> 32 word \<Rightarrow> 32 word \<Rightarrow> 32 word \<times> 32 word \<times> 32 word" where
  "HASH_JEN_MIX a b c =
     (let a1 = (a - b - c) XOR drop_bit 13 c;
          b1 = (b - c - a1) XOR push_bit 8 a1;
          c1 = (c - a1 - b1) XOR drop_bit 13 b1;
          a2 = (a1 - b1 - c1) XOR drop_bit 12 c1;
          b2 = (b1 - c1 - a2) XOR push_bit 16 a2;
          c2 = (c1 - a2 - b2) XOR drop_bit 5 b2;
          a3 = (a2 - b2 - c2) XOR drop_bit 3 c2;
          b3 = (b2 - c2 - a3) XOR push_bit 10 a3;
          c3 = (c2 - a3 - b3) XOR drop_bit 15 b3
      in (a3, b3, c3))"

text \<open>The byte at an offset, shifted to its place.\<close>

definition byte_at :: "hkey \<Rightarrow> nat \<Rightarrow> nat \<Rightarrow> 32 word" where
  "byte_at key i n = push_bit n (ucast (key ! i))"

definition four_at :: "hkey \<Rightarrow> nat \<Rightarrow> 32 word" where
  "four_at key i = byte_at key i 0 + byte_at key (i + 1) 8 + byte_at key (i + 2) 16 + byte_at key (i + 3) 24"

function jen_loop :: "hkey \<Rightarrow> 32 word \<times> 32 word \<times> 32 word \<Rightarrow> hkey \<times> 32 word \<times> 32 word \<times> 32 word" where
  "jen_loop key (i, j, hashv) =
     (if 12 \<le> length key then jen_loop (drop 12 key) (HASH_JEN_MIX (i + four_at key 0) (j + four_at key 4) (hashv + four_at key 8))
      else (key, i, j, hashv))"
  by pat_completeness auto
termination by (relation "measure (\<lambda>(key, _). length key)") auto

text \<open>The cases of the \<open>switch\<close> fall through: each is reached from every longer rest.\<close>

definition HASH_JEN :: "hkey \<Rightarrow> 32 word" where
  "HASH_JEN key =
     (let (rest, i, j, hashv) = jen_loop key (0x9e3779b9, 0x9e3779b9, 0xfeedbeef);
          k = length rest;
          at = (\<lambda>n s. if n < k then byte_at rest n s else 0);
          h1 = hashv + of_nat (length key) + at 10 24 + at 9 16 + at 8 8;
          j1 = j + at 7 24 + at 6 16 + at 5 8 + at 4 0;
          i1 = i + at 3 24 + at 2 16 + at 1 8 + at 0 0
      in snd (snd (HASH_JEN_MIX i1 j1 h1)))"

definition get16bits :: "hkey \<Rightarrow> 32 word" where
  "get16bits d = byte_at d 1 8 + byte_at d 0 0"

fun sfh_loop :: "nat \<Rightarrow> hkey \<Rightarrow> 32 word \<Rightarrow> hkey \<times> 32 word" where
  "sfh_loop 0 key hashv = (key, hashv)"
| "sfh_loop (Suc len) key hashv =
     (let h1 = hashv + get16bits key;
          tmp = push_bit 11 (get16bits (drop 2 key)) XOR h1;
          h2 = push_bit 16 h1 XOR tmp
      in sfh_loop len (drop 4 key) (h2 + drop_bit 11 h2))"

definition HASH_SFH :: "hkey \<Rightarrow> 32 word" where
  "HASH_SFH key =
     (let rem = length key mod 4;
          (rest, hashv) = sfh_loop (length key div 4) key 0xcafebabe;
          h = (if rem = 3 then
                 (let h1 = hashv + get16bits rest; h2 = h1 XOR push_bit 16 h1; h3 = h2 XOR byte_at rest 2 18 in h3 + drop_bit 11 h3)
               else if rem = 2 then (let h1 = hashv + get16bits rest; h2 = h1 XOR push_bit 11 h1 in h2 + drop_bit 17 h2)
               else if rem = 1 then (let h1 = hashv + byte_at rest 0 0; h2 = h1 XOR push_bit 10 h1 in h2 + drop_bit 1 h2)
               else hashv);
          h1 = h XOR push_bit 3 h;
          h2 = h1 + drop_bit 5 h1;
          h3 = h2 XOR push_bit 4 h2;
          h4 = h3 + drop_bit 17 h3;
          h5 = h4 XOR push_bit 25 h4
      in h5 + drop_bit 6 h5)"

definition MUR_ROTL32 :: "32 word \<Rightarrow> nat \<Rightarrow> 32 word" where
  "MUR_ROTL32 x r = push_bit r x OR drop_bit (32 - r) x"

definition MUR_FMIX :: "32 word \<Rightarrow> 32 word" where
  "MUR_FMIX h =
     (let h1 = (h XOR drop_bit 16 h) * 0x85ebca6b;
          h2 = (h1 XOR drop_bit 13 h1) * 0xc2b2ae35
      in h2 XOR drop_bit 16 h2)"

definition mur_scramble :: "32 word \<Rightarrow> 32 word" where
  "mur_scramble k1 = MUR_ROTL32 (k1 * 0xcc9e2d51) 15 * 0x1b873593"

text \<open>Blocks are read as on an Intel processor; the loop leaves the bytes behind the last block.\<close>

fun mur_loop :: "nat \<Rightarrow> hkey \<Rightarrow> 32 word \<Rightarrow> hkey \<times> 32 word" where
  "mur_loop 0 key h1 = (key, h1)"
| "mur_loop (Suc nblocks) key h1 = mur_loop nblocks (drop 4 key) (MUR_ROTL32 (h1 XOR mur_scramble (four_at key 0)) 13 * 5 + 0xe6546b64)"

definition HASH_MUR :: "hkey \<Rightarrow> 32 word" where
  "HASH_MUR key =
     (let (rest, h1) = mur_loop (length key div 4) key 0xf88D5353;
          k = length key mod 4;
          at = (\<lambda>n s. if n < k then byte_at rest n s else 0);
          h2 = (if k = 0 then h1 else h1 XOR mur_scramble (at 2 16 XOR at 1 8 XOR at 0 0))
      in MUR_FMIX (h2 XOR of_nat (length key)))"

section \<open>Tables\<close>

definition HASH_INITIAL_NUM_BUCKETS :: "32 word" where
  "HASH_INITIAL_NUM_BUCKETS = 32"

definition HASH_INITIAL_NUM_BUCKETS_LOG2 :: "32 word" where
  "HASH_INITIAL_NUM_BUCKETS_LOG2 = 5"

definition HASH_BKT_CAPACITY_THRESH :: "32 word" where
  "HASH_BKT_CAPACITY_THRESH = 10"

record UT_hash_bucket =
  hh_head :: "nat option"
  bkt_count :: "32 word"
  expand_mult :: "32 word"

record UT_hash_table =
  buckets :: "UT_hash_bucket list"
  num_buckets :: "32 word"
  log2_num_buckets :: "32 word"
  num_items :: "32 word"
  tbl_tail :: "nat option"
  ideal_chain_maxlen :: "32 word"
  nonideal_items :: "32 word"
  ineff_expands :: "32 word"
  noexpand :: "32 word"

record uthash =
  uh_prev :: "nat \<Rightarrow> nat option"
  uh_next :: "nat \<Rightarrow> nat option"
  hh_prev :: "nat \<Rightarrow> nat option"
  hh_next :: "nat \<Rightarrow> nat option"
  uh_key :: "nat \<Rightarrow> hkey"
  uh_hashv :: "nat \<Rightarrow> 32 word"
  uh_head :: "nat option"
  uh_tbl :: "UT_hash_table option"

definition HASH_TO_BKT :: "32 word \<Rightarrow> 32 word \<Rightarrow> nat" where
  "HASH_TO_BKT hashv num_bkts = unat (hashv AND (num_bkts - 1))"

definition empty_bucket :: UT_hash_bucket where
  "empty_bucket = \<lparr>hh_head = None, bkt_count = 0, expand_mult = 0\<rparr>"

text \<open>\<open>sizeof\<close> of a table and of a bucket.\<close>

definition HASH_MAKE_TABLE :: "(nat \<Rightarrow> bool) \<Rightarrow> nat \<Rightarrow> UT_hash_table option" where
  "HASH_MAKE_TABLE alloc head =
     (if alloc 64 \<and> alloc (unat HASH_INITIAL_NUM_BUCKETS * 16)
      then Some \<lparr>buckets = replicate (unat HASH_INITIAL_NUM_BUCKETS) empty_bucket, num_buckets = HASH_INITIAL_NUM_BUCKETS,
        log2_num_buckets = HASH_INITIAL_NUM_BUCKETS_LOG2, num_items = 0, tbl_tail = Some head, ideal_chain_maxlen = 0,
        nonideal_items = 0, ineff_expands = 0, noexpand = 0\<rparr>
      else None)"

text \<open>A handle is put in front of the chain of a bucket.\<close>

definition link_hh :: "nat \<Rightarrow> nat option \<Rightarrow> uthash \<Rightarrow> uthash" where
  "link_hh a first s =
     (let s1 = s\<lparr>hh_next := (hh_next s)(a := first), hh_prev := (hh_prev s)(a := None)\<rparr>
      in case first of None \<Rightarrow> s1 | Some b \<Rightarrow> s1\<lparr>hh_prev := (hh_prev s1)(b := Some a)\<rparr>)"

section \<open>Expansion\<close>

definition expand_step :: "32 word \<Rightarrow> 32 word \<Rightarrow> nat \<Rightarrow> uthash \<times> UT_hash_bucket list \<times> 32 word \<Rightarrow> (uthash \<times> UT_hash_bucket list \<times> 32 word) option" where
  "expand_step ideal num_bkts thh = (\<lambda>(s, new_buckets, nonideal).
     let bkt = HASH_TO_BKT (uh_hashv s thh) num_bkts;
         newbkt = new_buckets ! bkt;
         b1 = newbkt\<lparr>bkt_count := bkt_count newbkt + 1\<rparr>
     in if length new_buckets \<le> bkt then None
        else if ideal < bkt_count b1 then
          (if ideal = 0 then None
           else Some (link_hh thh (hh_head newbkt) s,
             new_buckets[bkt := b1\<lparr>expand_mult := bkt_count b1 div ideal, hh_head := Some thh\<rparr>], nonideal + 1))
        else Some (link_hh thh (hh_head newbkt) s, new_buckets[bkt := b1\<lparr>hh_head := Some thh\<rparr>], nonideal))"

partial_function (option) expand_chain :: "32 word \<Rightarrow> 32 word \<Rightarrow> nat option \<Rightarrow> uthash \<times> UT_hash_bucket list \<times> 32 word \<Rightarrow> (uthash \<times> UT_hash_bucket list \<times> 32 word) option" where
  "expand_chain ideal num_bkts thh st = (case thh of
     None \<Rightarrow> Some st
   | Some a \<Rightarrow> (case expand_step ideal num_bkts a st of
       None \<Rightarrow> None
     | Some st' \<Rightarrow> expand_chain ideal num_bkts (hh_next (fst st) a) st'))"

fun expand_buckets :: "32 word \<Rightarrow> 32 word \<Rightarrow> UT_hash_bucket list \<Rightarrow> uthash \<times> UT_hash_bucket list \<times> 32 word \<Rightarrow> (uthash \<times> UT_hash_bucket list \<times> 32 word) option" where
  "expand_buckets ideal num_bkts [] st = Some st"
| "expand_buckets ideal num_bkts (b # bs) st = do { st' \<leftarrow> expand_chain ideal num_bkts (hh_head b) st; expand_buckets ideal num_bkts bs st' }"

definition ideal_chain :: "UT_hash_table \<Rightarrow> 32 word" where
  "ideal_chain t = drop_bit (unat (log2_num_buckets t + 1)) (num_items t) + (if num_items t AND (num_buckets t * 2 - 1) \<noteq> 0 then 1 else 0)"

definition HASH_EXPAND_BUCKETS :: "(nat \<Rightarrow> bool) \<Rightarrow> uthash \<Rightarrow> uthash option option" where
  "HASH_EXPAND_BUCKETS alloc s = do {
     t \<leftarrow> uh_tbl s;
     (if \<not> alloc (unat (2 * num_buckets t) * 16) then Some None
      else if length (buckets t) < unat (num_buckets t) \<or> 32 \<le> unat (log2_num_buckets t + 1) then None
      else do {
        let ideal = ideal_chain t;
        (s1, new_buckets, nonideal) \<leftarrow> expand_buckets ideal (num_buckets t * 2) (take (unat (num_buckets t)) (buckets t))
          (s, replicate (unat (2 * num_buckets t)) empty_bucket, 0);
        let ineff = (if drop_bit 1 (num_items t) < nonideal then ineff_expands t + 1 else 0);
        Some (Some (s1\<lparr>uh_tbl := Some (t\<lparr>ideal_chain_maxlen := ideal, nonideal_items := nonideal, num_buckets := num_buckets t * 2,
          log2_num_buckets := log2_num_buckets t + 1, buckets := new_buckets, ineff_expands := ineff,
          noexpand := if 1 < ineff then 1 else noexpand t\<rparr>)\<rparr>))
      })
   }"

section \<open>Operations\<close>

definition HASH_ADD_TO_BKT :: "(nat \<Rightarrow> bool) \<Rightarrow> uthash \<Rightarrow> nat \<Rightarrow> nat \<Rightarrow> uthash option option" where
  "HASH_ADD_TO_BKT alloc s bkt a = do {
     t \<leftarrow> uh_tbl s;
     (if length (buckets t) \<le> bkt then None
      else do {
        let b = buckets t ! bkt;
        let b1 = b\<lparr>bkt_count := bkt_count b + 1, hh_head := Some a\<rparr>;
        let s1 = (link_hh a (hh_head b) s)\<lparr>uh_tbl := Some (t\<lparr>buckets := (buckets t)[bkt := b1]\<rparr>)\<rparr>;
        (if (expand_mult b1 + 1) * HASH_BKT_CAPACITY_THRESH \<le> bkt_count b1 \<and> noexpand t \<noteq> 1
         then HASH_EXPAND_BUCKETS alloc s1 else Some (Some s1))
      })
   }"

partial_function (option) find_in_bkt :: "uthash \<Rightarrow> hkey \<Rightarrow> nat option \<Rightarrow> nat option option" where
  "find_in_bkt s key out = (case out of
     None \<Rightarrow> Some None
   | Some a \<Rightarrow> if length (uh_key s a) = length key \<and> uh_key s a = key then Some out else find_in_bkt s key (hh_next s a))"

definition HASH_FIND :: "(hkey \<Rightarrow> 32 word) \<Rightarrow> uthash \<Rightarrow> hkey \<Rightarrow> nat option option" where
  "HASH_FIND fcn s key = (case uh_head s of
     None \<Rightarrow> Some None
   | Some _ \<Rightarrow> do {
       t \<leftarrow> uh_tbl s;
       let bkt = HASH_TO_BKT (fcn key) (num_buckets t);
       (if length (buckets t) \<le> bkt then None else find_in_bkt s key (hh_head (buckets t ! bkt)))
     })"

definition HASH_ADD_KEYPTR :: "(hkey \<Rightarrow> 32 word) \<Rightarrow> (nat \<Rightarrow> bool) \<Rightarrow> uthash \<Rightarrow> hkey \<Rightarrow> nat \<Rightarrow> uthash option option" where
  "HASH_ADD_KEYPTR fcn alloc s key add = do {
     let s0 = s\<lparr>uh_next := (uh_next s)(add := None), uh_key := (uh_key s)(add := key)\<rparr>;
     linked \<leftarrow> (case uh_head s0 of
         None \<Rightarrow> (case HASH_MAKE_TABLE alloc add of
             None \<Rightarrow> Some None
           | Some t \<Rightarrow> Some (Some (s0\<lparr>uh_head := Some add, uh_prev := (uh_prev s0)(add := None), uh_tbl := Some t\<rparr>)))
       | Some _ \<Rightarrow> do {
           t \<leftarrow> uh_tbl s0;
           l \<leftarrow> tbl_tail t;
           Some (Some (s0\<lparr>uh_next := (uh_next s0)(l := Some add), uh_prev := (uh_prev s0)(add := Some l), uh_tbl := Some (t\<lparr>tbl_tail := Some add\<rparr>)\<rparr>))
         });
     (case linked of
        None \<Rightarrow> Some None
      | Some s1 \<Rightarrow> do {
          t \<leftarrow> uh_tbl s1;
          HASH_ADD_TO_BKT alloc (s1\<lparr>uh_hashv := (uh_hashv s1)(add := fcn key), uh_tbl := Some (t\<lparr>num_items := num_items t + 1\<rparr>)\<rparr>)
            (HASH_TO_BKT (fcn key) (num_buckets t)) add
        })
   }"

definition HASH_DEL_IN_BKT :: "uthash \<Rightarrow> nat \<Rightarrow> nat \<Rightarrow> uthash option" where
  "HASH_DEL_IN_BKT s bkt del = do {
     t \<leftarrow> uh_tbl s;
     (if length (buckets t) \<le> bkt then None
      else do {
        let b = buckets t ! bkt;
        let b1 = b\<lparr>bkt_count := bkt_count b - 1, hh_head := (if hh_head b = Some del then hh_next s del else hh_head b)\<rparr>;
        let s1 = (case hh_prev s del of None \<Rightarrow> s | Some p \<Rightarrow> s\<lparr>hh_next := (hh_next s)(p := hh_next s del)\<rparr>);
        let s2 = (case hh_next s1 del of None \<Rightarrow> s1 | Some n \<Rightarrow> s1\<lparr>hh_prev := (hh_prev s1)(n := hh_prev s1 del)\<rparr>);
        Some (s2\<lparr>uh_tbl := Some (t\<lparr>buckets := (buckets t)[bkt := b1]\<rparr>)\<rparr>)
      })
   }"

definition HASH_DELETE :: "uthash \<Rightarrow> nat \<Rightarrow> uthash option" where
  "HASH_DELETE s del = do {
     head \<leftarrow> uh_head s;
     t \<leftarrow> uh_tbl s;
     (if uh_prev s del = None \<and> uh_next s del = None then Some (s\<lparr>uh_head := None, uh_tbl := None\<rparr>)
      else do {
        let t1 = (if Some del = tbl_tail t then t\<lparr>tbl_tail := uh_prev s del\<rparr> else t);
        let s1 = (case uh_prev s del of None \<Rightarrow> s\<lparr>uh_head := uh_next s del\<rparr> | Some p \<Rightarrow> s\<lparr>uh_next := (uh_next s)(p := uh_next s del)\<rparr>);
        let s2 = (case uh_next s1 del of None \<Rightarrow> s1 | Some n \<Rightarrow> s1\<lparr>uh_prev := (uh_prev s1)(n := uh_prev s1 del)\<rparr>);
        s3 \<leftarrow> HASH_DEL_IN_BKT (s2\<lparr>uh_tbl := Some t1\<rparr>) (HASH_TO_BKT (uh_hashv s2 del) (num_buckets t1)) del;
        t3 \<leftarrow> uh_tbl s3;
        Some (s3\<lparr>uh_tbl := Some (t3\<lparr>num_items := num_items t3 - 1\<rparr>)\<rparr>)
      })
   }"

definition HASH_REPLACE :: "(hkey \<Rightarrow> 32 word) \<Rightarrow> (nat \<Rightarrow> bool) \<Rightarrow> uthash \<Rightarrow> hkey \<Rightarrow> nat \<Rightarrow> (uthash \<times> nat option) option option" where
  "HASH_REPLACE fcn alloc s key add = do {
     replaced \<leftarrow> HASH_FIND fcn s key;
     s1 \<leftarrow> (case replaced of None \<Rightarrow> Some s | Some r \<Rightarrow> HASH_DELETE s r);
     res \<leftarrow> HASH_ADD_KEYPTR fcn alloc s1 key add;
     Some (map_option (\<lambda>s2. (s2, replaced)) res)
   }"

definition HASH_CLEAR :: "uthash \<Rightarrow> uthash option" where
  "HASH_CLEAR s = (if uh_head s = None then Some s else do { t \<leftarrow> uh_tbl s; Some (s\<lparr>uh_head := None, uh_tbl := None\<rparr>) })"

definition HASH_CNT :: "uthash \<Rightarrow> 32 word option" where
  "HASH_CNT s = (if uh_head s = None then Some 0 else map_option num_items (uh_tbl s))"

definition HASH_OVERHEAD :: "uthash \<Rightarrow> nat option" where
  "HASH_OVERHEAD s = (if uh_head s = None then Some 0 else map_option (\<lambda>t. unat (num_items t) * 56 + unat (num_buckets t) * 16 + 64) (uh_tbl s))"

text \<open>\<open>HASH_ITER\<close> has read the next element before the body runs, which may delete the element.\<close>

partial_function (option) hash_iter :: "(nat \<Rightarrow> uthash \<times> 'r \<Rightarrow> (uthash \<times> 'r) option) \<Rightarrow> nat option \<Rightarrow> nat option \<Rightarrow> uthash \<times> 'r \<Rightarrow> (uthash \<times> 'r) option" where
  "hash_iter body el tmp st = (case el of
     None \<Rightarrow> Some st
   | Some a \<Rightarrow> (case body a st of
       None \<Rightarrow> None
     | Some st' \<Rightarrow> hash_iter body tmp (case tmp of None \<Rightarrow> None | Some b \<Rightarrow> uh_next (fst st') b) st'))"

definition HASH_ITER :: "(nat \<Rightarrow> uthash \<times> 'r \<Rightarrow> (uthash \<times> 'r) option) \<Rightarrow> uthash \<times> 'r \<Rightarrow> (uthash \<times> 'r) option" where
  "HASH_ITER body st = (let head = uh_head (fst st) in hash_iter body head (case head of None \<Rightarrow> None | Some a \<Rightarrow> uh_next (fst st) a) st)"

text \<open>The integrity check: a walk along links that counts and compares the links back; \<open>False\<close> is \<open>HASH_OOPS\<close>.\<close>

partial_function (option) fsck_walk :: "(nat \<Rightarrow> nat option) \<Rightarrow> (nat \<Rightarrow> nat option) \<Rightarrow> nat option \<Rightarrow> nat option \<Rightarrow> 32 word \<Rightarrow> 32 word option" where
  "fsck_walk pv nx prev thh c = (case thh of
     None \<Rightarrow> Some c
   | Some a \<Rightarrow> if prev \<noteq> pv a then None else fsck_walk pv nx (Some a) (nx a) (c + 1))"

fun fsck_buckets :: "uthash \<Rightarrow> UT_hash_bucket list \<Rightarrow> 32 word \<Rightarrow> 32 word option" where
  "fsck_buckets s [] c = Some c"
| "fsck_buckets s (b # bs) c = do {
     n \<leftarrow> fsck_walk (hh_prev s) (hh_next s) None (hh_head b) 0;
     (if bkt_count b \<noteq> n then None else fsck_buckets s bs (c + n))
   }"

definition HASH_FSCK :: "uthash \<Rightarrow> bool" where
  "HASH_FSCK s = (case uh_head s of
     None \<Rightarrow> True
   | Some a \<Rightarrow> (case uh_tbl s of
       None \<Rightarrow> False
     | Some t \<Rightarrow> length (buckets t) = unat (num_buckets t) \<and> fsck_buckets s (buckets t) 0 = Some (num_items t) \<and>
         fsck_walk (uh_prev s) (uh_next s) None (Some a) 0 = Some (num_items t)))"

section \<open>Linked lists with NULL at both ends\<close>

fun path :: "(nat \<Rightarrow> nat option) \<Rightarrow> nat option \<Rightarrow> nat list \<Rightarrow> nat option \<Rightarrow> bool" where
  "path nx p [] q \<longleftrightarrow> p = q"
| "path nx p (a # as) q \<longleftrightarrow> p = Some a \<and> path nx (nx a) as q"

fun rback :: "(nat \<Rightarrow> nat option) \<Rightarrow> nat option \<Rightarrow> nat list \<Rightarrow> bool" where
  "rback pv t [] \<longleftrightarrow> True"
| "rback pv t (a # as) \<longleftrightarrow> pv a = t \<and> rback pv (Some a) as"

definition dpath :: "(nat \<Rightarrow> nat option) \<Rightarrow> (nat \<Rightarrow> nat option) \<Rightarrow> nat option \<Rightarrow> nat list \<Rightarrow> bool" where
  "dpath nx pv p as \<longleftrightarrow> distinct as \<and> path nx p as None \<and> rback pv None as"

lemma path_append: "path nx p (as @ bs) q \<longleftrightarrow> (\<exists>r. path nx p as r \<and> path nx r bs q)"
  by (induction as arbitrary: p) auto

lemma rback_append: "rback pv t (as @ bs) \<longleftrightarrow> rback pv t as \<and> rback pv (if as = [] then t else Some (last as)) bs"
  by (induction as arbitrary: t) auto

lemma path_cong: "\<forall>a \<in> set as. nx' a = nx a \<Longrightarrow> path nx' p as q = path nx p as q"
  by (induction as arbitrary: p) auto

lemma rback_cong: "\<forall>a \<in> set as. pv' a = pv a \<Longrightarrow> rback pv' t as = rback pv t as"
  by (induction as arbitrary: t) auto

lemma path_upd [simp]: "a \<notin> set as \<Longrightarrow> path (nx(a := v)) p as q = path nx p as q"
  by (rule path_cong) auto

lemma rback_upd [simp]: "a \<notin> set as \<Longrightarrow> rback (pv(a := v)) t as = rback pv t as"
  by (rule rback_cong) auto

lemma dpath_cong: "\<forall>a \<in> set as. nx' a = nx a \<and> pv' a = pv a \<Longrightarrow> dpath nx' pv' p as = dpath nx pv p as"
  using path_cong [of as nx' nx] rback_cong [of as pv' pv] by (simp add: dpath_def)

lemma dpath_Nil [simp]: "dpath nx pv p [] \<longleftrightarrow> p = None"
  by (simp add: dpath_def)

lemma path_first: "path nx p as q \<Longrightarrow> p = (if as = [] then q else Some (hd as))"
  by (cases as) auto

lemma dpath_hd: "dpath nx pv p as \<Longrightarrow> as \<noteq> [] \<Longrightarrow> p = Some (hd as)"
  using path_first [of nx p as None] by (simp add: dpath_def)

lemma path_last: "path nx p as q \<Longrightarrow> as \<noteq> [] \<Longrightarrow> nx (last as) = q"
  by (induction as arbitrary: p) auto

lemma path_relast:
  assumes "path nx p as q" "as \<noteq> []" "distinct as"
  shows "path (nx(last as := r)) p as r"
proof -
  obtain bs a where "as = bs @ [a]" using assms(2) by (cases as rule: rev_cases) auto
  then show ?thesis using assms by (auto simp: path_append)
qed

lemma dpath_push:
  assumes "dpath nx pv p as" "a \<notin> set as"
  shows "dpath (nx(a := p)) (case p of None \<Rightarrow> pv(a := None) | Some b \<Rightarrow> pv(a := None, b := Some a)) (Some a) (a # as)"
  using assms by (cases as) (auto simp: dpath_def)

lemma dpath_snoc:
  assumes "dpath nx pv p as" "a \<notin> set as" "as \<noteq> []"
  shows "dpath (nx(a := None, last as := Some a)) (pv(a := Some (last as))) p (as @ [a])"
proof -
  have l: "last as \<noteq> a" using assms(2,3) last_in_set by blast
  have "path (nx(last as := Some a)) p as (Some a)" using assms(1,3) by (intro path_relast) (auto simp: dpath_def)
  then have "path (nx(last as := Some a, a := None)) p as (Some a)" using assms(2) by simp
  then have "path (nx(a := None, last as := Some a)) p as (Some a)" using l by (simp add: fun_upd_twist)
  then show ?thesis using assms l by (auto simp: dpath_def path_append rback_append)
qed

lemma dpath_remove:
  assumes "dpath nx pv p (as @ a # bs)"
  shows "dpath (case pv a of None \<Rightarrow> nx | Some l \<Rightarrow> nx(l := nx a)) (case nx a of None \<Rightarrow> pv | Some r \<Rightarrow> pv(r := pv a))
    (if p = Some a then nx a else p) (as @ bs)"
proof -
  have p: "path nx p as (Some a)" "path nx (nx a) bs None" "rback pv None as" "rback pv (Some a) bs" "distinct (as @ a # bs)"
    "pv a = (if as = [] then None else Some (last as))" using assms by (auto simp: dpath_def path_append rback_append)
  have bs: "nx a = (if bs = [] then None else Some (hd bs))" using path_first [OF p(2)] .
  have l: "last as \<notin> set bs" if "as \<noteq> []" using p(5) last_in_set [OF that] by auto
  have r: "hd bs \<notin> set as" if "bs \<noteq> []" using p(5) hd_in_set [OF that] by auto
  let ?n = "case pv a of None \<Rightarrow> nx | Some l \<Rightarrow> nx(l := nx a)"
  let ?v = "case nx a of None \<Rightarrow> pv | Some r \<Rightarrow> pv(r := pv a)"
  have "path ?n (nx a) bs None" using p(2,6) l by (cases "as = []") auto
  moreover have "path ?n (if p = Some a then nx a else p) as (nx a)"
  proof (cases "as = []")
    case False
    then have "p \<noteq> Some a" using path_first [OF p(1)] p(5) hd_in_set [of as] by auto
    then show ?thesis using path_relast [OF p(1) False, of "nx a"] p(5,6) False by simp
  qed (use p in simp)
  moreover have "rback ?v None as" using p(3) bs r by (cases "bs = []") auto
  moreover have "rback ?v (if as = [] then None else Some (last as)) bs"
    using p(4-6) bs by (cases bs) auto
  ultimately show ?thesis using p(5) by (auto simp: dpath_def path_append rback_append)
qed

section \<open>Bucket numbers\<close>

lemma unat_mod_word:
  assumes "unat nb = 2 ^ k" "k < 32"
  shows "unat ((w :: 32 word) AND (nb - 1)) = unat w mod 2 ^ k"
proof -
  have "nb = word_of_nat (unat nb)" by simp
  also have "\<dots> = 2 ^ k" using assms(1) by simp
  finally have "nb - 1 = mask k" by (simp add: mask_eq_exp_minus_1)
  then show ?thesis by (simp only: take_bit_eq_mask [symmetric] unsigned_take_bit_eq) (simp add: take_bit_eq_mod)
qed

lemma HASH_TO_BKT_mod: "unat nb = 2 ^ k \<Longrightarrow> k < 32 \<Longrightarrow> HASH_TO_BKT w nb = unat w mod 2 ^ k"
  by (simp add: HASH_TO_BKT_def unat_mod_word)

lemma unat_double: "unat (nb :: 32 word) = 2 ^ k \<Longrightarrow> k < 31 \<Longrightarrow> unat (nb * 2) = 2 ^ Suc k \<and> unat (2 * nb) = 2 ^ Suc k"
proof -
  assume a: "unat nb = 2 ^ k" "k < 31"
  have "(2 :: nat) ^ Suc k < 2 ^ 32" using a(2) by (intro power_strict_increasing) auto
  then have "unat (nb * 2) = 2 ^ Suc k" using a(1) by (simp add: unat_word_ariths)
  then show ?thesis by (simp add: mult.commute)
qed

section \<open>Buckets\<close>

text \<open>The chains of the buckets hold the elements of \<open>bs\<close>, bucket by bucket.\<close>

definition bkts_ok :: "uthash \<Rightarrow> UT_hash_bucket list \<Rightarrow> nat list list \<Rightarrow> bool" where
  "bkts_ok s bk bs \<longleftrightarrow> length bk = length bs \<and>
     (\<forall>i < length bs. dpath (hh_next s) (hh_prev s) (hh_head (bk ! i)) (bs ! i) \<and> bkt_count (bk ! i) = of_nat (length (bs ! i)))"

definition same_app :: "uthash \<Rightarrow> uthash \<Rightarrow> bool" where
  "same_app s s' \<longleftrightarrow> uh_prev s' = uh_prev s \<and> uh_next s' = uh_next s \<and> uh_key s' = uh_key s \<and> uh_hashv s' = uh_hashv s \<and> uh_head s' = uh_head s"

lemma same_app_refl [simp]: "same_app s s"
  by (simp add: same_app_def)

lemma same_app_trans: "same_app s t \<Longrightarrow> same_app t u \<Longrightarrow> same_app s u"
  by (simp add: same_app_def)

lemma link_hh_fields:
  "same_app s (link_hh a first s)" "uh_tbl (link_hh a first s) = uh_tbl s" "hh_next (link_hh a first s) = (hh_next s)(a := first)"
  "hh_prev (link_hh a first s) = (case first of None \<Rightarrow> (hh_prev s)(a := None) | Some b \<Rightarrow> (hh_prev s)(a := None, b := Some a))"
  by (auto simp: link_hh_def same_app_def Let_def split: option.splits)

lemma nth_in_concat: "i < length bs \<Longrightarrow> a \<in> set (bs ! i) \<Longrightarrow> a \<in> set (concat bs)"
  by (auto intro!: bexI [of _ "bs ! i"])

lemma in_concat_nth: "a \<in> set (concat bs) \<Longrightarrow> \<exists>j < length bs. a \<in> set (bs ! j)"
  by (simp add: set_concat) (metis in_set_conv_nth)

lemma distinct_concat_nth:
  "distinct (concat bs) \<Longrightarrow> i < length bs \<Longrightarrow> j < length bs \<Longrightarrow> i < j \<Longrightarrow> set (bs ! i) \<inter> set (bs ! j) = {}"
proof (induction bs arbitrary: i j)
  case (Cons b bs)
  obtain j' where j: "j = Suc j'" using Cons.prems(4) by (cases j) auto
  show ?case
  proof (cases i)
    case 0
    have "set (bs ! j') \<subseteq> set (concat bs)" using nth_in_concat [of j' bs] Cons.prems(3) j by auto
    then show ?thesis using Cons.prems(1) 0 j by auto
  next
    case (Suc i')
    then show ?thesis using Cons.IH [of i' j'] Cons.prems j by auto
  qed
qed simp

lemma distinct_concat_apart:
  "distinct (concat bs) \<Longrightarrow> i < length bs \<Longrightarrow> j < length bs \<Longrightarrow> i \<noteq> j \<Longrightarrow> set (bs ! i) \<inter> set (bs ! j) = {}"
  using distinct_concat_nth [of bs i j] distinct_concat_nth [of bs j i] by (cases "i < j") (auto simp: Int_commute)

lemma link_bkts:
  assumes "bkts_ok s bk bs" "distinct (concat bs)" "a \<notin> set (concat bs)" "i < length bs"
    "hh_head b = Some a" "bkt_count b = bkt_count (bk ! i) + 1"
  shows "bkts_ok (link_hh a (hh_head (bk ! i)) s) (bk[i := b]) (bs[i := a # bs ! i])"
proof -
  let ?s = "link_hh a (hh_head (bk ! i)) s"
  have p: "dpath (hh_next s) (hh_prev s) (hh_head (bk ! j)) (bs ! j)" "bkt_count (bk ! j) = of_nat (length (bs ! j))" if "j < length bs" for j
    using assms(1) that by (simp_all add: bkts_ok_def)
  have a: "a \<notin> set (bs ! j)" if "j < length bs" for j using assms(3) nth_in_concat [OF that] by blast
  have "dpath (hh_next ?s) (hh_prev ?s) (Some a) (a # bs ! i)" using dpath_push [OF p(1) a, OF assms(4,4)] by (simp add: link_hh_fields)
  moreover have "dpath (hh_next ?s) (hh_prev ?s) (hh_head (bk ! j)) (bs ! j)" if j: "j < length bs" "j \<noteq> i" for j
  proof -
    have "hh_head (bk ! i) = (if bs ! i = [] then None else Some (hd (bs ! i)))"
      using p(1) [OF assms(4)] path_first [of "hh_next s" "hh_head (bk ! i)" "bs ! i" None] by (simp add: dpath_def)
    moreover have "hd (bs ! i) \<notin> set (bs ! j)" if "bs ! i \<noteq> []"
      using distinct_concat_apart [OF assms(2) j(1) assms(4) j(2)] hd_in_set [OF that] by auto
    ultimately have "dpath (hh_next ?s) (hh_prev ?s) (hh_head (bk ! j)) (bs ! j) = dpath (hh_next s) (hh_prev s) (hh_head (bk ! j)) (bs ! j)"
      using a [OF j(1)] by (intro dpath_cong) (auto simp: link_hh_fields split: option.splits)
    with p(1) [OF j(1)] show ?thesis by simp
  qed
  moreover have "bkt_count b = of_nat (Suc (length (bs ! i)))" using assms(6) p(2) [OF assms(4)] by simp
  ultimately show ?thesis using assms(1,4,5) p(2) by (auto simp: bkts_ok_def nth_list_update)
qed

text \<open>Each element is in the bucket of its hash value.\<close>

definition placed :: "nat \<Rightarrow> uthash \<Rightarrow> nat list list \<Rightarrow> bool" where
  "placed k s bs \<longleftrightarrow> length bs = 2 ^ k \<and> (\<forall>i < length bs. \<forall>a \<in> set (bs ! i). unat (uh_hashv s a) mod 2 ^ k = i)"

lemma placed_push:
  assumes "placed k s bs"
  shows "placed k s (bs[unat (uh_hashv s a) mod 2 ^ k := a # bs ! (unat (uh_hashv s a) mod 2 ^ k)])"
  using assms by (auto simp: placed_def nth_list_update)

lemma mset_push: "i < length bs \<Longrightarrow> mset (concat (bs[i := a # bs ! i])) = add_mset a (mset (concat bs))"
  by (induction bs arbitrary: i) (auto simp: less_Suc_eq_0_disj split: nat.splits)

lemma expand_step_ok:
  assumes "bkts_ok s bk bs" "placed k s bs" "distinct (a # concat bs)" "unat nb = 2 ^ k" "k < 32" "ideal \<noteq> 0"
  shows "\<exists>s' bk' bs' m'. expand_step ideal nb a (s, bk, m) = Some (s', bk', m') \<and> bkts_ok s' bk' bs' \<and> placed k s' bs' \<and>
    mset (concat bs') = add_mset a (mset (concat bs)) \<and> same_app s s' \<and> uh_tbl s' = uh_tbl s \<and> (\<forall>x. x \<noteq> a \<longrightarrow> hh_next s' x = hh_next s x)"
proof -
  define i where "i = unat (uh_hashv s a) mod 2 ^ k"
  have i: "HASH_TO_BKT (uh_hashv s a) nb = i" "i < length bs" "length bk = length bs"
    using HASH_TO_BKT_mod [OF assms(4,5)] assms(1,2) by (simp_all add: i_def placed_def bkts_ok_def)
  let ?s = "link_hh a (hh_head (bk ! i)) s"
  obtain b m' where b: "expand_step ideal nb a (s, bk, m) = Some (?s, bk[i := b], m')" "hh_head b = Some a" "bkt_count b = bkt_count (bk ! i) + 1"
  proof (cases "ideal < bkt_count (bk ! i) + 1")
    case True
    show ?thesis
      by (rule that [of "(bk ! i)\<lparr>bkt_count := bkt_count (bk ! i) + 1, expand_mult := (bkt_count (bk ! i) + 1) div ideal, hh_head := Some a\<rparr>" "m + 1"])
        (use True i assms(6) in \<open>simp_all add: expand_step_def Let_def\<close>)
  next
    case False
    show ?thesis by (rule that [of "(bk ! i)\<lparr>bkt_count := bkt_count (bk ! i) + 1, hh_head := Some a\<rparr>" m]) (use False i in \<open>simp_all add: expand_step_def Let_def\<close>)
  qed
  have "bkts_ok ?s (bk[i := b]) (bs[i := a # bs ! i])" using link_bkts [OF assms(1) _ _ i(2) b(2,3)] assms(3) by simp
  moreover have h: "uh_hashv ?s = uh_hashv s" using link_hh_fields(1) [of s a] by (simp add: same_app_def)
  have "placed k ?s (bs[i := a # bs ! i])" using placed_push [OF assms(2), of a, folded i_def] unfolding placed_def h .
  moreover have "\<forall>x. x \<noteq> a \<longrightarrow> hh_next ?s x = hh_next s x" "same_app s ?s" "uh_tbl ?s = uh_tbl s" by (simp_all add: link_hh_fields)
  ultimately show ?thesis using b(1) mset_push [OF i(2), of a] by blast
qed

lemma expand_chain_ok:
  assumes "path (hh_next s) p as None" "bkts_ok s bk bs" "placed k s bs" "distinct (as @ concat bs)" "unat nb = 2 ^ k" "k < 32" "ideal \<noteq> 0"
  shows "\<exists>s' bk' bs' m'. expand_chain ideal nb p (s, bk, m) = Some (s', bk', m') \<and> bkts_ok s' bk' bs' \<and> placed k s' bs' \<and>
    mset (concat bs') = mset as + mset (concat bs) \<and> same_app s s' \<and> uh_tbl s' = uh_tbl s \<and> (\<forall>x. x \<notin> set as \<longrightarrow> hh_next s' x = hh_next s x)"
  using assms
proof (induction as arbitrary: p s bk bs m)
  case Nil
  then show ?case by (subst expand_chain.simps) (auto intro!: exI [of _ bs])
next
  case (Cons a as)
  obtain s1 bk1 bs1 m1 where s: "expand_step ideal nb a (s, bk, m) = Some (s1, bk1, m1)" "bkts_ok s1 bk1 bs1" "placed k s1 bs1"
    "mset (concat bs1) = add_mset a (mset (concat bs))" "same_app s s1" "uh_tbl s1 = uh_tbl s" "\<forall>x. x \<noteq> a \<longrightarrow> hh_next s1 x = hh_next s x"
    using expand_step_ok [OF Cons.prems(2,3) _ Cons.prems(5-7), of a m] Cons.prems(4) by auto
  have "mset (as @ concat bs1) = mset ((a # as) @ concat bs)" using s(4) by simp
  then have d: "distinct (as @ concat bs1)" using Cons.prems(4) mset_eq_imp_distinct_iff by blast
  have "path (hh_next s1) (hh_next s a) as None = path (hh_next s) (hh_next s a) as None"
    using s(7) Cons.prems(4) by (intro path_cong) auto
  then have "path (hh_next s1) (hh_next s a) as None" using Cons.prems(1) by simp
  from Cons.IH [OF this s(2,3) d Cons.prems(5-7), of m1] obtain s' bk' bs' m' where
    r: "expand_chain ideal nb (hh_next s a) (s1, bk1, m1) = Some (s', bk', m')" "bkts_ok s' bk' bs'" "placed k s' bs'"
      "mset (concat bs') = mset as + mset (concat bs1)" "same_app s1 s'" "uh_tbl s' = uh_tbl s1" "\<forall>x. x \<notin> set as \<longrightarrow> hh_next s' x = hh_next s1 x"
    by blast
  have "expand_chain ideal nb p (s, bk, m) = Some (s', bk', m')" using Cons.prems(1) s(1) r(1) by (subst expand_chain.simps) simp
  then show ?case using r(2-7) s(4-7) same_app_trans [OF s(5) r(5)]
    by (intro exI [of _ s'] exI [of _ bk'] exI [of _ bs'] exI [of _ m']) simp
qed

lemma expand_buckets_ok:
  assumes "length obk = length obs" "\<forall>i < length obs. path (hh_next s) (hh_head (obk ! i)) (obs ! i) None"
    "bkts_ok s bk bs" "placed k s bs" "distinct (concat obs @ concat bs)" "unat nb = 2 ^ k" "k < 32" "ideal \<noteq> 0"
  shows "\<exists>s' bk' bs' m'. expand_buckets ideal nb obk (s, bk, m) = Some (s', bk', m') \<and> bkts_ok s' bk' bs' \<and> placed k s' bs' \<and>
    mset (concat bs') = mset (concat obs) + mset (concat bs) \<and> same_app s s' \<and> uh_tbl s' = uh_tbl s"
  using assms
proof (induction obk obs arbitrary: s bk bs m rule: list_induct2)
  case Nil
  then show ?case by (auto intro!: exI [of _ bs])
next
  case (Cons b obk as obs)
  have p: "path (hh_next s) (hh_head b) as None" using Cons.prems(1) by fastforce
  have d: "distinct (as @ concat bs)" using Cons.prems(4) by auto
  obtain s1 bk1 bs1 m1 where s: "expand_chain ideal nb (hh_head b) (s, bk, m) = Some (s1, bk1, m1)" "bkts_ok s1 bk1 bs1" "placed k s1 bs1"
    "mset (concat bs1) = mset as + mset (concat bs)" "same_app s s1" "uh_tbl s1 = uh_tbl s" "\<forall>x. x \<notin> set as \<longrightarrow> hh_next s1 x = hh_next s x"
    using expand_chain_ok [OF p Cons.prems(2,3) d Cons.prems(5-7), of m] by blast
  have "mset (concat obs @ concat bs1) = mset (concat (as # obs) @ concat bs)" using s(4) by (simp add: ac_simps)
  then have d1: "distinct (concat obs @ concat bs1)" using Cons.prems(4) mset_eq_imp_distinct_iff by blast
  have "path (hh_next s1) (hh_head (obk ! i)) (obs ! i) None" if i: "i < length obs" for i
  proof -
    have "set as \<inter> set (obs ! i) = {}" using nth_in_concat [OF i] Cons.prems(4) by auto
    then have "path (hh_next s1) (hh_head (obk ! i)) (obs ! i) None = path (hh_next s) (hh_head (obk ! i)) (obs ! i) None"
      using s(7) by (intro path_cong) auto
    with Cons.prems(1) [rule_format, of "Suc i"] i show ?thesis by simp
  qed
  with Cons.IH [OF _ s(2,3) d1 Cons.prems(5-7), of m1] obtain s' bk' bs' m' where
    r: "expand_buckets ideal nb obk (s1, bk1, m1) = Some (s', bk', m')" "bkts_ok s' bk' bs'" "placed k s' bs'"
      "mset (concat bs') = mset (concat obs) + mset (concat bs1)" "same_app s1 s'" "uh_tbl s' = uh_tbl s1" by blast
  then show ?case using s same_app_trans [OF s(5) r(5)]
    by (intro exI [of _ s'] exI [of _ bk'] exI [of _ bs'] exI [of _ m']) (simp add: ac_simps)
qed

section \<open>The invariant\<close>

text \<open>The elements \<open>es\<close> in the order they were added, the table, and the chains of its \<open>2 ^ k\<close> buckets.\<close>

definition chains_ok :: "(hkey \<Rightarrow> 32 word) \<Rightarrow> uthash \<Rightarrow> UT_hash_table \<Rightarrow> nat list \<Rightarrow> nat \<Rightarrow> nat list list \<Rightarrow> bool" where
  "chains_ok fcn s t es k bs \<longleftrightarrow> 5 \<le> k \<and> k < 31 \<and> unat (num_buckets t) = 2 ^ k \<and> unat (log2_num_buckets t) = k \<and>
     bkts_ok s (buckets t) bs \<and> placed k s bs \<and> mset (concat bs) = mset es \<and> distinct es \<and> length es < 2 ^ 32 \<and>
     (\<forall>a \<in> set es. uh_hashv s a = fcn (uh_key s a))"

definition table_ok :: "(hkey \<Rightarrow> 32 word) \<Rightarrow> uthash \<Rightarrow> UT_hash_table \<Rightarrow> nat list \<Rightarrow> nat \<Rightarrow> nat list list \<Rightarrow> bool" where
  "table_ok fcn s t es k bs \<longleftrightarrow> chains_ok fcn s t es k bs \<and> num_items t = of_nat (length es)"

definition uh_ok :: "(hkey \<Rightarrow> 32 word) \<Rightarrow> uthash \<Rightarrow> nat list \<Rightarrow> bool" where
  "uh_ok fcn s es \<longleftrightarrow> dpath (uh_next s) (uh_prev s) (uh_head s) es \<and>
     (es \<noteq> [] \<longrightarrow> (\<exists>t k bs. uh_tbl s = Some t \<and> tbl_tail t = Some (last es) \<and> table_ok fcn s t es k bs))"

text \<open>What finding, counting, iterating and checking need: all but the pointer to the last element.\<close>

definition uh_sound :: "(hkey \<Rightarrow> 32 word) \<Rightarrow> uthash \<Rightarrow> nat list \<Rightarrow> bool" where
  "uh_sound fcn s es \<longleftrightarrow> dpath (uh_next s) (uh_prev s) (uh_head s) es \<and> (es \<noteq> [] \<longrightarrow> (\<exists>t k bs. uh_tbl s = Some t \<and> table_ok fcn s t es k bs))"

lemma uh_ok_sound: "uh_ok fcn s es \<Longrightarrow> uh_sound fcn s es"
  by (auto simp: uh_ok_def uh_sound_def)

lemma ideal_pos:
  assumes "n \<noteq> (0 :: 32 word)" "unat nb = 2 ^ k" "k < 31" "unat (l :: 32 word) = k" "5 \<le> k"
  shows "drop_bit (unat (l + 1)) n + (if n AND (nb * 2 - 1) \<noteq> 0 then 1 else 0) \<noteq> 0" (is "?i \<noteq> 0")
proof -
  define D where "D = (2 :: nat) ^ Suc k"
  have l: "unat (l + 1) = Suc k" using assms(3,4) by (simp add: unat_word_ariths)
  have a: "unat (n AND (nb * 2 - 1)) = unat n mod D"
    using unat_double [OF assms(2,3)] assms(3) unfolding D_def by (intro unat_mod_word) auto
  have d: "unat (drop_bit (unat (l + 1)) n) = unat n div D" unfolding D_def by (simp only: l unat_drop_bit_eq) (simp only: drop_bit_eq_div)
  have n: "unat n \<noteq> 0" using assms(1) by (simp add: unat_eq_0)
  have m: "unat n = unat n div D * D + unat n mod D" by simp
  show ?thesis
  proof (cases "n AND (nb * 2 - 1) = 0")
    case True
    then have "unat (drop_bit (unat (l + 1)) n) \<noteq> 0" using a d n m by auto
    then have "drop_bit (unat (l + 1)) n \<noteq> 0" by (auto simp only: unat_0)
    then show ?thesis using True by simp
  next
    case False
    have "unat n div D \<le> unat n div 2 ^ 6" unfolding D_def using assms(5) by (intro div_le_mono2 power_increasing) auto
    also have "unat n < 2 ^ LENGTH(32)" by (rule unsigned_less)
    then have "unat n div 2 ^ 6 < 2 ^ 26" by simp
    finally have "unat ?i = unat n div D + 1" using False d by (simp add: unat_word_ariths)
    then show ?thesis by (auto simp only: unat_0)
  qed
qed

section \<open>What the operations do\<close>

lemma chains_ok_app: "same_app s s' \<Longrightarrow> bkts_ok s' (buckets t') bs' \<Longrightarrow> placed k' s' bs' \<Longrightarrow> mset (concat bs') = mset es \<Longrightarrow>
    unat (num_buckets t') = 2 ^ k' \<Longrightarrow> unat (log2_num_buckets t') = k' \<Longrightarrow> 5 \<le> k' \<Longrightarrow> k' < 31 \<Longrightarrow>
    chains_ok fcn s t es k bs \<Longrightarrow> chains_ok fcn s' t' es k' bs'"
  by (simp add: chains_ok_def same_app_def)

lemma empty_bkts: "bkts_ok s (replicate n empty_bucket) (replicate n [])"
  by (simp add: bkts_ok_def empty_bucket_def)

lemma expand_ok:
  assumes "uh_tbl s = Some t" "chains_ok fcn s t es k bs" "num_items t \<noteq> 0" "\<forall>n. alloc n \<longrightarrow> n < 2 ^ 35"
  shows "HASH_EXPAND_BUCKETS alloc s = Some None \<or> (\<exists>s' t' bs'. HASH_EXPAND_BUCKETS alloc s = Some (Some s') \<and> uh_tbl s' = Some t' \<and>
    tbl_tail t' = tbl_tail t \<and> num_items t' = num_items t \<and> same_app s s' \<and> chains_ok fcn s' t' es (Suc k) bs')"
proof (cases "alloc (unat (2 * num_buckets t) * 16)")
  case False
  with assms(1) show ?thesis by (simp add: HASH_EXPAND_BUCKETS_def)
next
  case True
  have k: "5 \<le> k" "k < 31" "unat (num_buckets t) = 2 ^ k" "unat (log2_num_buckets t) = k" "bkts_ok s (buckets t) bs" "placed k s bs"
    "mset (concat bs) = mset es" "distinct es"
    using assms(2) by (simp_all add: chains_ok_def)
  have nb: "unat (num_buckets t * 2) = 2 ^ Suc k" "unat (2 * num_buckets t) = 2 ^ Suc k" using unat_double [OF k(3,2)] by simp_all
  have "(2 :: nat) ^ Suc k * 16 < 2 ^ 35" using assms(4) True nb(2) by metis
  then have "(2 :: nat) ^ (Suc k + 4) < 2 ^ 35" by (simp add: power_add)
  from power_less_imp_less_exp [OF _ this] have k30: "k < 30" by simp
  have l: "unat (log2_num_buckets t + 1) = Suc k" using k(2,4) by (simp add: unat_word_ariths)
  note ip = ideal_pos [OF assms(3) k(3,2,4,1), folded ideal_chain_def]
  have len: "length (buckets t) = 2 ^ k" "length bs = 2 ^ k" using k(5,6) by (simp_all add: bkts_ok_def placed_def)
  let ?n = "2 ^ Suc k :: nat"
  have old: "length (buckets t) = length bs" "\<forall>i < length bs. path (hh_next s) (hh_head (buckets t ! i)) (bs ! i) None"
    using k(5) by (simp_all add: bkts_ok_def dpath_def)
  have pl: "placed (Suc k) s (replicate ?n [])" by (simp add: placed_def del: power_Suc)
  have "distinct (concat bs)" using k(7,8) mset_eq_imp_distinct_iff by blast
  then have d: "distinct (concat bs @ concat (replicate ?n []))" by (simp del: power_Suc replicate.simps)
  obtain s' bk' bs' m' where e: "expand_buckets (ideal_chain t) (num_buckets t * 2) (buckets t) (s, replicate ?n empty_bucket, 0) = Some (s', bk', m')"
    "bkts_ok s' bk' bs'" "placed (Suc k) s' bs'" "mset (concat bs') = mset (concat bs)" "same_app s s'" "uh_tbl s' = uh_tbl s"
    using expand_buckets_ok [OF old empty_bkts pl d nb(1) _ ip, of 0] k(2) by (auto simp del: power_Suc replicate.simps)
  have x: "HASH_EXPAND_BUCKETS alloc s = Some (Some (s'\<lparr>uh_tbl := Some (t\<lparr>ideal_chain_maxlen := ideal_chain t, nonideal_items := m', num_buckets := num_buckets t * 2,
      log2_num_buckets := log2_num_buckets t + 1, buckets := bk', ineff_expands := (if drop_bit 1 (num_items t) < m' then ineff_expands t + 1 else 0),
      noexpand := (if 1 < (if drop_bit 1 (num_items t) < m' then ineff_expands t + 1 else 0) then 1 else noexpand t)\<rparr>)\<rparr>))"
    (is "_ = Some (Some (s'\<lparr>uh_tbl := Some ?t\<rparr>))")
    using assms(1) True l k(2,3) len(1) nb(2) e(1) by (simp add: HASH_EXPAND_BUCKETS_def Let_def del: power_Suc replicate.simps split del: if_split)
  let ?s = "s'\<lparr>uh_tbl := Some ?t\<rparr>"
  have ok: "bkts_ok ?s (buckets ?t) bs'" "placed (Suc k) ?s bs'" "same_app s ?s" using e(2,3,5) by (simp_all add: bkts_ok_def placed_def same_app_def)
  have ml: "mset (concat bs') = mset es" "unat (num_buckets ?t) = 2 ^ Suc k" "unat (log2_num_buckets ?t) = Suc k" "5 \<le> Suc k" "Suc k < 31"
    "num_items ?t = num_items t" "tbl_tail ?t = tbl_tail t" using e(4) k(1,7) k30 l nb(1) by simp_all
  have "chains_ok fcn ?s ?t es (Suc k) bs'" by (rule chains_ok_app [OF ok(3,1,2) ml(1-5) assms(2)])
  moreover have "uh_tbl ?s = Some ?t" by simp
  ultimately show ?thesis using x ok(3) ml(6,7) by blast
qed

lemma of_nat_pos: "0 < n \<Longrightarrow> n < 2 ^ 32 \<Longrightarrow> (of_nat n :: 32 word) \<noteq> 0"
  by (auto simp: word_of_nat_eq_0_iff dest: nat_dvd_not_less)

lemma add_to_bkt_ok:
  assumes "uh_tbl s = Some t" "5 \<le> k" "k < 31" "unat (num_buckets t) = 2 ^ k" "unat (log2_num_buckets t) = k"
    "bkts_ok s (buckets t) bs" "placed k s bs" "mset (concat bs) = mset es" "distinct (es @ [a])" "length es + 1 < 2 ^ 32"
    "num_items t \<noteq> 0 \<or> set (buckets t) \<subseteq> {empty_bucket}" "\<forall>x \<in> set (es @ [a]). uh_hashv s x = fcn (uh_key s x)" "\<forall>n. alloc n \<longrightarrow> n < 2 ^ 35"
  shows "\<exists>r. HASH_ADD_TO_BKT alloc s (HASH_TO_BKT (uh_hashv s a) (num_buckets t)) a = Some r \<and> (r = None \<or> (\<exists>s' t' k' bs'. r = Some s' \<and>
    uh_tbl s' = Some t' \<and> tbl_tail t' = tbl_tail t \<and> num_items t' = num_items t \<and> same_app s s' \<and> chains_ok fcn s' t' (es @ [a]) k' bs'))"
proof -
  define i where "i = unat (uh_hashv s a) mod 2 ^ k"
  have i: "HASH_TO_BKT (uh_hashv s a) (num_buckets t) = i" "i < length bs" "length (buckets t) = length bs"
    using HASH_TO_BKT_mod [OF assms(4)] assms(3,6,7) by (simp_all add: i_def placed_def bkts_ok_def)
  define b where "b = (buckets t ! i)\<lparr>bkt_count := bkt_count (buckets t ! i) + 1, hh_head := Some a\<rparr>"
  define t1 where "t1 = t\<lparr>buckets := (buckets t)[i := b]\<rparr>"
  define s0 where "s0 = link_hh a (hh_head (buckets t ! i)) s"
  define s1 where "s1 = s0\<lparr>uh_tbl := Some t1\<rparr>"
  let ?bs = "bs[i := a # bs ! i]"
  have d: "distinct (concat bs)" "a \<notin> set (concat bs)" using assms(8,9) mset_eq_imp_distinct_iff [OF assms(8)] mset_eq_setD [OF assms(8)] by simp_all
  have "bkts_ok s0 ((buckets t)[i := b]) ?bs" unfolding s0_def by (rule link_bkts [OF assms(6) d i(2)]) (simp_all add: b_def)
  then have B: "bkts_ok s1 (buckets t1) ?bs" by (simp add: s1_def t1_def bkts_ok_def)
  have S: "same_app s s1" using link_hh_fields(1) [of s a] by (simp add: s1_def s0_def same_app_def)
  then have P: "placed k s1 ?bs" using placed_push [OF assms(7), of a, folded i_def] unfolding placed_def same_app_def by simp
  have M: "mset (concat ?bs) = mset (es @ [a])" using mset_push [OF i(2), of a] assms(8) by simp
  have T: "chains_ok fcn s1 t1 (es @ [a]) k ?bs"
    using assms(2-5,9,10,12) S B P M by (simp add: chains_ok_def t1_def same_app_def)
  have E: "HASH_ADD_TO_BKT alloc s i a = (if (expand_mult b + 1) * HASH_BKT_CAPACITY_THRESH \<le> bkt_count b \<and> noexpand t \<noteq> 1
      then HASH_EXPAND_BUCKETS alloc s1 else Some (Some s1))"
    using assms(1) i by (simp add: HASH_ADD_TO_BKT_def b_def t1_def s1_def s0_def Let_def)
  have t1: "uh_tbl s1 = Some t1" "tbl_tail t1 = tbl_tail t" "num_items t1 = num_items t" by (simp_all add: s1_def t1_def)
  show ?thesis
  proof (cases "(expand_mult b + 1) * HASH_BKT_CAPACITY_THRESH \<le> bkt_count b \<and> noexpand t \<noteq> 1")
    case True
    have "num_items t1 \<noteq> 0"
    proof (rule ccontr)
      assume "\<not> num_items t1 \<noteq> 0"
      then have "set (buckets t) \<subseteq> {empty_bucket}" "buckets t ! i \<in> set (buckets t)" using assms(11) t1(3) i(2,3) by simp_all
      then have "buckets t ! i = empty_bucket" by blast
      then show False using True by (simp add: b_def empty_bucket_def HASH_BKT_CAPACITY_THRESH_def word_le_nat_alt)
    qed
    with expand_ok [OF t1(1) T _ assms(13)] E True i(1) t1(2,3) S same_app_trans [OF S] show ?thesis by (simp; blast)
  next
    case False
    with E i(1) t1 S T show ?thesis by (intro exI [of _ "Some s1"]) auto
  qed
qed


text \<open>The hash value and the key of an element that is not in the table may change.\<close>

lemma bkts_placed_new:
  assumes "table_ok fcn s t es k bs" "a \<notin> set es" "hh_next s' = hh_next s" "hh_prev s' = hh_prev s"
    "uh_hashv s' = (uh_hashv s)(a := v)" "uh_key s' = (uh_key s)(a := key)" "v = fcn key"
  shows "bkts_ok s' (buckets t) bs" "placed k s' bs" "\<forall>x \<in> set (es @ [a]). uh_hashv s' x = fcn (uh_key s' x)"
proof -
  have t: "bkts_ok s (buckets t) bs" "placed k s bs" "mset (concat bs) = mset es" "\<forall>x \<in> set es. uh_hashv s x = fcn (uh_key s x)"
    using assms(1) by (simp_all add: table_ok_def chains_ok_def)
  show "bkts_ok s' (buckets t) bs" using t(1) assms(3,4) by (simp add: bkts_ok_def)
  have "a \<notin> set (bs ! i)" if "i < length bs" for i using nth_in_concat [OF that] mset_eq_setD [OF t(3)] assms(2) by blast
  then show "placed k s' bs" using t(2) assms(5) by (auto simp: placed_def)
  show "\<forall>x \<in> set (es @ [a]). uh_hashv s' x = fcn (uh_key s' x)" using t(4) assms(2,5-7) by auto
qed

lemma add_ok:
  assumes "uh_ok fcn s es" "a \<notin> set es" "length es + 1 < 2 ^ 32" "\<forall>n. alloc n \<longrightarrow> n < 2 ^ 35"
  shows "\<exists>r. HASH_ADD_KEYPTR fcn alloc s key a = Some r \<and> (r = None \<or> (\<exists>s'. r = Some s' \<and> uh_ok fcn s' (es @ [a]) \<and> uh_key s' = (uh_key s)(a := key)))"
proof (cases "es = []")
  case True
  then have h: "uh_head s = None" using assms(1) by (simp add: uh_ok_def)
  show ?thesis
  proof (cases "HASH_MAKE_TABLE alloc a")
    case None
    with h show ?thesis by (simp add: HASH_ADD_KEYPTR_def)
  next
    case (Some t)
    define t1 where "t1 = t\<lparr>num_items := num_items t + 1\<rparr>"
    define s1 where "s1 = s\<lparr>uh_next := (uh_next s)(a := None), uh_key := (uh_key s)(a := key), uh_head := Some a,
      uh_prev := (uh_prev s)(a := None), uh_hashv := (uh_hashv s)(a := fcn key), uh_tbl := Some t1\<rparr>"
    have t: "unat (num_buckets t1) = 2 ^ 5" "unat (log2_num_buckets t1) = 5" "buckets t1 = replicate (2 ^ 5) empty_bucket"
      "num_items t1 = of_nat (length [] + 1)" "tbl_tail t1 = Some a"
      using Some by (auto simp: t1_def HASH_MAKE_TABLE_def HASH_INITIAL_NUM_BUCKETS_def HASH_INITIAL_NUM_BUCKETS_LOG2_def split: if_splits)
    have p: "uh_tbl s1 = Some t1" "5 \<le> (5 :: nat)" "5 < (31 :: nat)" by (simp_all add: s1_def)
    have q: "bkts_ok s1 (buckets t1) (replicate (2 ^ 5) [])" unfolding t(3) by (rule empty_bkts)
    have u: "placed 5 s1 (replicate (2 ^ 5) [])" "mset (concat (replicate (2 ^ 5) [])) = mset []" "distinct ([] @ [a])" "length [] + 1 < 2 ^ 32"
      "num_items t1 \<noteq> 0 \<or> set (buckets t1) \<subseteq> {empty_bucket}" "\<forall>x \<in> set ([] @ [a]). uh_hashv s1 x = fcn (uh_key s1 x)" using t(4) by (simp_all add: placed_def s1_def)
    from add_to_bkt_ok [OF p t(1,2) q u(1-6) assms(4)] obtain r where
      r: "HASH_ADD_TO_BKT alloc s1 (HASH_TO_BKT (uh_hashv s1 a) (num_buckets t1)) a = Some r"
        "r = None \<or> (\<exists>s' t' k' bs'. r = Some s' \<and> uh_tbl s' = Some t' \<and> tbl_tail t' = tbl_tail t1 \<and> num_items t' = num_items t1 \<and> same_app s1 s' \<and>
          chains_ok fcn s' t' ([] @ [a]) k' bs')"
      by blast
    have "HASH_ADD_KEYPTR fcn alloc s key a = Some r"
      using h Some r(1) by (simp add: HASH_ADD_KEYPTR_def t1_def s1_def)
    then show ?thesis using r(2) t(4,5) True by (auto simp: uh_ok_def table_ok_def same_app_def s1_def dpath_def)
  qed
next
  case False
  obtain t k bs where t: "uh_tbl s = Some t" "tbl_tail t = Some (last es)" "table_ok fcn s t es k bs" using assms(1) False by (auto simp: uh_ok_def)
  have dp: "dpath (uh_next s) (uh_prev s) (uh_head s) es" using assms(1) by (simp add: uh_ok_def)
  have hd': "uh_head s = Some (hd es)" by (rule dpath_hd [OF dp False])
  define t1 where "t1 = t\<lparr>tbl_tail := Some a, num_items := num_items t + 1\<rparr>"
  define s1 where "s1 = s\<lparr>uh_key := (uh_key s)(a := key), uh_next := (uh_next s)(a := None, last es := Some a),
    uh_prev := (uh_prev s)(a := Some (last es)), uh_hashv := (uh_hashv s)(a := fcn key), uh_tbl := Some t1\<rparr>"
  have n: "bkts_ok s1 (buckets t1) bs" "placed k s1 bs" "\<forall>x \<in> set (es @ [a]). uh_hashv s1 x = fcn (uh_key s1 x)"
    using bkts_placed_new [OF t(3) assms(2), of s1 "fcn key" key] by (simp_all add: s1_def t1_def)
  have k: "5 \<le> k" "k < 31" "unat (num_buckets t1) = 2 ^ k" "unat (log2_num_buckets t1) = k" "mset (concat bs) = mset es" "distinct (es @ [a])"
    "num_items t1 = of_nat (length es + 1)" using t(3) assms(2) by (simp_all add: table_ok_def chains_ok_def t1_def)
  have "uh_tbl s1 = Some t1" by (simp add: s1_def)
  moreover have "num_items t1 \<noteq> 0 \<or> set (buckets t1) \<subseteq> {empty_bucket}" unfolding k(7) by (rule disjI1, rule of_nat_pos [OF _ assms(3)]) simp
  ultimately obtain r where
    r: "HASH_ADD_TO_BKT alloc s1 (HASH_TO_BKT (uh_hashv s1 a) (num_buckets t1)) a = Some r"
      "r = None \<or> (\<exists>s' t' k' bs'. r = Some s' \<and> uh_tbl s' = Some t' \<and> tbl_tail t' = tbl_tail t1 \<and> num_items t' = num_items t1 \<and> same_app s1 s' \<and>
        chains_ok fcn s' t' (es @ [a]) k' bs')"
    using add_to_bkt_ok [OF _ k(1-4) n(1,2) k(5,6) assms(3) _ n(3) assms(4)] by blast
  have "HASH_ADD_KEYPTR fcn alloc s key a = Some r"
    using hd' t(1,2) r(1) by (simp add: HASH_ADD_KEYPTR_def t1_def s1_def)
  moreover have "dpath (uh_next s1) (uh_prev s1) (uh_head s1) (es @ [a])" using dpath_snoc [OF dp assms(2) False] by (simp add: s1_def)
  ultimately show ?thesis using r(2) k(7) by (auto simp: uh_ok_def table_ok_def same_app_def s1_def t1_def)
qed


lemma mset_update: "i < length bs \<Longrightarrow> mset (concat (bs[i := c])) + mset (bs ! i) = mset (concat bs) + mset c"
  by (induction bs arbitrary: i) (auto simp: less_Suc_eq_0_disj ac_simps split: nat.splits)

lemma remove_bkts:
  assumes "bkts_ok s bk bs" "distinct (concat bs)" "i < length bs" "bs ! i = xs @ a # ys"
    "hh_next s' = (case hh_prev s a of None \<Rightarrow> hh_next s | Some l \<Rightarrow> (hh_next s)(l := hh_next s a))"
    "hh_prev s' = (case hh_next s a of None \<Rightarrow> hh_prev s | Some r \<Rightarrow> (hh_prev s)(r := hh_prev s a))"
    "hh_head b = (if hh_head (bk ! i) = Some a then hh_next s a else hh_head (bk ! i))" "bkt_count b = bkt_count (bk ! i) - 1"
  shows "bkts_ok s' (bk[i := b]) (bs[i := xs @ ys])"
proof -
  have p: "dpath (hh_next s) (hh_prev s) (hh_head (bk ! j)) (bs ! j)" "bkt_count (bk ! j) = of_nat (length (bs ! j))" if "j < length bs" for j
    using assms(1) that by (simp_all add: bkts_ok_def)
  have "dpath (hh_next s') (hh_prev s') (hh_head b) (xs @ ys)"
    using dpath_remove [OF p(1) [OF assms(3), unfolded assms(4)]] assms(5-7) by simp
  moreover have "dpath (hh_next s') (hh_prev s') (hh_head (bk ! j)) (bs ! j)" if j: "j < length bs" "j \<noteq> i" for j
  proof -
    have e: "path (hh_next s) (hh_next s a) ys None" "hh_prev s a = (if xs = [] then None else Some (last xs))"
      using p(1) [OF assms(3)] assms(4) by (auto simp: dpath_def path_append rback_append)
    have d: "set (bs ! j) \<inter> set (xs @ a # ys) = {}" using distinct_concat_apart [OF assms(2) j(1) assms(3) j(2)] assms(4) by simp
    have l: "last xs \<notin> set (bs ! j)" if "xs \<noteq> []" using d last_in_set [OF that] by auto
    have r: "hd ys \<notin> set (bs ! j)" if "ys \<noteq> []" using d hd_in_set [OF that] by auto
    have "dpath (hh_next s') (hh_prev s') (hh_head (bk ! j)) (bs ! j) = dpath (hh_next s) (hh_prev s) (hh_head (bk ! j)) (bs ! j)"
      using l r path_first [OF e(1)] e(2) assms(5,6) by (intro dpath_cong) auto
    with p(1) [OF j(1)] show ?thesis by simp
  qed
  moreover have "bkt_count b = of_nat (length (xs @ ys))" using assms(8) p(2) [OF assms(3)] assms(4) by simp
  ultimately show ?thesis using assms(1,3) p(2) by (auto simp: bkts_ok_def nth_list_update)
qed

lemma placed_sub:
  "placed k s bs \<Longrightarrow> length cs = length bs \<Longrightarrow> (\<And>j. set (cs ! j) \<subseteq> set (bs ! j)) \<Longrightarrow> uh_hashv s' = uh_hashv s \<Longrightarrow> placed k s' cs"
  by (simp add: placed_def subset_iff)

lemma del_in_bkt_ok:
  assumes "uh_tbl s = Some t" "table_ok fcn s t es k bs" "a \<in> set es"
  shows "\<exists>s' t' bs'. HASH_DEL_IN_BKT s (HASH_TO_BKT (uh_hashv s a) (num_buckets t)) a = Some s' \<and> uh_tbl s' = Some t' \<and> same_app s s' \<and>
    tbl_tail t' = tbl_tail t \<and> num_items t' = num_items t \<and> table_ok fcn s' (t'\<lparr>num_items := num_items t - 1\<rparr>) (remove1 a es) k bs'"
proof -
  have k: "5 \<le> k" "k < 31" "unat (num_buckets t) = 2 ^ k" "unat (log2_num_buckets t) = k" "bkts_ok s (buckets t) bs" "placed k s bs"
    "mset (concat bs) = mset es" "distinct es" "length es < 2 ^ 32" "num_items t = of_nat (length es)"
    using assms(2) by (simp_all add: table_ok_def chains_ok_def)
  define i where "i = unat (uh_hashv s a) mod 2 ^ k"
  have i: "HASH_TO_BKT (uh_hashv s a) (num_buckets t) = i" "i < length bs" "length (buckets t) = length bs"
    using HASH_TO_BKT_mod [OF k(3)] k(2,5,6) by (simp_all add: i_def placed_def bkts_ok_def)
  have "a \<in> set (concat bs)" using mset_eq_setD [OF k(7)] assms(3) by simp
  then obtain j where j: "j < length bs" "a \<in> set (bs ! j)" using in_concat_nth [of a bs] by auto
  have "unat (uh_hashv s a) mod 2 ^ k = j" using k(6) j by (simp add: placed_def)
  then have "j = i" by (simp add: i_def)
  then obtain xs ys where x: "bs ! i = xs @ a # ys" using j(2) by (auto dest: split_list)
  define s1 where "s1 = (case hh_prev s a of None \<Rightarrow> s | Some p \<Rightarrow> s\<lparr>hh_next := (hh_next s)(p := hh_next s a)\<rparr>)"
  define s2 where "s2 = (case hh_next s1 a of None \<Rightarrow> s1 | Some n \<Rightarrow> s1\<lparr>hh_prev := (hh_prev s1)(n := hh_prev s1 a)\<rparr>)"
  define b where "b = (buckets t ! i)\<lparr>bkt_count := bkt_count (buckets t ! i) - 1, hh_head := (if hh_head (buckets t ! i) = Some a then hh_next s a else hh_head (buckets t ! i))\<rparr>"
  define s3 where "s3 = s2\<lparr>uh_tbl := Some (t\<lparr>buckets := (buckets t)[i := b]\<rparr>)\<rparr>"
  have dc: "distinct (concat bs)" using k(7,8) mset_eq_imp_distinct_iff by blast
  have "dpath (hh_next s) (hh_prev s) (hh_head (buckets t ! i)) (xs @ a # ys)" using k(5) i(2) unfolding bkts_ok_def x [symmetric] by blast
  then have "distinct (xs @ a # ys)" "hh_prev s a = (if xs = [] then None else Some (last xs))" by (auto simp: dpath_def rback_append)
  then have "hh_prev s a \<noteq> Some a" using last_in_set [of xs] by auto
  then have f: "hh_next s1 a = hh_next s a" "hh_prev s1 a = hh_prev s a" "same_app s s1" by (auto simp: s1_def same_app_def split: option.splits)
  have n: "hh_next s3 = (case hh_prev s a of None \<Rightarrow> hh_next s | Some l \<Rightarrow> (hh_next s)(l := hh_next s a))"
    "hh_prev s3 = (case hh_next s a of None \<Rightarrow> hh_prev s | Some r \<Rightarrow> (hh_prev s)(r := hh_prev s a))"
    using f(1,2) by (auto simp: s3_def s2_def s1_def split: option.splits)
  have S: "same_app s s3" using f(3) by (auto simp: s3_def s2_def same_app_def split: option.splits)
  have B: "bkts_ok s3 ((buckets t)[i := b]) (bs[i := xs @ ys])" by (rule remove_bkts [OF k(5) dc i(2) x n]) (simp_all add: b_def)
  have sub: "set (bs[i := xs @ ys] ! j) \<subseteq> set (bs ! j)" for j using x i(2) by (cases "j = i") auto
  have P: "placed k s3 (bs[i := xs @ ys])" by (rule placed_sub [OF k(6)]) (use sub S in \<open>simp_all add: same_app_def\<close>)
  have "mset (concat (bs[i := xs @ ys])) + mset (xs @ a # ys) = mset es + mset (xs @ ys)" using mset_update [OF i(2), of "xs @ ys"] x k(7) by simp
  then have "add_mset a (mset (concat (bs[i := xs @ ys]))) = mset es" by (simp add: ac_simps)
  then have M: "mset (concat (bs[i := xs @ ys])) = mset (remove1 a es)" by (metis mset_remove1 add_mset_remove_trivial)
  have len: "length es = Suc (length (remove1 a es))" using assms(3) length_pos_if_in_set [OF assms(3)] by (simp add: length_remove1)
  let ?t = "t\<lparr>buckets := (buckets t)[i := b]\<rparr>"
  have "table_ok fcn s3 (?t\<lparr>num_items := num_items t - 1\<rparr>) (remove1 a es) k (bs[i := xs @ ys])"
    using k(1-4,8-10) B P M S len assms(2) by (auto simp: table_ok_def chains_ok_def same_app_def dest: notin_set_remove1)
  moreover have "HASH_DEL_IN_BKT s i a = Some s3" using assms(1) i unfolding HASH_DEL_IN_BKT_def Let_def b_def s3_def s2_def s1_def by simp
  ultimately show ?thesis using S i(1) by (intro exI [of _ s3] exI [of _ ?t] exI [of _ "bs[i := xs @ ys]"]) (simp add: s3_def)
qed


lemma delete_ok:
  assumes "uh_ok fcn s (as @ a # bs)"
  shows "\<exists>s'. HASH_DELETE s a = Some s' \<and> uh_ok fcn s' (as @ bs) \<and> uh_key s' = uh_key s"
proof -
  let ?es = "as @ a # bs"
  obtain t k chains where t: "uh_tbl s = Some t" "tbl_tail t = Some (last ?es)" "table_ok fcn s t ?es k chains"
    using assms by (auto simp: uh_ok_def)
  have dp: "dpath (uh_next s) (uh_prev s) (uh_head s) ?es" using assms by (simp add: uh_ok_def)
  have h: "uh_head s = Some (hd ?es)" by (rule dpath_hd [OF dp]) simp
  have e: "path (uh_next s) (uh_next s a) bs None" "uh_prev s a = (if as = [] then None else Some (last as))" "distinct ?es"
    using dp by (auto simp: dpath_def path_append rback_append)
  have nx: "uh_next s a = (if bs = [] then None else Some (hd bs))" by (rule path_first [OF e(1)])
  show ?thesis
  proof (cases "as = [] \<and> bs = []")
    case True
    with h t(1) e(2) nx show ?thesis by (auto simp: HASH_DELETE_def uh_ok_def)
  next
    case False
    define t1 where "t1 = (if Some a = tbl_tail t then t\<lparr>tbl_tail := uh_prev s a\<rparr> else t)"
    define s1 where "s1 = (case uh_prev s a of None \<Rightarrow> s\<lparr>uh_head := uh_next s a\<rparr> | Some p \<Rightarrow> s\<lparr>uh_next := (uh_next s)(p := uh_next s a)\<rparr>)"
    define s2 where "s2 = (case uh_next s1 a of None \<Rightarrow> s1 | Some n \<Rightarrow> s1\<lparr>uh_prev := (uh_prev s1)(n := uh_prev s1 a)\<rparr>)"
    define s3 where "s3 = s2\<lparr>uh_tbl := Some t1\<rparr>"
    have la: "last as \<noteq> a" if "as \<noteq> []" using e(3) last_in_set [OF that] by auto
    then have f: "uh_next s1 a = uh_next s a" "uh_prev s1 a = uh_prev s a" using e(2) by (auto simp: s1_def split: option.splits)
    have hh: "hh_next s3 = hh_next s" "hh_prev s3 = hh_prev s" "uh_hashv s3 = uh_hashv s" "uh_key s3 = uh_key s"
      by (auto simp: s3_def s2_def s1_def split: option.splits)
    have nbk: "num_buckets t1 = num_buckets t" "buckets t1 = buckets t" "log2_num_buckets t1 = log2_num_buckets t" "num_items t1 = num_items t"
      by (simp_all add: t1_def)
    have T: "table_ok fcn s3 t1 ?es k chains" using t(3) by (simp add: table_ok_def chains_ok_def bkts_ok_def placed_def hh nbk)
    have l: "Some a = tbl_tail t \<longleftrightarrow> bs = []" using t(2) e(3) last_in_set [of bs] by auto
    have tl: "tbl_tail t1 = Some (last (as @ bs))" using l t(2) e(2) False by (auto simp: t1_def)
    have ha: "uh_head s = Some a \<longleftrightarrow> as = []" using h e(3) hd_in_set [of as] by (cases as) auto
    have "uh_next s3 = (case uh_prev s a of None \<Rightarrow> uh_next s | Some l \<Rightarrow> (uh_next s)(l := uh_next s a))"
      "uh_prev s3 = (case uh_next s a of None \<Rightarrow> uh_prev s | Some r \<Rightarrow> (uh_prev s)(r := uh_prev s a))"
      "uh_head s3 = (if uh_head s = Some a then uh_next s a else uh_head s)"
      using f ha e(2) by (auto simp: s3_def s2_def s1_def split: option.splits)
    then have D: "dpath (uh_next s3) (uh_prev s3) (uh_head s3) (as @ bs)" using dpath_remove [OF dp] by simp
    have "uh_tbl s3 = Some t1" by (simp add: s3_def)
    from del_in_bkt_ok [OF this T, of a] obtain s' t' chains' where
      r: "HASH_DEL_IN_BKT s3 (HASH_TO_BKT (uh_hashv s3 a) (num_buckets t1)) a = Some s'" "uh_tbl s' = Some t'" "same_app s3 s'"
        "tbl_tail t' = tbl_tail t1" "num_items t' = num_items t1" "table_ok fcn s' (t'\<lparr>num_items := num_items t1 - 1\<rparr>) (remove1 a ?es) k chains'"
      by auto
    let ?s = "s'\<lparr>uh_tbl := Some (t'\<lparr>num_items := num_items t' - 1\<rparr>)\<rparr>"
    have "\<not> (uh_prev s a = None \<and> uh_next s a = None)" using False e(2) nx by simp
    moreover have "uh_hashv s2 = uh_hashv s3" by (simp add: s3_def)
    ultimately have "HASH_DELETE s a = Some ?s"
      using h t(1) r(1,2) unfolding HASH_DELETE_def s1_def [symmetric] s2_def [symmetric] t1_def [symmetric] s3_def
      by (auto simp: Let_def s1_def [symmetric] s2_def [symmetric] t1_def [symmetric])
    moreover have "remove1 a ?es = as @ bs" using e(3) by (simp add: remove1_append)
    then have "table_ok fcn ?s (t'\<lparr>num_items := num_items t' - 1\<rparr>) (as @ bs) k chains'"
      using r(5,6) by (simp add: table_ok_def chains_ok_def bkts_ok_def placed_def)
    moreover have "dpath (uh_next ?s) (uh_prev ?s) (uh_head ?s) (as @ bs)" using D r(3) by (simp add: same_app_def)
    ultimately show ?thesis using r(3,4) tl hh(4) by (intro exI [of _ ?s]) (auto simp: uh_ok_def same_app_def)
  qed
qed

lemma find_in_bkt_path: "path (hh_next s) p as None \<Longrightarrow> find_in_bkt s key p = Some (find (\<lambda>a. uh_key s a = key) as)"
proof (induction as arbitrary: p)
  case Nil
  then show ?case by (subst find_in_bkt.simps) simp
next
  case (Cons a as)
  then show ?case by (subst find_in_bkt.simps) auto
qed

lemma find_unique: "distinct (map f as) \<Longrightarrow> a \<in> set as \<Longrightarrow> f a = k \<Longrightarrow> find (\<lambda>x. f x = k) as = Some a"
  by (induction as) auto

lemma find_absent: "\<forall>a \<in> set as. f a \<noteq> k \<Longrightarrow> find (\<lambda>x. f x = k) as = None"
  by (simp add: find_None_iff)

lemma find_ok:
  assumes "uh_sound fcn s es" "distinct (map (uh_key s) es)"
  shows "HASH_FIND fcn s key = Some (find (\<lambda>a. uh_key s a = key) es)"
proof (cases "es = []")
  case True
  with assms(1) show ?thesis by (simp add: uh_sound_def HASH_FIND_def)
next
  case False
  obtain t k bs where t: "uh_tbl s = Some t" "table_ok fcn s t es k bs" using assms(1) False by (auto simp: uh_sound_def)
  have k: "k < 31" "unat (num_buckets t) = 2 ^ k" "bkts_ok s (buckets t) bs" "placed k s bs" "mset (concat bs) = mset es"
    "\<forall>a \<in> set es. uh_hashv s a = fcn (uh_key s a)" using t(2) by (simp_all add: table_ok_def chains_ok_def)
  define i where "i = unat (fcn key) mod 2 ^ k"
  have i: "HASH_TO_BKT (fcn key) (num_buckets t) = i" "i < length bs" "length (buckets t) = length bs"
    using HASH_TO_BKT_mod [OF k(2)] k(1,3,4) by (simp_all add: i_def placed_def bkts_ok_def)
  have h: "uh_head s = Some (hd es)" using assms(1) dpath_hd [of "uh_next s" "uh_prev s" "uh_head s" es] False by (simp add: uh_sound_def)
  have "HASH_FIND fcn s key = Some (find (\<lambda>a. uh_key s a = key) (bs ! i))"
    using t(1) h i k(3) find_in_bkt_path [of s "hh_head (buckets t ! i)" "bs ! i" key] by (simp add: HASH_FIND_def bkts_ok_def dpath_def)
  moreover have sub: "set (bs ! i) \<subseteq> set es" using nth_in_concat [OF i(2)] mset_eq_setD [OF k(5)] by auto
  have "find (\<lambda>a. uh_key s a = key) (bs ! i) = find (\<lambda>a. uh_key s a = key) es"
  proof (cases "\<exists>a \<in> set es. uh_key s a = key")
    case True
    then obtain a where a: "a \<in> set es" "uh_key s a = key" by blast
    then obtain j where j: "j < length bs" "a \<in> set (bs ! j)" using in_concat_nth [of a bs] mset_eq_setD [OF k(5)] by auto
    then have "j = i" using k(4,6) a unfolding placed_def i_def by metis
    have "distinct (concat bs)" using t(2) mset_eq_imp_distinct_iff [OF k(5)] by (simp add: table_ok_def chains_ok_def)
    then have "distinct (bs ! i)" using i(2) k(3) by (simp add: bkts_ok_def dpath_def)
    then have "distinct (map (uh_key s) (bs ! i))" using assms(2) sub by (auto simp: distinct_map intro: inj_on_subset)
    from find_unique [OF this, of a key] find_unique [OF assms(2) a] a(2) j(2) \<open>j = i\<close> show ?thesis by simp
  next
    case False
    then show ?thesis using sub find_absent [of es "uh_key s" key] find_absent [of "bs ! i" "uh_key s" key] by auto
  qed
  ultimately show ?thesis by simp
qed


lemma count_ok: "uh_sound fcn s es \<Longrightarrow> HASH_CNT s = Some (of_nat (length es))"
  using dpath_hd [of "uh_next s" "uh_prev s" "uh_head s" es] by (cases "es = []") (auto simp: uh_sound_def HASH_CNT_def table_ok_def chains_ok_def)

lemma iter_path:
  assumes "path (uh_next s) p as None" "\<forall>a s r. body a (s, r) = Some (s, r @ [a])"
  shows "hash_iter body p (case p of None \<Rightarrow> None | Some a \<Rightarrow> uh_next s a) (s, r) = Some (s, r @ as)"
  using assms(1)
proof (induction as arbitrary: p r)
  case Nil
  then show ?case by (subst hash_iter.simps) simp
next
  case (Cons a as)
  then show ?case using assms(2) by (subst hash_iter.simps) (simp cong: option.case_cong)
qed

lemma iter_ok: "uh_sound fcn s es \<Longrightarrow> HASH_ITER (\<lambda>a (s, r). Some (s, r @ [a])) (s, []) = Some (s, es)"
  using iter_path [of s "uh_head s" es "\<lambda>a (s, r). Some (s, r @ [a])" "[]"] by (simp add: uh_sound_def dpath_def HASH_ITER_def Let_def cong: option.case_cong)

lemma walk_path: "path nx p as None \<Longrightarrow> rback pv q as \<Longrightarrow> fsck_walk pv nx q p n = Some (n + of_nat (length as))"
proof (induction as arbitrary: p q n)
  case Nil
  then show ?case by (subst fsck_walk.simps) simp
next
  case (Cons a as)
  then show ?case by (subst fsck_walk.simps) (simp add: ac_simps)
qed

lemma fsck_buckets_ok:
  "length bk = length bs \<Longrightarrow> \<forall>i < length bs. dpath (hh_next s) (hh_prev s) (hh_head (bk ! i)) (bs ! i) \<and> bkt_count (bk ! i) = of_nat (length (bs ! i)) \<Longrightarrow>
   fsck_buckets s bk n = Some (n + of_nat (length (concat bs)))"
proof (induction bk bs arbitrary: n rule: list_induct2)
  case (Cons b bk c bs)
  have c: "dpath (hh_next s) (hh_prev s) (hh_head b) c" "bkt_count b = of_nat (length c)" using Cons.prems by force+
  have "\<forall>i < length bs. dpath (hh_next s) (hh_prev s) (hh_head (bk ! i)) (bs ! i) \<and> bkt_count (bk ! i) = of_nat (length (bs ! i))"
    using Cons.prems by force
  from Cons.IH [OF this, of "n + of_nat (length c)"] c walk_path [of "hh_next s" "hh_head b" c "hh_prev s" None 0]
  show ?case by (simp add: dpath_def ac_simps)
qed simp

lemma fsck_ok:
  assumes "uh_sound fcn s es"
  shows "HASH_FSCK s"
proof (cases "es = []")
  case True
  with assms show ?thesis by (simp add: uh_sound_def HASH_FSCK_def)
next
  case False
  obtain t k bs where t: "uh_tbl s = Some t" "table_ok fcn s t es k bs" using assms False by (auto simp: uh_sound_def)
  have dp: "path (uh_next s) (uh_head s) es None" "rback (uh_prev s) None es" using assms by (simp_all add: uh_sound_def dpath_def)
  have "length (concat bs) = length es" using t(2) unfolding table_ok_def chains_ok_def by (metis size_mset)
  then have "fsck_buckets s (buckets t) 0 = Some (of_nat (length es))"
    using fsck_buckets_ok [of "buckets t" bs s 0] t(2) by (simp add: table_ok_def chains_ok_def bkts_ok_def)
  moreover have "length (buckets t) = unat (num_buckets t)" using t(2) by (simp add: table_ok_def chains_ok_def bkts_ok_def placed_def)
  moreover have "uh_head s = Some (hd es)" using path_first [OF dp(1)] False by simp
  ultimately show ?thesis using t walk_path [OF dp, of 0] by (simp add: HASH_FSCK_def table_ok_def chains_ok_def)
qed

text \<open>The comment on Bernstein's hash function: a shift and an addition multiply by 33.\<close>

lemma HASH_BER_33: "HASH_BER key = fold (\<lambda>c hashv. hashv * 33 + signed_take_bit 7 (ucast c)) key 0"
proof -
  have "push_bit 5 w + w = w * 33" for w :: "32 word" by (simp add: push_bit_eq_mult)
  then show ?thesis by (simp add: HASH_BER_def mult.commute)
qed

end
