(* ===== verification/UtList.thy ===== *)
theory UtList
  imports WorkQueue
begin

text \<open>
  The list macros of \<open>hw4/src/utlist.h\<close>, for the items of the work queue: singly linked lists (\<open>LL\<close>), doubly linked
  ones whose first element links back to the last (\<open>DL\<close>; appending and deleting are in \<open>WorkQueue\<close>), and circular ones
  (\<open>CDL\<close>). A macro takes the heap and the head and returns both; \<open>None\<close> is a NULL or freed pointer that is used, a failed
  \<open>assert\<close>, or a loop that does not end. Arguments are values: an expression that a macro evaluates again after it has changed
  the head is not modelled. The variants for compilers without \<open>decltype\<close> are left out.
\<close>

section \<open>Singly linked lists\<close>

definition LL_PREPEND :: "'a wq_heap \<Rightarrow> nat option \<Rightarrow> nat option \<Rightarrow> ('a wq_heap \<times> nat option) option" where
  "LL_PREPEND h head add = do { h1 \<leftarrow> modify (\<lambda>c. c\<lparr>wi_next := head\<rparr>) h add; Some (h1, add) }"

text \<open>The loop to the last element.\<close>

partial_function (option) ll_last :: "'a wq_heap \<Rightarrow> nat option \<Rightarrow> nat option option" where
  "ll_last h tmp = (case load h tmp of
     None \<Rightarrow> None
   | Some c \<Rightarrow> if wi_next c \<noteq> None then ll_last h (wi_next c) else Some tmp)"

definition LL_CONCAT :: "'a wq_heap \<Rightarrow> nat option \<Rightarrow> nat option \<Rightarrow> ('a wq_heap \<times> nat option) option" where
  "LL_CONCAT h head1 head2 =
     (if head1 \<noteq> None then do {
        tmp \<leftarrow> ll_last h head1;
        h1 \<leftarrow> modify (\<lambda>c. c\<lparr>wi_next := head2\<rparr>) h tmp;
        Some (h1, head1)
      } else Some (h, head2))"

definition LL_APPEND :: "'a wq_heap \<Rightarrow> nat option \<Rightarrow> nat option \<Rightarrow> ('a wq_heap \<times> nat option) option" where
  "LL_APPEND h head add = do {
     h1 \<leftarrow> modify (\<lambda>c. c\<lparr>wi_next := None\<rparr>) h add;
     (if head \<noteq> None then do {
        tmp \<leftarrow> ll_last h1 head;
        h2 \<leftarrow> modify (\<lambda>c. c\<lparr>wi_next := add\<rparr>) h1 tmp;
        Some (h2, head)
      } else Some (h1, add))
   }"

text \<open>The loop to the element in front of \<open>el\<close>, or to the last one.\<close>

partial_function (option) ll_before :: "'a wq_heap \<Rightarrow> nat option \<Rightarrow> nat option \<Rightarrow> nat option option" where
  "ll_before h tmp el = (case load h tmp of
     None \<Rightarrow> None
   | Some c \<Rightarrow> if wi_next c \<noteq> None \<and> wi_next c \<noteq> el then ll_before h (wi_next c) el else Some tmp)"

definition LL_DELETE :: "'a wq_heap \<Rightarrow> nat option \<Rightarrow> nat option \<Rightarrow> ('a wq_heap \<times> nat option) option" where
  "LL_DELETE h head del =
     (if head = del then do { c \<leftarrow> load h head; Some (h, wi_next c) }
      else do {
        tmp \<leftarrow> ll_before h head del;
        c \<leftarrow> load h tmp;
        (if wi_next c \<noteq> None then do {
           d \<leftarrow> load h del;
           h1 \<leftarrow> modify (\<lambda>c. c\<lparr>wi_next := wi_next d\<rparr>) h tmp;
           Some (h1, head)
         } else Some (h, head))
      })"

text \<open>\<open>LL_FOREACH\<close> with a body that changes a state of its own; the body sees the element.\<close>

partial_function (option) LL_FOREACH :: "'a wq_heap \<Rightarrow> (nat \<Rightarrow> 's \<Rightarrow> 's) \<Rightarrow> nat option \<Rightarrow> 's \<Rightarrow> 's option" where
  "LL_FOREACH h body el s = (case el of
     None \<Rightarrow> Some s
   | Some a \<Rightarrow> (case load h el of None \<Rightarrow> None | Some c \<Rightarrow> LL_FOREACH h body (wi_next c) (body a s)))"

definition LL_COUNT :: "'a wq_heap \<Rightarrow> nat option \<Rightarrow> nat option" where
  "LL_COUNT h head = LL_FOREACH h (\<lambda>_ counter. counter + 1) head 0"

text \<open>
  \<open>LL_FOREACH_SAFE\<close> has read the next element before the body runs, which may change the heap and free the element.
\<close>

partial_function (option) LL_FOREACH_SAFE :: "(nat \<Rightarrow> 'a wq_heap \<times> 's \<Rightarrow> ('a wq_heap \<times> 's) option) \<Rightarrow> nat option \<Rightarrow> 'a wq_heap \<times> 's \<Rightarrow> ('a wq_heap \<times> 's) option" where
  "LL_FOREACH_SAFE body el s = (case el of
     None \<Rightarrow> Some s
   | Some a \<Rightarrow> (case load (fst s) el of
       None \<Rightarrow> None
     | Some c \<Rightarrow> (case body a s of None \<Rightarrow> None | Some s' \<Rightarrow> LL_FOREACH_SAFE body (wi_next c) s')))"

text \<open>The searches: \<open>found\<close> is the comparison of a field with a value, or of the element with another one.\<close>

partial_function (option) LL_SEARCH :: "'a wq_heap \<Rightarrow> ('a \<Rightarrow> bool) \<Rightarrow> nat option \<Rightarrow> nat option option" where
  "LL_SEARCH h found out = (case out of
     None \<Rightarrow> Some None
   | Some a \<Rightarrow> (case load h out of
       None \<Rightarrow> None | Some c \<Rightarrow> if found (wi_item c) then Some out else LL_SEARCH h found (wi_next c)))"

text \<open>The second half of the two macros below: what leads to \<open>el\<close> is made to lead to \<open>add\<close>.\<close>

definition ll_redirect :: "'a wq_heap \<Rightarrow> nat option \<Rightarrow> nat option \<Rightarrow> nat option \<Rightarrow> ('a wq_heap \<times> nat option) option" where
  "ll_redirect h head el add =
     (if head = el then Some (h, add)
      else do {
        tmp \<leftarrow> ll_before h head el;
        c \<leftarrow> load h tmp;
        (if wi_next c \<noteq> None then do { h1 \<leftarrow> modify (\<lambda>c. c\<lparr>wi_next := add\<rparr>) h tmp; Some (h1, head) } else Some (h, head))
      })"

definition LL_REPLACE_ELEM :: "'a wq_heap \<Rightarrow> nat option \<Rightarrow> nat option \<Rightarrow> nat option \<Rightarrow> ('a wq_heap \<times> nat option) option" where
  "LL_REPLACE_ELEM h head el add =
     (if head = None \<or> el = None \<or> add = None then None
      else do {
        e \<leftarrow> load h el;
        h1 \<leftarrow> modify (\<lambda>c. c\<lparr>wi_next := wi_next e\<rparr>) h add;
        ll_redirect h1 head el add
      })"

definition LL_PREPEND_ELEM :: "'a wq_heap \<Rightarrow> nat option \<Rightarrow> nat option \<Rightarrow> nat option \<Rightarrow> ('a wq_heap \<times> nat option) option" where
  "LL_PREPEND_ELEM h head el add =
     (if head = None \<or> el = None \<or> add = None then None
      else do {
        h1 \<leftarrow> modify (\<lambda>c. c\<lparr>wi_next := el\<rparr>) h add;
        ll_redirect h1 head el add
      })"

section \<open>Doubly linked lists\<close>

definition DL_PREPEND :: "'a wq_heap \<Rightarrow> nat option \<Rightarrow> nat option \<Rightarrow> ('a wq_heap \<times> nat option) option" where
  "DL_PREPEND h head add = do {
     h1 \<leftarrow> modify (\<lambda>c. c\<lparr>wi_next := head\<rparr>) h add;
     (if head \<noteq> None then do {
        hc \<leftarrow> load h1 head;
        h2 \<leftarrow> modify (\<lambda>c. c\<lparr>wi_prev := wi_prev hc\<rparr>) h1 add;
        h3 \<leftarrow> modify (\<lambda>c. c\<lparr>wi_prev := add\<rparr>) h2 head;
        Some (h3, add)
      } else do {
        h2 \<leftarrow> modify (\<lambda>c. c\<lparr>wi_prev := add\<rparr>) h1 add;
        Some (h2, add)
      })
   }"

definition DL_CONCAT :: "'a wq_heap \<Rightarrow> nat option \<Rightarrow> nat option \<Rightarrow> ('a wq_heap \<times> nat option) option" where
  "DL_CONCAT h head1 head2 =
     (if head2 \<noteq> None then
        (if head1 \<noteq> None then do {
           c2 \<leftarrow> load h head2;
           c1 \<leftarrow> load h head1;
           h1 \<leftarrow> modify (\<lambda>c. c\<lparr>wi_prev := wi_prev c1\<rparr>) h head2;
           c1' \<leftarrow> load h1 head1;
           h2 \<leftarrow> modify (\<lambda>c. c\<lparr>wi_next := head2\<rparr>) h1 (wi_prev c1');
           h3 \<leftarrow> modify (\<lambda>c. c\<lparr>wi_prev := wi_prev c2\<rparr>) h2 head1;
           Some (h3, head1)
         } else Some (h, head2))
      else Some (h, head1))"

text \<open>Going through the elements is the loop of the singly linked lists, as is searching.\<close>

definition DL_COUNT :: "'a wq_heap \<Rightarrow> nat option \<Rightarrow> nat option" where
  "DL_COUNT h head = LL_FOREACH h (\<lambda>_ counter. counter + 1) head 0"

definition DL_SEARCH :: "'a wq_heap \<Rightarrow> ('a \<Rightarrow> bool) \<Rightarrow> nat option \<Rightarrow> nat option option" where
  "DL_SEARCH = LL_SEARCH"

definition DL_REPLACE_ELEM :: "'a wq_heap \<Rightarrow> nat option \<Rightarrow> nat option \<Rightarrow> nat option \<Rightarrow> ('a wq_heap \<times> nat option) option" where
  "DL_REPLACE_ELEM h head el add =
     (if head = None \<or> el = None \<or> add = None then None
      else if head = el then do {
        e \<leftarrow> load h el;
        h1 \<leftarrow> modify (\<lambda>c. c\<lparr>wi_next := wi_next e\<rparr>) h add;
        e1 \<leftarrow> load h1 el;
        (if wi_next e1 = None then do { h2 \<leftarrow> modify (\<lambda>c. c\<lparr>wi_prev := add\<rparr>) h1 add; Some (h2, add) }
         else do {
           h2 \<leftarrow> modify (\<lambda>c. c\<lparr>wi_prev := wi_prev e1\<rparr>) h1 add;
           a \<leftarrow> load h2 add;
           h3 \<leftarrow> modify (\<lambda>c. c\<lparr>wi_prev := add\<rparr>) h2 (wi_next a);
           Some (h3, add)
         })
      } else do {
        e \<leftarrow> load h el;
        h1 \<leftarrow> modify (\<lambda>c. c\<lparr>wi_next := wi_next e\<rparr>) h add;
        e1 \<leftarrow> load h1 el;
        h2 \<leftarrow> modify (\<lambda>c. c\<lparr>wi_prev := wi_prev e1\<rparr>) h1 add;
        a \<leftarrow> load h2 add;
        h3 \<leftarrow> modify (\<lambda>c. c\<lparr>wi_next := add\<rparr>) h2 (wi_prev a);
        e3 \<leftarrow> load h3 el;
        (if wi_next e3 = None then do { h4 \<leftarrow> modify (\<lambda>c. c\<lparr>wi_prev := add\<rparr>) h3 head; Some (h4, head) }
         else do {
           a3 \<leftarrow> load h3 add;
           h4 \<leftarrow> modify (\<lambda>c. c\<lparr>wi_prev := add\<rparr>) h3 (wi_next a3);
           Some (h4, head)
         })
      })"

definition DL_PREPEND_ELEM :: "'a wq_heap \<Rightarrow> nat option \<Rightarrow> nat option \<Rightarrow> nat option \<Rightarrow> ('a wq_heap \<times> nat option) option" where
  "DL_PREPEND_ELEM h head el add =
     (if head = None \<or> el = None \<or> add = None then None
      else do {
        h1 \<leftarrow> modify (\<lambda>c. c\<lparr>wi_next := el\<rparr>) h add;
        e \<leftarrow> load h1 el;
        h2 \<leftarrow> modify (\<lambda>c. c\<lparr>wi_prev := wi_prev e\<rparr>) h1 add;
        h3 \<leftarrow> modify (\<lambda>c. c\<lparr>wi_prev := add\<rparr>) h2 el;
        (if head = el then Some (h3, add)
         else do {
           a \<leftarrow> load h3 add;
           h4 \<leftarrow> modify (\<lambda>c. c\<lparr>wi_next := add\<rparr>) h3 (wi_prev a);
           Some (h4, head)
         })
      })"

section \<open>Circular lists\<close>

definition CDL_PREPEND :: "'a wq_heap \<Rightarrow> nat option \<Rightarrow> nat option \<Rightarrow> ('a wq_heap \<times> nat option) option" where
  "CDL_PREPEND h head add =
     (if head \<noteq> None then do {
        hc \<leftarrow> load h head;
        h1 \<leftarrow> modify (\<lambda>c. c\<lparr>wi_prev := wi_prev hc\<rparr>) h add;
        h2 \<leftarrow> modify (\<lambda>c. c\<lparr>wi_next := head\<rparr>) h1 add;
        h3 \<leftarrow> modify (\<lambda>c. c\<lparr>wi_prev := add\<rparr>) h2 head;
        a \<leftarrow> load h3 add;
        h4 \<leftarrow> modify (\<lambda>c. c\<lparr>wi_next := add\<rparr>) h3 (wi_prev a);
        Some (h4, add)
      } else do {
        h1 \<leftarrow> modify (\<lambda>c. c\<lparr>wi_prev := add\<rparr>) h add;
        h2 \<leftarrow> modify (\<lambda>c. c\<lparr>wi_next := add\<rparr>) h1 add;
        Some (h2, add)
      })"

definition CDL_DELETE :: "'a wq_heap \<Rightarrow> nat option \<Rightarrow> nat option \<Rightarrow> ('a wq_heap \<times> nat option) option" where
  "CDL_DELETE h head del = do {
     single \<leftarrow> (if head = del then map_option (\<lambda>c. wi_next c = head) (load h head) else Some False);
     (if single then Some (h, None)
      else do {
        d \<leftarrow> load h del;
        h1 \<leftarrow> modify (\<lambda>c. c\<lparr>wi_prev := wi_prev d\<rparr>) h (wi_next d);
        d1 \<leftarrow> load h1 del;
        h2 \<leftarrow> modify (\<lambda>c. c\<lparr>wi_next := wi_next d1\<rparr>) h1 (wi_prev d1);
        (if del = head then do { d2 \<leftarrow> load h2 del; Some (h2, wi_next d2) } else Some (h2, head))
      })
   }"

partial_function (option) CDL_FOREACH :: "'a wq_heap \<Rightarrow> nat option \<Rightarrow> (nat \<Rightarrow> 's \<Rightarrow> 's) \<Rightarrow> nat option \<Rightarrow> 's \<Rightarrow> 's option" where
  "CDL_FOREACH h head body el s = (case el of
     None \<Rightarrow> Some s
   | Some a \<Rightarrow> (case load h el of
       None \<Rightarrow> None | Some c \<Rightarrow> CDL_FOREACH h head body (if wi_next c = head then None else wi_next c) (body a s)))"

definition CDL_COUNT :: "'a wq_heap \<Rightarrow> nat option \<Rightarrow> nat option" where
  "CDL_COUNT h head = CDL_FOREACH h head (\<lambda>_ counter. counter + 1) head 0"

partial_function (option) cdl_search :: "'a wq_heap \<Rightarrow> nat option \<Rightarrow> ('a \<Rightarrow> bool) \<Rightarrow> nat option \<Rightarrow> nat option option" where
  "cdl_search h head found out = (case out of
     None \<Rightarrow> Some None
   | Some a \<Rightarrow> (case load h out of
       None \<Rightarrow> None
     | Some c \<Rightarrow> if found (wi_item c) then Some out else cdl_search h head found (if wi_next c = head then None else wi_next c)))"

definition CDL_SEARCH :: "'a wq_heap \<Rightarrow> ('a \<Rightarrow> bool) \<Rightarrow> nat option \<Rightarrow> nat option option" where
  "CDL_SEARCH h found head = cdl_search h head found head"

definition CDL_REPLACE_ELEM :: "'a wq_heap \<Rightarrow> nat option \<Rightarrow> nat option \<Rightarrow> nat option \<Rightarrow> ('a wq_heap \<times> nat option) option" where
  "CDL_REPLACE_ELEM h head el add =
     (if head = None \<or> el = None \<or> add = None then None
      else do {
        e \<leftarrow> load h el;
        (if wi_next e = el then do {
           h1 \<leftarrow> modify (\<lambda>c. c\<lparr>wi_next := add\<rparr>) h add;
           h2 \<leftarrow> modify (\<lambda>c. c\<lparr>wi_prev := add\<rparr>) h1 add;
           Some (h2, add)
         } else do {
           h1 \<leftarrow> modify (\<lambda>c. c\<lparr>wi_next := wi_next e\<rparr>) h add;
           e1 \<leftarrow> load h1 el;
           h2 \<leftarrow> modify (\<lambda>c. c\<lparr>wi_prev := wi_prev e1\<rparr>) h1 add;
           a2 \<leftarrow> load h2 add;
           h3 \<leftarrow> modify (\<lambda>c. c\<lparr>wi_prev := add\<rparr>) h2 (wi_next a2);
           a3 \<leftarrow> load h3 add;
           h4 \<leftarrow> modify (\<lambda>c. c\<lparr>wi_next := add\<rparr>) h3 (wi_prev a3);
           Some (h4, if head = el then add else head)
         })
      })"

definition CDL_PREPEND_ELEM :: "'a wq_heap \<Rightarrow> nat option \<Rightarrow> nat option \<Rightarrow> nat option \<Rightarrow> ('a wq_heap \<times> nat option) option" where
  "CDL_PREPEND_ELEM h head el add =
     (if head = None \<or> el = None \<or> add = None then None
      else do {
        h1 \<leftarrow> modify (\<lambda>c. c\<lparr>wi_next := el\<rparr>) h add;
        e \<leftarrow> load h1 el;
        h2 \<leftarrow> modify (\<lambda>c. c\<lparr>wi_prev := wi_prev e\<rparr>) h1 add;
        h3 \<leftarrow> modify (\<lambda>c. c\<lparr>wi_prev := add\<rparr>) h2 el;
        a \<leftarrow> load h3 add;
        h4 \<leftarrow> modify (\<lambda>c. c\<lparr>wi_next := add\<rparr>) h3 (wi_prev a);
        Some (h4, if head = el then add else head)
      })"

section \<open>Cells and chains\<close>

text \<open>The heap as a map from addresses to cells, and what the operations do to it.\<close>

definition cell :: "'a wq_heap \<Rightarrow> nat \<Rightarrow> 'a wq_item_t option" where
  "cell h a = (if a < length h then h ! a else None)"

definition upd :: "('a wq_item_t \<Rightarrow> 'a wq_item_t) \<Rightarrow> nat \<Rightarrow> 'a wq_heap \<Rightarrow> 'a wq_heap" where
  "upd f a h = h[a := map_option f (cell h a)]"

lemma cell_upd [simp]: "cell (upd f a h) b = (if b = a then map_option f (cell h a) else cell h b)"
  by (auto simp: cell_def upd_def)

lemma load_cell [simp]: "load h (Some a) = cell h a" "load h None = None"
  by (simp_all add: load_def cell_def)

lemma modify_cell [simp]: "modify f h (Some a) = (if cell h a = None then None else Some (upd f a h))" "modify f h None = None"
  by (cases "cell h a"; simp add: modify_def upd_def)+

definition cnext :: "'a wq_heap \<Rightarrow> nat \<Rightarrow> nat option" where
  "cnext h a = wi_next (the (cell h a))"

definition cprev :: "'a wq_heap \<Rightarrow> nat \<Rightarrow> nat option" where
  "cprev h a = wi_prev (the (cell h a))"

definition citem :: "'a wq_heap \<Rightarrow> nat \<Rightarrow> 'a" where
  "citem h a = wi_item (the (cell h a))"

text \<open>The elements at some addresses exist, are linked forwards from \<open>p\<close> to \<open>q\<close>, and backwards from \<open>t\<close>.\<close>

fun lseg :: "'a wq_heap \<Rightarrow> nat option \<Rightarrow> nat list \<Rightarrow> nat option \<Rightarrow> bool" where
  "lseg h p [] q \<longleftrightarrow> p = q"
| "lseg h p (a # as) q \<longleftrightarrow> p = Some a \<and> cell h a \<noteq> None \<and> lseg h (cnext h a) as q"

fun bwd :: "'a wq_heap \<Rightarrow> nat option \<Rightarrow> nat list \<Rightarrow> bool" where
  "bwd h t [] \<longleftrightarrow> True"
| "bwd h t (a # as) \<longleftrightarrow> cprev h a = t \<and> bwd h (Some a) as"

definition ll :: "'a wq_heap \<Rightarrow> nat option \<Rightarrow> nat list \<Rightarrow> bool" where
  "ll h p as \<longleftrightarrow> distinct as \<and> lseg h p as None"

definition dl :: "'a wq_heap \<Rightarrow> nat option \<Rightarrow> nat list \<Rightarrow> bool" where
  "dl h p as \<longleftrightarrow> distinct as \<and> lseg h p as None \<and> bwd h (Some (last as)) as"

definition cdl :: "'a wq_heap \<Rightarrow> nat option \<Rightarrow> nat list \<Rightarrow> bool" where
  "cdl h p as \<longleftrightarrow> distinct as \<and> (as = [] \<longrightarrow> p = None) \<and> lseg h p as p \<and> bwd h (Some (last as)) as"

lemma lseg_append: "lseg h p (as @ bs) q \<longleftrightarrow> (\<exists>r. lseg h p as r \<and> lseg h r bs q)"
  by (induction as arbitrary: p) auto

lemma lseg_mid: "lseg h p (as @ b # bs) q \<longleftrightarrow> lseg h p as (Some b) \<and> cell h b \<noteq> None \<and> lseg h (cnext h b) bs q"
  by (auto simp: lseg_append)

lemma lseg_cell: "lseg h p as q \<Longrightarrow> a \<in> set as \<Longrightarrow> cell h a \<noteq> None"
  by (induction as arbitrary: p) auto

lemma bwd_append: "bwd h t (as @ bs) \<longleftrightarrow> bwd h t as \<and> bwd h (if as = [] then t else Some (last as)) bs"
  by (induction as arbitrary: t) auto

lemma lseg_cong: "\<forall>a \<in> set as. (cell h' a = None \<longleftrightarrow> cell h a = None) \<and> cnext h' a = cnext h a \<Longrightarrow> lseg h' p as q = lseg h p as q"
  by (induction as arbitrary: p) auto

lemma bwd_cong: "\<forall>a \<in> set as. cprev h' a = cprev h a \<Longrightarrow> bwd h' t as = bwd h t as"
  by (induction as arbitrary: t) auto

lemma upd_fields:
  "cell h a \<noteq> None \<Longrightarrow> cnext (upd f a h) b = (if b = a then wi_next (f (the (cell h a))) else cnext h b)"
  "cell h a \<noteq> None \<Longrightarrow> cprev (upd f a h) b = (if b = a then wi_prev (f (the (cell h a))) else cprev h b)"
  "cell h a \<noteq> None \<Longrightarrow> citem (upd f a h) b = (if b = a then wi_item (f (the (cell h a))) else citem h b)"
  by (auto simp: cnext_def cprev_def citem_def)

lemma lseg_hd: "lseg h p as q \<Longrightarrow> p = (case as of [] \<Rightarrow> q | a # _ \<Rightarrow> Some a)"
  by (cases as) auto

section \<open>Loops\<close>

lemma ll_last_seg: "lseg h p (as @ [a]) None \<Longrightarrow> ll_last h p = Some (Some a)"
proof (induction as arbitrary: p)
  case Nil
  then show ?case by (subst ll_last.simps) (auto simp: cnext_def)
next
  case (Cons b as)
  then obtain c where c: "cell h b = Some c" "p = Some b" "lseg h (wi_next c) (as @ [a]) None" by (auto simp: cnext_def)
  then have "wi_next c \<noteq> None" by (cases as) auto
  with Cons.IH [OF c(3)] c show ?case by (subst ll_last.simps) simp
qed

lemma ll_before_seg:
  "lseg h p (as @ [a]) (Some e) \<Longrightarrow> e \<notin> set as \<union> {a} \<Longrightarrow> ll_before h p (Some e) = Some (Some a)"
proof (induction as arbitrary: p)
  case Nil
  then show ?case by (subst ll_before.simps) (auto simp: cnext_def)
next
  case (Cons b as)
  then obtain c where c: "cell h b = Some c" by auto
  have "lseg h (wi_next c) (as @ [a]) (Some e)" using Cons.prems c by (auto simp: cnext_def)
  moreover from this have "wi_next c \<noteq> None \<and> wi_next c \<noteq> Some e" using Cons.prems(2) by (cases as) auto
  ultimately show ?case using Cons c by (subst ll_before.simps) auto
qed

lemma foreach_seg: "lseg h p as None \<Longrightarrow> LL_FOREACH h body p s = Some (fold body as s)"
proof (induction as arbitrary: p s)
  case Nil
  then show ?case by (subst LL_FOREACH.simps) simp
next
  case (Cons a as)
  then show ?case by (subst LL_FOREACH.simps) (auto simp: cnext_def)
qed

lemma search_seg: "lseg h p as None \<Longrightarrow> LL_SEARCH h found p = Some (find (\<lambda>a. found (citem h a)) as)"
proof (induction as arbitrary: p)
  case Nil
  then show ?case by (subst LL_SEARCH.simps) simp
next
  case (Cons a as)
  then show ?case by (subst LL_SEARCH.simps) (auto simp: cnext_def citem_def)
qed

lemma cdl_foreach_seg:
  "lseg h p as (Some x) \<Longrightarrow> x \<notin> set (tl as) \<Longrightarrow> as \<noteq> [] \<Longrightarrow> CDL_FOREACH h (Some x) body p s = Some (fold body as s)"
proof (induction as arbitrary: p s)
  case (Cons a as)
  then obtain c where c: "cell h a = Some c" "p = Some a" "lseg h (wi_next c) as (Some x)" by (auto simp: cnext_def)
  show ?case
  proof (cases as)
    case Nil
    with c show ?thesis by (subst CDL_FOREACH.simps) (auto simp: CDL_FOREACH.simps [of _ _ _ None])
  next
    case (Cons b bs)
    then have "wi_next c \<noteq> Some x" using c(3) Cons.prems(2) by auto
    with Cons.IH [OF c(3)] Cons.prems(2) Cons c show ?thesis by (subst CDL_FOREACH.simps) (cases bs; auto)
  qed
qed simp

lemma cdl_search_seg:
  "lseg h p as (Some x) \<Longrightarrow> x \<notin> set (tl as) \<Longrightarrow> as \<noteq> [] \<Longrightarrow> cdl_search h (Some x) found p = Some (find (\<lambda>a. found (citem h a)) as)"
proof (induction as arbitrary: p)
  case (Cons a as)
  then obtain c where c: "cell h a = Some c" "p = Some a" "lseg h (wi_next c) as (Some x)" by (auto simp: cnext_def)
  show ?case
  proof (cases as)
    case Nil
    with c show ?thesis by (subst cdl_search.simps) (auto simp: cdl_search.simps [of _ _ _ None] citem_def)
  next
    case (Cons b bs)
    then have "wi_next c \<noteq> Some x" using c(3) Cons.prems(2) by auto
    with Cons.IH [OF c(3)] Cons.prems(2) Cons c show ?thesis by (subst cdl_search.simps) (cases bs; auto simp: citem_def)
  qed
qed simp

section \<open>What the macros do to singly linked lists\<close>

lemma LL_PREPEND_ll:
  assumes "ll h p as" "cell h x \<noteq> None" "x \<notin> set as"
  shows "\<exists>h'. LL_PREPEND h p (Some x) = Some (h', Some x) \<and> ll h' (Some x) (x # as)"
proof -
  let ?h = "upd (\<lambda>c. c\<lparr>wi_next := p\<rparr>) x h"
  have "lseg ?h p as None = lseg h p as None" using assms(2,3) by (intro lseg_cong) (auto simp: upd_fields)
  then show ?thesis using assms by (intro exI [of _ ?h]) (simp add: LL_PREPEND_def ll_def upd_fields)
qed

lemma relink_last:
  assumes "lseg h p (as @ [a]) q" "a \<notin> set as"
  shows "lseg (upd (\<lambda>c. c\<lparr>wi_next := r\<rparr>) a h) p (as @ [a]) r" "cell h a \<noteq> None"
proof -
  show a: "cell h a \<noteq> None" using assms(1) by (auto simp: lseg_append)
  have "lseg (upd (\<lambda>c. c\<lparr>wi_next := r\<rparr>) a h) p as (Some a) = lseg h p as (Some a)"
    using a assms(2) by (intro lseg_cong) (auto simp: upd_fields)
  then show "lseg (upd (\<lambda>c. c\<lparr>wi_next := r\<rparr>) a h) p (as @ [a]) r" using assms(1) a by (auto simp: lseg_append upd_fields)
qed

lemma lseg_upd_frame: "a \<notin> set as \<Longrightarrow> cell h a \<noteq> None \<Longrightarrow> lseg (upd f a h) p as q = lseg h p as q"
  by (intro lseg_cong) (auto simp: upd_fields)

lemma LL_CONCAT_ll:
  assumes "ll h p as" "ll h q bs" "set as \<inter> set bs = {}"
  shows "\<exists>h'. LL_CONCAT h p q = Some (h', if as = [] then q else p) \<and> ll h' (if as = [] then q else p) (as @ bs)"
proof (cases as rule: rev_cases)
  case Nil
  with assms show ?thesis by (simp add: LL_CONCAT_def ll_def)
next
  case (snoc as' a)
  let ?h = "upd (\<lambda>c. c\<lparr>wi_next := q\<rparr>) a h"
  have s: "lseg h p (as' @ [a]) None" "a \<notin> set as'" "a \<notin> set bs" using assms snoc by (auto simp: ll_def)
  have "lseg ?h q bs None" using assms(2) s(3) relink_last(2) [OF s(1,2)] by (simp add: ll_def lseg_upd_frame)
  with relink_last(1) [OF s(1,2), of q] have "lseg ?h p (as @ bs) None" using snoc by (auto simp: lseg_append)
  moreover have "p \<noteq> None" using s(1) by (cases as') auto
  ultimately show ?thesis using assms snoc ll_last_seg [OF s(1)] relink_last(2) [OF s(1,2)]
    by (intro exI [of _ ?h]) (auto simp: LL_CONCAT_def ll_def)
qed

lemma LL_APPEND_ll:
  assumes "ll h p as" "cell h x \<noteq> None" "x \<notin> set as"
  shows "\<exists>h'. LL_APPEND h p (Some x) = Some (h', if as = [] then Some x else p) \<and> ll h' (if as = [] then Some x else p) (as @ [x])"
proof -
  let ?h = "upd (\<lambda>c. c\<lparr>wi_next := None\<rparr>) x h"
  have l: "ll ?h p as" "ll ?h (Some x) [x]" using assms by (simp_all add: ll_def lseg_upd_frame upd_fields)
  have "LL_APPEND h p (Some x) = LL_CONCAT ?h p (Some x)" using assms(2) by (auto simp: LL_APPEND_def LL_CONCAT_def)
  with LL_CONCAT_ll [OF l] assms(3) show ?thesis by auto
qed

text \<open>The element in front of another one is relinked past it, or to a new one in its place.\<close>

lemma relink_before:
  assumes "lseg h p (as @ [a]) (Some e)" "e \<notin> set (as @ [a])" "a \<notin> set as"
  shows "ll_before h p (Some e) = Some (Some a)" "cell h a \<noteq> None" "cnext h a = Some e"
    and "lseg (upd (\<lambda>c. c\<lparr>wi_next := r\<rparr>) a h) p (as @ [a]) r"
  using ll_before_seg [OF assms(1)] assms relink_last(1) [OF assms(1,3), of r] relink_last(2) [OF assms(1,3)] by (auto simp: lseg_append)

lemma LL_DELETE_ll:
  assumes "ll h p (as @ x # bs)"
  shows "\<exists>h' p'. LL_DELETE h p (Some x) = Some (h', p') \<and> ll h' p' (as @ bs)"
proof (cases as rule: rev_cases)
  case Nil
  with assms show ?thesis by (auto simp: LL_DELETE_def ll_def cnext_def)
next
  case (snoc as' a)
  have s: "lseg h p (as' @ [a]) (Some x)" "cell h x \<noteq> None" "lseg h (cnext h x) bs None" and d: "distinct (as' @ a # x # bs)"
    using assms snoc lseg_mid [of h p as x bs None] by (auto simp: ll_def)
  let ?h = "upd (\<lambda>c. c\<lparr>wi_next := cnext h x\<rparr>) a h"
  have pre: "x \<notin> set (as' @ [a])" "a \<notin> set as'" using d by auto
  note r = relink_before(1-3) [OF s(1) pre] relink_before(4) [OF s(1) pre, of "cnext h x"]
  have "lseg ?h (cnext h x) bs None" using s(3) d r(2) by (subst lseg_upd_frame) auto
  then have "lseg ?h p (as @ bs) None" using r(4) d snoc lseg_append [of ?h p "as' @ [a]" bs None] by auto
  moreover have "p \<noteq> Some x" using s(1) d by (cases as') auto
  ultimately show ?thesis using r(1-3) d s(2) snoc
    by (intro exI [of _ ?h] exI [of _ p]) (auto simp: LL_DELETE_def ll_def cnext_def split: option.splits)
qed

lemma redirect_ll:
  assumes "lseg g p as (Some x)" "lseg g (Some y) ys None" "distinct (as @ ys)" "x \<notin> set as"
  shows "\<exists>h' p'. ll_redirect g p (Some x) (Some y) = Some (h', p') \<and> ll h' p' (as @ ys)"
proof (cases as rule: rev_cases)
  case Nil
  with assms show ?thesis by (simp add: ll_def ll_redirect_def)
next
  case (snoc as' a)
  let ?h = "upd (\<lambda>c. c\<lparr>wi_next := Some y\<rparr>) a g"
  have pre: "x \<notin> set (as' @ [a])" "a \<notin> set as'" using assms(3,4) snoc by auto
  note r = relink_before(1-3) [OF assms(1) [unfolded snoc] pre] relink_before(4) [OF assms(1) [unfolded snoc] pre, of "Some y"]
  have "lseg ?h (Some y) ys None" using assms(2,3) snoc r(2) by (subst lseg_upd_frame) auto
  then have "lseg ?h p (as @ ys) None" using r(4) snoc lseg_append [of ?h p "as' @ [a]" ys None] by auto
  moreover have "p \<noteq> Some x" using assms(1,4) snoc by (cases as') auto
  ultimately show ?thesis using r(1-3) assms(3) snoc
    by (intro exI [of _ ?h] exI [of _ p]) (auto simp: ll_redirect_def ll_def cnext_def split: option.splits)
qed

lemma LL_REPLACE_ELEM_ll:
  assumes "ll h p (as @ x # bs)" "cell h y \<noteq> None" "y \<notin> set (as @ x # bs)"
  shows "\<exists>h' p'. LL_REPLACE_ELEM h p (Some x) (Some y) = Some (h', p') \<and> ll h' p' (as @ y # bs)"
proof -
  let ?g = "upd (\<lambda>c. c\<lparr>wi_next := cnext h x\<rparr>) y h"
  have s: "lseg h p as (Some x)" "cell h x \<noteq> None" "lseg h (cnext h x) bs None" and d: "distinct (as @ x # y # bs)"
    using assms lseg_mid [of h p as x bs None] by (auto simp: ll_def)
  have g: "lseg ?g p as (Some x)" "lseg ?g (Some y) (y # bs) None" using s d assms(2) by (simp_all add: lseg_upd_frame upd_fields)
  have "p \<noteq> None" using lseg_hd [OF s(1)] by (simp split: list.splits)
  moreover have "LL_REPLACE_ELEM h p (Some x) (Some y) = (if p = None then None else ll_redirect ?g p (Some x) (Some y))"
    using s(2) assms(2) by (auto simp: LL_REPLACE_ELEM_def cnext_def)
  ultimately show ?thesis using redirect_ll [OF g] d by simp
qed

lemma LL_PREPEND_ELEM_ll:
  assumes "ll h p (as @ x # bs)" "cell h y \<noteq> None" "y \<notin> set (as @ x # bs)"
  shows "\<exists>h' p'. LL_PREPEND_ELEM h p (Some x) (Some y) = Some (h', p') \<and> ll h' p' (as @ y # x # bs)"
proof -
  let ?g = "upd (\<lambda>c. c\<lparr>wi_next := Some x\<rparr>) y h"
  have s: "lseg h p as (Some x)" "lseg h (Some x) (x # bs) None" and d: "distinct (as @ x # y # bs)"
    using assms lseg_mid [of h p as x bs None] by (auto simp: ll_def)
  have g: "lseg ?g p as (Some x)" "lseg ?g (Some y) (y # x # bs) None" using s d assms(2) by (simp_all add: lseg_upd_frame upd_fields)
  have "p \<noteq> None" using lseg_hd [OF s(1)] by (simp split: list.splits)
  then show ?thesis using redirect_ll [OF g] d assms(2) by (simp add: LL_PREPEND_ELEM_def)
qed

section \<open>What the macros do to doubly linked lists\<close>

lemma upd_prev [simp]:
  "cnext (upd (\<lambda>c. c\<lparr>wi_prev := q\<rparr>) a h) b = cnext h b"
  "cprev (upd (\<lambda>c. c\<lparr>wi_next := q\<rparr>) a h) b = cprev h b"
  "lseg (upd (\<lambda>c. c\<lparr>wi_prev := q\<rparr>) a h) p as r = lseg h p as r"
  "bwd (upd (\<lambda>c. c\<lparr>wi_next := q\<rparr>) a h) t as = bwd h t as"
proof -
  show *: "cnext (upd (\<lambda>c. c\<lparr>wi_prev := q\<rparr>) a h) b = cnext h b" "cprev (upd (\<lambda>c. c\<lparr>wi_next := q\<rparr>) a h) b = cprev h b" for b
    by (cases "cell h a"; auto simp: cnext_def cprev_def)+
  show "lseg (upd (\<lambda>c. c\<lparr>wi_prev := q\<rparr>) a h) p as r = lseg h p as r" by (rule lseg_cong) (auto simp: *)
  show "bwd (upd (\<lambda>c. c\<lparr>wi_next := q\<rparr>) a h) t as = bwd h t as" by (rule bwd_cong) (auto simp: *)
qed

lemma bwd_upd_frame: "a \<notin> set as \<Longrightarrow> bwd (upd f a h) t as = bwd h t as"
  by (rule bwd_cong) (auto simp: cprev_def)

lemma upd_link [simp]:
  "cell h a \<noteq> None \<Longrightarrow> cnext (upd (\<lambda>c. c\<lparr>wi_next := q\<rparr>) a h) b = (if b = a then q else cnext h b)"
  "cell h a \<noteq> None \<Longrightarrow> cprev (upd (\<lambda>c. c\<lparr>wi_prev := q\<rparr>) a h) b = (if b = a then q else cprev h b)"
  by (auto simp: cnext_def cprev_def)

text \<open>Reading a cell: what is read are its links.\<close>

lemma bind_cell [simp]: "cell h a \<noteq> None \<Longrightarrow> (do { c \<leftarrow> cell h a; F c }) = F (the (cell h a))"
  by auto

lemma links_fold: "wi_next (the (cell h a)) = cnext h a" "wi_prev (the (cell h a)) = cprev h a"
  by (simp_all add: cnext_def cprev_def)

lemma DL_PREPEND_dl:
  assumes "dl h p as" "cell h x \<noteq> None" "x \<notin> set as"
  shows "\<exists>h'. DL_PREPEND h p (Some x) = Some (h', Some x) \<and> dl h' (Some x) (x # as)"
proof (cases as)
  case Nil
  with assms show ?thesis by (auto simp: DL_PREPEND_def dl_def upd_fields)
next
  case (Cons b bs)
  let ?h = "upd (\<lambda>c. c\<lparr>wi_prev := Some x\<rparr>) b (upd (\<lambda>c. c\<lparr>wi_prev := cprev h b\<rparr>) x (upd (\<lambda>c. c\<lparr>wi_next := p\<rparr>) x h))"
  have b: "p = Some b" "cell h b \<noteq> None" "x \<noteq> b" "x \<notin> set bs" "b \<notin> set bs" using assms Cons by (auto simp: dl_def)
  have "DL_PREPEND h p (Some x) = Some (?h, Some x)" using assms(2) b by (auto simp: DL_PREPEND_def cprev_def)
  moreover have "dl ?h (Some x) (x # as)" using assms b Cons by (auto simp: dl_def lseg_upd_frame bwd_upd_frame)
  ultimately show ?thesis by blast
qed


lemmas link_simps = lseg_upd_frame bwd_upd_frame bwd_append

lemma relink_end:
  assumes "lseg h p as q" "as \<noteq> []" "distinct as"
  shows "lseg (upd (\<lambda>c. c\<lparr>wi_next := r\<rparr>) (last as) h) p as r"
proof -
  obtain as' a where "as = as' @ [a]" using assms(2) by (cases as rule: rev_cases) auto
  then show ?thesis using relink_last(1) [of h p as' a q r] assms by simp
qed

text \<open>A list that is not empty, by its first element and its last.\<close>

lemma dl_ends:
  assumes "dl h p as" "as \<noteq> []"
  obtains b bs z where "as = b # bs" "last as = z" "z \<in> set as" "p = Some b" "cell h b \<noteq> None" "cell h z \<noteq> None" "cprev h b = Some z"
    "b \<notin> set bs" "bwd h (Some b) bs" "lseg h p as None" "distinct as"
proof -
  have s: "lseg h p as None" "bwd h (Some (last as)) as" "distinct as" using assms(1) by (simp_all add: dl_def)
  have z: "last as \<in> set as" "cell h (last as) \<noteq> None" using assms(2) lseg_cell [OF s(1)] by (simp_all del: not_None_eq)
  obtain b bs where b: "as = b # bs" using assms(2) by (cases as) auto
  have "p = Some b" "cell h b \<noteq> None" "cprev h b = Some (last as)" "b \<notin> set bs" "bwd h (Some b) bs" using s b by simp_all
  then show ?thesis by (rule that [OF b refl z(1) _ _ z(2) _ _ _ s(1,3)])
qed

lemma DL_APPEND_dl:
  assumes "dl h p as" "cell h x \<noteq> None" "x \<notin> set as"
  shows "\<exists>h' p'. DL_APPEND h p (Some x) = Some (h', p') \<and> dl h' p' (as @ [x])"
proof (cases "as = []")
  case True
  with assms show ?thesis by (auto simp: DL_APPEND_def dl_def upd_fields)
next
  case False
  then obtain b bs z where e: "as = b # bs" "last as = z" "z \<in> set as" "p = Some b" "cell h b \<noteq> None" "cell h z \<noteq> None"
    "cprev h b = Some z" "b \<notin> set bs" "bwd h (Some b) bs" "lseg h p as None" "distinct as"
    using dl_ends [OF assms(1)] by blast
  let ?h1 = "upd (\<lambda>c. c\<lparr>wi_prev := Some z\<rparr>) x h"
  let ?h2 = "upd (\<lambda>c. c\<lparr>wi_next := Some x\<rparr>) z ?h1"
  let ?h = "upd (\<lambda>c. c\<lparr>wi_next := None\<rparr>) x (upd (\<lambda>c. c\<lparr>wi_prev := Some x\<rparr>) b ?h2)"
  have ne: "x \<noteq> b" "x \<noteq> z" "x \<notin> set bs" using assms(3) e(1,3) by auto
  have "DL_APPEND h p (Some x) = Some (?h, p)" using e(4-7) ne assms(2) by (auto simp: DL_APPEND_def cprev_def)
  moreover have "lseg ?h2 p as (Some x)" using relink_end [of ?h1 p as None "Some x"] e(2,10,11) False by simp
  then have "lseg ?h p (as @ [x]) None" using assms(2,3) e(5,6) ne by (auto simp: lseg_append link_simps)
  moreover have "bwd ?h (Some x) (b # bs)" using e(5,6,8,9) assms(2) ne by (simp add: link_simps)
  moreover have "cprev ?h x = Some z" using assms(2) e(5,6) ne by simp
  ultimately show ?thesis using assms(3) e(1,2,11) by (intro exI [of _ ?h] exI [of _ p]) (auto simp: dl_def bwd_append)
qed

lemma DL_CONCAT_dl:
  assumes "dl h p as" "dl h q bs" "set as \<inter> set bs = {}"
  shows "\<exists>h' p'. DL_CONCAT h p q = Some (h', p') \<and> dl h' p' (as @ bs)"
proof (cases "as = [] \<or> bs = []")
  case True
  with assms show ?thesis by (auto simp: DL_CONCAT_def dl_def neq_Nil_conv)
next
  case False
  then obtain b1 bs1 z1 where e: "as = b1 # bs1" "last as = z1" "z1 \<in> set as" "p = Some b1" "cell h b1 \<noteq> None" "cell h z1 \<noteq> None"
    "cprev h b1 = Some z1" "b1 \<notin> set bs1" "bwd h (Some b1) bs1" "lseg h p as None" "distinct as"
    using dl_ends [OF assms(1)] by blast
  obtain b2 bs2 z2 where f: "bs = b2 # bs2" "last bs = z2" "z2 \<in> set bs" "q = Some b2" "cell h b2 \<noteq> None" "cell h z2 \<noteq> None"
    "cprev h b2 = Some z2" "b2 \<notin> set bs2" "bwd h (Some b2) bs2" "lseg h q bs None" "distinct bs"
    using dl_ends [OF assms(2)] False by blast
  let ?h1 = "upd (\<lambda>c. c\<lparr>wi_prev := Some z1\<rparr>) b2 h"
  let ?h2 = "upd (\<lambda>c. c\<lparr>wi_next := Some b2\<rparr>) z1 ?h1"
  let ?h = "upd (\<lambda>c. c\<lparr>wi_prev := Some z2\<rparr>) b1 ?h2"
  have ne: "b1 \<noteq> b2" "b2 \<noteq> z1" "b1 \<noteq> z2" "b2 \<notin> set bs1" "b1 \<notin> set bs2" "z1 \<notin> set bs"
    using assms(3) e(1,3) f(1,3) by auto
  have "DL_CONCAT h p q = Some (?h, p)" using e(4-7) f(4-7) ne by (auto simp: DL_CONCAT_def cprev_def)
  moreover have "lseg ?h2 p as q" using relink_end [of ?h1 p as None q] e(2,10,11) f(4) False by simp
  moreover have "lseg ?h2 q bs None" using e(6) f(5,10) ne(6) by (simp add: link_simps)
  ultimately have "DL_CONCAT h p q = Some (?h, p) \<and> lseg ?h p (as @ bs) None" by (auto simp: lseg_append)
  moreover have "bwd ?h (Some z2) (b1 # bs1)" using e(5,6,8,9) f(5) ne by (simp add: link_simps)
  moreover have "bwd ?h (Some z1) (b2 # bs2)" using e(5,6) f(5,8,9) ne by (simp add: link_simps)
  ultimately show ?thesis using assms(3) e(1,2,11) f(1,2,11) by (intro exI [of _ ?h] exI [of _ p]) (auto simp: dl_def bwd_append)
qed


text \<open>A list around one of its elements.\<close>

lemma dl_around:
  assumes "dl h p (as @ x # bs)"
  shows "lseg h p as (Some x)" "cell h x \<noteq> None" "lseg h (cnext h x) bs None" "distinct (as @ x # bs)"
    and "cprev h x = Some (last (if as = [] then x # bs else as))" "bwd h (Some (last (x # bs))) as" "bwd h (Some x) bs"
  using assms by (auto simp: dl_def lseg_mid bwd_append)

lemma lseg_nonempty: "lseg h p as q \<Longrightarrow> as \<noteq> [] \<Longrightarrow> p = Some (hd as) \<and> cell h (hd as) \<noteq> None \<and> cell h (last as) \<noteq> None"
  using lseg_cell [of h p as q "last as"] by (cases as) auto

lemma sides:
  assumes "dl h p (as @ x # bs)"
  shows "as \<noteq> [] \<Longrightarrow> p = Some (hd as)" "as \<noteq> [] \<Longrightarrow> cell h (hd as) \<noteq> None" "as \<noteq> [] \<Longrightarrow> cell h (last as) \<noteq> None"
    "as \<noteq> [] \<Longrightarrow> hd as \<noteq> x" "as \<noteq> [] \<Longrightarrow> last as \<noteq> x" "as \<noteq> [] \<Longrightarrow> last as \<notin> set bs"
    "bs \<noteq> [] \<Longrightarrow> cnext h x = Some (hd bs)" "bs \<noteq> [] \<Longrightarrow> cell h (hd bs) \<noteq> None"
    "bs \<noteq> [] \<Longrightarrow> hd bs \<noteq> x" "bs \<noteq> [] \<Longrightarrow> last bs \<noteq> x" "bs \<noteq> [] \<Longrightarrow> hd bs \<notin> set as"
proof -
  note e = dl_around [OF assms]
  show "p = Some (hd as)" "cell h (hd as) \<noteq> None" "cell h (last as) \<noteq> None" if "as \<noteq> []" using lseg_nonempty [OF e(1) that] by simp_all
  show "hd as \<noteq> x" "last as \<noteq> x" "last as \<notin> set bs" if "as \<noteq> []" using e(4) hd_in_set [OF that] last_in_set [OF that] by auto
  show "cnext h x = Some (hd bs)" "cell h (hd bs) \<noteq> None" if "bs \<noteq> []" using lseg_nonempty [OF e(3) that] by simp_all
  show "hd bs \<noteq> x" "last bs \<noteq> x" "hd bs \<notin> set as" if "bs \<noteq> []" using e(4) hd_in_set [OF that] last_in_set [OF that] by auto
qed

lemma bwd_rehead: "as \<noteq> [] \<Longrightarrow> distinct as \<Longrightarrow> cell h (hd as) \<noteq> None \<Longrightarrow> bwd h t as \<Longrightarrow> bwd (upd (\<lambda>c. c\<lparr>wi_prev := r\<rparr>) (hd as) h) r as"
  by (cases as) (simp_all add: bwd_upd_frame)

lemma DL_DELETE_dl:
  assumes "dl h p (as @ x # bs)"
  shows "\<exists>h' p'. DL_DELETE h p (Some x) = Some (h', p') \<and> dl h' p' (as @ bs)"
proof -
  note e = dl_around [OF assms]
  note as = sides(1-6) [OF assms] and bs = sides(7-11) [OF assms]
  consider "as = []" "bs = []" | "as = []" "bs \<noteq> []" | "as \<noteq> []" "bs = []" | "as \<noteq> []" "bs \<noteq> []" by blast
  then show ?thesis
  proof cases
    case 1
    with e show ?thesis by (auto simp: DL_DELETE_def dl_def cprev_def)
  next
    case 2
    let ?h = "upd (\<lambda>c. c\<lparr>wi_prev := Some (last bs)\<rparr>) (hd bs) h"
    have "DL_DELETE h p (Some x) = Some (?h, cnext h x)" using 2 e(1,2,5) bs by (auto simp: DL_DELETE_def cprev_def cnext_def)
    moreover have "dl ?h (cnext h x) bs" using e(3,4,7) 2 bs(2) bwd_rehead [of bs h] by (simp add: dl_def)
    ultimately show ?thesis using 2(1) by simp
  next
    case 3
    let ?g = "upd (\<lambda>c. c\<lparr>wi_next := None\<rparr>) (last as) h"
    let ?h = "upd (\<lambda>c. c\<lparr>wi_prev := Some (last as)\<rparr>) (hd as) ?g"
    have "DL_DELETE h p (Some x) = Some (?h, p)" using 3 e(2,3,5) as(1-5) by (auto simp: DL_DELETE_def cprev_def cnext_def)
    moreover have "dl ?h p as"
      using e(4,6) 3 as(2,3) bwd_rehead [of as ?g] relink_end [OF e(1)] by (simp add: dl_def)
    ultimately show ?thesis using 3(2) by simp
  next
    case 4
    let ?g = "upd (\<lambda>c. c\<lparr>wi_next := cnext h x\<rparr>) (last as) h"
    let ?h = "upd (\<lambda>c. c\<lparr>wi_prev := Some (last as)\<rparr>) (hd bs) ?g"
    have "DL_DELETE h p (Some x) = Some (?h, p)" using 4 e(2,5) as(1-5) bs(1-3) by (auto simp: DL_DELETE_def cprev_def cnext_def)
    moreover have "lseg ?h p (as @ bs) None"
      using relink_end [OF e(1), of "cnext h x"] e(3,4) 4(1) as(3,6) by (auto simp: lseg_append lseg_upd_frame)
    moreover have "bwd ?h (Some (last bs)) as" using e(6) bs(5) 4 by (simp add: bwd_upd_frame)
    moreover have "bwd ?h (Some (last as)) bs" using e(4,7) 4 bs(2) as(3) bwd_rehead [of bs ?g] by simp
    ultimately show ?thesis using e(4) 4 by (auto simp: dl_def bwd_append)
  qed
qed


lemma DL_REPLACE_ELEM_dl:
  assumes "dl h p (as @ x # bs)" "cell h y \<noteq> None" "y \<notin> set (as @ x # bs)"
  shows "\<exists>h' p'. DL_REPLACE_ELEM h p (Some x) (Some y) = Some (h', p') \<and> dl h' p' (as @ y # bs)"
proof -
  note e = dl_around [OF assms(1)] and as = sides(1-6) [OF assms(1)] and bs = sides(7-11) [OF assms(1)]
  have y: "y \<noteq> x" "y \<notin> set as" "y \<notin> set bs" using assms(3) by simp_all
  have ny: "as \<noteq> [] \<Longrightarrow> hd as \<noteq> y \<and> last as \<noteq> y" "bs \<noteq> [] \<Longrightarrow> hd bs \<noteq> y" using y(2,3) hd_in_set last_in_set by blast+
  let ?g = "upd (\<lambda>c. c\<lparr>wi_next := cnext h x\<rparr>) y h"
  consider "as = []" "bs = []" | "as = []" "bs \<noteq> []" | "as \<noteq> []" "bs = []" | "as \<noteq> []" "bs \<noteq> []" by blast
  then show ?thesis
  proof cases
    case 1
    let ?h = "upd (\<lambda>c. c\<lparr>wi_prev := Some y\<rparr>) y ?g"
    have "DL_REPLACE_ELEM h p (Some x) (Some y) = Some (?h, Some y)"
      using 1 e(1-3) y assms(2) by (auto simp: DL_REPLACE_ELEM_def cnext_def)
    moreover have "dl ?h (Some y) [y]" using assms(2) 1 e(3) by (simp add: dl_def)
    ultimately show ?thesis using 1 by simp
  next
    case 2
    let ?g2 = "upd (\<lambda>c. c\<lparr>wi_prev := Some (last bs)\<rparr>) y ?g"
    let ?h = "upd (\<lambda>c. c\<lparr>wi_prev := Some y\<rparr>) (hd bs) ?g2"
    have "DL_REPLACE_ELEM h p (Some x) (Some y) = Some (?h, Some y)"
      using 2 e(1,2,5) y assms(2) bs ny by (auto simp: DL_REPLACE_ELEM_def cnext_def cprev_def)
    moreover have "bwd ?h (Some y) bs" using bwd_rehead [of bs ?g2] 2 e(4,7) bs(2) y(3) assms(2) by (simp add: link_simps)
    then have "dl ?h (Some y) (y # bs)" using e(3,4) y assms(2) bs(2) ny 2 by (simp add: dl_def link_simps)
    ultimately show ?thesis using 2 by simp
  next
    case 3
    let ?g2 = "upd (\<lambda>c. c\<lparr>wi_prev := Some (last as)\<rparr>) y ?g"
    let ?g3 = "upd (\<lambda>c. c\<lparr>wi_next := Some y\<rparr>) (last as) ?g2"
    let ?h = "upd (\<lambda>c. c\<lparr>wi_prev := Some y\<rparr>) (hd as) ?g3"
    have "DL_REPLACE_ELEM h p (Some x) (Some y) = Some (?h, p)"
      using 3 e(1-3,5) y assms(2) as ny by (auto simp: DL_REPLACE_ELEM_def cnext_def cprev_def)
    moreover have "bwd ?h (Some y) as" using bwd_rehead [of as ?g3] 3 e(4,6) as(2,3) y(2) assms(2) by (simp add: link_simps)
    moreover have "lseg ?g3 p as (Some y)" using relink_end [of ?g2 p as "Some x" "Some y"] e(1,4) y(2) 3(1) assms(2) by (simp add: link_simps)
    then have "lseg ?h p (as @ [y]) None" using assms(2) as(2,3) ny 3 e(3) by (auto simp: lseg_append)
    moreover have "cprev ?h y = Some (last as)" using assms(2) as(2,3) ny 3 by simp
    ultimately show ?thesis using 3 e(4) y(2) by (auto simp: dl_def bwd_append)
  next
    case 4
    let ?g2 = "upd (\<lambda>c. c\<lparr>wi_prev := Some (last as)\<rparr>) y ?g"
    let ?g3 = "upd (\<lambda>c. c\<lparr>wi_next := Some y\<rparr>) (last as) ?g2"
    let ?h = "upd (\<lambda>c. c\<lparr>wi_prev := Some y\<rparr>) (hd bs) ?g3"
    have "DL_REPLACE_ELEM h p (Some x) (Some y) = Some (?h, p)"
      using 4 e(1-3,5) y assms(2) as bs ny by (auto simp: DL_REPLACE_ELEM_def cnext_def cprev_def)
    moreover have "bwd ?h (Some y) bs" using bwd_rehead [of bs ?g3] 4 e(4,7) as(3) bs(2) y(3) assms(2) by (simp add: link_simps)
    moreover have "bwd ?h (Some (last bs)) as" using e(6) 4 y(2) bs(5) by (simp add: link_simps)
    moreover have "lseg ?g3 p as (Some y)" using relink_end [of ?g2 p as "Some x" "Some y"] e(1,4) y(2) 4(1) assms(2) by (simp add: link_simps)
    then have "lseg ?h p (as @ y # bs) None" using assms(2) as(3,6) y(3) ny 4 e(3) by (auto simp: lseg_append lseg_upd_frame)
    moreover have "cprev ?h y = Some (last as)" using assms(2) as(3) bs(2) ny 4 by simp
    ultimately show ?thesis using 4 e(4) y(2,3) by (auto simp: dl_def bwd_append)
  qed
qed

lemma DL_PREPEND_ELEM_dl:
  assumes "dl h p (as @ x # bs)" "cell h y \<noteq> None" "y \<notin> set (as @ x # bs)"
  shows "\<exists>h' p'. DL_PREPEND_ELEM h p (Some x) (Some y) = Some (h', p') \<and> dl h' p' (as @ y # x # bs)"
proof (cases "as = []")
  case True
  then have "DL_PREPEND_ELEM h p (Some x) (Some y) = DL_PREPEND h p (Some y)"
    using dl_around(1,2) [OF assms(1)] by (auto simp: DL_PREPEND_ELEM_def DL_PREPEND_def)
  with DL_PREPEND_dl [OF assms] True show ?thesis by auto
next
  case False
  note e = dl_around [OF assms(1)] and as = sides(1-6) [OF assms(1) False]
  have y: "y \<noteq> x" "y \<notin> set as" "y \<notin> set bs" using assms(3) by simp_all
  have ny: "hd as \<noteq> y" "last as \<noteq> y" using y(2) False hd_in_set last_in_set by blast+
  let ?g = "upd (\<lambda>c. c\<lparr>wi_prev := Some (last as)\<rparr>) y (upd (\<lambda>c. c\<lparr>wi_next := Some x\<rparr>) y h)"
  let ?g3 = "upd (\<lambda>c. c\<lparr>wi_prev := Some y\<rparr>) x ?g"
  let ?h = "upd (\<lambda>c. c\<lparr>wi_next := Some y\<rparr>) (last as) ?g3"
  have "DL_PREPEND_ELEM h p (Some x) (Some y) = Some (?h, p)"
    using False e(2,5) y assms(2) as ny by (auto simp: DL_PREPEND_ELEM_def cnext_def cprev_def)
  moreover have "lseg ?h p as (Some y)" using relink_end [of ?g3 p as "Some x" "Some y"] e(1,4) y(2) False assms(2) by (simp add: link_simps)
  then have "lseg ?h p (as @ y # x # bs) None" using assms(2) as(3,5,6) y ny e(2,3) by (auto simp: lseg_append lseg_upd_frame)
  moreover have "bwd ?h (Some (last (x # bs))) as" "bwd ?h (Some x) bs" "cprev ?h y = Some (last as)" "cprev ?h x = Some y"
    using e(2,4,6,7) y assms(2) by (simp_all add: link_simps)
  ultimately show ?thesis using False e(4) y by (auto simp: dl_def bwd_append)
qed


section \<open>What the macros do to circular lists\<close>

text \<open>Any element of a circle may be taken as the first one.\<close>

lemma cdl_rotate: "cdl h p (as @ x # bs) \<Longrightarrow> cdl h (Some x) (x # bs @ as)"
  by (auto simp: cdl_def lseg_mid lseg_append bwd_append)

lemma cdl_back: "cdl h (Some y) (y # bs @ as) \<Longrightarrow> as \<noteq> [] \<Longrightarrow> cdl h (Some (hd as)) (as @ y # bs)"
  using cdl_rotate [of h "Some y" "y # bs" "hd as" "tl as"] by (cases as) simp_all

lemma cdl_first:
  assumes "cdl h p (x # cs)"
  shows "p = Some x" "cell h x \<noteq> None" "x \<notin> set cs" "distinct cs" "lseg h (cnext h x) cs (Some x)" "bwd h (Some x) cs"
    and "cprev h x = Some (last (x # cs))" "cnext h x = Some (hd (cs @ [x]))" "cell h (hd (cs @ [x])) \<noteq> None" "cell h (last (x # cs)) \<noteq> None"
proof -
  show s: "p = Some x" "cell h x \<noteq> None" "x \<notin> set cs" "distinct cs" "lseg h (cnext h x) cs (Some x)" "bwd h (Some x) cs"
    "cprev h x = Some (last (x # cs))" using assms by (auto simp: cdl_def)
  show "cnext h x = Some (hd (cs @ [x]))" "cell h (hd (cs @ [x])) \<noteq> None" "cell h (last (x # cs)) \<noteq> None"
    using lseg_nonempty [OF s(5)] s(2,5) by (cases "cs = []"; simp)+
qed

lemma cdl_neighbours:
  assumes "cdl h p (x # cs)" "cs \<noteq> []"
  shows "cell h (hd cs) \<noteq> None" "cell h (last cs) \<noteq> None" "cnext h x = Some (hd cs)" "cprev h x = Some (last cs)" "hd cs \<noteq> x" "last cs \<noteq> x"
  using cdl_first [OF assms(1)] assms(2) hd_in_set [OF assms(2)] last_in_set [OF assms(2)] by auto

lemma cdl_hd: "cdl h p (as @ x # bs) \<Longrightarrow> p = Some (hd (as @ [x])) \<and> (hd (as @ [x]) = x \<longleftrightarrow> as = [])"
  by (cases as) (auto simp: cdl_def)

text \<open>An element is taken out of the circle, put in its place, or put in front of it.\<close>

lemma cdl_unlink:
  assumes "cdl h p (x # cs)" "cs \<noteq> []"
  shows "cdl (upd (\<lambda>c. c\<lparr>wi_next := Some (hd cs)\<rparr>) (last cs) (upd (\<lambda>c. c\<lparr>wi_prev := Some (last cs)\<rparr>) (hd cs) h)) (Some (hd cs)) cs"
proof -
  note e = cdl_first [OF assms(1)]
  let ?g = "upd (\<lambda>c. c\<lparr>wi_prev := Some (last cs)\<rparr>) (hd cs) h"
  have "lseg (upd (\<lambda>c. c\<lparr>wi_next := Some (hd cs)\<rparr>) (last cs) ?g) (Some (hd cs)) cs (Some (hd cs))"
    using e(4,5,8) assms(2) by (intro relink_end [of _ _ _ "Some x"]) simp_all
  then show ?thesis using e(4,6,9) assms(2) bwd_rehead [of cs h "Some x"] by (simp add: cdl_def)
qed

lemma cdl_replace:
  assumes "cdl h p (x # cs)" "cs \<noteq> []" "cell h y \<noteq> None" "y \<notin> set cs"
  defines "g \<equiv> upd (\<lambda>c. c\<lparr>wi_prev := Some (last cs)\<rparr>) y (upd (\<lambda>c. c\<lparr>wi_next := Some (hd cs)\<rparr>) y h)"
  shows "cdl (upd (\<lambda>c. c\<lparr>wi_next := Some y\<rparr>) (last cs) (upd (\<lambda>c. c\<lparr>wi_prev := Some y\<rparr>) (hd cs) g)) (Some y) (y # cs)"
proof -
  note e = cdl_first [OF assms(1)]
  have y: "hd cs \<noteq> y" "last cs \<noteq> y" using assms(2,4) hd_in_set last_in_set by blast+
  have s: "lseg g (Some (hd cs)) cs (Some x)" "bwd g (Some x) cs" using e(5,6,8) assms(2-4) by (simp_all add: g_def link_simps)
  let ?g = "upd (\<lambda>c. c\<lparr>wi_prev := Some y\<rparr>) (hd cs) g"
  have "lseg (upd (\<lambda>c. c\<lparr>wi_next := Some y\<rparr>) (last cs) ?g) (Some (hd cs)) cs (Some y)"
    using s(1) e(4) assms(2) by (intro relink_end [of _ _ _ "Some x"]) simp_all
  moreover have "bwd ?g (Some y) cs" using s(2) e(4,9) assms(2) y bwd_rehead [of cs g "Some x"] by (simp add: g_def)
  moreover have "cell ?g (last cs) \<noteq> None" "cnext ?g y = Some (hd cs)" "cprev ?g y = Some (last cs)"
    using e(9,10) y assms(2,3) by (simp_all add: g_def)
  ultimately show ?thesis using e(4) assms(2-4) y by (simp add: cdl_def g_def)
qed

lemma cdl_insert:
  assumes "cdl h p (x # cs)" "cell h y \<noteq> None" "y \<notin> set (x # cs)"
  defines "g \<equiv> upd (\<lambda>c. c\<lparr>wi_prev := Some (last (x # cs))\<rparr>) y (upd (\<lambda>c. c\<lparr>wi_next := Some x\<rparr>) y h)"
  shows "cdl (upd (\<lambda>c. c\<lparr>wi_next := Some y\<rparr>) (last (x # cs)) (upd (\<lambda>c. c\<lparr>wi_prev := Some y\<rparr>) x g)) (Some y) (y # x # cs)"
proof -
  note e = cdl_first [OF assms(1)]
  have y: "last (x # cs) \<noteq> y" using assms(3) last_in_set [of "x # cs"] by (metis list.distinct(1))
  have s: "lseg g (Some x) (x # cs) (Some x)" "bwd g (Some x) cs" using e(2,5,6) assms(2,3) by (auto simp: g_def link_simps simp del: last.simps)
  let ?h = "upd (\<lambda>c. c\<lparr>wi_prev := Some y\<rparr>) x g"
  have "lseg (upd (\<lambda>c. c\<lparr>wi_next := Some y\<rparr>) (last (x # cs)) ?h) (Some x) (x # cs) (Some y)"
    using s(1) e(3,4) by (intro relink_end) auto
  moreover have "bwd ?h (Some y) (x # cs)" using s(2) e(2,3) assms(2,3) by (simp add: link_simps g_def del: last.simps)
  moreover have "cell ?h (last (x # cs)) \<noteq> None" "cell ?h y \<noteq> None" "cnext ?h y = Some x" "cprev ?h y = Some (last (x # cs))"
    using e(2,10) y assms(2,3) by (auto simp: g_def simp del: last.simps)
  moreover have "last (y # x # cs) = last (x # cs)" "distinct (y # x # cs)" using e(3,4) assms(3) by auto
  ultimately show ?thesis using y by (simp add: cdl_def del: last.simps)
qed


lemma CDL_DELETE_eval:
  assumes "cdl h q (x # cs)" "cs \<noteq> []"
  shows "CDL_DELETE h (Some p) (Some x) =
    Some (upd (\<lambda>c. c\<lparr>wi_next := Some (hd cs)\<rparr>) (last cs) (upd (\<lambda>c. c\<lparr>wi_prev := Some (last cs)\<rparr>) (hd cs) h),
      if p = x then Some (hd cs) else Some p)"
  using cdl_neighbours [OF assms] cdl_first(2) [OF assms(1)] by (auto simp: CDL_DELETE_def cnext_def cprev_def)

lemma CDL_REPLACE_ELEM_eval:
  assumes "cdl h q (x # cs)" "cs \<noteq> []" "hd cs \<noteq> y" "last cs \<noteq> y" "y \<noteq> x" "cell h y \<noteq> None"
  shows "CDL_REPLACE_ELEM h (Some p) (Some x) (Some y) =
    Some (upd (\<lambda>c. c\<lparr>wi_next := Some y\<rparr>) (last cs) (upd (\<lambda>c. c\<lparr>wi_prev := Some y\<rparr>) (hd cs)
        (upd (\<lambda>c. c\<lparr>wi_prev := Some (last cs)\<rparr>) y (upd (\<lambda>c. c\<lparr>wi_next := Some (hd cs)\<rparr>) y h))),
      if p = x then Some y else Some p)"
  using cdl_neighbours [OF assms(1,2)] cdl_first(2) [OF assms(1)] assms(3-) by (auto simp: CDL_REPLACE_ELEM_def cnext_def cprev_def)

lemma CDL_DELETE_cdl:
  assumes "cdl h p (as @ x # bs)"
  shows "\<exists>h' p'. CDL_DELETE h p (Some x) = Some (h', p') \<and> cdl h' p' (as @ bs)"
proof (cases "as = [] \<and> bs = []")
  case True
  with assms show ?thesis by (auto simp: CDL_DELETE_def cdl_def cnext_def)
next
  case False
  let ?cs = "bs @ as"
  let ?h = "upd (\<lambda>c. c\<lparr>wi_next := Some (hd ?cs)\<rparr>) (last ?cs) (upd (\<lambda>c. c\<lparr>wi_prev := Some (last ?cs)\<rparr>) (hd ?cs) h)"
  note r = cdl_rotate [OF assms] and e = cdl_first [OF cdl_rotate [OF assms]]
  have ne: "?cs \<noteq> []" using False by auto
  have d: "CDL_DELETE h p (Some x) = Some (?h, if as = [] then Some (hd ?cs) else p)"
    using CDL_DELETE_eval [OF r ne, of "hd (as @ [x])"] cdl_hd [OF assms] by simp
  have u: "cdl ?h (Some (hd ?cs)) ?cs" by (rule cdl_unlink [OF r ne])
  show ?thesis
  proof (cases "as = [] \<or> bs = []")
    case True
    with d u cdl_hd [OF assms] show ?thesis by (auto simp del: last_append)
  next
    case F: False
    then obtain b bs' where "bs = b # bs'" by (cases bs) auto
    then have "cdl ?h (Some (hd as)) (as @ bs)" using cdl_back [of ?h b bs' as] u F by simp
    with d F cdl_hd [OF assms] show ?thesis by simp
  qed
qed

lemma cdl_entry:
  assumes "cdl h (Some y) (y # bs @ as)"
  shows "cdl h (if as = [] then Some y else Some (hd as)) (as @ y # bs)"
  using assms cdl_back [OF assms] by (cases "as = []") simp_all

lemma CDL_PREPEND_ELEM_cdl:
  assumes "cdl h p (as @ x # bs)" "cell h y \<noteq> None" "y \<notin> set (as @ x # bs)"
  shows "\<exists>h' p'. CDL_PREPEND_ELEM h p (Some x) (Some y) = Some (h', p') \<and> cdl h' p' (as @ y # x # bs)"
proof -
  let ?z = "last (x # bs @ as)"
  let ?g = "upd (\<lambda>c. c\<lparr>wi_prev := Some ?z\<rparr>) y (upd (\<lambda>c. c\<lparr>wi_next := Some x\<rparr>) y h)"
  let ?h = "upd (\<lambda>c. c\<lparr>wi_next := Some y\<rparr>) ?z (upd (\<lambda>c. c\<lparr>wi_prev := Some y\<rparr>) x ?g)"
  note r = cdl_rotate [OF assms(1)] and e = cdl_first [OF cdl_rotate [OF assms(1)]]
  have y: "y \<noteq> x" "?z \<noteq> y" using assms(3) last_in_set [of "x # bs @ as"] by (auto simp del: last.simps)
  note p = cdl_hd [OF assms(1)]
  then have "CDL_PREPEND_ELEM h p (Some x) (Some y) = Some (?h, if as = [] then Some y else p)"
    using e(2,7,10) assms(2) y by (auto simp: CDL_PREPEND_ELEM_def cprev_def simp del: last.simps hd_append)
  moreover have "cdl ?h (Some y) (y # x # bs @ as)" using cdl_insert [OF r assms(2)] assms(3) by (simp del: last.simps)
  from cdl_entry [of ?h y "x # bs" as] this have "cdl ?h (if as = [] then Some y else Some (hd as)) (as @ y # x # bs)"
    by (simp del: last.simps)
  ultimately show ?thesis using p by (intro exI [of _ ?h] exI [of _ "if as = [] then Some y else Some (hd as)"]) simp
qed

lemma upd_swap:
  "upd (\<lambda>c. c\<lparr>wi_next := p\<rparr>) x (upd (\<lambda>c. c\<lparr>wi_prev := q\<rparr>) x h) = upd (\<lambda>c. c\<lparr>wi_prev := q\<rparr>) x (upd (\<lambda>c. c\<lparr>wi_next := p\<rparr>) x h)"
proof (cases "cell h x")
  case (Some a)
  then show ?thesis by (cases a) (simp add: upd_def cell_def split: if_splits)
qed (simp add: upd_def cell_def)

lemma CDL_PREPEND_cdl:
  assumes "cdl h p as" "cell h x \<noteq> None" "x \<notin> set as"
  shows "\<exists>h' p'. CDL_PREPEND h p (Some x) = Some (h', p') \<and> cdl h' p' (x # as)"
proof (cases as)
  case Nil
  with assms show ?thesis by (auto simp: CDL_PREPEND_def cdl_def)
next
  case (Cons b bs)
  let ?z = "last (b # bs)"
  let ?g = "upd (\<lambda>c. c\<lparr>wi_next := Some b\<rparr>) x (upd (\<lambda>c. c\<lparr>wi_prev := Some ?z\<rparr>) x h)"
  let ?g' = "upd (\<lambda>c. c\<lparr>wi_prev := Some ?z\<rparr>) x (upd (\<lambda>c. c\<lparr>wi_next := Some b\<rparr>) x h)"
  let ?h = "upd (\<lambda>c. c\<lparr>wi_next := Some x\<rparr>) ?z (upd (\<lambda>c. c\<lparr>wi_prev := Some x\<rparr>) b ?g)"
  note e = cdl_first [OF assms(1) [unfolded Cons]]
  have z: "?z \<noteq> x" "x \<noteq> b" using assms(3) Cons last_in_set [of "b # bs"] by (auto simp del: last.simps)
  have "?g = ?g'" by (rule upd_swap)
  moreover have "CDL_PREPEND h p (Some x) = Some (?h, Some x)"
    using e(1,2,7,10) assms(2) z by (auto simp: CDL_PREPEND_def cprev_def simp del: last.simps)
  ultimately show ?thesis using cdl_insert [OF assms(1) [unfolded Cons] assms(2)] assms(3) Cons by (simp del: last.simps)
qed

lemma CDL_REPLACE_ELEM_cdl:
  assumes "cdl h p (as @ x # bs)" "cell h y \<noteq> None" "y \<notin> set (as @ x # bs)"
  shows "\<exists>h' p'. CDL_REPLACE_ELEM h p (Some x) (Some y) = Some (h', p') \<and> cdl h' p' (as @ y # bs)"
proof (cases "as = [] \<and> bs = []")
  case True
  with assms show ?thesis by (auto simp: CDL_REPLACE_ELEM_def cdl_def cnext_def cprev_def)
next
  case False
  let ?cs = "bs @ as"
  let ?g = "upd (\<lambda>c. c\<lparr>wi_prev := Some (last ?cs)\<rparr>) y (upd (\<lambda>c. c\<lparr>wi_next := Some (hd ?cs)\<rparr>) y h)"
  let ?h = "upd (\<lambda>c. c\<lparr>wi_next := Some y\<rparr>) (last ?cs) (upd (\<lambda>c. c\<lparr>wi_prev := Some y\<rparr>) (hd ?cs) ?g)"
  note r = cdl_rotate [OF assms(1)] and e = cdl_first [OF cdl_rotate [OF assms(1)]]
  have ne: "?cs \<noteq> []" "hd ?cs \<noteq> y" "last ?cs \<noteq> y" "y \<noteq> x"
    using False assms(3) hd_in_set [of ?cs] last_in_set [of ?cs] by force+
  note p = cdl_hd [OF assms(1)]
  have "CDL_REPLACE_ELEM h p (Some x) (Some y) = Some (?h, if as = [] then Some y else p)"
    using CDL_REPLACE_ELEM_eval [OF r ne assms(2), of "hd (as @ [x])"] p by simp
  moreover have "cdl ?h (Some y) (y # ?cs)" by (rule cdl_replace [OF r ne(1) assms(2)]) (use assms(3) in simp)
  note cdl_entry [OF this]
  ultimately show ?thesis using p by (intro exI [of _ ?h] exI [of _ "if as = [] then Some y else Some (hd as)"]) simp
qed


section \<open>What the macros have in common\<close>

text \<open>No macro changes what an element holds, makes one or frees one.\<close>

definition items :: "'a wq_heap \<Rightarrow> nat \<Rightarrow> 'a option" where
  "items h a = map_option wi_item (cell h a)"

lemma items_upd [simp]:
  "items (upd (\<lambda>c. c\<lparr>wi_next := q\<rparr>) a h) = items h" "items (upd (\<lambda>c. c\<lparr>wi_prev := q\<rparr>) a h) = items h"
  by (auto simp: items_def fun_eq_iff option.map_comp comp_def)

lemma modify_items:
  "modify (\<lambda>c. c\<lparr>wi_next := q\<rparr>) h p = Some h' \<Longrightarrow> items h' = items h"
  "modify (\<lambda>c. c\<lparr>wi_prev := q\<rparr>) h p = Some h' \<Longrightarrow> items h' = items h"
  by (cases p; auto split: if_splits)+

text \<open>The operations of the three kinds of list, and what each does to the addresses of the elements.\<close>

datatype list_kind = LL | DL | CDL

datatype list_op = Prepend nat | Delete nat | Replace nat nat | Prepend_elem nat nat

fun list_macro :: "list_kind \<Rightarrow> list_op \<Rightarrow> 'a wq_heap \<Rightarrow> nat option \<Rightarrow> ('a wq_heap \<times> nat option) option" where
  "list_macro LL (Prepend x) h p = LL_PREPEND h p (Some x)"
| "list_macro LL (Delete x) h p = LL_DELETE h p (Some x)"
| "list_macro LL (Replace x y) h p = LL_REPLACE_ELEM h p (Some x) (Some y)"
| "list_macro LL (Prepend_elem x y) h p = LL_PREPEND_ELEM h p (Some x) (Some y)"
| "list_macro DL (Prepend x) h p = DL_PREPEND h p (Some x)"
| "list_macro DL (Delete x) h p = DL_DELETE h p (Some x)"
| "list_macro DL (Replace x y) h p = DL_REPLACE_ELEM h p (Some x) (Some y)"
| "list_macro DL (Prepend_elem x y) h p = DL_PREPEND_ELEM h p (Some x) (Some y)"
| "list_macro CDL (Prepend x) h p = CDL_PREPEND h p (Some x)"
| "list_macro CDL (Delete x) h p = CDL_DELETE h p (Some x)"
| "list_macro CDL (Replace x y) h p = CDL_REPLACE_ELEM h p (Some x) (Some y)"
| "list_macro CDL (Prepend_elem x y) h p = CDL_PREPEND_ELEM h p (Some x) (Some y)"

fun list_macros :: "list_kind \<Rightarrow> list_op list \<Rightarrow> 'a wq_heap \<Rightarrow> nat option \<Rightarrow> ('a wq_heap \<times> nat option) option" where
  "list_macros k [] h p = Some (h, p)"
| "list_macros k (m # ms) h p = do { (h1, p1) \<leftarrow> list_macro k m h p; list_macros k ms h1 p1 }"

definition list_rep :: "list_kind \<Rightarrow> 'a wq_heap \<Rightarrow> nat option \<Rightarrow> nat list \<Rightarrow> bool" where
  "list_rep k = (case k of LL \<Rightarrow> ll | DL \<Rightarrow> dl | CDL \<Rightarrow> cdl)"

fun op_spec :: "list_op \<Rightarrow> nat list \<Rightarrow> nat list" where
  "op_spec (Prepend x) as = x # as"
| "op_spec (Delete x) as = remove1 x as"
| "op_spec (Replace x y) as = map (\<lambda>a. if a = x then y else a) as"
| "op_spec (Prepend_elem x y) as = concat (map (\<lambda>a. if a = x then [y, a] else [a]) as)"

text \<open>What a caller has to keep to: new elements are allocated and not in the list, others are in it.\<close>

fun op_ok :: "'a wq_heap \<Rightarrow> list_op \<Rightarrow> nat list \<Rightarrow> bool" where
  "op_ok h (Prepend x) as \<longleftrightarrow> items h x \<noteq> None \<and> x \<notin> set as"
| "op_ok h (Delete x) as \<longleftrightarrow> x \<in> set as"
| "op_ok h (Replace x y) as \<longleftrightarrow> x \<in> set as \<and> items h y \<noteq> None \<and> y \<notin> set as"
| "op_ok h (Prepend_elem x y) as \<longleftrightarrow> x \<in> set as \<and> items h y \<noteq> None \<and> y \<notin> set as"

fun ops_ok :: "'a wq_heap \<Rightarrow> list_op list \<Rightarrow> nat list \<Rightarrow> bool" where
  "ops_ok h [] as \<longleftrightarrow> True"
| "ops_ok h (m # ms) as \<longleftrightarrow> op_ok h m as \<and> ops_ok h ms (op_spec m as)"

lemma op_ok_items: "items h' = items h \<Longrightarrow> op_ok h' m as = op_ok h m as"
  by (cases m) simp_all

lemma ops_ok_items: "items h' = items h \<Longrightarrow> ops_ok h' ms as = ops_ok h ms as"
  by (induction ms arbitrary: as) (simp_all add: op_ok_items [of h' h])

lemma replace_split: "x \<notin> set as \<union> set bs \<Longrightarrow> map (\<lambda>a. if a = x then y else a) (as @ x # bs) = as @ y # bs"
proof -
  have *: "map (\<lambda>a. if a = x then y else a) cs = cs" if "x \<notin> set cs" for cs using that by (induction cs) auto
  show "x \<notin> set as \<union> set bs \<Longrightarrow> ?thesis" by (simp add: *)
qed

lemma prepend_split:
  "x \<notin> set as \<union> set bs \<Longrightarrow> concat (map (\<lambda>a. if a = x then [y, a] else [a]) (as @ x # bs)) = as @ y # x # bs"
proof -
  have *: "concat (map (\<lambda>a. if a = x then [y, a] else [a]) cs) = cs" if "x \<notin> set cs" for cs using that by (induction cs) auto
  show "x \<notin> set as \<union> set bs \<Longrightarrow> ?thesis" by (simp add: *)
qed

text \<open>The contract of a list: what its macros do around the element they are given.\<close>

locale pointer_list =
  fixes rep :: "'a wq_heap \<Rightarrow> nat option \<Rightarrow> nat list \<Rightarrow> bool"
    and k :: list_kind
  assumes rep_distinct: "rep h p as \<Longrightarrow> distinct as"
    and prepend: "rep h p as \<Longrightarrow> cell h x \<noteq> None \<Longrightarrow> x \<notin> set as \<Longrightarrow>
      \<exists>h' p'. list_macro k (Prepend x) h p = Some (h', p') \<and> rep h' p' (x # as)"
    and delete: "rep h p (as @ x # bs) \<Longrightarrow> \<exists>h' p'. list_macro k (Delete x) h p = Some (h', p') \<and> rep h' p' (as @ bs)"
    and replace: "rep h p (as @ x # bs) \<Longrightarrow> cell h y \<noteq> None \<Longrightarrow> y \<notin> set (as @ x # bs) \<Longrightarrow>
      \<exists>h' p'. list_macro k (Replace x y) h p = Some (h', p') \<and> rep h' p' (as @ y # bs)"
    and prepend_elem: "rep h p (as @ x # bs) \<Longrightarrow> cell h y \<noteq> None \<Longrightarrow> y \<notin> set (as @ x # bs) \<Longrightarrow>
      \<exists>h' p'. list_macro k (Prepend_elem x y) h p = Some (h', p') \<and> rep h' p' (as @ y # x # bs)"
    and keeps_items: "list_macro k m h p = Some (h', p') \<Longrightarrow> items h' = items h"
begin

lemma macro_spec:
  assumes "rep h p as" "op_ok h m as"
  shows "\<exists>h' p'. list_macro k m h p = Some (h', p') \<and> rep h' p' (op_spec m as) \<and> items h' = items h"
proof -
  have d: "distinct as" by (rule rep_distinct [OF assms(1)])
  have "\<exists>h' p'. list_macro k m h p = Some (h', p') \<and> rep h' p' (op_spec m as)"
  proof (cases m)
    case (Prepend x)
    with assms prepend [of h p as x] show ?thesis by (auto simp: items_def)
  next
    case (Delete x)
    with assms obtain bs cs where s: "as = bs @ x # cs" by (auto simp: in_set_conv_decomp)
    with Delete d delete [of h p bs x cs] assms(1) show ?thesis by (simp add: remove1_append)
  next
    case (Replace x y)
    with assms obtain bs cs where s: "as = bs @ x # cs" by (auto simp: in_set_conv_decomp)
    with d have "op_spec m as = bs @ y # cs" unfolding Replace s op_spec.simps by (intro replace_split) auto
    with Replace s replace [of h p bs x cs y] assms show ?thesis by (simp add: items_def)
  next
    case (Prepend_elem x y)
    with assms obtain bs cs where s: "as = bs @ x # cs" by (auto simp: in_set_conv_decomp)
    with d have "op_spec m as = bs @ y # x # cs" unfolding Prepend_elem s op_spec.simps by (intro prepend_split) auto
    with Prepend_elem s prepend_elem [of h p bs x cs y] assms show ?thesis by (simp add: items_def)
  qed
  with keeps_items show ?thesis by blast
qed

lemma macros_spec:
  "rep h p as \<Longrightarrow> ops_ok h ms as \<Longrightarrow>
   \<exists>h' p'. list_macros k ms h p = Some (h', p') \<and> rep h' p' (fold op_spec ms as) \<and> items h' = items h"
proof (induction ms arbitrary: h p as)
  case (Cons m ms)
  obtain h1 p1 where 1: "list_macro k m h p = Some (h1, p1)" "rep h1 p1 (op_spec m as)" "items h1 = items h"
    using macro_spec [OF Cons.prems(1), of m] Cons.prems(2) by auto
  have "ops_ok h1 ms (op_spec m as)" using Cons.prems(2) ops_ok_items [OF 1(3)] by simp
  from Cons.IH [OF 1(2) this] 1 show ?case by simp
qed simp

end

lemmas macro_defs = LL_PREPEND_def LL_DELETE_def LL_REPLACE_ELEM_def LL_PREPEND_ELEM_def ll_redirect_def
  DL_PREPEND_def DL_DELETE_def DL_REPLACE_ELEM_def DL_PREPEND_ELEM_def
  CDL_PREPEND_def CDL_DELETE_def CDL_REPLACE_ELEM_def CDL_PREPEND_ELEM_def

lemma list_macro_items: "list_macro k m h p = Some (h', p') \<Longrightarrow> items h' = items h"
  by (cases k; cases m) (auto simp: macro_defs bind_eq_Some_conv dest!: modify_items split: if_splits)

interpretation ll: pointer_list ll LL
  by unfold_locales (unfold list_macro.simps, simp add: ll_def, use LL_PREPEND_ll in blast, erule LL_DELETE_ll,
    erule (2) LL_REPLACE_ELEM_ll, erule (2) LL_PREPEND_ELEM_ll, erule list_macro_items)

interpretation dl: pointer_list dl DL
  by unfold_locales (unfold list_macro.simps, simp add: dl_def, use DL_PREPEND_dl in blast, erule DL_DELETE_dl,
    erule (2) DL_REPLACE_ELEM_dl, erule (2) DL_PREPEND_ELEM_dl, erule list_macro_items)

interpretation cdl: pointer_list cdl CDL
  by unfold_locales (unfold list_macro.simps, simp add: cdl_def, use CDL_PREPEND_cdl in blast, erule CDL_DELETE_cdl,
    erule (2) CDL_REPLACE_ELEM_cdl, erule (2) CDL_PREPEND_ELEM_cdl, erule list_macro_items)

text \<open>Counting and searching.\<close>

fun list_count :: "list_kind \<Rightarrow> 'a wq_heap \<Rightarrow> nat option \<Rightarrow> nat option" where
  "list_count LL h p = LL_COUNT h p"
| "list_count DL h p = DL_COUNT h p"
| "list_count CDL h p = CDL_COUNT h p"

fun list_search :: "list_kind \<Rightarrow> 'a wq_heap \<Rightarrow> ('a \<Rightarrow> bool) \<Rightarrow> nat option \<Rightarrow> nat option option" where
  "list_search LL h found p = LL_SEARCH h found p"
| "list_search DL h found p = DL_SEARCH h found p"
| "list_search CDL h found p = CDL_SEARCH h found p"

lemma fold_count: "fold (\<lambda>_ n. n + 1) as n = n + length as"
  by (induction as arbitrary: n) simp_all

lemma cdl_cases: "cdl h p as \<Longrightarrow> as = [] \<and> p = None \<or> (\<exists>x. p = Some x \<and> lseg h p as (Some x) \<and> x \<notin> set (tl as) \<and> as \<noteq> [])"
  by (cases as) (auto simp: cdl_def)

lemma CDL_FOREACH_cdl: "cdl h p as \<Longrightarrow> CDL_FOREACH h p body p s = Some (fold body as s)"
  using cdl_cases [of h p as] cdl_foreach_seg [of h p as _ body s] by (auto simp: CDL_FOREACH.simps [of h None])

lemma CDL_SEARCH_cdl: "cdl h p as \<Longrightarrow> CDL_SEARCH h found p = Some (find (\<lambda>a. found (citem h a)) as)"
  using cdl_cases [of h p as] cdl_search_seg [of h p as _ found] by (auto simp: CDL_SEARCH_def cdl_search.simps [of h None])

lemma list_count_rep: "list_rep k h p as \<Longrightarrow> list_count k h p = Some (length as)"
  using fold_count [of as 0]
  by (cases k) (auto simp: list_rep_def ll_def dl_def LL_COUNT_def DL_COUNT_def CDL_COUNT_def foreach_seg CDL_FOREACH_cdl)

lemma list_search_rep: "list_rep k h p as \<Longrightarrow> list_search k h found p = Some (find (\<lambda>a. found (citem h a)) as)"
  by (cases k) (auto simp: list_rep_def ll_def dl_def DL_SEARCH_def search_seg CDL_SEARCH_cdl)

lemma list_macros_rep:
  assumes "list_rep k h p as" "ops_ok h ms as"
  shows "\<exists>h' p'. list_macros k ms h p = Some (h', p') \<and> list_rep k h' p' (fold op_spec ms as) \<and> items h' = items h"
  using assms ll.macros_spec [of h p as ms] dl.macros_spec [of h p as ms] cdl.macros_spec [of h p as ms]
  by (cases k) (simp_all add: list_rep_def)

text \<open>C34. The macros of singly linked, doubly linked and circular lists implement lists of elements: after any sequence of prepending,
  deleting, replacing and putting in front of an element, whose callers keep to the rules, the heap holds the list that the same
  operations make of the list at the start, no element's contents have changed, and the counting macro returns the length of that list
  and the searching macro its first element that fits.\<close>

theorem list_macros_refine:
  assumes "list_rep k h p as" "ops_ok h ms as"
  shows "\<exists>h' p'. list_macros k ms h p = Some (h', p') \<and> list_rep k h' p' (fold op_spec ms as) \<and> items h' = items h \<and>
    list_count k h' p' = Some (length (fold op_spec ms as)) \<and>
    list_search k h' found p' = Some (find (\<lambda>a. found (citem h' a)) (fold op_spec ms as))"
  using list_macros_rep [OF assms] list_count_rep list_search_rep by blast

theorem list_macros_refine_witness:
  "\<exists>h' p'. list_macros CDL [Prepend 0, Prepend 1, Prepend_elem 0 2, Replace 1 3, Delete 0]
      (replicate 4 (Some \<lparr>wi_item = CHR ''a'', wi_next = None, wi_prev = None\<rparr>)) None = Some (h', p') \<and>
    list_rep CDL h' p' [3, 2] \<and> list_count CDL h' p' = Some 2"
proof -
  let ?h = "replicate 4 (Some \<lparr>wi_item = CHR ''a'', wi_next = None, wi_prev = None\<rparr>)"
  let ?ms = "[Prepend 0, Prepend 1, Prepend_elem 0 2, Replace 1 3, Delete 0]"
  have "list_rep CDL ?h None []" by (simp add: list_rep_def cdl_def)
  moreover have "ops_ok ?h ?ms []" by (simp add: items_def cell_def)
  ultimately obtain h' p' where r: "list_macros CDL ?ms ?h None = Some (h', p')" "list_rep CDL h' p' (fold op_spec ?ms [])"
    "list_count CDL h' p' = Some (length (fold op_spec ?ms []))"
    using list_macros_refine [of CDL ?h None "[]" ?ms] by blast
  have f: "fold op_spec ?ms [] = [3, 2]" "length [3, 2 :: nat] = 2" by simp_all
  show ?thesis using r(1) r(2,3) [unfolded f] by blast
qed

text \<open>Going safely through a list whose elements the body frees.\<close>

definition free_body :: "nat \<Rightarrow> 'a wq_heap \<times> nat list \<Rightarrow> ('a wq_heap \<times> nat list) option" where
  "free_body a = (\<lambda>(h, freed). if cell h a = None then None else Some (h[a := None], freed @ [a]))"

lemma foreach_safe_frees:
  "ll h p as \<Longrightarrow> \<exists>h'. LL_FOREACH_SAFE free_body p (h, fs) = Some (h', fs @ as) \<and>
    (\<forall>a. cell h' a = (if a \<in> set as then None else cell h a))"
proof (induction as arbitrary: h p fs)
  case Nil
  then show ?case by (subst LL_FOREACH_SAFE.simps) (simp add: ll_def)
next
  case (Cons a as)
  then obtain c where c: "cell h a = Some c" "p = Some a" "lseg h (wi_next c) as None" "a \<notin> set as" "distinct as"
    by (auto simp: ll_def cnext_def)
  have u: "cell (h[a := None]) b = (if b = a then None else cell h b)" for b by (auto simp: cell_def)
  have "lseg (h[a := None]) (wi_next c) as None = lseg h (wi_next c) as None" using c(4) by (intro lseg_cong) (auto simp: u cnext_def)
  then have "ll (h[a := None]) (wi_next c) as" using c(3,5) by (simp add: ll_def)
  moreover have "free_body a (h, fs) = Some (h[a := None], fs @ [a])" using c(1) by (simp add: free_body_def)
  ultimately show ?case using c(1,2) Cons.IH [of "h[a := None]" "wi_next c" "fs @ [a]"] by (subst LL_FOREACH_SAFE.simps) (auto simp: u)
qed

end
