(* ===== verification/UtSort.thy ===== *)
theory UtSort
  imports UtList "HOL-Library.Multiset"
begin

text \<open>
  The merge sort of \<open>hw4/src/utlist.h\<close> for the three kinds of list. The three macros are the same loops with small differences:
  those of the circular lists take the next element to be NULL where it is the old head, those of the doubly linked ones set the
  \<open>prev\<close> links as they go, and each closes the list of a pass in its own way. \<open>None\<close> is a bad pointer or an overflow of one
  of the \<open>int\<close> counters.
\<close>

section \<open>The macros\<close>

text \<open>The next element; \<open>oldhead\<close> is NULL for the lists that are not circular.\<close>

definition sort_next :: "nat option \<Rightarrow> 'a wq_heap \<Rightarrow> nat option \<Rightarrow> nat option option" where
  "sort_next oldhead h q = do { c \<leftarrow> load h q; Some (if wi_next c = oldhead then None else wi_next c) }"

text \<open>The \<open>for\<close> loop that counts off up to \<open>insize\<close> elements.\<close>

fun sort_run :: "nat option \<Rightarrow> 'a wq_heap \<Rightarrow> nat \<Rightarrow> nat option \<Rightarrow> nat \<Rightarrow> (nat option \<times> nat) option" where
  "sort_run oldhead h 0 q psize = Some (q, psize)"
| "sort_run oldhead h (Suc i) q psize = do {
     q' \<leftarrow> sort_next oldhead h q;
     (if q' = None then Some (q', psize + 1) else sort_run oldhead h i q' (psize + 1))
   }"

text \<open>One round of the merging loop: the element \<open>e\<close> that is taken, from \<open>p\<close> or from \<open>q\<close>, and putting it behind \<open>tail\<close>.\<close>

definition sort_take :: "('a \<Rightarrow> 'a \<Rightarrow> int) \<Rightarrow> nat option \<Rightarrow> 'a wq_heap \<Rightarrow> nat option \<Rightarrow> nat \<Rightarrow> nat option \<Rightarrow> nat \<Rightarrow>
    (nat option \<times> nat option \<times> nat \<times> nat option \<times> nat) option" where
  "sort_take cmp oldhead h p psize q qsize =
     (let from_p = do { p' \<leftarrow> sort_next oldhead h p; Some (p, p', psize - 1, q, qsize) };
          from_q = do { q' \<leftarrow> sort_next oldhead h q; Some (q, p, psize, q', qsize - 1) }
      in if psize = 0 then from_q
         else if qsize = 0 \<or> q = None then from_p
         else do {
           cp \<leftarrow> load h p;
           cq \<leftarrow> load h q;
           (if cmp (wi_item cp) (wi_item cq) \<le> 0 then from_p else from_q)
         })"

definition sort_link :: "list_kind \<Rightarrow> 'a wq_heap \<Rightarrow> nat option \<Rightarrow> nat option \<Rightarrow> nat option \<Rightarrow> ('a wq_heap \<times> nat option) option" where
  "sort_link k h list tail e = do {
     (h1, list1) \<leftarrow> (if tail \<noteq> None then do { h1 \<leftarrow> modify (\<lambda>c. c\<lparr>wi_next := e\<rparr>) h tail; Some (h1, list) } else Some (h, e));
     h2 \<leftarrow> (if k = LL then Some h1 else modify (\<lambda>c. c\<lparr>wi_prev := tail\<rparr>) h1 e);
     Some (h2, list1)
   }"

partial_function (option) sort_merge :: "list_kind \<Rightarrow> ('a \<Rightarrow> 'a \<Rightarrow> int) \<Rightarrow> nat option \<Rightarrow> 'a wq_heap \<Rightarrow> nat option \<Rightarrow> nat option \<Rightarrow>
    nat option \<Rightarrow> nat \<Rightarrow> nat option \<Rightarrow> nat \<Rightarrow> ('a wq_heap \<times> nat option \<times> nat option \<times> nat option) option" where
  "sort_merge k cmp oldhead h list tail p psize q qsize =
     (if 0 < psize \<or> 0 < qsize \<and> q \<noteq> None then do {
        (e, p', psize', q', qsize') \<leftarrow> sort_take cmp oldhead h p psize q qsize;
        (h', list') \<leftarrow> sort_link k h list tail e;
        sort_merge k cmp oldhead h' list' e p' psize' q' qsize'
      } else Some (h, list, tail, q))"

text \<open>A pass over the list merges the runs of \<open>insize\<close> elements two by two.\<close>

partial_function (option) sort_pass :: "list_kind \<Rightarrow> ('a \<Rightarrow> 'a \<Rightarrow> int) \<Rightarrow> nat option \<Rightarrow> nat \<Rightarrow> 'a wq_heap \<Rightarrow> nat option \<Rightarrow> nat option \<Rightarrow>
    nat \<Rightarrow> nat option \<Rightarrow> ('a wq_heap \<times> nat option \<times> nat option \<times> nat) option" where
  "sort_pass k cmp oldhead insize h list tail nmerges p =
     (if p = None then Some (h, list, tail, nmerges)
      else if 2 ^ 31 \<le> nmerges + 1 then None
      else do {
        (q, psize) \<leftarrow> sort_run oldhead h insize p 0;
        (h', list', tail', q') \<leftarrow> sort_merge k cmp oldhead h list tail p psize q insize;
        sort_pass k cmp oldhead insize h' list' tail' (nmerges + 1) q'
      })"

definition sort_close :: "list_kind \<Rightarrow> 'a wq_heap \<Rightarrow> nat option \<Rightarrow> nat option \<Rightarrow> 'a wq_heap option" where
  "sort_close k h list tail =
     (case k of
        LL \<Rightarrow> if tail \<noteq> None then modify (\<lambda>c. c\<lparr>wi_next := None\<rparr>) h tail else Some h
      | DL \<Rightarrow> do { h1 \<leftarrow> modify (\<lambda>c. c\<lparr>wi_prev := tail\<rparr>) h list; modify (\<lambda>c. c\<lparr>wi_next := None\<rparr>) h1 tail }
      | CDL \<Rightarrow> do { h1 \<leftarrow> modify (\<lambda>c. c\<lparr>wi_prev := tail\<rparr>) h list; modify (\<lambda>c. c\<lparr>wi_next := list\<rparr>) h1 tail })"

partial_function (option) sort_loop :: "list_kind \<Rightarrow> ('a \<Rightarrow> 'a \<Rightarrow> int) \<Rightarrow> nat \<Rightarrow> 'a wq_heap \<Rightarrow> nat option \<Rightarrow> ('a wq_heap \<times> nat option) option" where
  "sort_loop k cmp insize h list = do {
     (h1, list1, tail, nmerges) \<leftarrow> sort_pass k cmp (if k = CDL then list else None) insize h None None 0 list;
     h2 \<leftarrow> sort_close k h1 list1 tail;
     (if 2 ^ 31 \<le> insize * 2 then None
      else if nmerges \<le> 1 then Some (h2, list1)
      else sort_loop k cmp (insize * 2) h2 list1)
   }"

definition LL_SORT :: "'a wq_heap \<Rightarrow> nat option \<Rightarrow> ('a \<Rightarrow> 'a \<Rightarrow> int) \<Rightarrow> ('a wq_heap \<times> nat option) option" where
  "LL_SORT h list cmp = (if list \<noteq> None then sort_loop LL cmp 1 h list else Some (h, list))"

definition DL_SORT :: "'a wq_heap \<Rightarrow> nat option \<Rightarrow> ('a \<Rightarrow> 'a \<Rightarrow> int) \<Rightarrow> ('a wq_heap \<times> nat option) option" where
  "DL_SORT h list cmp = (if list \<noteq> None then sort_loop DL cmp 1 h list else Some (h, list))"

definition CDL_SORT :: "'a wq_heap \<Rightarrow> nat option \<Rightarrow> ('a \<Rightarrow> 'a \<Rightarrow> int) \<Rightarrow> ('a wq_heap \<times> nat option) option" where
  "CDL_SORT h list cmp = (if list \<noteq> None then sort_loop CDL cmp 1 h list else Some (h, list))"

section \<open>Merging lists of addresses\<close>

text \<open>What the passes compute, on lists: merging, which prefers the left list, and merging neighbouring runs.\<close>

fun merged :: "('b \<Rightarrow> 'k :: linorder) \<Rightarrow> 'b list \<Rightarrow> 'b list \<Rightarrow> 'b list" where
  "merged key [] right = right"
| "merged key left [] = left"
| "merged key (p # left) (q # right) = (if key q < key p then q # merged key (p # left) right else p # merged key left (q # right))"

fun merge_runs :: "('b \<Rightarrow> 'k :: linorder) \<Rightarrow> nat \<Rightarrow> 'b list \<Rightarrow> 'b list" where
  "merge_runs f n xs = (if xs = [] \<or> n = 0 then [] else merged f (take n xs) (take n (drop n xs)) @ merge_runs f n (drop n (drop n xs)))"

fun merges :: "nat \<Rightarrow> 'b list \<Rightarrow> nat" where
  "merges n xs = (if xs = [] \<or> n = 0 then 0 else Suc (merges n (drop n (drop n xs))))"

fun run_sort :: "('b \<Rightarrow> 'k :: linorder) \<Rightarrow> nat \<Rightarrow> 'b list \<Rightarrow> 'b list" where
  "run_sort f n xs = (if xs = [] \<or> n = 0 then [] else sort_key f (take n xs) @ run_sort f n (drop n xs))"

declare merge_runs.simps [simp del] merges.simps [simp del] run_sort.simps [simp del]

lemma merged_Nil [simp]: "merged f xs [] = xs"
  by (cases xs) simp_all

lemma mset_merged [simp]: "mset (merged f xs ys) = mset xs + mset ys"
  by (induction f xs ys rule: merged.induct) (simp_all add: ac_simps)

lemma merged_elems [simp]: "set (merged f xs ys) = set xs \<union> set ys"
  by (metis mset_merged set_mset_mset set_mset_union)

lemma merged_sorted:
  "sorted (map f xs) \<Longrightarrow> sorted (map f ys) \<Longrightarrow> sorted (map f (merged f xs ys))"
proof (induction f xs ys rule: merged.induct)
  case (3 f x xs y ys)
  then show ?case by (cases "f x \<le> f y") (auto intro: order_trans)
qed simp_all

lemma merged_stable:
  "sorted (map f xs) \<Longrightarrow> sorted (map f ys) \<Longrightarrow>
   filter (\<lambda>x. f k = f x) (merged f xs ys) = filter (\<lambda>x. f k = f x) xs @ filter (\<lambda>x. f k = f x) ys"
proof (induction f xs ys rule: merged.induct)
  case (3 f x xs y ys)
  have "\<forall>z \<in> set (x # xs). f x \<le> f z" using 3(3) by auto
  then have "\<not> f x \<le> f y \<Longrightarrow> f k = f y \<Longrightarrow> filter (\<lambda>z. f k = f z) (x # xs) = []" by (auto simp: filter_empty_conv)
  then show ?case using 3 by (cases "f x \<le> f y") auto
qed simp_all

lemma merge_sort_key: "merged f (sort_key f xs) (sort_key f ys) = sort_key f (xs @ ys)"
proof (rule sym, rule properties_for_sort_key)
  fix k
  have "filter (\<lambda>x. f k = f x) (sort_key f zs) = filter (\<lambda>x. f k = f x) zs" for zs
    using sort_key_stable [of f "f k" zs] by (simp add: eq_commute)
  then show "filter (\<lambda>x. f k = f x) (merged f (sort_key f xs) (sort_key f ys)) = filter (\<lambda>x. f k = f x) (xs @ ys)"
    by (simp add: merged_stable)
qed (simp_all add: merged_sorted)

lemma sort_key_Nil_iff [simp]: "sort_key f xs = [] \<longleftrightarrow> xs = []"
  by (metis length_0_conv length_sort)

lemma merge_runs_sort: "0 < n \<Longrightarrow> merge_runs f n (run_sort f n xs) = run_sort f (n * 2) xs"
proof (induction "length xs" arbitrary: xs rule: less_induct)
  case less
  show ?case
  proof (cases "length xs \<le> n")
    case True
    then have "run_sort f n xs = sort_key f xs" "run_sort f (n * 2) xs = sort_key f xs"
      using less.prems by (simp_all add: run_sort.simps)
    then show ?thesis using True less.prems by (subst merge_runs.simps) (cases "xs = []"; simp add: merge_runs.simps)
  next
    case False
    let ?a = "take n xs" let ?b = "take n (drop n xs)" let ?c = "drop n (drop n xs)"
    have "run_sort f n (drop n xs) = sort_key f ?b @ run_sort f n ?c" using False less.prems by (simp add: run_sort.simps)
    then have e: "run_sort f n xs = sort_key f ?a @ sort_key f ?b @ run_sort f n ?c"
      using False less.prems by (subst run_sort.simps) auto
    have b: "length ?b < n \<Longrightarrow> run_sort f n ?c = []" by (auto simp: run_sort.simps)
    have len: "length ?a = n" using False by simp
    have t: "take n (run_sort f n xs) = sort_key f ?a" "drop n (run_sort f n xs) = sort_key f ?b @ run_sort f n ?c"
      using len by (simp_all add: e)
    have u: "take n (sort_key f ?b @ run_sort f n ?c) = sort_key f ?b" "drop n (sort_key f ?b @ run_sort f n ?c) = run_sort f n ?c"
      using b by (cases "length ?b < n"; auto)+
    have ne: "\<not> (run_sort f n xs = [] \<or> n = 0)" using less.prems False by (auto simp: e)
    have "merge_runs f n (run_sort f n xs) = sort_key f (?a @ ?b) @ merge_runs f n (run_sort f n ?c)"
      unfolding merge_runs.simps [of f n "run_sort f n xs"] if_not_P [OF ne] t u merge_sort_key ..
    also have "merge_runs f n (run_sort f n ?c) = run_sort f (n * 2) ?c" using less False by auto
    also have "?a @ ?b = take (n * 2) xs" by (simp add: mult_2_right take_add)
    also have "?c = drop (n * 2) xs" by (simp add: mult_2_right)
    finally show ?thesis using False less.prems by (auto simp: run_sort.simps [of f "n * 2" xs])
  qed
qed

lemma run_sort_1: "run_sort f 1 xs = xs"
  by (induction xs) (simp_all add: run_sort.simps)

lemma run_sort_all: "length xs \<le> n \<Longrightarrow> 0 < n \<Longrightarrow> run_sort f n xs = sort_key f xs"
  by (simp add: run_sort.simps)

lemma mset_run_sort: "0 < n \<Longrightarrow> mset (run_sort f n xs) = mset xs"
proof (induction f n xs rule: run_sort.induct)
  case (1 f n xs)
  then show ?case using append_take_drop_id [of n xs] mset_append [of "take n xs" "drop n xs"] by (subst run_sort.simps) auto
qed

lemma merges_le: "merges n xs \<le> length xs"
proof (induction n xs rule: merges.induct)
  case (1 n xs)
  show ?case
  proof (cases "xs = [] \<or> n = 0")
    case False
    then have "merges n (drop n (drop n xs)) \<le> length xs - (n + n)" using 1 by simp
    moreover have "0 < length xs" "0 < n" using False by auto
    ultimately show ?thesis unfolding merges.simps [of n xs] if_not_P [OF False] by linarith
  qed (subst merges.simps, simp)
qed

lemma merges_one: "0 < n \<Longrightarrow> merges n xs \<le> 1 \<longleftrightarrow> length xs \<le> n * 2"
  by (subst merges.simps, subst merges.simps) auto

section \<open>Chains\<close>

text \<open>The elements from \<open>p\<close> on, as the macro reads them: where \<open>oldhead\<close> comes next, the list ends.\<close>

definition succ :: "nat option \<Rightarrow> 'a wq_heap \<Rightarrow> nat \<Rightarrow> nat option" where
  "succ w h a = (if cnext h a = w then None else cnext h a)"

fun chain :: "nat option \<Rightarrow> 'a wq_heap \<Rightarrow> nat option \<Rightarrow> nat list \<Rightarrow> nat option \<Rightarrow> bool" where
  "chain w h p [] q \<longleftrightarrow> p = q"
| "chain w h p (a # as) q \<longleftrightarrow> p = Some a \<and> cell h a \<noteq> None \<and> chain w h (succ w h a) as q"

lemma sort_next_eq [simp]: "cell h a \<noteq> None \<Longrightarrow> sort_next w h (Some a) = Some (succ w h a)"
  by (auto simp: sort_next_def succ_def cnext_def)

lemma chain_append: "chain w h p (as @ bs) q \<longleftrightarrow> (\<exists>r. chain w h p as r \<and> chain w h r bs q)"
  by (induction as arbitrary: p) auto

lemma chain_cong:
  "\<forall>a \<in> set as. (cell h' a = None \<longleftrightarrow> cell h a = None) \<and> cnext h' a = cnext h a \<Longrightarrow> chain w h' p as q = chain w h p as q"
  by (induction as arbitrary: p) (auto simp: succ_def)

lemma chain_None: "chain None h p as q \<longleftrightarrow> lseg h p as q"
proof -
  have "succ None h a = cnext h a" for a by (simp add: succ_def)
  then show ?thesis by (induction as arbitrary: p) auto
qed

lemma chain_cell: "chain w h p as q \<Longrightarrow> a \<in> set as \<Longrightarrow> cell h a \<noteq> None"
  by (induction as arbitrary: p) auto

lemma chain_circle: "lseg h p as (Some x) \<Longrightarrow> x \<notin> set (tl as) \<Longrightarrow> as \<noteq> [] \<Longrightarrow> chain (Some x) h p as None"
proof (induction as arbitrary: p)
  case (Cons a as)
  show ?case
  proof (cases as)
    case Nil
    with Cons.prems show ?thesis by (auto simp: succ_def)
  next
    case (Cons b bs)
    with Cons.prems Cons.IH [of "cnext h a"] show ?thesis by (cases bs) (auto simp: succ_def)
  qed
qed simp

definition oldhead :: "list_kind \<Rightarrow> nat option \<Rightarrow> nat option" where
  "oldhead k p = (if k = CDL then p else None)"

lemma rep_chain: "list_rep k h p as \<Longrightarrow> as \<noteq> [] \<Longrightarrow> chain (oldhead k p) h p as None"
  using cdl_cases [of h p as] by (cases k) (auto simp: list_rep_def oldhead_def ll_def dl_def chain_None chain_circle)

lemma sort_run_chain:
  "chain w h p as None \<Longrightarrow> as \<noteq> [] \<Longrightarrow> 0 < n \<Longrightarrow>
   \<exists>q. sort_run w h n p m = Some (q, m + length (take n as)) \<and> chain w h p (take n as) q \<and> chain w h q (drop n as) None"
proof (induction n arbitrary: p as m)
  case (Suc n)
  then obtain a bs where a: "as = a # bs" "p = Some a" "cell h a \<noteq> None" "chain w h (succ w h a) bs None" by (cases as) auto
  show ?case
  proof (cases "bs = [] \<or> n = 0")
    case True
    with a show ?thesis by (cases bs) auto
  next
    case False
    then have "succ w h a \<noteq> None" using a(4) by (cases bs) auto
    with Suc.IH [OF a(4), of "m + 1"] False a show ?thesis by auto
  qed
qed simp

section \<open>The list that is built\<close>

text \<open>The elements put out so far; the links of the last one are still to be set.\<close>

definition built :: "list_kind \<Rightarrow> 'a wq_heap \<Rightarrow> nat option \<Rightarrow> nat option \<Rightarrow> nat list \<Rightarrow> bool" where
  "built k h list tail as \<longleftrightarrow> distinct as \<and> (\<exists>r. lseg h list as r \<and> (as = [] \<longrightarrow> list = None)) \<and>
     tail = (if as = [] then None else Some (last as)) \<and> (k \<noteq> LL \<longrightarrow> bwd h None as)"

lemma items_cell: "items h' = items h \<Longrightarrow> cell h' a = None \<longleftrightarrow> cell h a = None"
  by (metis items_def map_option_is_None)

lemma sort_link_built:
  assumes "built k h list tail as" "cell h e \<noteq> None" "e \<notin> set as"
  obtains h' list' where "sort_link k h list tail (Some e) = Some (h', list')" "built k h' list' (Some e) (as @ [e])" "items h' = items h"
    "\<forall>a. a \<notin> set as \<longrightarrow> cnext h' a = cnext h a"
proof -
  let ?g = "case tail of None \<Rightarrow> h | Some t \<Rightarrow> upd (\<lambda>c. c\<lparr>wi_next := Some e\<rparr>) t h"
  let ?h = "if k = LL then ?g else upd (\<lambda>c. c\<lparr>wi_prev := tail\<rparr>) e ?g"
  let ?l = "if tail = None then Some e else list"
  have t: "as \<noteq> [] \<Longrightarrow> tail = Some (last as) \<and> cell h (last as) \<noteq> None" "as = [] \<Longrightarrow> tail = None"
    using assms(1) lseg_nonempty [of h list as] by (simp_all add: built_def) blast
  have le: "as \<noteq> [] \<Longrightarrow> last as \<noteq> e" using assms(3) last_in_set by blast
  have "sort_link k h list tail (Some e) = Some (?h, ?l)" using t le assms(2) by (cases "as = []") (auto simp: sort_link_def)
  moreover have "\<exists>r. lseg ?h ?l (as @ [e]) r"
  proof (cases "as = []")
    case False
    obtain r where "lseg h list as r" "distinct as" using assms(1) by (auto simp: built_def)
    from relink_end [OF this(1) False this(2), of "Some e"] have "lseg ?h list as (Some e)" using t(1) [OF False] by simp
    then show ?thesis using t(1) [OF False] assms(2) le [OF False] by (auto simp: lseg_append)
  qed (use t(2) assms(2) in auto)
  moreover have "bwd ?h None (as @ [e])" if "k \<noteq> LL"
    using that assms t le by (cases "as = []") (auto simp: built_def bwd_append bwd_upd_frame)
  moreover have "items ?h = items h" by (simp split: option.splits)
  moreover have "cnext ?h a = cnext h a" if "a \<notin> set as" for a using t that last_in_set [of as] by (cases "as = []") auto
  ultimately show ?thesis using that [of ?h ?l] assms(1,3) by (auto simp: built_def)
qed

section \<open>The loops\<close>

text \<open>The comparison orders the elements by the keys \<open>f\<close>.\<close>

definition orders :: "('a \<Rightarrow> 'a \<Rightarrow> int) \<Rightarrow> (nat \<Rightarrow> 'k :: linorder) \<Rightarrow> (nat \<Rightarrow> 'a option) \<Rightarrow> bool" where
  "orders cmp f its \<longleftrightarrow> (\<forall>a b x y. its a = Some x \<longrightarrow> its b = Some y \<longrightarrow> (cmp x y \<le> 0 \<longleftrightarrow> f a \<le> f b))"

text \<open>What is left to merge: the run at \<open>p\<close>, and the run at \<open>q\<close> of at most \<open>n\<close> elements in front of the rest.\<close>

definition to_merge :: "nat option \<Rightarrow> 'a wq_heap \<Rightarrow> nat option \<Rightarrow> nat list \<Rightarrow> nat option \<Rightarrow> nat list \<Rightarrow> nat \<Rightarrow> nat list \<Rightarrow> bool" where
  "to_merge w h p ps q qs n rs \<longleftrightarrow> (\<exists>r. chain w h p ps r) \<and> chain w h q (qs @ rs) None \<and> length qs \<le> n \<and> (rs \<noteq> [] \<longrightarrow> length qs = n)"

lemma to_merge_left: "to_merge w h p (x # ps) q qs n rs \<Longrightarrow> p = Some x \<and> cell h x \<noteq> None \<and> to_merge w h (succ w h x) ps q qs n rs"
  by (auto simp: to_merge_def)

lemma to_merge_right:
  "to_merge w h p ps q (y # qs) n rs \<Longrightarrow> q = Some y \<and> 0 < n \<and> cell h y \<noteq> None \<and> to_merge w h p ps (succ w h y) qs (n - 1) rs"
  by (auto simp: to_merge_def)

lemma to_merge_empty: "to_merge w h p ps q [] n rs \<Longrightarrow> n = 0 \<or> q = None"
  by (cases rs) (auto simp: to_merge_def)

lemma to_merge_cong:
  assumes "items h' = items h" "\<forall>a \<in> set (ps @ qs @ rs). cnext h' a = cnext h a"
  shows "to_merge w h' p ps q qs n rs = to_merge w h p ps q qs n rs"
proof -
  have "chain w h' s as r = chain w h s as r" if "set as \<subseteq> set (ps @ qs @ rs)" for s as r
    using assms that by (intro chain_cong) (auto simp: items_cell [OF assms(1)])
  then show ?thesis by (simp add: to_merge_def)
qed

text \<open>The element that is taken is the next one of the merged lists.\<close>

lemma sort_take_merge:
  assumes "to_merge w h p ps q qs n rs" "orders cmp f (items h)" "ps \<noteq> [] \<or> qs \<noteq> []"
  obtains e p' ps' q' qs' n' where "sort_take cmp w h p (length ps) q n = Some (Some e, p', length ps', q', n')"
    "to_merge w h p' ps' q' qs' n' rs" "merged f ps qs = e # merged f ps' qs'" "cell h e \<noteq> None"
    "mset ps + mset qs = add_mset e (mset ps' + mset qs')"
proof (cases ps)
  case Nil
  then obtain y ys where y: "qs = y # ys" using assms(3) by (cases qs) auto
  show ?thesis using to_merge_right [OF assms(1) [unfolded y]] Nil y by (intro that [of y p "[]" "succ w h y" "n - 1" ys]) (auto simp: sort_take_def)
next
  case (Cons x xs)
  note p = to_merge_left [OF assms(1) [unfolded Cons]]
  show ?thesis
  proof (cases qs)
    case Nil
    show ?thesis using p to_merge_empty [OF assms(1) [unfolded Nil]] Nil Cons
      by (intro that [of x "succ w h x" xs q n "[]"]) (auto simp: sort_take_def)
  next
    case q: (Cons y ys)
    note q' = to_merge_right [OF assms(1) [unfolded q]]
    obtain cx cy where c: "cell h x = Some cx" "cell h y = Some cy" using p q' by auto
    then have o: "cmp (wi_item cx) (wi_item cy) \<le> 0 \<longleftrightarrow> f x \<le> f y" using assms(2) by (simp add: orders_def items_def)
    show ?thesis
    proof (cases "f x \<le> f y")
      case True
      show ?thesis using True p q' c o Cons q by (intro that [of x "succ w h x" xs q n qs]) (auto simp: sort_take_def Let_def)
    next
      case False
      show ?thesis using False p q' c o Cons q assms(1)
        by (intro that [of y p ps "succ w h y" "n - 1" ys]) (auto simp: sort_take_def Let_def)
    qed
  qed
qed

lemma sort_merge_built:
  assumes "to_merge w h p ps q qs n rs" "built k h list tail as" "distinct (as @ ps @ qs @ rs)" "orders cmp f (items h)"
  shows "\<exists>h' list' tail' q'. sort_merge k cmp w h list tail p (length ps) q n = Some (h', list', tail', q') \<and>
    built k h' list' tail' (as @ merged f ps qs) \<and> chain w h' q' rs None \<and> items h' = items h"
  using assms
proof (induction "length ps + length qs" arbitrary: h list tail as p ps q qs n rule: less_induct)
  case less
  note tm = less.prems(1)
  show ?case
  proof (cases "ps = [] \<and> qs = []")
    case True
    with tm to_merge_empty [of w h p ps q n rs] show ?thesis
      using less.prems(2) by (subst sort_merge.simps) (auto simp: to_merge_def)
  next
    case False
    then have ne: "ps \<noteq> [] \<or> qs \<noteq> []" by blast
    obtain e p' ps' q' qs' n' where t: "sort_take cmp w h p (length ps) q n = Some (Some e, p', length ps', q', n')"
      "to_merge w h p' ps' q' qs' n' rs" "merged f ps qs = e # merged f ps' qs'" "cell h e \<noteq> None"
      "mset ps + mset qs = add_mset e (mset ps' + mset qs')"
      by (rule sort_take_merge [OF tm less.prems(4) ne])
    have s: "set ps \<union> set qs = insert e (set ps' \<union> set qs')" "length ps + length qs = Suc (length ps' + length qs')"
      using arg_cong [OF t(5), of set_mset] arg_cong [OF t(5), of size] by simp_all
    have "mset (as @ ps @ qs @ rs) = mset ((as @ [e]) @ ps' @ qs' @ rs)" using t(5) by (simp add: ac_simps)
    then have d: "distinct ((as @ [e]) @ ps' @ qs' @ rs)" using less.prems(3) by (metis mset_eq_imp_distinct_iff)
    then have e: "e \<notin> set as" by simp
    obtain h' list' where l: "sort_link k h list tail (Some e) = Some (h', list')"
      "built k h' list' (Some e) (as @ [e])" "items h' = items h" "\<forall>a. a \<notin> set as \<longrightarrow> cnext h' a = cnext h a"
      by (rule sort_link_built [OF less.prems(2) t(4) e])
    have "to_merge w h' p' ps' q' qs' n' rs" using t(2) d l(4) by (subst to_merge_cong [OF l(3)]) auto
    from less.hyps [OF _ this l(2) d] s(2) l(3) less.prems(4) obtain h2 list2 tail2 q2 where
      m: "sort_merge k cmp w h' list' (Some e) p' (length ps') q' n' = Some (h2, list2, tail2, q2)"
        "built k h2 list2 tail2 ((as @ [e]) @ merged f ps' qs')" "chain w h2 q2 rs None" "items h2 = items h'" by auto
    have "0 < length ps \<or> 0 < n \<and> q \<noteq> None" using False tm to_merge_right [of w h p ps q _ _ n rs] by (cases qs) auto
    then have "sort_merge k cmp w h list tail p (length ps) q n = Some (h2, list2, tail2, q2)"
      using t(1) l(1) m(1) by (subst sort_merge.simps) simp
    with m(2-4) l(3) t(3) show ?thesis by simp
  qed
qed

lemma sort_pass_built:
  assumes "chain w h p xs None" "built k h list tail as" "distinct (as @ xs)" "orders cmp f (items h)" "0 < n" "m + merges n xs < 2 ^ 31"
  shows "\<exists>h' list' tail'. sort_pass k cmp w n h list tail m p = Some (h', list', tail', m + merges n xs) \<and>
    built k h' list' tail' (as @ merge_runs f n xs) \<and> items h' = items h"
  using assms
proof (induction "length xs" arbitrary: h list tail as p xs m rule: less_induct)
  case less
  show ?case
  proof (cases "xs = []")
    case True
    with less.prems(1,2) show ?thesis by (subst sort_pass.simps) (simp add: merges.simps merge_runs.simps)
  next
    case False
    let ?a = "take n xs" let ?b = "take n (drop n xs)" let ?c = "drop n (drop n xs)"
    obtain q where q: "sort_run w h n p 0 = Some (q, length ?a)" "chain w h p ?a q" "chain w h q (drop n xs) None"
      using sort_run_chain [OF less.prems(1) False less.prems(5), of 0] by auto
    have tm: "to_merge w h p ?a q ?b n ?c" using q(2,3) by (auto simp: to_merge_def simp del: drop_drop)
    have mx: "mset xs = mset ?a + mset ?b + mset ?c" by (metis append_take_drop_id mset_append add.assoc)
    have "mset (as @ ?a @ ?b @ ?c) = mset (as @ xs)" unfolding mset_append mx by (simp add: ac_simps)
    then have d: "distinct (as @ ?a @ ?b @ ?c)" using less.prems(3) mset_eq_imp_distinct_iff by blast
    from sort_merge_built [OF tm less.prems(2) d less.prems(4)] obtain h' list' tail' q' where
      m: "sort_merge k cmp w h list tail p (length ?a) q n = Some (h', list', tail', q')" "built k h' list' tail' (as @ merged f ?a ?b)"
        "chain w h' q' ?c None" "items h' = items h" by blast
    have "mset ((as @ merged f ?a ?b) @ ?c) = mset (as @ xs)" unfolding mset_append mx mset_merged by (simp add: ac_simps)
    then have d': "distinct ((as @ merged f ?a ?b) @ ?c)" using less.prems(3) mset_eq_imp_distinct_iff by blast
    have r: "merges n xs = Suc (merges n ?c)" "merge_runs f n xs = merged f ?a ?b @ merge_runs f n ?c"
      using False less.prems(5) by (simp_all only: merges.simps [of n xs] merge_runs.simps [of f n xs]) simp_all
    have "length ?c < length xs" "m + 1 + merges n ?c < 2 ^ 31" using False less.prems(5,6) r(1) by auto
    from less.hyps [OF this(1) m(3,2) d' _ less.prems(5) this(2)] less.prems(4) m(4)
    obtain h2 list2 tail2 where "sort_pass k cmp w n h' list' tail' (m + 1) q' = Some (h2, list2, tail2, m + 1 + merges n ?c)"
      "built k h2 list2 tail2 ((as @ merged f ?a ?b) @ merge_runs f n ?c)" "items h2 = items h'" by auto
    moreover have "p \<noteq> None" using less.prems(1) False by (cases xs) auto
    ultimately show ?thesis using q(1) m(1,4) r less.prems(6) by (subst sort_pass.simps) (simp del: drop_drop)
  qed
qed

lemma sort_close_rep:
  assumes "built k h list tail as" "as \<noteq> []"
  shows "\<exists>h'. sort_close k h list tail = Some h' \<and> list_rep k h' list as \<and> items h' = items h"
proof -
  obtain r where s: "lseg h list as r" "distinct as" "tail = Some (last as)" "k \<noteq> LL \<Longrightarrow> bwd h None as" using assms by (auto simp: built_def)
  note e = lseg_nonempty [OF s(1) assms(2)]
  let ?g = "upd (\<lambda>c. c\<lparr>wi_prev := Some (last as)\<rparr>) (hd as) h"
  have b: "bwd ?g (Some (last as)) as" if "k \<noteq> LL" using bwd_rehead [OF assms(2) s(2) _ s(4) [OF that]] e by simp
  have g: "lseg ?g list as r" using s(1) by simp
  show ?thesis
  proof (cases k)
    case LL
    show ?thesis using LL s(2,3) e relink_end [OF s(1) assms(2) s(2)] by (simp add: sort_close_def list_rep_def ll_def)
  next
    case DL
    show ?thesis using DL s(2,3) e b relink_end [OF g assms(2) s(2)] by (simp add: sort_close_def list_rep_def dl_def)
  next
    case CDL
    show ?thesis using CDL s(2,3) e b relink_end [OF g assms(2) s(2)] assms(2) by (simp add: sort_close_def list_rep_def cdl_def)
  qed
qed

lemma rep_distinct: "list_rep k h p as \<Longrightarrow> distinct as"
  by (cases k) (auto simp: list_rep_def ll_def dl_def cdl_def)

lemma sort_loop_sorts:
  assumes "list_rep k h p (run_sort f n xs)" "orders cmp f (items h)" "0 < n" "n = 1 \<or> n < length xs" "xs \<noteq> []" "length xs \<le> 2 ^ 30"
  shows "\<exists>h' p'. sort_loop k cmp n h p = Some (h', p') \<and> list_rep k h' p' (sort_key f xs) \<and> items h' = items h"
  using assms
proof (induction "length xs - n" arbitrary: h p n rule: less_induct)
  case less
  let ?ys = "run_sort f n xs"
  have m: "mset ?ys = mset xs" by (rule mset_run_sort [OF less.prems(3)])
  then have len: "length ?ys = length xs" "?ys \<noteq> []" using less.prems(5) by (metis size_mset, metis mset_zero_iff)
  have b: "built k h None None []" "distinct ([] @ ?ys)" using rep_distinct [OF less.prems(1)] by (simp_all add: built_def)
  have "0 + merges n ?ys < 2 ^ 31" using merges_le [of n ?ys] len(1) less.prems(6) by simp
  from sort_pass_built [OF rep_chain [OF less.prems(1) len(2)] b less.prems(2,3) this] obtain h1 list1 tail1 where
    p: "sort_pass k cmp (oldhead k p) n h None None 0 p = Some (h1, list1, tail1, merges n ?ys)"
      "built k h1 list1 tail1 (merge_runs f n ?ys)" "items h1 = items h" by auto
  have r: "merge_runs f n ?ys = run_sort f (n * 2) xs" by (rule merge_runs_sort [OF less.prems(3)])
  have "run_sort f (n * 2) xs \<noteq> []" using mset_run_sort [of "n * 2" f xs] less.prems(3,5) by auto
  from sort_close_rep [OF p(2) [unfolded r] this] obtain h2 where
    c: "sort_close k h1 list1 tail1 = Some h2" "list_rep k h2 list1 (run_sort f (n * 2) xs)" "items h2 = items h1" by blast
  have o: "n * 2 < 2 ^ 31" using less.prems(4,6) by auto
  have "merges n ?ys \<le> 1 \<longleftrightarrow> length xs \<le> n * 2" using merges_one [OF less.prems(3), of ?ys] len(1) by simp
  then have l: "sort_loop k cmp n h p = (if length xs \<le> n * 2 then Some (h2, list1) else sort_loop k cmp (n * 2) h2 list1)"
    using p(1) c(1) o by (subst sort_loop.simps) (simp add: oldhead_def)
  show ?case
  proof (cases "length xs \<le> n * 2")
    case True
    with c p(3) l run_sort_all [OF True, of f] less.prems(3) show ?thesis by simp
  next
    case False
    then have "length xs - n * 2 < length xs - n" using less.prems(3) by simp
    from less.hyps [OF this c(2)] False less.prems p(3) c(3) l show ?thesis by simp
  qed
qed

fun list_sort :: "list_kind \<Rightarrow> 'a wq_heap \<Rightarrow> nat option \<Rightarrow> ('a \<Rightarrow> 'a \<Rightarrow> int) \<Rightarrow> ('a wq_heap \<times> nat option) option" where
  "list_sort LL h p cmp = LL_SORT h p cmp"
| "list_sort DL h p cmp = DL_SORT h p cmp"
| "list_sort CDL h p cmp = CDL_SORT h p cmp"

lemma list_sort_eq: "list_sort k h p cmp = (if p = None then Some (h, p) else sort_loop k cmp 1 h p)"
  by (cases k) (simp_all add: LL_SORT_def DL_SORT_def CDL_SORT_def)

lemma rep_empty: "list_rep k h p as \<Longrightarrow> p = None \<longleftrightarrow> as = []"
  by (cases k; cases as) (auto simp: list_rep_def ll_def dl_def cdl_def)

text \<open>C32. The three sorting macros end, sort, and are stable: on a list of at most \<open>2 ^ 30\<close> elements, with a comparison that orders the
  elements by a key, they return a list of the same kind whose elements, unchanged themselves, are those of the list in the order
  of a stable sort by that key.\<close>

theorem list_sort_sorts:
  assumes "list_rep k h p as" "length as \<le> 2 ^ 30" "\<forall>x y. cmp x y \<le> 0 \<longleftrightarrow> key x \<le> (key y :: 'k :: linorder)"
  shows "\<exists>h' p'. list_sort k h p cmp = Some (h', p') \<and> list_rep k h' p' (sort_key (\<lambda>a. key (citem h a)) as) \<and> items h' = items h"
proof (cases "as = []")
  case True
  with assms(1) rep_empty [OF assms(1)] show ?thesis by (simp add: list_sort_eq)
next
  case False
  have "orders cmp (\<lambda>a. key (citem h a)) (items h)" using assms(3) by (auto simp: orders_def items_def citem_def)
  with sort_loop_sorts [of k h p "\<lambda>a. key (citem h a)" 1 as cmp] assms(1,2) False show ?thesis
    using rep_empty [OF assms(1)] by (auto simp: list_sort_eq run_sort_1 [unfolded One_nat_def])
qed

theorem list_sort_sorts_witness:
  "\<exists>h' p'. list_sort DL [Some \<lparr>wi_item = 3, wi_next = Some 1, wi_prev = Some 2\<rparr>, Some \<lparr>wi_item = 1, wi_next = Some 2, wi_prev = Some 0\<rparr>,
      Some \<lparr>wi_item = 2, wi_next = None, wi_prev = Some 1\<rparr>] (Some 0) (\<lambda>x y. x - y) = Some (h', p') \<and> list_rep DL h' p' [1, 2, 0]"
proof -
  let ?h = "[Some \<lparr>wi_item = 3 :: int, wi_next = Some 1, wi_prev = Some 2\<rparr>, Some \<lparr>wi_item = 1, wi_next = Some 2, wi_prev = Some 0\<rparr>,
      Some \<lparr>wi_item = 2, wi_next = None, wi_prev = Some 1\<rparr>]"
  have "list_rep DL ?h (Some 0) [0, 1, 2]" by (simp add: list_rep_def dl_def cell_def cnext_def cprev_def)
  moreover have "sort_key (\<lambda>a. citem ?h a) [0, 1, 2] = [1, 2, 0]" by (simp add: citem_def cell_def)
  ultimately show ?thesis using list_sort_sorts [of DL ?h "Some 0" "[0, 1, 2]" "\<lambda>x y. x - y" "\<lambda>x. x"] by auto
qed

end
