(* ===== verification/UtHashSort.thy ===== *)
theory UtHashSort
  imports UtHash UtSort
begin

text \<open>
  Sorting and selecting in \<open>hw4/src/uthash.h\<close>, and the properties of the hash table. \<open>HASH_SRT\<close> is the merge sort of the lists of
  \<open>utlist.h\<close> with counters of type \<open>unsigned\<close>, over the links of the order of addition; it does not touch the buckets.
  \<open>cmpfcn\<close> compares two elements. \<open>HASH_SELECT\<close> reads the handles of one table and writes the second handle of the same elements:
  a state for each of the two kinds of handle.
\<close>

section \<open>Sorting\<close>

definition hs_next :: "uthash \<Rightarrow> nat option \<Rightarrow> nat option option" where
  "hs_next s q = map_option (uh_next s) q"

fun hs_run :: "uthash \<Rightarrow> nat \<Rightarrow> nat option \<Rightarrow> 32 word \<Rightarrow> (nat option \<times> 32 word) option" where
  "hs_run s 0 q psize = Some (q, psize)"
| "hs_run s (Suc i) q psize = do {
     q' \<leftarrow> hs_next s q;
     (if q' = None then Some (q', psize + 1) else hs_run s i q' (psize + 1))
   }"

text \<open>One round of the merging loop: the handle \<open>e\<close> that is taken, which may be NULL when the run at \<open>p\<close> has ended early, and
  putting it behind \<open>tail\<close>.\<close>

definition hs_take :: "(nat \<Rightarrow> nat \<Rightarrow> int) \<Rightarrow> uthash \<Rightarrow> nat option \<Rightarrow> 32 word \<Rightarrow> nat option \<Rightarrow> 32 word \<Rightarrow>
    (nat option \<times> nat option \<times> 32 word \<times> nat option \<times> 32 word) option" where
  "hs_take cmpfcn s p psize q qsize =
     (let from_p = Some (p, (case p of None \<Rightarrow> None | Some a \<Rightarrow> uh_next s a), psize - 1, q, qsize);
          from_q = do { q' \<leftarrow> hs_next s q; Some (q, p, psize, q', qsize - 1) }
      in if psize = 0 then from_q
         else if qsize = 0 \<or> q = None then from_p
         else do {
           a \<leftarrow> p;
           b \<leftarrow> q;
           (if cmpfcn a b \<le> 0 then from_p else from_q)
         })"

definition hs_link :: "uthash \<Rightarrow> nat option \<Rightarrow> nat option \<Rightarrow> nat option \<Rightarrow> uthash \<times> nat option" where
  "hs_link s list tail e =
     (let (s1, list1) = (case tail of None \<Rightarrow> (s, e) | Some t \<Rightarrow> (s\<lparr>uh_next := (uh_next s)(t := e)\<rparr>, list));
          s2 = (case e of None \<Rightarrow> s1 | Some a \<Rightarrow> s1\<lparr>uh_prev := (uh_prev s1)(a := tail)\<rparr>)
      in (s2, list1))"

partial_function (option) hs_merge :: "(nat \<Rightarrow> nat \<Rightarrow> int) \<Rightarrow> uthash \<Rightarrow> nat option \<Rightarrow> nat option \<Rightarrow> nat option \<Rightarrow> 32 word \<Rightarrow> nat option \<Rightarrow> 32 word \<Rightarrow>
    (uthash \<times> nat option \<times> nat option \<times> nat option) option" where
  "hs_merge cmpfcn s list tail p psize q qsize =
     (if 0 < psize \<or> 0 < qsize \<and> q \<noteq> None then do {
        (e, p', psize', q', qsize') \<leftarrow> hs_take cmpfcn s p psize q qsize;
        let (s', list') = hs_link s list tail e;
        hs_merge cmpfcn s' list' e p' psize' q' qsize'
      } else Some (s, list, tail, q))"

partial_function (option) hs_pass :: "(nat \<Rightarrow> nat \<Rightarrow> int) \<Rightarrow> 32 word \<Rightarrow> uthash \<Rightarrow> nat option \<Rightarrow> nat option \<Rightarrow> 32 word \<Rightarrow> nat option \<Rightarrow>
    (uthash \<times> nat option \<times> nat option \<times> 32 word) option" where
  "hs_pass cmpfcn insize s list tail nmerges p =
     (if p = None then Some (s, list, tail, nmerges)
      else do {
        (q, psize) \<leftarrow> hs_run s (unat insize) p 0;
        (s', list', tail', q') \<leftarrow> hs_merge cmpfcn s list tail p psize q insize;
        hs_pass cmpfcn insize s' list' tail' (nmerges + 1) q'
      })"

partial_function (option) hs_loop :: "(nat \<Rightarrow> nat \<Rightarrow> int) \<Rightarrow> 32 word \<Rightarrow> uthash \<Rightarrow> nat option \<Rightarrow> uthash option" where
  "hs_loop cmpfcn insize s list = do {
     (s1, list1, tail, nmerges) \<leftarrow> hs_pass cmpfcn insize s None None 0 list;
     let s2 = (case tail of None \<Rightarrow> s1 | Some t \<Rightarrow> s1\<lparr>uh_next := (uh_next s1)(t := None)\<rparr>);
     (if nmerges \<le> 1 then do {
        t \<leftarrow> uh_tbl s2;
        first \<leftarrow> list1;
        Some (s2\<lparr>uh_tbl := Some (t\<lparr>tbl_tail := tail\<rparr>), uh_head := Some first\<rparr>)
      } else hs_loop cmpfcn (insize * 2) s2 list1)
   }"

definition HASH_SRT :: "(nat \<Rightarrow> nat \<Rightarrow> int) \<Rightarrow> uthash \<Rightarrow> uthash option" where
  "HASH_SRT cmpfcn s = (if uh_head s = None then Some s else hs_loop cmpfcn 1 s (uh_head s))"

section \<open>The passes\<close>

lemma hs_next_Some [simp]: "hs_next s (Some a) = Some (uh_next s a)" "hs_next s None = None"
  by (simp_all add: hs_next_def)

lemma hs_run_path:
  "path (uh_next s) p as None \<Longrightarrow> as \<noteq> [] \<Longrightarrow> 0 < n \<Longrightarrow>
   \<exists>q. hs_run s n p m = Some (q, m + of_nat (length (take n as))) \<and> path (uh_next s) p (take n as) q \<and> path (uh_next s) q (drop n as) None"
proof (induction n arbitrary: p as m)
  case (Suc n)
  then obtain a bs where a: "as = a # bs" "p = Some a" "path (uh_next s) (uh_next s a) bs None" by (cases as) auto
  show ?case
  proof (cases "bs = [] \<or> n = 0")
    case True
    with a show ?thesis by (cases bs) auto
  next
    case False
    then have "uh_next s a \<noteq> None" using a(3) by (cases bs) auto
    with Suc.IH [OF a(3), of "m + 1"] False a show ?thesis by (auto simp: ac_simps)
  qed
qed simp

text \<open>What the sort leaves alone.\<close>

definition only_order :: "uthash \<Rightarrow> uthash \<Rightarrow> bool" where
  "only_order s s' \<longleftrightarrow> hh_prev s' = hh_prev s \<and> hh_next s' = hh_next s \<and> uh_key s' = uh_key s \<and> uh_hashv s' = uh_hashv s \<and>
     uh_head s' = uh_head s \<and> uh_tbl s' = uh_tbl s"

definition hs_built :: "uthash \<Rightarrow> nat option \<Rightarrow> nat option \<Rightarrow> nat list \<Rightarrow> bool" where
  "hs_built s list tail as \<longleftrightarrow> distinct as \<and> (\<exists>r. path (uh_next s) list as r \<and> (as = [] \<longrightarrow> list = None)) \<and>
     tail = (if as = [] then None else Some (last as)) \<and> rback (uh_prev s) None as"

lemma hs_link_built:
  assumes "hs_built s list tail as" "e \<notin> set as"
  obtains s' list' where "hs_link s list tail (Some e) = (s', list')" "hs_built s' list' (Some e) (as @ [e])" "only_order s s'"
    "\<forall>a. a \<notin> set as \<longrightarrow> uh_next s' a = uh_next s a"
proof (cases "as = []")
  case True
  let ?s = "s\<lparr>uh_prev := (uh_prev s)(e := None)\<rparr>"
  have "only_order s ?s" by (simp add: only_order_def)
  then show ?thesis using that [of ?s "Some e"] True assms(1) by (auto simp: hs_built_def hs_link_def)
next
  case False
  let ?s = "s\<lparr>uh_next := (uh_next s)(last as := Some e), uh_prev := (uh_prev s)(e := Some (last as))\<rparr>"
  obtain r where r: "path (uh_next s) list as r" "distinct as" "tail = Some (last as)" "rback (uh_prev s) None as"
    using assms(1) False by (auto simp: hs_built_def)
  have le: "last as \<noteq> e" using assms(2) False last_in_set by blast
  have "path (uh_next ?s) list (as @ [e]) (uh_next s e)" using path_relast [OF r(1) False r(2), of "Some e"] le by (auto simp: path_append)
  then have "hs_built ?s list (Some e) (as @ [e])" using r assms(2) False by (auto simp: hs_built_def rback_append)
  moreover have "hs_link s list tail (Some e) = (?s, list)" using r(3) by (simp add: hs_link_def)
  moreover have "only_order s ?s" by (simp add: only_order_def)
  moreover have "\<forall>a. a \<notin> set as \<longrightarrow> uh_next ?s a = uh_next s a" using last_in_set [OF False] by auto
  ultimately show ?thesis using that by blast
qed

text \<open>What is left to merge.\<close>

definition hs_left :: "(nat \<Rightarrow> nat option) \<Rightarrow> nat option \<Rightarrow> nat list \<Rightarrow> nat option \<Rightarrow> nat list \<Rightarrow> nat \<Rightarrow> nat list \<Rightarrow> bool" where
  "hs_left nx p ps q qs n rs \<longleftrightarrow> (\<exists>r. path nx p ps r) \<and> path nx q (qs @ rs) None \<and> length qs \<le> n \<and> (rs \<noteq> [] \<longrightarrow> length qs = n)"

lemma hs_left_p: "hs_left nx p (x # ps) q qs n rs \<Longrightarrow> p = Some x \<and> hs_left nx (nx x) ps q qs n rs"
  by (auto simp: hs_left_def)

lemma hs_left_q: "hs_left nx p ps q (y # qs) n rs \<Longrightarrow> q = Some y \<and> 0 < n \<and> hs_left nx p ps (nx y) qs (n - 1) rs"
  by (auto simp: hs_left_def)

lemma hs_left_end: "hs_left nx p ps q [] n rs \<Longrightarrow> n = 0 \<or> q = None"
  by (cases rs) (auto simp: hs_left_def)

lemma hs_left_cong:
  assumes "\<forall>a \<in> set (ps @ qs @ rs). nx' a = nx a"
  shows "hs_left nx' p ps q qs n rs = hs_left nx p ps q qs n rs"
  using assms path_cong [of ps nx' nx p] path_cong [of "qs @ rs" nx' nx q None] by (auto simp: hs_left_def)

definition ranks :: "(nat \<Rightarrow> nat \<Rightarrow> int) \<Rightarrow> (nat \<Rightarrow> 'k :: linorder) \<Rightarrow> bool" where
  "ranks cmpfcn f \<longleftrightarrow> (\<forall>a b. cmpfcn a b \<le> 0 \<longleftrightarrow> f a \<le> f b)"

lemma word_pred: "0 < unat (w :: 32 word) \<Longrightarrow> unat (w - 1) = unat w - 1"
  by (metis gr0_implies_Suc diff_Suc_1 unat_minus_one unat_0 less_nat_zero_code)

lemma of_nat_len: "length (xs :: 'b list) < 2 ^ 32 \<Longrightarrow> (of_nat (length xs) :: 32 word) = 0 \<longleftrightarrow> xs = []"
  by (auto simp: word_of_nat_eq_0_iff dest: nat_dvd_not_less)

lemma hs_take_merge:
  assumes "hs_left (uh_next s) p ps q qs (unat n) rs" "ranks cmpfcn f" "ps \<noteq> [] \<or> qs \<noteq> []" "length ps < 2 ^ 32"
  obtains e p' ps' q' qs' n' where "hs_take cmpfcn s p (of_nat (length ps)) q n = Some (Some e, p', of_nat (length ps'), q', n')"
    "hs_left (uh_next s) p' ps' q' qs' (unat n') rs" "merged f ps qs = e # merged f ps' qs'"
    "mset ps + mset qs = add_mset e (mset ps' + mset qs')" "length ps' \<le> length ps"
proof (cases ps)
  case Nil
  then obtain y ys where y: "qs = y # ys" using assms(3) by (cases qs) auto
  note q' = hs_left_q [OF assms(1) [unfolded y]]
  show ?thesis using q' word_pred [of n] Nil y by (intro that [of y p "[]" "uh_next s y" "n - 1" ys]) (auto simp: hs_take_def)
next
  case (Cons x xs)
  note p = hs_left_p [OF assms(1) [unfolded Cons]]
  have z: "(of_nat (length ps) :: 32 word) \<noteq> 0" "(of_nat (length ps) :: 32 word) - 1 = of_nat (length xs)"
    using of_nat_len [OF assms(4)] Cons by simp_all
  show ?thesis
  proof (cases qs)
    case Nil
    have "n = 0 \<or> q = None" using hs_left_end [OF assms(1) [unfolded Nil]] by (simp add: unat_eq_0)
    then show ?thesis using p z Nil Cons by (intro that [of x "uh_next s x" xs q n "[]"]) (auto simp: hs_take_def Let_def)
  next
    case q: (Cons y ys)
    note q' = hs_left_q [OF assms(1) [unfolded q]]
    have n: "n \<noteq> 0" using q' by auto
    show ?thesis
    proof (cases "f x \<le> f y")
      case True
      then have "cmpfcn x y \<le> 0" using assms(2) by (simp add: ranks_def)
      then show ?thesis using True p q' n z Cons q by (intro that [of x "uh_next s x" xs q n qs]) (auto simp: hs_take_def Let_def)
    next
      case False
      then have "\<not> cmpfcn x y \<le> 0" using assms(2) by (simp add: ranks_def)
      then show ?thesis using False p q' n z Cons q assms(1) word_pred [of n]
        by (intro that [of y p ps "uh_next s y" "n - 1" ys]) (auto simp: hs_take_def Let_def)
    qed
  qed
qed

lemma hs_merge_built:
  assumes "hs_left (uh_next s) p ps q qs (unat n) rs" "hs_built s list tail as" "distinct (as @ ps @ qs @ rs)" "ranks cmpfcn f" "length ps < 2 ^ 32"
  shows "\<exists>s' list' tail' q'. hs_merge cmpfcn s list tail p (of_nat (length ps)) q n = Some (s', list', tail', q') \<and>
    hs_built s' list' tail' (as @ merged f ps qs) \<and> path (uh_next s') q' rs None \<and> only_order s s'"
  using assms
proof (induction "length ps + length qs" arbitrary: s list tail as p ps q qs n rule: less_induct)
  case less
  note tm = less.prems(1)
  show ?case
  proof (cases "ps = [] \<and> qs = []")
    case True
    then have "n = 0 \<or> q = None" using tm hs_left_end [of "uh_next s" p ps q "unat n" rs] by (simp add: unat_eq_0)
    with True tm show ?thesis using less.prems(2) by (subst hs_merge.simps) (auto simp: hs_left_def only_order_def)
  next
    case False
    then have ne: "ps \<noteq> [] \<or> qs \<noteq> []" by blast
    obtain e p' ps' q' qs' n' where t: "hs_take cmpfcn s p (of_nat (length ps)) q n = Some (Some e, p', of_nat (length ps'), q', n')"
      "hs_left (uh_next s) p' ps' q' qs' (unat n') rs" "merged f ps qs = e # merged f ps' qs'"
      "mset ps + mset qs = add_mset e (mset ps' + mset qs')" "length ps' \<le> length ps"
      by (rule hs_take_merge [OF tm less.prems(4) ne less.prems(5)])
    have sz: "length ps + length qs = Suc (length ps' + length qs')" using arg_cong [OF t(4), of size] by simp
    have "mset (as @ ps @ qs @ rs) = mset ((as @ [e]) @ ps' @ qs' @ rs)" using t(4) by (simp add: ac_simps)
    then have d: "distinct ((as @ [e]) @ ps' @ qs' @ rs)" using less.prems(3) by (metis mset_eq_imp_distinct_iff)
    then have e: "e \<notin> set as" by simp
    obtain s1 list1 where l: "hs_link s list tail (Some e) = (s1, list1)" "hs_built s1 list1 (Some e) (as @ [e])" "only_order s s1"
      "\<forall>a. a \<notin> set as \<longrightarrow> uh_next s1 a = uh_next s a" by (rule hs_link_built [OF less.prems(2) e])
    have "hs_left (uh_next s1) p' ps' q' qs' (unat n') rs" using t(2) d l(4) by (subst hs_left_cong [of _ _ _ _ "uh_next s"]) auto
    from less.hyps [OF _ this l(2) d less.prems(4)] sz t(5) less.prems(5) obtain s2 list2 tail2 q2 where
      m: "hs_merge cmpfcn s1 list1 (Some e) p' (of_nat (length ps')) q' n' = Some (s2, list2, tail2, q2)"
        "hs_built s2 list2 tail2 ((as @ [e]) @ merged f ps' qs')" "path (uh_next s2) q2 rs None" "only_order s1 s2" by auto
    have "(0 :: 32 word) < of_nat (length ps) \<or> 0 < n \<and> q \<noteq> None"
    proof (cases ps)
      case Nil
      then obtain y ys where y: "qs = y # ys" using False by (cases qs) auto
      have "q = Some y" "0 < unat n" using hs_left_q [OF tm [unfolded y]] by simp_all
      then show ?thesis by (simp add: word_less_nat_alt)
    next
      case (Cons x xs)
      then have "(of_nat (length ps) :: 32 word) \<noteq> 0" using of_nat_len [OF less.prems(5)] by simp
      then show ?thesis by (simp add: word_gt_0)
    qed
    then have "hs_merge cmpfcn s list tail p (of_nat (length ps)) q n = Some (s2, list2, tail2, q2)"
      using t(1) l(1) m(1) by (subst hs_merge.simps) simp
    with m(2-4) l(3) t(3) show ?thesis by (simp add: only_order_def)
  qed
qed

lemma hs_pass_built:
  assumes "path (uh_next s) p xs None" "hs_built s list tail as" "distinct (as @ xs)" "ranks cmpfcn f" "0 < unat n" "length xs < 2 ^ 32"
  shows "\<exists>s' list' tail'. hs_pass cmpfcn n s list tail m p = Some (s', list', tail', m + of_nat (merges (unat n) xs)) \<and>
    hs_built s' list' tail' (as @ merge_runs f (unat n) xs) \<and> only_order s s'"
  using assms
proof (induction "length xs" arbitrary: s list tail as p xs m rule: less_induct)
  case less
  let ?n = "unat n"
  show ?case
  proof (cases "xs = []")
    case True
    with less.prems(1,2) show ?thesis by (subst hs_pass.simps) (simp add: merges.simps merge_runs.simps only_order_def)
  next
    case False
    let ?a = "take ?n xs" let ?b = "take ?n (drop ?n xs)" let ?c = "drop ?n (drop ?n xs)"
    obtain q where q: "hs_run s ?n p 0 = Some (q, of_nat (length ?a))" "path (uh_next s) p ?a q" "path (uh_next s) q (drop ?n xs) None"
      using hs_run_path [OF less.prems(1) False less.prems(5), of 0] by auto
    have tm: "hs_left (uh_next s) p ?a q ?b ?n ?c" using q(2,3) by (auto simp: hs_left_def simp del: drop_drop)
    have mx: "mset xs = mset ?a + mset ?b + mset ?c" by (metis append_take_drop_id mset_append add.assoc)
    have "mset (as @ ?a @ ?b @ ?c) = mset (as @ xs)" unfolding mset_append mx by (simp add: ac_simps)
    then have d: "distinct (as @ ?a @ ?b @ ?c)" using less.prems(3) mset_eq_imp_distinct_iff by blast
    have la: "length ?a < 2 ^ 32" using less.prems(6) by simp
    from hs_merge_built [OF tm less.prems(2) d less.prems(4) la] obtain s1 list1 tail1 q1 where
      m: "hs_merge cmpfcn s list tail p (of_nat (length ?a)) q n = Some (s1, list1, tail1, q1)" "hs_built s1 list1 tail1 (as @ merged f ?a ?b)"
        "path (uh_next s1) q1 ?c None" "only_order s s1" by blast
    have "mset ((as @ merged f ?a ?b) @ ?c) = mset (as @ xs)" unfolding mset_append mx mset_merged by (simp add: ac_simps)
    then have d': "distinct ((as @ merged f ?a ?b) @ ?c)" using less.prems(3) mset_eq_imp_distinct_iff by blast
    have r: "merges ?n xs = Suc (merges ?n ?c)" "merge_runs f ?n xs = merged f ?a ?b @ merge_runs f ?n ?c"
      using False less.prems(5) by (simp_all only: merges.simps [of ?n xs] merge_runs.simps [of f ?n xs]) simp_all
    have "length ?c < length xs" "length ?c < 2 ^ 32" using False less.prems(5,6) by auto
    from less.hyps [OF this(1) m(3,2) d' less.prems(4,5) this(2), of "m + 1"]
    obtain s2 list2 tail2 where "hs_pass cmpfcn n s1 list1 tail1 (m + 1) q1 = Some (s2, list2, tail2, m + 1 + of_nat (merges ?n ?c))"
      "hs_built s2 list2 tail2 ((as @ merged f ?a ?b) @ merge_runs f ?n ?c)" "only_order s1 s2" by auto
    moreover have "p = Some (hd xs)" using path_first [OF less.prems(1)] False by simp
    ultimately show ?thesis using q(1) m(1,4) r by (subst hs_pass.simps) (simp add: only_order_def ac_simps del: drop_drop)
  qed
qed

lemma hs_close:
  assumes "hs_built s list tail as" "as \<noteq> []"
  shows "dpath ((uh_next s)(last as := None)) (uh_prev s) list as" "tail = Some (last as)"
  using assms path_relast [of "uh_next s" list as _ None] by (auto simp: hs_built_def dpath_def)

lemma hs_loop_sorts:
  assumes "dpath (uh_next s) (uh_prev s) list (run_sort f (unat n) xs)" "ranks cmpfcn f" "0 < unat n" "unat n = 1 \<or> unat n < length xs" "xs \<noteq> []"
    "length xs < 2 ^ 32" "uh_tbl s = Some t"
  shows "\<exists>nx pv first. hs_loop cmpfcn n s list = Some (s\<lparr>uh_next := nx, uh_prev := pv, uh_tbl := Some (t\<lparr>tbl_tail := Some (last (sort_key f xs))\<rparr>), uh_head := Some first\<rparr>) \<and>
    dpath nx pv (Some first) (sort_key f xs)"
  using assms
proof (induction "length xs - unat n" arbitrary: s list n rule: less_induct)
  case less
  let ?n = "unat n" let ?ys = "run_sort f ?n xs"
  have m: "mset ?ys = mset xs" by (rule mset_run_sort [OF less.prems(3)])
  then have len: "length ?ys = length xs" "?ys \<noteq> []" using less.prems(5) by (metis size_mset, metis mset_zero_iff)
  have b: "path (uh_next s) list ?ys None" "hs_built s None None []" "distinct ([] @ ?ys)" "length ?ys < 2 ^ 32"
    using less.prems(1,6) len(1) by (simp_all add: hs_built_def dpath_def)
  from hs_pass_built [OF b(1-3) less.prems(2,3) b(4), of 0] obtain s1 list1 tail1 where
    p: "hs_pass cmpfcn n s None None 0 list = Some (s1, list1, tail1, of_nat (merges ?n ?ys))"
      "hs_built s1 list1 tail1 (merge_runs f ?n ?ys)" "only_order s s1" by auto
  have r: "merge_runs f ?n ?ys = run_sort f (?n * 2) xs" by (rule merge_runs_sort [OF less.prems(3)])
  have ne: "run_sort f (?n * 2) xs \<noteq> []" using mset_run_sort [of "?n * 2" f xs] less.prems(3,5) by auto
  let ?l = "last (run_sort f (?n * 2) xs)" let ?s = "s1\<lparr>uh_next := (uh_next s1)(?l := None)\<rparr>"
  note c = hs_close [OF p(2) [unfolded r] ne]
  have "merges ?n ?ys < 2 ^ 32" using merges_le [of ?n ?ys] len(1) less.prems(6) by simp
  then have "(of_nat (merges ?n ?ys) :: 32 word) \<le> 1 \<longleftrightarrow> merges ?n ?ys \<le> 1" by (simp add: word_le_nat_alt unat_of_nat)
  then have g: "(of_nat (merges ?n ?ys) :: 32 word) \<le> 1 \<longleftrightarrow> length xs \<le> ?n * 2" using merges_one [OF less.prems(3), of ?ys] len(1) by simp
  have tb: "uh_tbl s1 = Some t" using p(3) less.prems(7) by (simp add: only_order_def)
  show ?case
  proof (cases "length xs \<le> ?n * 2")
    case True
    then have k: "run_sort f (?n * 2) xs = sort_key f xs" using run_sort_all [OF True, of f] less.prems(3) by simp
    obtain first where first: "list1 = Some first" using dpath_hd [OF c(1) ne] by blast
    have "hs_loop cmpfcn n s list = Some (?s\<lparr>uh_tbl := Some (t\<lparr>tbl_tail := Some ?l\<rparr>), uh_head := Some first\<rparr>)"
      using p(1) c(2) g True tb first by (subst hs_loop.simps) simp
    moreover have "?s\<lparr>uh_tbl := Some (t\<lparr>tbl_tail := Some ?l\<rparr>), uh_head := Some first\<rparr> = s\<lparr>uh_next := (uh_next s1)(?l := None), uh_prev := uh_prev s1,
      uh_tbl := Some (t\<lparr>tbl_tail := Some ?l\<rparr>), uh_head := Some first\<rparr>" using p(3) by (simp add: only_order_def)
    ultimately show ?thesis using c(1) first k by auto
  next
    case False
    have n2: "unat (n * 2) = ?n * 2" using False less.prems(6) by (simp add: unat_word_ariths)
    have "hs_loop cmpfcn n s list = hs_loop cmpfcn (n * 2) ?s list1" using p(1) c(2) g False by (subst hs_loop.simps) simp
    moreover have "length xs - unat (n * 2) < length xs - ?n" using False n2 less.prems(3) by simp
    from less.hyps [OF this, of ?s list1] c(1) n2 False less.prems(2,3,5,6) tb
    have "\<exists>nx pv first. hs_loop cmpfcn (n * 2) ?s list1 = Some (?s\<lparr>uh_next := nx, uh_prev := pv, uh_tbl := Some (t\<lparr>tbl_tail := Some (last (sort_key f xs))\<rparr>), uh_head := Some first\<rparr>) \<and>
      dpath nx pv (Some first) (sort_key f xs)" by simp
    moreover have "?s\<lparr>uh_next := nx, uh_prev := pv, uh_tbl := T, uh_head := H\<rparr> = s\<lparr>uh_next := nx, uh_prev := pv, uh_tbl := T, uh_head := H\<rparr>" for nx pv T H
      using p(3) by (simp add: only_order_def)
    ultimately show ?thesis by auto
  qed
qed

lemma srt_ok:
  assumes "uh_ok fcn s es" "ranks cmpfcn f"
  shows "\<exists>s'. HASH_SRT cmpfcn s = Some s' \<and> uh_ok fcn s' (sort_key f es) \<and> uh_key s' = uh_key s"
proof (cases "es = []")
  case True
  with assms(1) show ?thesis by (simp add: HASH_SRT_def uh_ok_def)
next
  case False
  obtain t k bs where t: "uh_tbl s = Some t" "table_ok fcn s t es k bs" using assms(1) False by (auto simp: uh_ok_def)
  have d: "dpath (uh_next s) (uh_prev s) (uh_head s) es" using assms(1) by (simp add: uh_ok_def)
  have n: "unat (1 :: 32 word) = 1" by simp
  have "length es < 2 ^ 32" using t(2) by (simp add: table_ok_def chains_ok_def)
  with hs_loop_sorts [of s "uh_head s" f 1 es cmpfcn t] d assms(2) False t(1) obtain nx pv first where
    h: "hs_loop cmpfcn 1 s (uh_head s) = Some (s\<lparr>uh_next := nx, uh_prev := pv, uh_tbl := Some (t\<lparr>tbl_tail := Some (last (sort_key f es))\<rparr>), uh_head := Some first\<rparr>)"
      (is "_ = Some ?s") "dpath nx pv (Some first) (sort_key f es)" by (auto simp: run_sort_1 [unfolded One_nat_def])
  have "table_ok fcn ?s (t\<lparr>tbl_tail := Some (last (sort_key f es))\<rparr>) (sort_key f es) k bs"
    using t(2) by (simp add: table_ok_def chains_ok_def bkts_ok_def placed_def)
  then have "uh_ok fcn ?s (sort_key f es)" using h(2) False by (auto simp: uh_ok_def)
  moreover have "HASH_SRT cmpfcn s = Some ?s" using h(1) dpath_hd [OF d False] by (simp add: HASH_SRT_def)
  ultimately show ?thesis by auto
qed

section \<open>Selecting\<close>

definition select_step :: "(nat \<Rightarrow> bool) \<Rightarrow> uthash \<Rightarrow> nat \<Rightarrow> uthash \<times> nat option \<Rightarrow> (uthash \<times> nat option) option option" where
  "select_step alloc src elt = (\<lambda>(dst, last_elt). do {
     let d1 = dst\<lparr>uh_key := (uh_key dst)(elt := uh_key src elt), uh_hashv := (uh_hashv dst)(elt := uh_hashv src elt),
       uh_prev := (uh_prev dst)(elt := last_elt), uh_next := (uh_next dst)(elt := None)\<rparr>;
     let d2 = (case last_elt of None \<Rightarrow> d1 | Some l \<Rightarrow> d1\<lparr>uh_next := (uh_next d1)(l := Some elt)\<rparr>);
     let made = (case uh_head d2 of
         None \<Rightarrow> map_option (\<lambda>t. d2\<lparr>uh_head := Some elt, uh_tbl := Some t\<rparr>) (HASH_MAKE_TABLE alloc elt)
       | Some _ \<Rightarrow> Some d2);
     (case made of
        None \<Rightarrow> Some None
      | Some d3 \<Rightarrow> do {
          t \<leftarrow> uh_tbl d3;
          r \<leftarrow> HASH_ADD_TO_BKT alloc d3 (HASH_TO_BKT (uh_hashv d3 elt) (num_buckets t)) elt;
          (case r of
             None \<Rightarrow> Some None
           | Some d4 \<Rightarrow> do {
               t4 \<leftarrow> uh_tbl d4;
               Some (Some (d4\<lparr>uh_tbl := Some (t4\<lparr>num_items := num_items t4 + 1\<rparr>)\<rparr>, Some elt))
             })
        })
   })"

partial_function (option) select_chain :: "(nat \<Rightarrow> bool) \<Rightarrow> (nat \<Rightarrow> bool) \<Rightarrow> uthash \<Rightarrow> nat option \<Rightarrow> uthash \<times> nat option \<Rightarrow> (uthash \<times> nat option) option option" where
  "select_chain alloc cond src src_hh st = (case src_hh of
     None \<Rightarrow> Some (Some st)
   | Some elt \<Rightarrow> if cond elt then (case select_step alloc src elt st of
         None \<Rightarrow> None
       | Some r \<Rightarrow> (case r of None \<Rightarrow> Some None | Some st' \<Rightarrow> select_chain alloc cond src (hh_next src elt) st'))
     else select_chain alloc cond src (hh_next src elt) st)"

fun select_buckets :: "(nat \<Rightarrow> bool) \<Rightarrow> (nat \<Rightarrow> bool) \<Rightarrow> uthash \<Rightarrow> UT_hash_bucket list \<Rightarrow> uthash \<times> nat option \<Rightarrow> (uthash \<times> nat option) option option" where
  "select_buckets alloc cond src [] st = Some (Some st)"
| "select_buckets alloc cond src (b # bs) st = do {
     r \<leftarrow> select_chain alloc cond src (hh_head b) st;
     (case r of None \<Rightarrow> Some None | Some st' \<Rightarrow> select_buckets alloc cond src bs st')
   }"

definition HASH_SELECT :: "(nat \<Rightarrow> bool) \<Rightarrow> (nat \<Rightarrow> bool) \<Rightarrow> uthash \<Rightarrow> uthash \<Rightarrow> uthash option option" where
  "HASH_SELECT alloc cond dst src =
     (if uh_head src = None then Some (Some dst)
      else do {
        t \<leftarrow> uh_tbl src;
        (if length (buckets t) < unat (num_buckets t) then None
         else map_option (map_option fst) (select_buckets alloc cond src (take (unat (num_buckets t)) (buckets t)) (dst, None)))
      })"

text \<open>The elements selected so far; the pointer to the last element still has the first one.\<close>

definition selected :: "(hkey \<Rightarrow> 32 word) \<Rightarrow> uthash \<Rightarrow> uthash \<Rightarrow> nat option \<Rightarrow> nat list \<Rightarrow> bool" where
  "selected fcn src d last_elt ds \<longleftrightarrow> uh_sound fcn d ds \<and> last_elt = (if ds = [] then None else Some (last ds)) \<and>
     (\<forall>a \<in> set ds. uh_key d a = uh_key src a) \<and> (ds \<noteq> [] \<longrightarrow> map_option tbl_tail (uh_tbl d) = Some (Some (hd ds)))"

lemma chains_ok_count [simp]: "chains_ok fcn (s\<lparr>uh_tbl := T\<rparr>) (t\<lparr>num_items := n\<rparr>) es k bs = chains_ok fcn s t es k bs"
  by (simp add: chains_ok_def bkts_ok_def placed_def)

lemma select_add:
  assumes "uh_tbl d = Some t" "5 \<le> k" "k < 31" "unat (num_buckets t) = 2 ^ k" "unat (log2_num_buckets t) = k"
    "bkts_ok d (buckets t) bs" "placed k d bs" "mset (concat bs) = mset ds" "distinct (ds @ [e])" "length ds + 1 < 2 ^ 32"
    "num_items t = of_nat (length ds)" "num_items t \<noteq> 0 \<or> set (buckets t) \<subseteq> {empty_bucket}" "\<forall>x \<in> set (ds @ [e]). uh_hashv d x = fcn (uh_key d x)" "\<forall>n. alloc n \<longrightarrow> n < 2 ^ 35"
    "dpath (uh_next d) (uh_prev d) (uh_head d) (ds @ [e])"
  obtains r where "HASH_ADD_TO_BKT alloc d (HASH_TO_BKT (uh_hashv d e) (num_buckets t)) e = Some r"
    "r = None \<or> (\<exists>s' t'. r = Some s' \<and> uh_tbl s' = Some t' \<and> tbl_tail t' = tbl_tail t \<and> uh_key s' = uh_key d \<and>
      uh_sound fcn (s'\<lparr>uh_tbl := Some (t'\<lparr>num_items := num_items t' + 1\<rparr>)\<rparr>) (ds @ [e]))"
proof -
  obtain r where r: "HASH_ADD_TO_BKT alloc d (HASH_TO_BKT (uh_hashv d e) (num_buckets t)) e = Some r"
    "r = None \<or> (\<exists>s' t' k' bs'. r = Some s' \<and> uh_tbl s' = Some t' \<and> tbl_tail t' = tbl_tail t \<and> num_items t' = num_items t \<and> same_app d s' \<and>
      chains_ok fcn s' t' (ds @ [e]) k' bs')" using add_to_bkt_ok [OF assms(1-10,12-14)] by blast
  have "uh_sound fcn (s'\<lparr>uh_tbl := Some (t'\<lparr>num_items := num_items t' + 1\<rparr>)\<rparr>) (ds @ [e])"
    if "num_items t' = num_items t" "same_app d s'" "chains_ok fcn s' t' (ds @ [e]) k' bs'" for s' t' k' bs'
    using that assms(11,15) by (auto simp: uh_sound_def table_ok_def same_app_def intro!: exI [of _ k'] exI [of _ bs'])
  with r show ?thesis using that [of r] by (auto simp: same_app_def)
qed

lemma select_step_ok:
  assumes "selected fcn src d last_elt ds" "e \<notin> set ds" "length ds + 1 < 2 ^ 32" "\<forall>n. alloc n \<longrightarrow> n < 2 ^ 35" "uh_hashv src e = fcn (uh_key src e)"
  obtains r where "select_step alloc src e (d, last_elt) = Some r" "r = None \<or> (\<exists>d'. r = Some (d', Some e) \<and> selected fcn src d' (Some e) (ds @ [e]))"
proof (cases "ds = []")
  case True
  then have h: "uh_head d = None" "last_elt = None" using assms(1) by (simp_all add: selected_def uh_sound_def)
  show ?thesis
  proof (cases "HASH_MAKE_TABLE alloc e")
    case None
    with h show ?thesis using that [of None] by (simp add: select_step_def)
  next
    case (Some t)
    define d3 where "d3 = d\<lparr>uh_key := (uh_key d)(e := uh_key src e), uh_hashv := (uh_hashv d)(e := uh_hashv src e),
       uh_prev := (uh_prev d)(e := None), uh_next := (uh_next d)(e := None), uh_head := Some e, uh_tbl := Some t\<rparr>"
    have t: "unat (num_buckets t) = 2 ^ 5" "unat (log2_num_buckets t) = 5" "buckets t = replicate (2 ^ 5) empty_bucket" "num_items t = of_nat (length [])"
      "tbl_tail t = Some e"
      using Some by (auto simp: HASH_MAKE_TABLE_def HASH_INITIAL_NUM_BUCKETS_def HASH_INITIAL_NUM_BUCKETS_LOG2_def split: if_splits)
    have p: "uh_tbl d3 = Some t" "5 \<le> (5 :: nat)" "5 < (31 :: nat)" by (simp_all add: d3_def)
    have q: "bkts_ok d3 (buckets t) (replicate (2 ^ 5) [])" unfolding t(3) by (rule empty_bkts)
    have u: "placed 5 d3 (replicate (2 ^ 5) [])" "mset (concat (replicate (2 ^ 5) [])) = mset []" "distinct ([] @ [e])" "length [] + 1 < 2 ^ 32"
      "num_items t \<noteq> 0 \<or> set (buckets t) \<subseteq> {empty_bucket}" "\<forall>x \<in> set ([] @ [e]). uh_hashv d3 x = fcn (uh_key d3 x)"
      "dpath (uh_next d3) (uh_prev d3) (uh_head d3) ([] @ [e])"
      using t(3) assms(5) by (simp_all add: placed_def d3_def dpath_def)
    obtain r where r: "HASH_ADD_TO_BKT alloc d3 (HASH_TO_BKT (uh_hashv d3 e) (num_buckets t)) e = Some r"
      "r = None \<or> (\<exists>s' t'. r = Some s' \<and> uh_tbl s' = Some t' \<and> tbl_tail t' = tbl_tail t \<and> uh_key s' = uh_key d3 \<and>
        uh_sound fcn (s'\<lparr>uh_tbl := Some (t'\<lparr>num_items := num_items t' + 1\<rparr>)\<rparr>) ([] @ [e]))"
      by (rule select_add [OF p t(1,2) q u(1-4) t(4) u(5,6) assms(4) u(7)])
    have "select_step alloc src e (d, last_elt) = Some (case r of None \<Rightarrow> None | Some s' \<Rightarrow> (case uh_tbl s' of None \<Rightarrow> None | Some t' \<Rightarrow> Some (s'\<lparr>uh_tbl := Some (t'\<lparr>num_items := num_items t' + 1\<rparr>)\<rparr>, Some e)))"
      using h Some r p(1) by (auto simp: select_step_def d3_def [symmetric])
    then show ?thesis using that r(2) t(5) True by (fastforce simp: selected_def d3_def)
  qed
next
  case False
  obtain t k bs where t: "uh_tbl d = Some t" "table_ok fcn d t ds k bs" using assms(1) False by (auto simp: selected_def uh_sound_def)
  have h: "dpath (uh_next d) (uh_prev d) (uh_head d) ds" "last_elt = Some (last ds)" "\<forall>a \<in> set ds. uh_key d a = uh_key src a" "tbl_tail t = Some (hd ds)"
    using assms(1) False t(1) by (simp_all add: selected_def uh_sound_def)
  define d3 where "d3 = d\<lparr>uh_key := (uh_key d)(e := uh_key src e), uh_hashv := (uh_hashv d)(e := uh_hashv src e),
     uh_prev := (uh_prev d)(e := Some (last ds)), uh_next := (uh_next d)(e := None, last ds := Some e)\<rparr>"
  have n: "bkts_ok d3 (buckets t) bs" "placed k d3 bs" "\<forall>x \<in> set (ds @ [e]). uh_hashv d3 x = fcn (uh_key d3 x)"
    using bkts_placed_new [OF t(2) assms(2), of d3 "uh_hashv src e" "uh_key src e"] assms(5) by (simp_all add: d3_def)
  have k: "5 \<le> k" "k < 31" "unat (num_buckets t) = 2 ^ k" "unat (log2_num_buckets t) = k" "mset (concat bs) = mset ds" "distinct (ds @ [e])"
    "num_items t = of_nat (length ds)" using t(2) assms(2) by (simp_all add: table_ok_def chains_ok_def)
  have i: "num_items t \<noteq> 0 \<or> set (buckets t) \<subseteq> {empty_bucket}" unfolding k(7) using False assms(3) by (intro disjI1 of_nat_pos) auto
  have D: "uh_tbl d3 = Some t" "dpath (uh_next d3) (uh_prev d3) (uh_head d3) (ds @ [e])" using t(1) dpath_snoc [OF h(1) assms(2) False] by (simp_all add: d3_def)
  obtain r where r: "HASH_ADD_TO_BKT alloc d3 (HASH_TO_BKT (uh_hashv d3 e) (num_buckets t)) e = Some r"
    "r = None \<or> (\<exists>s' t'. r = Some s' \<and> uh_tbl s' = Some t' \<and> tbl_tail t' = tbl_tail t \<and> uh_key s' = uh_key d3 \<and>
      uh_sound fcn (s'\<lparr>uh_tbl := Some (t'\<lparr>num_items := num_items t' + 1\<rparr>)\<rparr>) (ds @ [e]))"
    by (rule select_add [OF D(1) k(1-4) n(1,2) k(5,6) assms(3) k(7) i n(3) assms(4) D(2)])
  have "uh_head d = Some (hd ds)" by (rule dpath_hd [OF h(1) False])
  then have "select_step alloc src e (d, last_elt) = Some (case r of None \<Rightarrow> None | Some s' \<Rightarrow> (case uh_tbl s' of None \<Rightarrow> None | Some t' \<Rightarrow> Some (s'\<lparr>uh_tbl := Some (t'\<lparr>num_items := num_items t' + 1\<rparr>)\<rparr>, Some e)))"
    using h(2) r D(1) by (auto simp: select_step_def d3_def [symmetric])
  then show ?thesis using that r(2) h(3,4) assms(2) False by (fastforce simp: selected_def d3_def)
qed

lemma select_chain_ok:
  assumes "path (hh_next src) p as None" "selected fcn src d l ds" "distinct (ds @ as)" "length (ds @ as) < 2 ^ 32" "\<forall>n. alloc n \<longrightarrow> n < 2 ^ 35"
    "\<forall>a \<in> set as. uh_hashv src a = fcn (uh_key src a)"
  shows "\<exists>r. select_chain alloc cond src p (d, l) = Some r \<and> (r = None \<or> (\<exists>d' l'. r = Some (d', l') \<and> selected fcn src d' l' (ds @ filter cond as)))"
  using assms
proof (induction as arbitrary: p d l ds)
  case Nil
  then show ?case by (subst select_chain.simps) simp
next
  case (Cons a as)
  have p: "p = Some a" "path (hh_next src) (hh_next src a) as None" using Cons.prems(1) by simp_all
  show ?case
  proof (cases "cond a")
    case False
    with Cons.IH [OF p(2) Cons.prems(2), of] Cons.prems(3-6) p(1) show ?thesis by (subst select_chain.simps) simp
  next
    case True
    obtain r where r: "select_step alloc src a (d, l) = Some r" "r = None \<or> (\<exists>d'. r = Some (d', Some a) \<and> selected fcn src d' (Some a) (ds @ [a]))"
      by (rule select_step_ok [OF Cons.prems(2) _ _ Cons.prems(5), of a]) (use Cons.prems(3,4,6) in auto)
    show ?thesis
    proof (cases r)
      case None
      with r(1) p(1) True show ?thesis by (subst select_chain.simps) simp
    next
      case (Some st)
      then obtain d' where d: "r = Some (d', Some a)" "selected fcn src d' (Some a) (ds @ [a])" using r(2) by auto
      from Cons.IH [OF p(2) d(2)] Cons.prems(3-6) r(1) d(1) p(1) True show ?thesis by (subst select_chain.simps) simp
    qed
  qed
qed

lemma select_buckets_ok:
  assumes "length bk = length bs" "\<forall>i < length bs. path (hh_next src) (hh_head (bk ! i)) (bs ! i) None" "selected fcn src d l ds"
    "distinct (ds @ concat bs)" "length (ds @ concat bs) < 2 ^ 32" "\<forall>n. alloc n \<longrightarrow> n < 2 ^ 35" "\<forall>a \<in> set (concat bs). uh_hashv src a = fcn (uh_key src a)"
  shows "\<exists>r. select_buckets alloc cond src bk (d, l) = Some r \<and> (r = None \<or> (\<exists>d' l'. r = Some (d', l') \<and> selected fcn src d' l' (ds @ filter cond (concat bs))))"
  using assms
proof (induction bk bs arbitrary: d l ds rule: list_induct2)
  case (Cons b bk as bs)
  have p: "path (hh_next src) (hh_head b) as None" "\<forall>i < length bs. path (hh_next src) (hh_head (bk ! i)) (bs ! i) None" using Cons.prems(1) by fastforce+
  have q: "distinct (ds @ as)" "length (ds @ as) < 2 ^ 32" "\<forall>a \<in> set as. uh_hashv src a = fcn (uh_key src a)" using Cons.prems(3,4,6) by auto
  obtain r where r: "select_chain alloc cond src (hh_head b) (d, l) = Some r"
    "r = None \<or> (\<exists>d' l'. r = Some (d', l') \<and> selected fcn src d' l' (ds @ filter cond as))"
    using select_chain_ok [OF p(1) Cons.prems(2) q(1,2) Cons.prems(5) q(3), of cond] by auto
  show ?case
  proof (cases r)
    case None
    with r(1) show ?thesis by simp
  next
    case (Some st)
    then obtain d' l' where d: "r = Some (d', l')" "selected fcn src d' l' (ds @ filter cond as)" using r(2) by auto
    have "distinct ((ds @ filter cond as) @ concat bs)" using Cons.prems(3) by auto
    moreover have "length ((ds @ filter cond as) @ concat bs) < 2 ^ 32" using Cons.prems(4) length_filter_le [of cond as]
      unfolding length_append concat.simps by linarith
    ultimately show ?thesis using Cons.IH [OF p(2) d(2) _ _ Cons.prems(5)] Cons.prems(6) r(1) d(1) by simp
  qed
qed simp

lemma select_ok:
  assumes "uh_ok fcn src es" "uh_head dst = None" "\<forall>n. alloc n \<longrightarrow> n < 2 ^ 35"
  shows "\<exists>r. HASH_SELECT alloc cond dst src = Some r \<and> (r = None \<or> (\<exists>d l ds. r = Some d \<and> selected fcn src d l ds \<and> mset ds = mset (filter cond es)))"
proof (cases "es = []")
  case True
  with assms(1,2) show ?thesis by (auto simp: HASH_SELECT_def uh_ok_def selected_def uh_sound_def)
next
  case False
  obtain t k bs where t: "uh_tbl src = Some t" "table_ok fcn src t es k bs" using assms(1) False by (auto simp: uh_ok_def)
  have h: "uh_head src = Some (hd es)" using assms(1) dpath_hd [of "uh_next src" "uh_prev src" "uh_head src" es] False by (simp add: uh_ok_def)
  have m: "mset (concat bs) = mset es" and len: "length (buckets t) = unat (num_buckets t)" "length (buckets t) = length bs"
    and p: "\<forall>i < length bs. path (hh_next src) (hh_head (buckets t ! i)) (bs ! i) None"
    using t(2) by (simp_all add: table_ok_def chains_ok_def bkts_ok_def placed_def dpath_def)
  have d: "distinct ([] @ concat bs)" "length ([] @ concat bs) < 2 ^ 32" "\<forall>a \<in> set (concat bs). uh_hashv src a = fcn (uh_key src a)"
    using t(2) mset_eq_imp_distinct_iff [OF m] mset_eq_length [OF m] mset_eq_setD [OF m] by (simp_all add: table_ok_def chains_ok_def)
  have "selected fcn src dst None []" using assms(2) by (simp add: selected_def uh_sound_def)
  from select_buckets_ok [OF len(2) p this d(1,2) assms(3) d(3), of cond] obtain r where
    r: "select_buckets alloc cond src (buckets t) (dst, None) = Some r"
      "r = None \<or> (\<exists>d' l'. r = Some (d', l') \<and> selected fcn src d' l' (filter cond (concat bs)))" by auto
  have "mset (filter cond (concat bs)) = mset (filter cond es)" using m by (simp only: mset_filter)
  moreover have "HASH_SELECT alloc cond dst src = Some (map_option fst r)" using t(1) h len(1) r(1) by (simp add: HASH_SELECT_def)
  ultimately show ?thesis using r(2) by fastforce
qed

text \<open>An element that is added behind a selection of several comes directly behind the first of them: the others are still found and
  counted, but an iteration does not reach them.\<close>

lemma select_add_loses:
  assumes "selected fcn src d l ds" "ds \<noteq> []" "e \<notin> set ds" "length ds + 1 < 2 ^ 32" "\<forall>n. alloc n \<longrightarrow> n < 2 ^ 35"
  shows "\<exists>r. HASH_ADD_KEYPTR fcn alloc d key e = Some r \<and> (r = None \<or> (\<exists>d'. r = Some d' \<and> HASH_CNT d' = Some (of_nat (length ds + 1)) \<and>
    HASH_ITER (\<lambda>a (s, visited). Some (s, visited @ [a])) (d', []) = Some (d', [hd ds, e])))"
proof -
  obtain t k bs where t: "uh_tbl d = Some t" "table_ok fcn d t ds k bs" "tbl_tail t = Some (hd ds)" "dpath (uh_next d) (uh_prev d) (uh_head d) ds"
    using assms(1,2) by (auto simp: selected_def uh_sound_def)
  have h: "uh_head d = Some (hd ds)" "hd ds \<noteq> e" using dpath_hd [OF t(4) assms(2)] assms(2,3) by auto
  define t1 where "t1 = t\<lparr>tbl_tail := Some e, num_items := num_items t + 1\<rparr>"
  define d1 where "d1 = d\<lparr>uh_key := (uh_key d)(e := key), uh_next := (uh_next d)(e := None, hd ds := Some e),
    uh_prev := (uh_prev d)(e := Some (hd ds)), uh_hashv := (uh_hashv d)(e := fcn key), uh_tbl := Some t1\<rparr>"
  have n: "bkts_ok d1 (buckets t1) bs" "placed k d1 bs" "\<forall>x \<in> set (ds @ [e]). uh_hashv d1 x = fcn (uh_key d1 x)"
    using bkts_placed_new [OF t(2) assms(3), of d1 "fcn key" key] by (simp_all add: d1_def t1_def)
  have k: "5 \<le> k" "k < 31" "unat (num_buckets t1) = 2 ^ k" "unat (log2_num_buckets t1) = k" "mset (concat bs) = mset ds" "distinct (ds @ [e])"
    "num_items t1 = of_nat (length ds + 1)" using t(2) assms(3) by (simp_all add: table_ok_def chains_ok_def t1_def)
  have i: "num_items t1 \<noteq> 0 \<or> set (buckets t1) \<subseteq> {empty_bucket}" unfolding k(7) by (rule disjI1, rule of_nat_pos [OF _ assms(4)]) simp
  have "uh_tbl d1 = Some t1" by (simp add: d1_def)
  from add_to_bkt_ok [OF this k(1-4) n(1,2) k(5,6) assms(4) i n(3) assms(5)] obtain r where
    r: "HASH_ADD_TO_BKT alloc d1 (HASH_TO_BKT (uh_hashv d1 e) (num_buckets t1)) e = Some r"
      "r = None \<or> (\<exists>s' t'. r = Some s' \<and> uh_tbl s' = Some t' \<and> num_items t' = num_items t1 \<and> same_app d1 s')" by blast
  have "HASH_ADD_KEYPTR fcn alloc d key e = Some r" using h t(1,3) r(1) by (simp add: HASH_ADD_KEYPTR_def t1_def d1_def)
  moreover have "HASH_CNT s' = Some (of_nat (length ds + 1)) \<and> HASH_ITER (\<lambda>a (s, visited). Some (s, visited @ [a])) (s', []) = Some (s', [hd ds, e])"
    if "uh_tbl s' = Some t'" "num_items t' = num_items t1" "same_app d1 s'" for s' t'
  proof -
    have p: "path (uh_next s') (uh_head s') [hd ds, e] None" using that(3) h by (simp add: same_app_def d1_def)
    have b: "\<forall>a s r. (\<lambda>a (s, visited). Some (s, visited @ [a])) a (s, r) = Some (s, r @ [a])" by simp
    have "HASH_ITER (\<lambda>a (s, visited). Some (s, visited @ [a])) (s', []) = Some (s', [hd ds, e])"
      unfolding HASH_ITER_def Let_def fst_conv using iter_path [OF p b, of "[]"] by simp
    moreover have "uh_head s' = Some (hd ds)" using p by simp
    ultimately show ?thesis using that(1,2) k(7) by (simp add: HASH_CNT_def)
  qed
  ultimately show ?thesis using r(2) by blast
qed

section \<open>Sequences of operations\<close>

datatype hash_op = Add_key hkey nat | Remove_elem nat | Replace_key hkey nat | Sort_by "nat \<Rightarrow> int" | Clear_all

fun run_hash_op :: "(hkey \<Rightarrow> 32 word) \<Rightarrow> (nat \<Rightarrow> bool) \<Rightarrow> hash_op \<Rightarrow> uthash \<Rightarrow> uthash option option" where
  "run_hash_op fcn alloc (Add_key key a) s = HASH_ADD_KEYPTR fcn alloc s key a"
| "run_hash_op fcn alloc (Remove_elem a) s = map_option Some (HASH_DELETE s a)"
| "run_hash_op fcn alloc (Replace_key key a) s = map_option (map_option fst) (HASH_REPLACE fcn alloc s key a)"
| "run_hash_op fcn alloc (Sort_by f) s = map_option Some (HASH_SRT (\<lambda>a b. sgn (f a - f b)) s)"
| "run_hash_op fcn alloc Clear_all s = map_option Some (HASH_CLEAR s)"

text \<open>A program that ends itself does nothing more.\<close>

fun run_hash_ops :: "(hkey \<Rightarrow> 32 word) \<Rightarrow> (nat \<Rightarrow> bool) \<Rightarrow> hash_op list \<Rightarrow> uthash \<Rightarrow> uthash option option" where
  "run_hash_ops fcn alloc [] s = Some (Some s)"
| "run_hash_ops fcn alloc (m # ms) s = do { r \<leftarrow> run_hash_op fcn alloc m s; (case r of None \<Rightarrow> Some None | Some s' \<Rightarrow> run_hash_ops fcn alloc ms s') }"

text \<open>The specification: an association list of keys and elements, in the order of their addition or of the last sort.\<close>

type_synonym entries = "(hkey \<times> nat) list"

fun hash_spec :: "hash_op \<Rightarrow> entries \<Rightarrow> entries" where
  "hash_spec (Add_key key a) es = es @ [(key, a)]"
| "hash_spec (Remove_elem a) es = filter (\<lambda>e. snd e \<noteq> a) es"
| "hash_spec (Replace_key key a) es = filter (\<lambda>e. fst e \<noteq> key) es @ [(key, a)]"
| "hash_spec (Sort_by f) es = sort_key (\<lambda>e. f (snd e)) es"
| "hash_spec Clear_all es = []"

text \<open>What a caller has to keep to: an element is added once, with a key that is not there, and removed only while it is there.\<close>

fun hash_call_ok :: "hash_op \<Rightarrow> entries \<Rightarrow> bool" where
  "hash_call_ok (Add_key key a) es \<longleftrightarrow> key \<notin> fst ` set es \<and> a \<notin> snd ` set es \<and> length es + 1 < 2 ^ 32"
| "hash_call_ok (Remove_elem a) es \<longleftrightarrow> a \<in> snd ` set es"
| "hash_call_ok (Replace_key key a) es \<longleftrightarrow> a \<notin> snd ` set es \<and> length es + 1 < 2 ^ 32"
| "hash_call_ok (Sort_by f) es \<longleftrightarrow> True"
| "hash_call_ok Clear_all es \<longleftrightarrow> True"

fun hash_calls_ok :: "hash_op list \<Rightarrow> entries \<Rightarrow> bool" where
  "hash_calls_ok [] es \<longleftrightarrow> True"
| "hash_calls_ok (m # ms) es \<longleftrightarrow> hash_call_ok m es \<and> hash_calls_ok ms (hash_spec m es)"

definition holds_entries :: "(hkey \<Rightarrow> 32 word) \<Rightarrow> uthash \<Rightarrow> entries \<Rightarrow> bool" where
  "holds_entries fcn s es \<longleftrightarrow> uh_ok fcn s (map snd es) \<and> distinct (map fst es) \<and> (\<forall>(key, a) \<in> set es. uh_key s a = key)"

lemma holds_keys: "holds_entries fcn s es \<Longrightarrow> map (uh_key s) (map snd es) = map fst es"
  by (auto simp: holds_entries_def)

lemma holds_find: "holds_entries fcn s es \<Longrightarrow> HASH_FIND fcn s key = Some (map_of es key)"
proof -
  assume h: "holds_entries fcn s es"
  have "\<forall>(key, a) \<in> set es. uh_key s a = key" using h by (simp add: holds_entries_def)
  then have "find (\<lambda>a. uh_key s a = key) (map snd es) = map_of es key" by (induction es) auto
  moreover have d: "distinct (map (uh_key s) (map snd es))" unfolding holds_keys [OF h] using h by (simp add: holds_entries_def)
  ultimately show ?thesis using find_ok [OF uh_ok_sound d] h by (simp add: holds_entries_def)
qed

lemma holds_distinct: "holds_entries fcn s es \<Longrightarrow> distinct (map snd es)"
  by (cases "es = []") (auto simp: holds_entries_def uh_ok_def dpath_def)

lemma holds_add:
  assumes "holds_entries fcn s es" "key \<notin> fst ` set es" "a \<notin> snd ` set es" "length es + 1 < 2 ^ 32" "\<forall>n. alloc n \<longrightarrow> n < 2 ^ 35"
  shows "\<exists>r. HASH_ADD_KEYPTR fcn alloc s key a = Some r \<and> (r = None \<or> (\<exists>s'. r = Some s' \<and> holds_entries fcn s' (es @ [(key, a)])))"
proof -
  have "a \<notin> set (map snd es)" "length (map snd es) + 1 < 2 ^ 32" "uh_ok fcn s (map snd es)" using assms by (simp_all add: holds_entries_def)
  from add_ok [OF this(3,1,2) assms(5), of key] obtain r where
    r: "HASH_ADD_KEYPTR fcn alloc s key a = Some r" "r = None \<or> (\<exists>s'. r = Some s' \<and> uh_ok fcn s' (map snd es @ [a]) \<and> uh_key s' = (uh_key s)(a := key))" by blast
  have "b \<noteq> a" if "(k, b) \<in> set es" for k b using assms(3) that by force
  then have "holds_entries fcn s' (es @ [(key, a)])" if "uh_ok fcn s' (map snd es @ [a])" "uh_key s' = (uh_key s)(a := key)" for s'
    using that assms(1,2) by (auto simp: holds_entries_def)
  with r show ?thesis by blast
qed

lemma holds_delete:
  assumes "holds_entries fcn s (as @ (key, a) # bs)"
  shows "\<exists>s'. HASH_DELETE s a = Some s' \<and> holds_entries fcn s' (as @ bs)"
  using delete_ok [of fcn s "map snd as" a "map snd bs"] assms by (auto simp: holds_entries_def)

lemma map_insort_key: "map g (insort_key (\<lambda>x. f (g x)) x xs) = insort_key f (g x) (map g xs)"
  by (induction xs) auto

lemma map_sort_key: "map g (sort_key (\<lambda>x. f (g x)) xs) = sort_key f (map g xs)"
  by (induction xs) (simp_all add: map_insort_key)

lemma holds_sort:
  assumes "holds_entries fcn s es"
  shows "\<exists>s'. HASH_SRT (\<lambda>a b. sgn (f a - f b)) s = Some s' \<and> holds_entries fcn s' (sort_key (\<lambda>e. f (snd e)) es)"
proof -
  have "ranks (\<lambda>a b. sgn (f a - f b)) f" by (simp add: ranks_def sgn_if)
  from srt_ok [OF _ this, of fcn s "map snd es"] assms obtain s' where s: "HASH_SRT (\<lambda>a b. sgn (f a - f b)) s = Some s'" "uh_ok fcn s' (sort_key f (map snd es))" "uh_key s' = uh_key s"
    by (auto simp: holds_entries_def)
  have "mset (map fst (sort_key (\<lambda>e. f (snd e)) es)) = mset (map fst es)" by simp
  then have "distinct (map fst (sort_key (\<lambda>e. f (snd e)) es))" using assms mset_eq_imp_distinct_iff by (metis holds_entries_def)
  then show ?thesis using s assms by (auto simp: holds_entries_def map_sort_key)
qed

lemma holds_clear: "holds_entries fcn s es \<Longrightarrow> \<exists>s'. HASH_CLEAR s = Some s' \<and> holds_entries fcn s' []"
  by (cases "es = []") (auto simp: holds_entries_def uh_ok_def HASH_CLEAR_def)

lemma filter_out: "\<forall>e \<in> set as \<union> set bs. f e \<noteq> f x \<Longrightarrow> filter (\<lambda>e. f e \<noteq> f x) (as @ x # bs) = as @ bs"
  by (auto simp: filter_id_conv)

lemma removed_elem:
  assumes "holds_entries fcn s es" "a \<in> snd ` set es"
  obtains as key bs where "es = as @ (key, a) # bs" "hash_spec (Remove_elem a) es = as @ bs"
proof -
  obtain key as bs where s: "es = as @ (key, a) # bs" using assms(2) by (auto dest: split_list)
  have "distinct (map snd es)" by (rule holds_distinct [OF assms(1)])
  then have "\<forall>x \<in> set as \<union> set bs. snd x \<noteq> snd (key, a)" using s by (fastforce simp: image_iff)
  from filter_out [OF this] s show ?thesis using that by simp
qed

lemma replaced_key:
  assumes "holds_entries fcn s es" "map_of es key = Some b"
  obtains as bs where "es = as @ (key, b) # bs" "hash_spec (Replace_key key a) es = (as @ bs) @ [(key, a)]" "key \<notin> fst ` set (as @ bs)"
proof -
  obtain as bs where s: "es = as @ (key, b) # bs" using split_list [OF map_of_SomeD [OF assms(2)]] by blast
  have d: "distinct (map fst es)" using assms(1) by (simp add: holds_entries_def)
  then have n: "\<forall>x \<in> set as \<union> set bs. fst x \<noteq> fst (key, b)" using s by (fastforce simp: image_iff)
  moreover have "key \<notin> fst ` set (as @ bs)" using n by auto
  ultimately show ?thesis using filter_out [OF n] that s by simp
qed

lemma hash_op_ok:
  assumes "holds_entries fcn s es" "hash_call_ok m es" "\<forall>n. alloc n \<longrightarrow> n < 2 ^ 35"
  shows "\<exists>r. run_hash_op fcn alloc m s = Some r \<and> (r = None \<or> (\<exists>s'. r = Some s' \<and> holds_entries fcn s' (hash_spec m es)))"
proof (cases m)
  case (Sort_by f)
  with assms(1) holds_sort [of fcn s es f] show ?thesis by auto
next
  case Clear_all
  with holds_clear [OF assms(1)] show ?thesis by auto
next
  case (Add_key key a)
  with assms holds_add [OF assms(1)] show ?thesis by simp
next
  case (Remove_elem a)
  obtain as key bs where "es = as @ (key, a) # bs" "hash_spec (Remove_elem a) es = as @ bs"
    using removed_elem [OF assms(1), of a] assms(2) Remove_elem by auto
  with holds_delete [of fcn s as key a bs] assms(1) Remove_elem show ?thesis by auto
next
  case (Replace_key key a)
  show ?thesis
  proof (cases "map_of es key")
    case None
    then have k: "key \<notin> fst ` set es" by (simp add: map_of_eq_None_iff)
    then have "hash_spec m es = es @ [(key, a)]" using Replace_key by (auto simp: filter_id_conv)
    with holds_add [OF assms(1) k _ _ assms(3), of a] assms(2) Replace_key holds_find [OF assms(1), of key] None show ?thesis
      by (auto simp: HASH_REPLACE_def)
  next
    case (Some b)
    obtain as bs where r: "es = as @ (key, b) # bs" "hash_spec (Replace_key key a) es = (as @ bs) @ [(key, a)]" "key \<notin> fst ` set (as @ bs)"
      by (rule replaced_key [OF assms(1) Some])
    obtain s1 where s1: "HASH_DELETE s b = Some s1" "holds_entries fcn s1 (as @ bs)" using holds_delete assms(1) r(1) by blast
    have "a \<notin> snd ` set (as @ bs)" "length (as @ bs) + 1 < 2 ^ 32" using assms(2) r(1) Replace_key by auto
    with holds_add [OF s1(2) r(3) _ _ assms(3), of a] s1(1) holds_find [OF assms(1), of key] Some r(2) Replace_key show ?thesis
      by (auto simp: HASH_REPLACE_def)
  qed
qed

lemma hash_ops_ok:
  "holds_entries fcn s es \<Longrightarrow> hash_calls_ok ms es \<Longrightarrow> \<forall>n. alloc n \<longrightarrow> n < 2 ^ 35 \<Longrightarrow>
   \<exists>r. run_hash_ops fcn alloc ms s = Some r \<and> (r = None \<or> (\<exists>s'. r = Some s' \<and> holds_entries fcn s' (fold hash_spec ms es)))"
proof (induction ms arbitrary: s es)
  case (Cons m ms)
  obtain r where r: "run_hash_op fcn alloc m s = Some r" "r = None \<or> (\<exists>s'. r = Some s' \<and> holds_entries fcn s' (hash_spec m es))"
    using hash_op_ok [OF Cons.prems(1) _ Cons.prems(3), of m] Cons.prems(2) by auto
  show ?case
  proof (cases r)
    case None
    with r show ?thesis by simp
  next
    case (Some s')
    with r Cons.IH [of s' "hash_spec m es"] Cons.prems(2,3) show ?thesis by simp
  qed
qed simp


section \<open>Selections\<close>

text \<open>Selecting into an empty table makes a table of exactly the elements that meet the condition, with their keys; its order is
  that of the buckets of the source.\<close>

theorem hash_select_selects:
  assumes "holds_entries fcn src es" "uh_head dst = None" "\<forall>n. alloc n \<longrightarrow> n < 2 ^ 35"
  shows "\<exists>r. HASH_SELECT alloc cond dst src = Some r \<and> (r = None \<or> (\<exists>d ds. r = Some d \<and> mset ds = mset (filter cond (map snd es)) \<and>
    (\<forall>key. HASH_FIND fcn d key = Some (map_of (filter (\<lambda>e. cond (snd e)) es) key)) \<and> HASH_CNT d = Some (of_nat (length ds)) \<and>
    HASH_ITER (\<lambda>a (s, visited). Some (s, visited @ [a])) (d, []) = Some (d, ds) \<and> HASH_FSCK d))"
proof -
  let ?es = "filter (\<lambda>e. cond (snd e)) es"
  have o: "uh_ok fcn src (map snd es)" using assms(1) by (simp add: holds_entries_def)
  obtain r where r: "HASH_SELECT alloc cond dst src = Some r"
    "r = None \<or> (\<exists>d l ds. r = Some d \<and> selected fcn src d l ds \<and> mset ds = mset (filter cond (map snd es)))"
    using select_ok [OF o assms(2,3), of cond] by blast
  have "HASH_FIND fcn d key = Some (map_of ?es key)" if "selected fcn src d l ds" and m: "mset ds = mset (filter cond (map snd es))" for d l ds key
  proof -
    have ds: "set ds = snd ` set ?es" using mset_eq_setD [OF m] by auto
    have k: "uh_key d a = k" if "(k, a) \<in> set ?es" for k a using that ds \<open>selected fcn src d l ds\<close> assms(1) by (force simp: selected_def holds_entries_def)
    have d: "distinct (map fst ?es)" using assms(1) by (simp add: holds_entries_def distinct_map_filter)
    have "mset (map (uh_key d) ds) = mset (map (uh_key d) (map snd ?es))" using m by (simp only: mset_map filter_map comp_def)
    also have "map (uh_key d) (map snd ?es) = map fst ?es" using k by auto
    finally have dk: "distinct (map (uh_key d) ds)" using d mset_eq_imp_distinct_iff by blast
    have "find (\<lambda>a. uh_key d a = key) ds = map_of ?es key"
    proof (cases "map_of ?es key")
      case None
      then have "\<forall>a \<in> set ds. uh_key d a \<noteq> key" using k ds by (force simp: map_of_eq_None_iff)
      from find_absent [OF this] None show ?thesis by simp
    next
      case (Some a)
      from map_of_SomeD [OF this] have "a \<in> set ds" "uh_key d a = key" using k ds by force+
      from find_unique [OF dk this] Some show ?thesis by simp
    qed
    then show ?thesis using find_ok [OF _ dk] \<open>selected fcn src d l ds\<close> by (simp add: selected_def)
  qed
  moreover have "HASH_CNT d = Some (of_nat (length ds))" "HASH_ITER (\<lambda>a (s, visited). Some (s, visited @ [a])) (d, []) = Some (d, ds)" "HASH_FSCK d"
    if "selected fcn src d l ds" for d l ds
    using count_ok [of fcn d ds] iter_ok [of fcn d ds] fsck_ok [of fcn d ds] that by (simp_all add: selected_def)
  ultimately show ?thesis using r by blast
qed

section \<open>Properties\<close>

text \<open>C33. The hash table refines an association list: starting with an empty table, for any hash function and any sequence of adding,
  replacing, deleting, sorting and clearing whose callers keep to the rules, the program either ends itself because memory is refused (no
  block of 32 gigabytes or more is ever given), or afterwards, however often the buckets have been doubled, \<open>HASH_FIND\<close> returns the element
  of a key or NULL, \<open>HASH_CNT\<close> the number of elements, \<open>HASH_ITER\<close> visits them in the order of their addition or of the last (stable) sort, and the
  integrity check \<open>HASH_FSCK\<close> finds no fault.\<close>

theorem uthash_refines:
  assumes "uh_head s = None" "hash_calls_ok ms []" "\<forall>n. alloc n \<longrightarrow> n < 2 ^ 35" "es = fold hash_spec ms []"
  shows "\<exists>r. run_hash_ops fcn alloc ms s = Some r \<and> (r = None \<or> (\<exists>s'. r = Some s' \<and> (\<forall>key. HASH_FIND fcn s' key = Some (map_of es key)) \<and>
    HASH_CNT s' = Some (of_nat (length es)) \<and> HASH_ITER (\<lambda>a (s, visited). Some (s, visited @ [a])) (s', []) = Some (s', map snd es) \<and> HASH_FSCK s'))"
proof -
  have "holds_entries fcn s []" using assms(1) by (simp add: holds_entries_def uh_ok_def)
  from hash_ops_ok [OF this assms(2,3)] obtain r where
    r: "run_hash_ops fcn alloc ms s = Some r" "r = None \<or> (\<exists>s'. r = Some s' \<and> holds_entries fcn s' es)" unfolding assms(4) by blast
  have "HASH_CNT s' = Some (of_nat (length es)) \<and> HASH_ITER (\<lambda>a (s, visited). Some (s, visited @ [a])) (s', []) = Some (s', map snd es) \<and> HASH_FSCK s'"
    if "holds_entries fcn s' es" for s'
    using count_ok [of fcn s' "map snd es"] iter_ok [of fcn s' "map snd es"] fsck_ok [of fcn s' "map snd es"] uh_ok_sound that
    by (auto simp: holds_entries_def)
  with r holds_find show ?thesis by blast
qed

definition no_hash :: uthash where
  "no_hash = \<lparr>uh_prev = (\<lambda>_. None), uh_next = (\<lambda>_. None), hh_prev = (\<lambda>_. None), hh_next = (\<lambda>_. None), uh_key = (\<lambda>_. []), uh_hashv = (\<lambda>_. 0),
    uh_head = None, uh_tbl = None\<rparr>"

theorem uthash_refines_witness:
  "\<exists>s'. run_hash_ops HASH_JEN (\<lambda>n. n < 2 ^ 35) [Add_key [1] 7] no_hash = Some (Some s') \<and> HASH_FIND HASH_JEN s' [1] = Some (Some 7) \<and>
    HASH_FIND HASH_JEN s' [2] = Some None \<and> HASH_FSCK s'"
proof -
  have "HASH_TO_BKT w 32 < 32" for w using HASH_TO_BKT_mod [of 32 5 w] by simp
  then have "\<exists>s'. run_hash_ops HASH_JEN (\<lambda>n. n < 2 ^ 35) [Add_key [1] 7] no_hash = Some (Some s')"
    by (simp add: not_le no_hash_def HASH_ADD_KEYPTR_def HASH_MAKE_TABLE_def HASH_ADD_TO_BKT_def HASH_TO_BKT_def HASH_INITIAL_NUM_BUCKETS_def
        HASH_BKT_CAPACITY_THRESH_def empty_bucket_def Let_def word_le_nat_alt)
  then obtain s' where s: "run_hash_ops HASH_JEN (\<lambda>n. n < 2 ^ 35) [Add_key [1] 7] no_hash = Some (Some s')" by blast
  have pre: "uh_head no_hash = None" "hash_calls_ok [Add_key [1] 7] []" "[([1], 7)] = fold hash_spec [Add_key [1] 7] []" "\<forall>n. n < 2 ^ 35 \<longrightarrow> n < (2 :: nat) ^ 35"
    by (simp_all add: no_hash_def)
  obtain r where r: "run_hash_ops HASH_JEN (\<lambda>n. n < 2 ^ 35) [Add_key [1] 7] no_hash = Some r"
    "r = None \<or> (\<exists>s'. r = Some s' \<and> (\<forall>key. HASH_FIND HASH_JEN s' key = Some (map_of [([1], 7)] key)) \<and> HASH_FSCK s')"
    using uthash_refines [OF pre(1,2,4,3), of HASH_JEN] by blast
  then have "\<forall>key. HASH_FIND HASH_JEN s' key = Some (map_of [([1], 7)] key)" "HASH_FSCK s'" using s by simp_all
  moreover from this(1) have "HASH_FIND HASH_JEN s' [1] = Some (Some 7)" "HASH_FIND HASH_JEN s' [2] = Some None" by simp_all
  ultimately show ?thesis using s by blast
qed

end
