(* ===== verification/UtBloom.thy ===== *)
theory UtBloom
  imports UtHashSort
begin

unbundle bit_operations_syntax

text \<open>
  The Bloom filter of \<open>hw4/src/uthash.h\<close>, which a program gets that defines \<open>HASH_BLOOM\<close> as the number \<open>n\<close> of bits of a filter index. The filter is a
  member of the table: it is made and freed with it, every addition sets a bit, and a search looks at the bit first. The state is that of
  the table with the bytes of the filter, \<open>None\<close> when there is no table. Behind the filter the macros are those of \<open>UtHash\<close> and
  \<open>UtHashSort\<close>.
\<close>

section \<open>The filter\<close>

definition HASH_BLOOM_BITLEN :: "nat \<Rightarrow> nat" where
  "HASH_BLOOM_BITLEN n = 2 ^ n"

definition HASH_BLOOM_BYTELEN :: "nat \<Rightarrow> nat" where
  "HASH_BLOOM_BYTELEN n = HASH_BLOOM_BITLEN n div 8 + (if HASH_BLOOM_BITLEN n mod 8 \<noteq> 0 then 1 else 0)"

text \<open>\<open>None\<close> ends the program.\<close>

definition HASH_BLOOM_MAKE :: "nat \<Rightarrow> (nat \<Rightarrow> bool) \<Rightarrow> 8 word list option" where
  "HASH_BLOOM_MAKE n alloc = (if alloc (HASH_BLOOM_BYTELEN n) then Some (replicate (HASH_BLOOM_BYTELEN n) 0) else None)"

definition bloom_index :: "nat \<Rightarrow> 32 word \<Rightarrow> nat" where
  "bloom_index n hashv = unat (hashv AND ucast (push_bit n 1 - 1 :: 64 word))"

definition HASH_BLOOM_BITSET :: "8 word list \<Rightarrow> nat \<Rightarrow> 8 word list option" where
  "HASH_BLOOM_BITSET bv idx = (if idx div 8 < length bv then Some (bv[idx div 8 := bv ! (idx div 8) OR push_bit (idx mod 8) 1]) else None)"

definition HASH_BLOOM_BITTEST :: "8 word list \<Rightarrow> nat \<Rightarrow> bool option" where
  "HASH_BLOOM_BITTEST bv idx = (if idx div 8 < length bv then Some (bv ! (idx div 8) AND push_bit (idx mod 8) 1 \<noteq> 0) else None)"

definition HASH_BLOOM_ADD :: "nat \<Rightarrow> 8 word list \<Rightarrow> 32 word \<Rightarrow> 8 word list option" where
  "HASH_BLOOM_ADD n bv hashv = HASH_BLOOM_BITSET bv (bloom_index n hashv)"

definition HASH_BLOOM_TEST :: "nat \<Rightarrow> 8 word list \<Rightarrow> 32 word \<Rightarrow> bool option" where
  "HASH_BLOOM_TEST n bv hashv = HASH_BLOOM_BITTEST bv (bloom_index n hashv)"

section \<open>The macros with a filter\<close>

type_synonym bloomed = "uthash \<times> 8 word list option"

text \<open>A table with a filter has 80 bytes instead of 64.\<close>

definition table_alloc :: "(nat \<Rightarrow> bool) \<Rightarrow> nat \<Rightarrow> bool" where
  "table_alloc alloc sz = alloc (if sz = 64 then 80 else sz)"

definition bloom_add_keyptr :: "nat \<Rightarrow> (hkey \<Rightarrow> 32 word) \<Rightarrow> (nat \<Rightarrow> bool) \<Rightarrow> bloomed \<Rightarrow> hkey \<Rightarrow> nat \<Rightarrow> bloomed option option" where
  "bloom_add_keyptr n fcn alloc st key add = (case st of (s, bloom) \<Rightarrow>
     let made = (if uh_head s = None then HASH_BLOOM_MAKE n alloc else bloom) in
     if uh_head s = None \<and> made = None then Some None
     else do {
       r \<leftarrow> HASH_ADD_KEYPTR fcn (table_alloc alloc) s key add;
       (case r of
          None \<Rightarrow> Some None
        | Some s' \<Rightarrow> do { bv \<leftarrow> made; bv' \<leftarrow> HASH_BLOOM_ADD n bv (uh_hashv s' add); Some (Some (s', Some bv')) })
     })"

definition bloom_find :: "nat \<Rightarrow> (hkey \<Rightarrow> 32 word) \<Rightarrow> bloomed \<Rightarrow> hkey \<Rightarrow> nat option option" where
  "bloom_find n fcn st key = (case st of (s, bloom) \<Rightarrow>
     if uh_head s = None then Some None
     else do {
       bv \<leftarrow> bloom;
       seen \<leftarrow> HASH_BLOOM_TEST n bv (fcn key);
       (if seen then HASH_FIND fcn s key else Some None)
     })"

definition bloom_delete :: "bloomed \<Rightarrow> nat \<Rightarrow> bloomed option" where
  "bloom_delete st del = (case st of (s, bloom) \<Rightarrow> map_option (\<lambda>s'. (s', if uh_tbl s' = None then None else bloom)) (HASH_DELETE s del))"

definition bloom_replace :: "nat \<Rightarrow> (hkey \<Rightarrow> 32 word) \<Rightarrow> (nat \<Rightarrow> bool) \<Rightarrow> bloomed \<Rightarrow> hkey \<Rightarrow> nat \<Rightarrow> (bloomed \<times> nat option) option option" where
  "bloom_replace n fcn alloc st key add = do {
     replaced \<leftarrow> bloom_find n fcn st key;
     st1 \<leftarrow> (case replaced of None \<Rightarrow> Some st | Some r \<Rightarrow> bloom_delete st r);
     res \<leftarrow> bloom_add_keyptr n fcn alloc st1 key add;
     Some (map_option (\<lambda>st2. (st2, replaced)) res)
   }"

definition bloom_clear :: "bloomed \<Rightarrow> bloomed option" where
  "bloom_clear st = (case st of (s, bloom) \<Rightarrow> map_option (\<lambda>s'. (s', if uh_head s = None then bloom else None)) (HASH_CLEAR s))"

text \<open>\<open>HASH_SELECT\<close> makes a filter with the table it makes, but sets no bit.\<close>

definition bloom_select :: "nat \<Rightarrow> (nat \<Rightarrow> bool) \<Rightarrow> (nat \<Rightarrow> bool) \<Rightarrow> bloomed \<Rightarrow> uthash \<Rightarrow> bloomed option option" where
  "bloom_select n alloc cond dst src = (case dst of (d, bloom) \<Rightarrow> do {
     r \<leftarrow> HASH_SELECT (table_alloc alloc) cond d src;
     (case r of
        None \<Rightarrow> Some None
      | Some d' \<Rightarrow>
          if uh_head d = None \<and> uh_head d' \<noteq> None
          then Some (map_option (\<lambda>bv. (d', Some bv)) (HASH_BLOOM_MAKE n alloc))
          else Some (Some (d', bloom)))
   })"

section \<open>Bits\<close>

lemma bloom_index_mod: "bloom_index n hashv = unat hashv mod 2 ^ n"
proof -
  have "(push_bit n 1 - 1 :: 64 word) = mask n" by (simp add: mask_eq_exp_minus_1)
  moreover have "hashv AND ucast (mask n :: 64 word) = take_bit n hashv"
    by (rule bit_word_eqI) (auto simp: bit_simps)
  moreover have "unat (take_bit n hashv) = unat hashv mod 2 ^ n" by (simp only: unsigned_take_bit_eq) (simp only: take_bit_eq_mod)
  ultimately show ?thesis by (simp only: bloom_index_def)
qed

lemma bytes_for_bits: "x < (m :: nat) \<Longrightarrow> x div 8 < m div 8 + (if m mod 8 \<noteq> 0 then 1 else 0)"
proof (rule less_mult_imp_div_less)
  assume "x < m"
  moreover have "m = m div 8 * 8 + m mod 8" "m mod 8 < 8" by simp_all
  ultimately show "x < (m div 8 + (if m mod 8 \<noteq> 0 then 1 else 0)) * 8" by (cases "m mod 8 = 0") (simp_all del: mod_less_divisor)
qed

lemma bloom_index_bound: "bloom_index n hashv div 8 < HASH_BLOOM_BYTELEN n"
  unfolding bloom_index_mod HASH_BLOOM_BYTELEN_def HASH_BLOOM_BITLEN_def by (rule bytes_for_bits) simp

lemma bittest_bit: "idx div 8 < length bv \<Longrightarrow> HASH_BLOOM_BITTEST bv idx = Some (bit (bv ! (idx div 8)) (idx mod 8))"
  by (simp add: HASH_BLOOM_BITTEST_def and_exp_eq_0_iff_not_bit)

lemma bitset_test:
  assumes "i div 8 < length bv"
  shows "\<exists>bv'. HASH_BLOOM_BITSET bv i = Some bv' \<and> length bv' = length bv \<and> HASH_BLOOM_BITTEST bv' i = Some True \<and>
    (\<forall>j. HASH_BLOOM_BITTEST bv j = Some True \<longrightarrow> HASH_BLOOM_BITTEST bv' j = Some True)"
proof -
  let ?b = "bv[i div 8 := bv ! (i div 8) OR push_bit (i mod 8) 1]"
  have "HASH_BLOOM_BITTEST ?b i = Some True" using assms by (simp add: bittest_bit bit_simps)
  moreover have "HASH_BLOOM_BITTEST ?b j = Some True" if "HASH_BLOOM_BITTEST bv j = Some True" for j
  proof -
    have "j div 8 < length bv" using that by (simp add: HASH_BLOOM_BITTEST_def split: if_splits)
    then show ?thesis using that assms by (auto simp: bittest_bit nth_list_update bit_simps)
  qed
  ultimately show ?thesis using assms by (simp add: HASH_BLOOM_BITSET_def)
qed

section \<open>No key is missed\<close>

definition bloom_holds :: "nat \<Rightarrow> (hkey \<Rightarrow> 32 word) \<Rightarrow> bloomed \<Rightarrow> entries \<Rightarrow> bool" where
  "bloom_holds n fcn st es \<longleftrightarrow> holds_entries fcn (fst st) es \<and> (es \<noteq> [] \<longrightarrow> (\<exists>bv. snd st = Some bv \<and> length bv = HASH_BLOOM_BYTELEN n \<and>
     (\<forall>key \<in> fst ` set es. HASH_BLOOM_TEST n bv (fcn key) = Some True)))"

lemma holds_head: "holds_entries fcn s es \<Longrightarrow> uh_head s = None \<longleftrightarrow> es = []"
  using dpath_hd [of "uh_next s" "uh_prev s" "uh_head s" "map snd es"] by (cases "es = []") (auto simp: holds_entries_def uh_ok_def)

lemma holds_tbl: "holds_entries fcn s es \<Longrightarrow> es \<noteq> [] \<Longrightarrow> uh_tbl s \<noteq> None"
  by (auto simp: holds_entries_def uh_ok_def)

lemma holds_hashv: "holds_entries fcn s es \<Longrightarrow> (key, a) \<in> set es \<Longrightarrow> uh_hashv s a = fcn key"
  by (cases "es = []") (force simp: holds_entries_def uh_ok_def table_ok_def chains_ok_def)+

lemma bloom_find_holds:
  assumes "bloom_holds n fcn st es"
  shows "bloom_find n fcn st key = Some (map_of es key)"
proof (cases "es = []")
  case True
  with assms holds_head [of fcn "fst st" es] show ?thesis by (cases st) (simp add: bloom_find_def bloom_holds_def)
next
  case False
  obtain s bv where st: "st = (s, Some bv)" "holds_entries fcn s es" "length bv = HASH_BLOOM_BYTELEN n" "\<forall>key \<in> fst ` set es. HASH_BLOOM_TEST n bv (fcn key) = Some True"
    using assms False by (cases st) (auto simp: bloom_holds_def)
  have h: "uh_head s \<noteq> None" using holds_head [OF st(2)] False by simp
  obtain seen where seen: "HASH_BLOOM_TEST n bv (fcn key) = Some seen"
    using bloom_index_bound [of n "fcn key"] st(3) by (simp add: HASH_BLOOM_TEST_def HASH_BLOOM_BITTEST_def)
  have "map_of es key = None" if "\<not> seen"
  proof -
    have "key \<notin> fst ` set es" using st(4) seen that by auto
    then show ?thesis by (simp add: map_of_eq_None_iff)
  qed
  then show ?thesis using st(1) h seen holds_find [OF st(2), of key] by (auto simp: bloom_find_def)
qed

lemma bloom_add_holds:
  assumes "bloom_holds n fcn st es" "key \<notin> fst ` set es" "a \<notin> snd ` set es" "length es + 1 < 2 ^ 32" "\<forall>n. alloc n \<longrightarrow> n < 2 ^ 35"
  shows "\<exists>r. bloom_add_keyptr n fcn alloc st key a = Some r \<and> (r = None \<or> (\<exists>st'. r = Some st' \<and> bloom_holds n fcn st' (es @ [(key, a)])))"
proof -
  obtain s bloom where st: "st = (s, bloom)" by fastforce
  have s: "holds_entries fcn s es" using assms(1) st by (simp add: bloom_holds_def)
  define made where "made = (if uh_head s = None then HASH_BLOOM_MAKE n alloc else bloom)"
  have al: "\<forall>n. table_alloc alloc n \<longrightarrow> n < 2 ^ 35"
    using assms(5) by (auto simp: table_alloc_def split: if_splits)
  obtain r where r: "HASH_ADD_KEYPTR fcn (table_alloc alloc) s key a = Some r" "r = None \<or> (\<exists>s'. r = Some s' \<and> holds_entries fcn s' (es @ [(key, a)]))"
    using holds_add [OF s assms(2-4) al] by blast
  show ?thesis
  proof (cases "uh_head s = None \<and> made = None \<or> r = None")
    case True
    with st r(1) show ?thesis by (auto simp: bloom_add_keyptr_def made_def Let_def)
  next
    case False
    then obtain s' where s': "r = Some s'" "holds_entries fcn s' (es @ [(key, a)])" using r(2) by blast
    have "\<exists>bv. made = Some bv \<and> length bv = HASH_BLOOM_BYTELEN n \<and> (\<forall>key \<in> fst ` set es. HASH_BLOOM_TEST n bv (fcn key) = Some True)"
    proof (cases "es = []")
      case True
      then have "uh_head s = None" using holds_head [OF s] by simp
      then show ?thesis using False True by (auto simp: made_def HASH_BLOOM_MAKE_def split: if_splits)
    next
      case e: False
      then have "uh_head s \<noteq> None" using holds_head [OF s] by simp
      then show ?thesis using assms(1) st e by (auto simp: bloom_holds_def made_def)
    qed
    then obtain bv where bv: "made = Some bv" "length bv = HASH_BLOOM_BYTELEN n" "\<forall>key \<in> fst ` set es. HASH_BLOOM_TEST n bv (fcn key) = Some True" by blast
    obtain bv' where b: "HASH_BLOOM_ADD n bv (fcn key) = Some bv'" "length bv' = length bv" "HASH_BLOOM_TEST n bv' (fcn key) = Some True"
      "\<forall>x. HASH_BLOOM_TEST n bv x = Some True \<longrightarrow> HASH_BLOOM_TEST n bv' x = Some True"
      using bitset_test [of "bloom_index n (fcn key)" bv] bloom_index_bound [of n "fcn key"] bv(2) by (auto simp: HASH_BLOOM_ADD_def HASH_BLOOM_TEST_def)
    have "uh_hashv s' a = fcn key" using holds_hashv [OF s'(2), of key a] by simp
    then have "bloom_add_keyptr n fcn alloc st key a = Some (Some (s', Some bv'))"
      using st r(1) s'(1) bv(1) b(1) False by (auto simp: bloom_add_keyptr_def Let_def made_def [symmetric])
    moreover have "bloom_holds n fcn (s', Some bv') (es @ [(key, a)])" using s'(2) b(2-4) bv(2,3) by (auto simp: bloom_holds_def)
    ultimately show ?thesis by blast
  qed
qed

lemma bloom_delete_holds:
  assumes "bloom_holds n fcn st (as @ (key, a) # bs)"
  shows "\<exists>st'. bloom_delete st a = Some st' \<and> bloom_holds n fcn st' (as @ bs)"
proof -
  obtain s bloom where st: "st = (s, bloom)" by fastforce
  obtain s' where s': "HASH_DELETE s a = Some s'" "holds_entries fcn s' (as @ bs)" using holds_delete [of fcn s as key a bs] assms st by (auto simp: bloom_holds_def)
  then show ?thesis using assms st holds_tbl [OF s'(2)] by (cases "as @ bs = []") (auto simp: bloom_delete_def bloom_holds_def)
qed

section \<open>Sequences of operations\<close>

fun run_bloom_op :: "nat \<Rightarrow> (hkey \<Rightarrow> 32 word) \<Rightarrow> (nat \<Rightarrow> bool) \<Rightarrow> hash_op \<Rightarrow> bloomed \<Rightarrow> bloomed option option" where
  "run_bloom_op n fcn alloc (Add_key key a) st = bloom_add_keyptr n fcn alloc st key a"
| "run_bloom_op n fcn alloc (Remove_elem a) st = map_option Some (bloom_delete st a)"
| "run_bloom_op n fcn alloc (Replace_key key a) st = map_option (map_option fst) (bloom_replace n fcn alloc st key a)"
| "run_bloom_op n fcn alloc (Sort_by f) st = map_option (\<lambda>s'. Some (s', snd st)) (HASH_SRT (\<lambda>a b. sgn (f a - f b)) (fst st))"
| "run_bloom_op n fcn alloc Clear_all st = map_option Some (bloom_clear st)"

fun run_bloom_ops :: "nat \<Rightarrow> (hkey \<Rightarrow> 32 word) \<Rightarrow> (nat \<Rightarrow> bool) \<Rightarrow> hash_op list \<Rightarrow> bloomed \<Rightarrow> bloomed option option" where
  "run_bloom_ops n fcn alloc [] st = Some (Some st)"
| "run_bloom_ops n fcn alloc (m # ms) st = do { r \<leftarrow> run_bloom_op n fcn alloc m st; (case r of None \<Rightarrow> Some None | Some st' \<Rightarrow> run_bloom_ops n fcn alloc ms st') }"

lemma bloom_op_ok:
  assumes "bloom_holds n fcn st es" "hash_call_ok m es" "\<forall>n. alloc n \<longrightarrow> n < 2 ^ 35"
  shows "\<exists>r. run_bloom_op n fcn alloc m st = Some r \<and> (r = None \<or> (\<exists>st'. r = Some st' \<and> bloom_holds n fcn st' (hash_spec m es)))"
proof (cases m)
  case (Sort_by f)
  obtain s' where "HASH_SRT (\<lambda>a b. sgn (f a - f b)) (fst st) = Some s'" "holds_entries fcn s' (sort_key (\<lambda>e. f (snd e)) es)"
    using holds_sort [of fcn "fst st" es f] assms(1) by (auto simp: bloom_holds_def)
  with assms(1) Sort_by show ?thesis by (auto simp: bloom_holds_def)
next
  case Clear_all
  obtain s' where "HASH_CLEAR (fst st) = Some s'" "holds_entries fcn s' []" using holds_clear [of fcn "fst st" es] assms(1) by (auto simp: bloom_holds_def)
  with Clear_all show ?thesis by (cases st) (auto simp: bloom_holds_def bloom_clear_def)
next
  case (Add_key key a)
  with assms bloom_add_holds [OF assms(1)] show ?thesis by simp
next
  case (Remove_elem a)
  have h: "holds_entries fcn (fst st) es" using assms(1) by (simp add: bloom_holds_def)
  obtain as key bs where "es = as @ (key, a) # bs" "hash_spec (Remove_elem a) es = as @ bs" using removed_elem [OF h, of a] assms(2) Remove_elem by auto
  with bloom_delete_holds [of n fcn st as key a bs] assms(1) Remove_elem show ?thesis by auto
next
  case (Replace_key key a)
  have h: "holds_entries fcn (fst st) es" using assms(1) by (simp add: bloom_holds_def)
  show ?thesis
  proof (cases "map_of es key")
    case None
    then have k: "key \<notin> fst ` set es" by (simp add: map_of_eq_None_iff)
    then have "hash_spec m es = es @ [(key, a)]" using Replace_key by (auto simp: filter_id_conv)
    with bloom_add_holds [OF assms(1) k _ _ assms(3), of a] assms(2) Replace_key bloom_find_holds [OF assms(1), of key] None show ?thesis
      by (auto simp: bloom_replace_def)
  next
    case (Some b)
    obtain as bs where r: "es = as @ (key, b) # bs" "hash_spec (Replace_key key a) es = (as @ bs) @ [(key, a)]" "key \<notin> fst ` set (as @ bs)"
      by (rule replaced_key [OF h Some])
    obtain st1 where s1: "bloom_delete st b = Some st1" "bloom_holds n fcn st1 (as @ bs)" using bloom_delete_holds assms(1) r(1) by blast
    have "a \<notin> snd ` set (as @ bs)" "length (as @ bs) + 1 < 2 ^ 32" using assms(2) r(1) Replace_key by auto
    with bloom_add_holds [OF s1(2) r(3) _ _ assms(3), of a] s1(1) bloom_find_holds [OF assms(1), of key] Some r(2) Replace_key show ?thesis
      by (auto simp: bloom_replace_def)
  qed
qed

lemma bloom_ops_ok:
  "bloom_holds n fcn st es \<Longrightarrow> hash_calls_ok ms es \<Longrightarrow> \<forall>n. alloc n \<longrightarrow> n < 2 ^ 35 \<Longrightarrow>
   \<exists>r. run_bloom_ops n fcn alloc ms st = Some r \<and> (r = None \<or> (\<exists>st'. r = Some st' \<and> bloom_holds n fcn st' (fold hash_spec ms es)))"
proof (induction ms arbitrary: st es)
  case Nil
  then show ?case by (cases st) simp
next
  case (Cons m ms)
  obtain r where r: "run_bloom_op n fcn alloc m st = Some r" "r = None \<or> (\<exists>st'. r = Some st' \<and> bloom_holds n fcn st' (hash_spec m es))"
    using bloom_op_ok [OF Cons.prems(1) _ Cons.prems(3), of m] Cons.prems(2) by auto
  show ?case
  proof (cases r)
    case None
    with r show ?thesis by simp
  next
    case (Some st')
    with r Cons.IH [of st' "hash_spec m es"] Cons.prems(2,3) show ?thesis by simp
  qed
qed

section \<open>Properties\<close>

text \<open>C31. The Bloom filter misses no key: with a filter of any size, for any hash function, starting with an empty table,
  after any sequence of additions, replacements, deletions, sorts and clearings (no \<open>HASH_SELECT\<close>, for which see
  \<open>bloom_select_blind\<close>) whose callers keep to the rules (an element is in the table at most once, a key is added only if
  it is not there, a deleted element is there, fewer than \<open>2 ^ 32\<close> elements), the program either ends itself because memory is refused (no block of 32
  gigabytes or more is ever given), or a search that looks at the filter first returns what the search without a filter
  returns, the element of the key or NULL.\<close>

theorem bloom_misses_none:
  assumes "uh_head s = None" "n < 64" "hash_calls_ok ms []" "\<forall>n. alloc n \<longrightarrow> n < 2 ^ 35" "es = fold hash_spec ms []"
  shows "\<exists>r. run_bloom_ops n fcn alloc ms (s, bloom) = Some r \<and> (r = None \<or> (\<exists>st'. r = Some st' \<and>
    (\<forall>key. bloom_find n fcn st' key = Some (map_of es key) \<and> HASH_FIND fcn (fst st') key = Some (map_of es key))))"
proof -
  have "bloom_holds n fcn (s, bloom) []" using assms(1) by (simp add: bloom_holds_def holds_entries_def uh_ok_def)
  from bloom_ops_ok [OF this assms(3,4)] obtain r where
    r: "run_bloom_ops n fcn alloc ms (s, bloom) = Some r" "r = None \<or> (\<exists>st'. r = Some st' \<and> bloom_holds n fcn st' es)" unfolding assms(5) by blast
  have "bloom_find n fcn st' key = Some (map_of es key)" "HASH_FIND fcn (fst st') key = Some (map_of es key)" if "bloom_holds n fcn st' es" for st' key
    using bloom_find_holds [OF that] holds_find [of fcn "fst st'" es] that by (simp_all add: bloom_holds_def)
  with r show ?thesis by blast
qed

theorem bloom_misses_none_witness:
  "\<exists>st'. run_bloom_ops 16 HASH_JEN (\<lambda>n. n < 2 ^ 35) [Add_key [1] 7] (no_hash, None) = Some (Some st') \<and>
    bloom_find 16 HASH_JEN st' [1] = Some (Some 7) \<and> bloom_find 16 HASH_JEN st' [2] = Some None"
proof -
  let ?ms = "[Add_key [1] 7]"
  define al where "al = (\<lambda>n :: nat. n < 2 ^ 35)"
  have "HASH_TO_BKT w 32 < 32" for w using HASH_TO_BKT_mod [of 32 5 w] by simp
  then obtain s' where a: "HASH_ADD_KEYPTR HASH_JEN (table_alloc al) no_hash [1] 7 = Some (Some s')"
    by (simp add: al_def not_le no_hash_def table_alloc_def HASH_ADD_KEYPTR_def HASH_MAKE_TABLE_def HASH_ADD_TO_BKT_def HASH_TO_BKT_def
        HASH_INITIAL_NUM_BUCKETS_def HASH_BKT_CAPACITY_THRESH_def empty_bucket_def Let_def word_le_nat_alt)
  have m: "HASH_BLOOM_MAKE 16 al = Some (replicate (HASH_BLOOM_BYTELEN 16) 0)" "uh_head no_hash = None"
    by (simp_all add: al_def HASH_BLOOM_MAKE_def HASH_BLOOM_BYTELEN_def HASH_BLOOM_BITLEN_def no_hash_def)
  obtain bv' where "HASH_BLOOM_ADD 16 (replicate (HASH_BLOOM_BYTELEN 16) 0) (uh_hashv s' 7) = Some bv'"
    using bloom_index_bound [of 16 "uh_hashv s' 7"] by (simp add: HASH_BLOOM_ADD_def HASH_BLOOM_BITSET_def)
  then have "run_bloom_ops 16 HASH_JEN al ?ms (no_hash, None) = Some (Some (s', Some bv'))"
    by (simp add: bloom_add_keyptr_def a m)
  then obtain st' where s: "run_bloom_ops 16 HASH_JEN (\<lambda>n. n < 2 ^ 35) ?ms (no_hash, None) = Some (Some st')"
    unfolding al_def by blast
  have pre: "uh_head no_hash = None" "(16 :: nat) < 64" "hash_calls_ok ?ms []" "[([1], 7)] = fold hash_spec ?ms []" "\<forall>n. n < 2 ^ 35 \<longrightarrow> n < (2 :: nat) ^ 35"
    by (simp_all add: no_hash_def)
  have "\<forall>key. bloom_find 16 HASH_JEN st' key = Some (map_of [([1], 7)] key)"
    using bloom_misses_none [OF pre(1-3,5,4), of HASH_JEN None] s by auto
  then have "bloom_find 16 HASH_JEN st' [1] = Some (Some 7)" "bloom_find 16 HASH_JEN st' [2] = Some None" by simp_all
  with s show ?thesis by blast
qed

text \<open>Elements that \<open>HASH_SELECT\<close> has put into an empty table are never found behind a filter.\<close>

lemma bloom_select_blind:
  assumes "uh_head d = None" "bloom_select n alloc cond (d, bloom) src = Some (Some st)" "n < 64"
  shows "bloom_find n fcn st key = Some None"
proof -
  obtain d' b where d: "st = (d', b)" "uh_head d' \<noteq> None \<longrightarrow> b = Some (replicate (HASH_BLOOM_BYTELEN n) 0)"
    using assms(1,2) by (cases st) (auto simp: bloom_select_def HASH_BLOOM_MAKE_def split: bind_splits option.splits if_splits)
  show ?thesis using d(2) bloom_index_bound [of n "fcn key"]
    by (cases "uh_head d' = None") (simp_all add: d(1) bloom_find_def HASH_BLOOM_TEST_def HASH_BLOOM_BITTEST_def)
qed

end
