(* ===== verification/UtPortable.thy ===== *)
theory UtPortable
  imports UtList UtHash
begin

unbundle bit_operations_syntax

text \<open>
  What \<open>hw4/src/utlist.h\<close> and \<open>uthash.h\<close> do on other compilers and processors: the replacements of \<open>LL_APPEND\<close> and \<open>LL_DELETE\<close> for
  compilers that know no types of expressions, how blocks of a key are read for Murmur's hash function where only aligned words can be
  read, and the keys written out for tuning. The iterations of \<open>utlist.h\<close> that allow their body to free the element are here, too.
\<close>

section \<open>Lists without the types of expressions\<close>

text \<open>The loop that moves the pointer inside the new element to the last element of the list.\<close>

partial_function (option) append_walk :: "'a wq_heap \<Rightarrow> nat option \<Rightarrow> 'a wq_heap option" where
  "append_walk h add = (case load h add of
     None \<Rightarrow> None
   | Some c \<Rightarrow> (case load h (wi_next c) of
       None \<Rightarrow> None
     | Some d \<Rightarrow>
         if wi_next d \<noteq> None
         then (case modify (\<lambda>c. c\<lparr>wi_next := wi_next d\<rparr>) h add of None \<Rightarrow> None | Some h' \<Rightarrow> append_walk h' add)
         else Some h))"

definition LL_APPEND_VS2008 :: "'a wq_heap \<Rightarrow> nat option \<Rightarrow> nat option \<Rightarrow> ('a wq_heap \<times> nat option) option" where
  "LL_APPEND_VS2008 h head add = do {
     (h1, head1) \<leftarrow> (if head \<noteq> None then do {
         g \<leftarrow> modify (\<lambda>c. c\<lparr>wi_next := head\<rparr>) h add;
         g1 \<leftarrow> append_walk g add;
         c \<leftarrow> load g1 add;
         g2 \<leftarrow> modify (\<lambda>d. d\<lparr>wi_next := add\<rparr>) g1 (wi_next c);
         Some (g2, head)
       } else Some (h, add));
     h2 \<leftarrow> modify (\<lambda>c. c\<lparr>wi_next := None\<rparr>) h1 add;
     Some (h2, head1)
   }"

text \<open>The head itself runs through the list, and is set back at the end.\<close>

partial_function (option) delete_walk :: "'a wq_heap \<Rightarrow> nat option \<Rightarrow> nat option \<Rightarrow> nat option option" where
  "delete_walk h head del = (case load h head of
     None \<Rightarrow> None
   | Some c \<Rightarrow> if wi_next c \<noteq> None \<and> wi_next c \<noteq> del then delete_walk h (wi_next c) del else Some head)"

definition LL_DELETE_VS2008 :: "'a wq_heap \<Rightarrow> nat option \<Rightarrow> nat option \<Rightarrow> ('a wq_heap \<times> nat option) option" where
  "LL_DELETE_VS2008 h head del =
     (if head = del then do { c \<leftarrow> load h head; Some (h, wi_next c) }
      else do {
        let tmp = head;
        head1 \<leftarrow> delete_walk h head del;
        c \<leftarrow> load h head1;
        h1 \<leftarrow> (if wi_next c \<noteq> None then do { d \<leftarrow> load h del; modify (\<lambda>c. c\<lparr>wi_next := wi_next d\<rparr>) h head1 } else Some h);
        Some (h1, tmp)
      })"

section \<open>Iterations whose body may free\<close>

definition DL_FOREACH_SAFE :: "(nat \<Rightarrow> 'a wq_heap \<times> 's \<Rightarrow> ('a wq_heap \<times> 's) option) \<Rightarrow> nat option \<Rightarrow> 'a wq_heap \<times> 's \<Rightarrow> ('a wq_heap \<times> 's) option" where
  "DL_FOREACH_SAFE = LL_FOREACH_SAFE"

text \<open>\<open>tmp1\<close> is the last element, read before the loop.\<close>

partial_function (option) cdl_foreach_safe :: "(nat \<Rightarrow> 'a wq_heap \<times> 's \<Rightarrow> ('a wq_heap \<times> 's) option) \<Rightarrow> nat option \<Rightarrow> nat option \<Rightarrow> 'a wq_heap \<times> 's \<Rightarrow> ('a wq_heap \<times> 's) option" where
  "cdl_foreach_safe body tmp1 el s = (case el of
     None \<Rightarrow> Some s
   | Some a \<Rightarrow> (case load (fst s) el of
       None \<Rightarrow> None
     | Some c \<Rightarrow> (case body a s of
         None \<Rightarrow> None
       | Some s' \<Rightarrow> cdl_foreach_safe body tmp1 (if el = tmp1 then None else wi_next c) s')))"

definition CDL_FOREACH_SAFE :: "(nat \<Rightarrow> 'a wq_heap \<times> 's \<Rightarrow> ('a wq_heap \<times> 's) option) \<Rightarrow> nat option \<Rightarrow> 'a wq_heap \<times> 's \<Rightarrow> ('a wq_heap \<times> 's) option" where
  "CDL_FOREACH_SAFE body head s =
     (if head = None then Some s else do { c \<leftarrow> load (fst s) head; cdl_foreach_safe body (wi_prev c) head s })"

section \<open>Reading blocks of a key\<close>

text \<open>Memory is a function of addresses. The words of a processor that is neither Intel's nor puts the high byte first.\<close>

definition bytes4 :: "(nat \<Rightarrow> 8 word) \<Rightarrow> nat \<Rightarrow> 32 word" where
  "bytes4 m a = ucast (m a) OR push_bit 8 (ucast (m (a + 1))) OR push_bit 16 (ucast (m (a + 2))) OR push_bit 24 (ucast (m (a + 3)))"

definition WP :: "nat \<Rightarrow> nat" where
  "WP p = p - p mod 4"

definition MUR_THREE_ONE :: "(nat \<Rightarrow> 8 word) \<Rightarrow> nat \<Rightarrow> 32 word" where
  "MUR_THREE_ONE m p = drop_bit 8 (bytes4 m (WP p) AND 0xffffff00) OR push_bit 24 (bytes4 m (WP p + 4) AND 0x000000ff)"

definition MUR_TWO_TWO :: "(nat \<Rightarrow> 8 word) \<Rightarrow> nat \<Rightarrow> 32 word" where
  "MUR_TWO_TWO m p = drop_bit 16 (bytes4 m (WP p) AND 0xffff0000) OR push_bit 16 (bytes4 m (WP p + 4) AND 0x0000ffff)"

definition MUR_ONE_THREE :: "(nat \<Rightarrow> 8 word) \<Rightarrow> nat \<Rightarrow> 32 word" where
  "MUR_ONE_THREE m p = drop_bit 24 (bytes4 m (WP p) AND 0xff000000) OR push_bit 8 (bytes4 m (WP p + 4) AND 0x00ffffff)"

definition MUR_GETBLOCK :: "(nat \<Rightarrow> 8 word) \<Rightarrow> nat \<Rightarrow> int \<Rightarrow> 32 word" where
  "MUR_GETBLOCK m p i =
     (if p mod 4 = 0 then bytes4 m (nat (int p + 4 * i))
      else if p mod 4 = 1 then MUR_THREE_ONE m p
      else if p mod 4 = 2 then MUR_TWO_TWO m p
      else MUR_ONE_THREE m p)"

section \<open>Emitting keys\<close>

text \<open>The bytes behind those already written to the descriptor: the length as an \<open>unsigned\<close> of four bytes, the low one first, then the key.\<close>

fun le_bytes :: "nat \<Rightarrow> nat \<Rightarrow> u8 list" where
  "le_bytes 0 n = []"
| "le_bytes (Suc k) n = word_of_nat n # le_bytes k (n div 256)"

definition HASH_EMIT_KEY :: "u8 list \<Rightarrow> u8 list \<Rightarrow> nat \<Rightarrow> u8 list option" where
  "HASH_EMIT_KEY out keyptr fieldlen =
     (let klen = fieldlen mod 2 ^ 32 in
      if fieldlen \<le> length keyptr then Some (out @ le_bytes 4 klen @ take fieldlen keyptr) else None)"

section \<open>The replacements do the same\<close>

lemma upd_next_twice: "upd (\<lambda>c. c\<lparr>wi_next := x\<rparr>) a (upd (\<lambda>c. c\<lparr>wi_next := y\<rparr>) a h) = upd (\<lambda>c. c\<lparr>wi_next := x\<rparr>) a h"
  by (cases "cell h a") (auto simp: upd_def cell_def)

lemma upd_apart: "a \<noteq> b \<Longrightarrow> upd f a (upd g b h) = upd g b (upd f a h)"
  by (auto simp: upd_def cell_def list_update_swap)

lemma append_walk_seg:
  "cell h x = Some c \<Longrightarrow> wi_next c = p \<Longrightarrow> lseg h p (as @ [z]) None \<Longrightarrow> x \<notin> set (as @ [z]) \<Longrightarrow>
   append_walk h (Some x) = Some (upd (\<lambda>c. c\<lparr>wi_next := Some z\<rparr>) x h)"
proof (induction as arbitrary: h c p)
  case Nil
  then have "upd (\<lambda>c. c\<lparr>wi_next := Some z\<rparr>) x h = h" by (cases c) (auto simp: upd_def cell_def list_update_same_conv split: if_splits)
  with Nil show ?case by (subst append_walk.simps) (auto simp: cnext_def split: option.splits)
next
  case (Cons a as)
  let ?h = "upd (\<lambda>c. c\<lparr>wi_next := cnext h a\<rparr>) x h"
  have a: "p = Some a" "cell h a \<noteq> None" "lseg h (cnext h a) (as @ [z]) None" "a \<noteq> x" using Cons.prems(3,4) by auto
  have n: "cnext h a \<noteq> None" using a(3) by (cases as) auto
  have "cell ?h x = Some (c\<lparr>wi_next := cnext h a\<rparr>)" using Cons.prems(1) by simp
  moreover have "lseg ?h (cnext h a) (as @ [z]) None" using a(3) Cons.prems(1,4) by (subst lseg_upd_frame) auto
  ultimately have "append_walk ?h (Some x) = Some (upd (\<lambda>c. c\<lparr>wi_next := Some z\<rparr>) x ?h)" using Cons.IH [of ?h "c\<lparr>wi_next := cnext h a\<rparr>"] Cons.prems(4) by simp
  then show ?case using Cons.prems(1,2) a n by (subst append_walk.simps) (auto simp: upd_next_twice cnext_def split: option.splits)
qed

lemma append_same:
  assumes "ll h p as" "cell h x \<noteq> None" "x \<notin> set as"
  shows "LL_APPEND_VS2008 h p (Some x) = LL_APPEND h p (Some x)"
proof (cases as rule: rev_cases)
  case Nil
  with assms show ?thesis by (simp add: ll_def LL_APPEND_VS2008_def LL_APPEND_def)
next
  case (snoc bs z)
  have l: "lseg h p (bs @ [z]) None" "z \<noteq> x" "cell h z \<noteq> None" using assms snoc by (auto simp: ll_def dest: lseg_cell)
  have p: "p \<noteq> None" using l(1) by (cases bs) auto
  obtain c where c: "cell h x = Some c" using assms(2) by auto
  let ?g = "upd (\<lambda>c. c\<lparr>wi_next := p\<rparr>) x h" let ?n = "upd (\<lambda>c. c\<lparr>wi_next := None\<rparr>) x h"
  have f: "lseg ?g p (bs @ [z]) None" "lseg ?n p (bs @ [z]) None" using l(1) assms(2,3) snoc by (simp_all add: lseg_upd_frame del: lseg.simps)
  have w: "append_walk ?g (Some x) = Some (upd (\<lambda>c. c\<lparr>wi_next := Some z\<rparr>) x ?g)"
    using append_walk_seg [of ?g x "c\<lparr>wi_next := p\<rparr>" p bs z] c f(1) assms(3) snoc by simp
  have "LL_APPEND_VS2008 h p (Some x) = Some (upd (\<lambda>c. c\<lparr>wi_next := None\<rparr>) x (upd (\<lambda>c. c\<lparr>wi_next := Some x\<rparr>) z (upd (\<lambda>c. c\<lparr>wi_next := Some z\<rparr>) x h)), p)"
    using p c w l(2,3) by (auto simp: LL_APPEND_VS2008_def upd_next_twice)
  also have "upd (\<lambda>c. c\<lparr>wi_next := None\<rparr>) x (upd (\<lambda>c. c\<lparr>wi_next := Some x\<rparr>) z (upd (\<lambda>c. c\<lparr>wi_next := Some z\<rparr>) x h)) = upd (\<lambda>c. c\<lparr>wi_next := Some x\<rparr>) z ?n"
    using l(2) by (simp add: upd_apart [of x z] upd_next_twice)
  finally show ?thesis using p c ll_last_seg [OF f(2)] l(2,3) by (simp add: LL_APPEND_def)
qed

lemma delete_walk_before: "lseg h p as None \<Longrightarrow> as \<noteq> [] \<Longrightarrow> delete_walk h p del = ll_before h p del"
proof (induction as arbitrary: p)
  case (Cons a as)
  then obtain c where c: "cell h a = Some c" "p = Some a" "lseg h (wi_next c) as None" by (auto simp: cnext_def)
  show ?case
  proof (cases "as = []")
    case True
    with c show ?thesis by (subst delete_walk.simps, subst ll_before.simps) simp
  next
    case False
    from Cons.IH [OF c(3) this] c show ?thesis by (subst delete_walk.simps, subst ll_before.simps) simp
  qed
qed simp

lemma delete_same: "ll h p as \<Longrightarrow> x \<in> set as \<Longrightarrow> LL_DELETE_VS2008 h p (Some x) = LL_DELETE h p (Some x)"
proof -
  assume "ll h p as" "x \<in> set as"
  then have "delete_walk h p (Some x) = ll_before h p (Some x)" by (intro delete_walk_before [of h p as]) (auto simp: ll_def)
  then show ?thesis by (auto simp: LL_DELETE_VS2008_def LL_DELETE_def intro!: Option.bind_cong [OF refl])
qed

text \<open>Both replacements give the same heap and head as the macros they replace.\<close>

theorem vs2008_same:
  "ll h p as \<Longrightarrow> cell h x \<noteq> None \<Longrightarrow> (if x \<in> set as then LL_DELETE_VS2008 h p (Some x) = LL_DELETE h p (Some x)
    else LL_APPEND_VS2008 h p (Some x) = LL_APPEND h p (Some x))"
  using append_same delete_same by metis

section \<open>Freeing a circular list\<close>

lemma cdl_safe_frees:
  "distinct (as @ [z]) \<Longrightarrow> lseg h p (as @ [z]) q \<Longrightarrow>
   \<exists>h'. cdl_foreach_safe free_body (Some z) p (h, fs) = Some (h', fs @ as @ [z]) \<and> (\<forall>a. cell h' a = (if a \<in> set (as @ [z]) then None else cell h a))"
proof (induction as arbitrary: h p fs)
  case Nil
  have u: "cell (h[z := None]) b = (if b = z then None else cell h b)" for b by (auto simp: cell_def)
  from Nil obtain c where "cell h z = Some c" "p = Some z" by auto
  then show ?case by (subst cdl_foreach_safe.simps) (auto simp: free_body_def u cdl_foreach_safe.simps)
next
  case (Cons a as)
  then obtain c where c: "cell h a = Some c" "p = Some a" "lseg h (wi_next c) (as @ [z]) q" "a \<notin> set (as @ [z])" "distinct (as @ [z])"
    by (auto simp: cnext_def)
  have u: "cell (h[a := None]) b = (if b = a then None else cell h b)" for b by (auto simp: cell_def)
  have "lseg (h[a := None]) (wi_next c) (as @ [z]) q = lseg h (wi_next c) (as @ [z]) q" using c(4) by (intro lseg_cong) (auto simp: u cnext_def)
  then have l: "lseg (h[a := None]) (wi_next c) (as @ [z]) q" using c(3) by simp
  have "free_body a (h, fs) = Some (h[a := None], fs @ [a])" using c(1) by (simp add: free_body_def)
  then show ?case using c(1,2,4) Cons.IH [OF c(5) l, of "fs @ [a]"] by (subst cdl_foreach_safe.simps) (auto simp: u)
qed

lemma cdl_foreach_safe_frees:
  assumes "cdl h p as"
  shows "\<exists>h'. CDL_FOREACH_SAFE free_body p (h, []) = Some (h', as) \<and> (\<forall>a. cell h' a = (if a \<in> set as then None else cell h a))"
proof (cases as rule: rev_cases)
  case Nil
  with assms show ?thesis by (simp add: cdl_def CDL_FOREACH_SAFE_def)
next
  case (snoc bs z)
  then obtain a c where a: "p = Some a" "cell h a = Some c" "wi_prev c = Some z" using assms by (cases bs) (auto simp: cdl_def cprev_def)
  with cdl_safe_frees [of bs z h p p "[]"] assms snoc show ?thesis by (simp add: cdl_def CDL_FOREACH_SAFE_def)
qed

section \<open>Blocks\<close>

lemma bit_bytes4: "bit (bytes4 m a) n \<longleftrightarrow> n < 32 \<and> bit (m (a + n div 8)) (n mod 8)"
proof -
  have "n < 8 \<or> n \<in> {8..<16} \<or> n \<in> {16..<24} \<or> n \<in> {24..<32} \<or> n \<ge> 32" by auto
  moreover have "n \<in> {8 * k..<8 * k + 8} \<Longrightarrow> n div 8 = k \<and> n mod 8 = n - 8 * k" for k
    by (metis atLeastLessThan_iff div_nat_eqI minus_mult_div_eq_mod mult.commute mult_Suc_right add.commute)
  note this [of 0] this [of 1] this [of 2] this [of 3]
  ultimately show ?thesis by (elim disjE) (auto simp: bytes4_def bit_simps dest: bit_imp_le_length)
qed

lemma bit_joined:
  fixes x y :: "32 word"
  assumes "k \<le> 32"
  shows "bit (drop_bit k (x AND push_bit k (mask (32 - k))) OR push_bit (32 - k) (y AND mask k)) n \<longleftrightarrow>
    (if n + k < 32 then bit x (n + k) else n < 32 \<and> bit y (n + k - 32))"
proof -
  have o: "\<not> bit x j" "\<not> bit y j" if "32 \<le> j" for j using that bit_imp_le_length [of x j] bit_imp_le_length [of y j] by auto
  have "bit (drop_bit k (x AND push_bit k (mask (32 - k)))) n \<longleftrightarrow> n + k < 32 \<and> bit x (n + k)"
    using assms o(1) [of "n + k"] by (cases "n + k < 32") (simp_all add: bit_drop_bit_eq bit_and_iff bit_push_bit_iff bit_mask_iff add.commute less_diff_conv)
  moreover have "bit (push_bit (32 - k) (y AND mask k)) n \<longleftrightarrow> 32 \<le> n + k \<and> n < 32 \<and> bit y (n + k - 32)"
    using assms by (cases "32 \<le> n + k") (auto simp: bit_and_iff bit_push_bit_iff bit_mask_iff)
  ultimately show ?thesis by (auto simp: bit_or_iff)
qed

lemma joined:
  assumes "j < 4"
  shows "drop_bit (8 * j) (bytes4 m a AND push_bit (8 * j) (mask (32 - 8 * j))) OR push_bit (32 - 8 * j) (bytes4 m (a + 4) AND mask (8 * j))
    = bytes4 m (a + j)"
proof (rule bit_word_eqI)
  fix n assume n: "n < LENGTH(32)"
  have d: "(n + 8 * j) div 8 = n div 8 + j" "(n + 8 * j) mod 8 = n mod 8" by simp_all
  show "bit (drop_bit (8 * j) (bytes4 m a AND push_bit (8 * j) (mask (32 - 8 * j))) OR push_bit (32 - 8 * j) (bytes4 m (a + 4) AND mask (8 * j))) n
      = bit (bytes4 m (a + j)) n"
  proof (cases "n + 8 * j < 32")
    case True
    with n d assms show ?thesis by (subst bit_joined) (simp_all add: bit_bytes4 ac_simps)
  next
    case False
    then obtain q where q: "n + 8 * j = 32 + q" using le_Suc_ex [of 32 "n + 8 * j"] by auto
    moreover have "(32 + q) mod 8 = q mod 8" "(32 + q) div 8 = q div 8 + 4" using mod_mult_self3 [of 4 8 q] by auto
    ultimately have "q < 32" "q div 8 + 4 = n div 8 + j" "q mod 8 = n mod 8" using n assms d by auto
    moreover from this(2) have "m (a + 4 + q div 8) = m (a + j + n div 8)" by (intro arg_cong [where f = m]) linarith
    ultimately show ?thesis using n assms q by (subst bit_joined) (simp_all add: bit_bytes4)
  qed
qed

lemma masks: "(0xffffff00 :: 32 word) = push_bit 8 (mask 24)" "(0xff :: 32 word) = mask 8" "(0xffff0000 :: 32 word) = push_bit 16 (mask 16)"
  "(0xffff :: 32 word) = mask 16" "(0xff000000 :: 32 word) = push_bit 24 (mask 8)" "(0xffffff :: 32 word) = mask 24"
  by (simp_all add: mask_eq_exp_minus_1)

text \<open>The block at an address that is not aligned is put together from the two words around it.\<close>

lemma getblock_here: "MUR_GETBLOCK m p 0 = bytes4 m p"
proof -
  have w: "p mod 4 = k \<Longrightarrow> WP p + k = p" for k unfolding WP_def by (metis le_add_diff_inverse2 mod_less_eq_dividend)
  have "MUR_THREE_ONE m p = bytes4 m (WP p + 1)" unfolding MUR_THREE_ONE_def masks using joined [of 1 m "WP p"] by simp
  moreover have "MUR_TWO_TWO m p = bytes4 m (WP p + 2)" unfolding MUR_TWO_TWO_def masks using joined [of 2 m "WP p"] by simp
  moreover have "MUR_ONE_THREE m p = bytes4 m (WP p + 3)" unfolding MUR_ONE_THREE_def masks using joined [of 3 m "WP p"] by simp
  moreover have "p mod 4 = 0 \<or> p mod 4 = 1 \<or> p mod 4 = 2 \<or> p mod 4 = 3" by presburger
  ultimately show ?thesis using w [of 1] w [of 2] w [of 3] by (auto simp: MUR_GETBLOCK_def simp del: add_Suc_right One_nat_def)
qed

text \<open>But the number of the block is not used there: where a key is not aligned, every round of the loop of \<open>HASH_MUR\<close> reads the four bytes behind
  its last whole block.\<close>

lemma getblock_ignores: "p mod 4 \<noteq> 0 \<Longrightarrow> MUR_GETBLOCK m p i = bytes4 m p"
  using getblock_here [of m p] by (simp add: MUR_GETBLOCK_def)

section \<open>Emitted keys can be told apart\<close>

lemma le_bytes_inj: "le_bytes k n = le_bytes k n' \<Longrightarrow> n < 256 ^ k \<Longrightarrow> n' < 256 ^ k \<Longrightarrow> n = n'"
proof (induction k arbitrary: n n')
  case (Suc k)
  have "n mod 256 = n' mod 256" using Suc.prems(1) by (simp add: word_of_nat_eq_iff take_bit_eq_mod)
  moreover have "n div 256 = n' div 256" using Suc.prems by (intro Suc.IH) (auto simp: less_mult_imp_div_less mult.commute)
  ultimately show ?case by (metis mult_div_mod_eq)
qed simp

lemma length_le_bytes [simp]: "length (le_bytes k n) = k"
  by (induction k arbitrary: n) auto

lemma le_bytes_nonempty [simp]: "le_bytes k n = [] \<longleftrightarrow> k = 0" "[] = le_bytes k n \<longleftrightarrow> k = 0"
  by (cases k; simp)+

lemma append_same_length: "xs @ us = ys @ vs \<Longrightarrow> length xs = length ys \<Longrightarrow> xs = ys \<and> us = vs"
  by simp

fun emit_all :: "u8 list list \<Rightarrow> u8 list \<Rightarrow> u8 list option" where
  "emit_all [] out = Some out"
| "emit_all (k # ks) out = do { out' \<leftarrow> HASH_EMIT_KEY out k (length k); emit_all ks out' }"

lemma emit_all_bytes:
  "list_all (\<lambda>k. length k < 2 ^ 32) ks \<Longrightarrow> emit_all ks out = Some (out @ concat (map (\<lambda>k. le_bytes 4 (length k) @ k) ks))"
  by (induction ks arbitrary: out) (auto simp: HASH_EMIT_KEY_def)

text \<open>The lengths in front of the keys determine where each key ends: two lists of keys with the same output are the same.\<close>

lemma emit_all_inj:
  assumes "list_all (\<lambda>k. length k < 2 ^ 32) ks" "list_all (\<lambda>k. length k < 2 ^ 32) ks'" "emit_all ks out = emit_all ks' out"
  shows "ks = ks'"
proof -
  have "concat (map (\<lambda>k. le_bytes 4 (length k) @ k) ks) = concat (map (\<lambda>k. le_bytes 4 (length k) @ k) ks')"
    using assms by (simp add: emit_all_bytes)
  with assms(1,2) show ?thesis
  proof (induction ks arbitrary: ks')
    case Nil
    then show ?case by (cases ks') auto
  next
    case step: (Cons k ks)
    show ?case
    proof (cases ks')
      case Nil
      with step.prems(3) show ?thesis by simp
    next
      case (Cons k' kt)
      let ?b = "\<lambda>k. le_bytes 4 (length k) @ k"
      have e: "le_bytes 4 (length k) @ (k @ concat (map ?b ks)) = le_bytes 4 (length k') @ (k' @ concat (map ?b kt))"
        using step.prems(3) Cons by simp
      then have f: "le_bytes 4 (length k) = le_bytes 4 (length k')" "k @ concat (map ?b ks) = k' @ concat (map ?b kt)"
        by (auto dest: append_same_length)
      have "length k = length k'" using Cons step.prems(1,2) by (intro le_bytes_inj [OF f(1)]) simp_all
      then have "k = k'" "concat (map ?b ks) = concat (map ?b kt)" using append_same_length [OF f(2)] by blast+
      with Cons step.IH [of kt] step.prems(1,2) show ?thesis by simp
    qed
  qed
qed

end
