(* ===== verification/UtHashKeys.thy ===== *)
theory UtHashKeys
  imports UtHashSort UtPortable
begin

text \<open>
  The forms of the hash-table macros of \<open>hw4/src/uthash.h\<close> for keys that are strings, integers and pointers. Each is the general macro on
  the bytes of the key; since no two keys of a type have the same bytes (contract \<open>typed_keys\<close>), the table maps keys of that type to
  elements.
\<close>

section \<open>The bytes of a key\<close>

text \<open>A string is without its terminator; its length is cut to an \<open>unsigned\<close>. Numbers have their low byte first.\<close>

definition str_key :: "string \<Rightarrow> hkey" where
  "str_key str = take (length str mod 2 ^ 32) (map (\<lambda>c. word_of_nat (of_char c)) str)"

definition int_key :: "32 word \<Rightarrow> hkey" where
  "int_key i = le_bytes 4 (unat i)"

definition ptr_key :: "64 word \<Rightarrow> hkey" where
  "ptr_key p = le_bytes 8 (unat p)"

section \<open>The macros\<close>

definition HASH_FIND_STR :: "(hkey \<Rightarrow> 32 word) \<Rightarrow> uthash \<Rightarrow> string \<Rightarrow> nat option option" where
  "HASH_FIND_STR fcn s findstr = HASH_FIND fcn s (str_key findstr)"

definition HASH_ADD_STR :: "(hkey \<Rightarrow> 32 word) \<Rightarrow> (nat \<Rightarrow> bool) \<Rightarrow> uthash \<Rightarrow> string \<Rightarrow> nat \<Rightarrow> uthash option option" where
  "HASH_ADD_STR fcn alloc s strfield add = HASH_ADD_KEYPTR fcn alloc s (str_key strfield) add"

definition HASH_REPLACE_STR :: "(hkey \<Rightarrow> 32 word) \<Rightarrow> (nat \<Rightarrow> bool) \<Rightarrow> uthash \<Rightarrow> string \<Rightarrow> nat \<Rightarrow> (uthash \<times> nat option) option option" where
  "HASH_REPLACE_STR fcn alloc s strfield add = HASH_REPLACE fcn alloc s (str_key strfield) add"

definition HASH_FIND_INT :: "(hkey \<Rightarrow> 32 word) \<Rightarrow> uthash \<Rightarrow> 32 word \<Rightarrow> nat option option" where
  "HASH_FIND_INT fcn s findint = HASH_FIND fcn s (int_key findint)"

definition HASH_ADD_INT :: "(hkey \<Rightarrow> 32 word) \<Rightarrow> (nat \<Rightarrow> bool) \<Rightarrow> uthash \<Rightarrow> 32 word \<Rightarrow> nat \<Rightarrow> uthash option option" where
  "HASH_ADD_INT fcn alloc s intfield add = HASH_ADD_KEYPTR fcn alloc s (int_key intfield) add"

definition HASH_REPLACE_INT :: "(hkey \<Rightarrow> 32 word) \<Rightarrow> (nat \<Rightarrow> bool) \<Rightarrow> uthash \<Rightarrow> 32 word \<Rightarrow> nat \<Rightarrow> (uthash \<times> nat option) option option" where
  "HASH_REPLACE_INT fcn alloc s intfield add = HASH_REPLACE fcn alloc s (int_key intfield) add"

definition HASH_FIND_PTR :: "(hkey \<Rightarrow> 32 word) \<Rightarrow> uthash \<Rightarrow> 64 word \<Rightarrow> nat option option" where
  "HASH_FIND_PTR fcn s findptr = HASH_FIND fcn s (ptr_key findptr)"

definition HASH_ADD_PTR :: "(hkey \<Rightarrow> 32 word) \<Rightarrow> (nat \<Rightarrow> bool) \<Rightarrow> uthash \<Rightarrow> 64 word \<Rightarrow> nat \<Rightarrow> uthash option option" where
  "HASH_ADD_PTR fcn alloc s ptrfield add = HASH_ADD_KEYPTR fcn alloc s (ptr_key ptrfield) add"

definition HASH_REPLACE_PTR :: "(hkey \<Rightarrow> 32 word) \<Rightarrow> (nat \<Rightarrow> bool) \<Rightarrow> uthash \<Rightarrow> 64 word \<Rightarrow> nat \<Rightarrow> (uthash \<times> nat option) option option" where
  "HASH_REPLACE_PTR fcn alloc s ptrfield add = HASH_REPLACE fcn alloc s (ptr_key ptrfield) add"

definition HASH_DEL :: "uthash \<Rightarrow> nat \<Rightarrow> uthash option" where
  "HASH_DEL s delptr = HASH_DELETE s delptr"

section \<open>Tables of typed keys\<close>

text \<open>The table \<open>s\<close> holds the entries \<open>es\<close>, with keys of a type whose bytes are given by \<open>enc\<close>.\<close>

definition holds_typed :: "('k \<Rightarrow> hkey) \<Rightarrow> ('k \<Rightarrow> bool) \<Rightarrow> (hkey \<Rightarrow> 32 word) \<Rightarrow> uthash \<Rightarrow> ('k \<times> nat) list \<Rightarrow> bool" where
  "holds_typed enc ok fcn s es \<longleftrightarrow> list_all (ok \<circ> fst) es \<and> holds_entries fcn s (map (apfst enc) es)"

locale typed_keys =
  fixes enc :: "'k \<Rightarrow> hkey" and ok :: "'k \<Rightarrow> bool"
  assumes enc_inj: "ok k \<Longrightarrow> ok k' \<Longrightarrow> enc k = enc k' \<Longrightarrow> k = k'"
begin

lemma same_entry: "list_all (ok \<circ> fst) es \<Longrightarrow> ok k \<Longrightarrow> map_of (map (apfst enc) es) (enc k) = map_of es k"
  by (induction es) (auto dest: enc_inj)

lemma same_others: "list_all (ok \<circ> fst) es \<Longrightarrow> ok k \<Longrightarrow> filter (\<lambda>e. fst e \<noteq> enc k) (map (apfst enc) es) = map (apfst enc) (filter (\<lambda>e. fst e \<noteq> k) es)"
  by (induction es) (auto dest: enc_inj)

lemma typed_find: "holds_typed enc ok fcn s es \<Longrightarrow> ok k \<Longrightarrow> HASH_FIND fcn s (enc k) = Some (map_of es k)"
  using holds_find [of fcn s "map (apfst enc) es" "enc k"] same_entry [of es k] by (simp add: holds_typed_def)

lemma typed_add:
  assumes "holds_typed enc ok fcn s es" "ok k" "k \<notin> fst ` set es" "a \<notin> snd ` set es" "length es + 1 < 2 ^ 32" "\<forall>n. alloc n \<longrightarrow> n < 2 ^ 35"
  shows "\<exists>r. HASH_ADD_KEYPTR fcn alloc s (enc k) a = Some r \<and> (r = None \<or> (\<exists>s'. r = Some s' \<and> holds_typed enc ok fcn s' (es @ [(k, a)])))"
proof -
  have h: "list_all (ok \<circ> fst) es" "holds_entries fcn s (map (apfst enc) es)" using assms(1) by (simp_all add: holds_typed_def)
  have "map_of (map (apfst enc) es) (enc k) = None" using same_entry [OF h(1) assms(2)] assms(3) by (simp add: map_of_eq_None_iff)
  then have "enc k \<notin> fst ` set (map (apfst enc) es)" by (simp add: map_of_eq_None_iff)
  moreover have "a \<notin> snd ` set (map (apfst enc) es)" using assms(4) by (auto simp: image_iff)
  ultimately show ?thesis using holds_add [OF h(2), of "enc k" a alloc] assms(2,5,6) h(1) by (simp add: holds_typed_def)
qed

lemma typed_replace:
  assumes "holds_typed enc ok fcn s es" "ok k" "a \<notin> snd ` set es" "length es + 1 < 2 ^ 32" "\<forall>n. alloc n \<longrightarrow> n < 2 ^ 35"
  shows "\<exists>r. HASH_REPLACE fcn alloc s (enc k) a = Some r \<and>
    (r = None \<or> (\<exists>s'. r = Some (s', map_of es k) \<and> holds_typed enc ok fcn s' (filter (\<lambda>e. fst e \<noteq> k) es @ [(k, a)])))"
proof -
  have h: "list_all (ok \<circ> fst) es" "holds_entries fcn s (map (apfst enc) es)" using assms(1) by (simp_all add: holds_typed_def)
  have "a \<notin> snd ` set (map (apfst enc) es)" using assms(3) by (auto simp: image_iff)
  then obtain r where r: "map_option (map_option fst) (HASH_REPLACE fcn alloc s (enc k) a) = Some r"
    "r = None \<or> (\<exists>s'. r = Some s' \<and> holds_entries fcn s' (map (apfst enc) (filter (\<lambda>e. fst e \<noteq> k) es @ [(k, a)])))"
    using hash_op_ok [OF h(2), of "Replace_key (enc k) a" alloc] assms(4,5) same_others [OF h(1) assms(2)] by auto
  have "list_all (ok \<circ> fst) (filter (\<lambda>e. fst e \<noteq> k) es @ [(k, a)])" using h(1) assms(2) by (auto simp: list_all_iff)
  with r typed_find [OF assms(1,2)] show ?thesis
    by (auto simp: HASH_REPLACE_def holds_typed_def split: Option.bind_splits)
qed

lemma typed_delete:
  assumes "holds_typed enc ok fcn s (as @ (k, a) # bs)"
  shows "\<exists>s'. HASH_DELETE s a = Some s' \<and> holds_typed enc ok fcn s' (as @ bs)"
  using assms holds_delete [of fcn s "map (apfst enc) as" "enc k" a "map (apfst enc) bs"] by (auto simp: holds_typed_def)

end

section \<open>Strings, integers and pointers\<close>

definition str_ok :: "string \<Rightarrow> bool" where
  "str_ok str \<longleftrightarrow> nul \<notin> set str \<and> length str < 2 ^ 32"

interpretation str_keys: typed_keys str_key str_ok
proof unfold_locales
  fix k k' :: string
  assume "str_ok k" "str_ok k'" "str_key k = str_key k'"
  then have "map (\<lambda>c. word_of_nat (of_char c) :: 8 word) k = map (\<lambda>c. word_of_nat (of_char c)) k'" by (simp add: str_ok_def str_key_def)
  moreover have "inj (\<lambda>c :: char. word_of_nat (of_char c) :: 8 word)"
    by (rule injI) (auto simp: word_of_nat_eq_iff take_bit_eq_mod)
  ultimately show "k = k'" by (rule map_injective)
qed

interpretation int_keys: typed_keys int_key "\<lambda>_. True"
proof unfold_locales
  fix k k' :: "32 word"
  assume "int_key k = int_key k'"
  then have "unat k = unat k'" unfolding int_key_def by (rule le_bytes_inj) (use unsigned_less [of k, where 'a = nat] unsigned_less [of k', where 'a = nat] in simp_all)
  then show "k = k'" by (rule unsigned_word_eqI)
qed

interpretation ptr_keys: typed_keys ptr_key "\<lambda>_. True"
proof unfold_locales
  fix k k' :: "64 word"
  assume "ptr_key k = ptr_key k'"
  then have "unat k = unat k'" unfolding ptr_key_def by (rule le_bytes_inj) (use unsigned_less [of k, where 'a = nat] unsigned_less [of k', where 'a = nat] in simp_all)
  then show "k = k'" by (rule unsigned_word_eqI)
qed

lemmas string_table = str_keys.typed_find [folded HASH_FIND_STR_def] str_keys.typed_add [folded HASH_ADD_STR_def]
  str_keys.typed_replace [folded HASH_REPLACE_STR_def] str_keys.typed_delete [folded HASH_DEL_def]

lemmas int_table = int_keys.typed_find [folded HASH_FIND_INT_def] int_keys.typed_add [folded HASH_ADD_INT_def]
  int_keys.typed_replace [folded HASH_REPLACE_INT_def] int_keys.typed_delete [folded HASH_DEL_def]

lemmas ptr_table = ptr_keys.typed_find [folded HASH_FIND_PTR_def] ptr_keys.typed_add [folded HASH_ADD_PTR_def]
  ptr_keys.typed_replace [folded HASH_REPLACE_PTR_def] ptr_keys.typed_delete [folded HASH_DEL_def]

text \<open>What is replaced under one string is found under it, and under no other string that was not there.\<close>

lemma replaced_string_found:
  assumes "holds_typed str_key str_ok fcn s es" "str_ok k" "str_ok k'" "a \<notin> snd ` set es" "length es + 1 < 2 ^ 32" "\<forall>n. alloc n \<longrightarrow> n < 2 ^ 35"
  shows "HASH_REPLACE_STR fcn alloc s k a = Some None \<or>
    (\<exists>s'. HASH_REPLACE_STR fcn alloc s k a = Some (Some (s', map_of es k)) \<and> HASH_FIND_STR fcn s' k' = Some (if k' = k then Some a else map_of es k'))"
proof -
  have "map_of (filter (\<lambda>e. fst e \<noteq> k) es @ [(k, a)]) k' = (if k' = k then Some a else map_of es k')"
    by (induction es) auto
  then show ?thesis using string_table(3) [OF assms(1,2,4-6)] string_table(1) [OF _ assms(3)] by fastforce
qed

end
