(* ===== verification/MmAlloc.thy ===== *)
theory MmAlloc
  imports Prelude
begin

text \<open>
  The allocator of \<open>hw3/mm_alloc.c\<close>, over the bytes of memory. A block is a header of 32 bytes (\<open>prev\<close>,
  \<open>next\<close>, \<open>free\<close> with four bytes of padding, \<open>size\<close>) followed by its data; the headers are read and
  written through little-endian loads and stores, so a pointer to a place that is no longer a header reads what
  the bytes there say. Addresses and \<open>size_t\<close> values are integers below \<open>2 ^ 64\<close>, with the wrap-around
  written out; NULL is 0. An access outside the heap has no outcome. Only this allocator moves the program
  break, and \<open>sbrk\<close> fails when the break would pass \<open>heap_limit\<close>. The output of \<open>printf\<close> is left out.
\<close>

section \<open>Memory\<close>

fun get_le :: "(int \<Rightarrow> u8) \<Rightarrow> int \<Rightarrow> nat \<Rightarrow> int" where
  "get_le m a 0 = 0"
| "get_le m a (Suc n) = uint (m a) + 256 * get_le m (a + 1) n"

fun put_le :: "(int \<Rightarrow> u8) \<Rightarrow> int \<Rightarrow> nat \<Rightarrow> int \<Rightarrow> (int \<Rightarrow> u8)" where
  "put_le m a 0 v = m"
| "put_le m a (Suc n) v = put_le (m(a := word_of_int v)) (a + 1) n (v div 256)"

record mm =
  mem :: "int \<Rightarrow> u8"
  heap_start :: int
  brk :: int
  heap_limit :: int
  global_base :: int

definition in_heap :: "mm \<Rightarrow> int \<Rightarrow> int \<Rightarrow> bool" where
  "in_heap s a n \<longleftrightarrow> n = 0 \<or> (heap_start s \<le> a \<and> a + n \<le> brk s)"

definition mload :: "mm \<Rightarrow> int \<Rightarrow> nat \<Rightarrow> int option" where
  "mload s a n = (if in_heap s a (int n) then Some (get_le (mem s) a n) else None)"

definition mstore :: "mm \<Rightarrow> int \<Rightarrow> nat \<Rightarrow> int \<Rightarrow> mm option" where
  "mstore s a n v = (if in_heap s a (int n) then Some (s\<lparr>mem := put_le (mem s) a n v\<rparr>) else None)"

definition memset :: "mm \<Rightarrow> int \<Rightarrow> int \<Rightarrow> int \<Rightarrow> mm option" where
  "memset s p c n =
     (if in_heap s p n then Some (s\<lparr>mem := (\<lambda>a. if p \<le> a \<and> a < p + n then word_of_int c else mem s a)\<rparr>) else None)"

text \<open>\<open>memcpy\<close> on overlapping ranges is undefined.\<close>

definition memcpy :: "mm \<Rightarrow> int \<Rightarrow> int \<Rightarrow> int \<Rightarrow> mm option" where
  "memcpy s d src n =
     (if in_heap s d n \<and> in_heap s src n \<and> (d + n \<le> src \<or> src + n \<le> d)
      then Some (s\<lparr>mem := (\<lambda>a. if d \<le> a \<and> a < d + n then mem s (src + (a - d)) else mem s a)\<rparr>) else None)"

definition to_int64 :: "int \<Rightarrow> int" where
  "to_int64 n = (n + 2 ^ 63) mod 2 ^ 64 - 2 ^ 63"

definition sbrk :: "mm \<Rightarrow> int \<Rightarrow> int \<times> mm" where
  "sbrk s inc = (if heap_start s \<le> brk s + inc \<and> brk s + inc \<le> heap_limit s then (brk s, s\<lparr>brk := brk s + inc\<rparr>) else (-1, s))"

section \<open>Block headers\<close>

definition s_block :: int where
  "s_block = 32"

definition b_prev :: "mm \<Rightarrow> int \<Rightarrow> int option" where
  "b_prev s b = mload s b 8"

definition b_next :: "mm \<Rightarrow> int \<Rightarrow> int option" where
  "b_next s b = mload s (b + 8) 8"

definition b_free :: "mm \<Rightarrow> int \<Rightarrow> int option" where
  "b_free s b = mload s (b + 16) 4"

definition b_size :: "mm \<Rightarrow> int \<Rightarrow> int option" where
  "b_size s b = mload s (b + 24) 8"

definition set_prev :: "mm \<Rightarrow> int \<Rightarrow> int \<Rightarrow> mm option" where
  "set_prev s b v = mstore s b 8 v"

definition set_next :: "mm \<Rightarrow> int \<Rightarrow> int \<Rightarrow> mm option" where
  "set_next s b v = mstore s (b + 8) 8 v"

definition set_free :: "mm \<Rightarrow> int \<Rightarrow> int \<Rightarrow> mm option" where
  "set_free s b v = mstore s (b + 16) 4 v"

definition set_size :: "mm \<Rightarrow> int \<Rightarrow> int \<Rightarrow> mm option" where
  "set_size s b v = mstore s (b + 24) 8 v"

section \<open>Operations\<close>

text \<open>The loop of \<open>free_block_or_nah\<close>: the block found, or NULL, and the value of \<open>*last\<close>.\<close>

partial_function (option) free_loop :: "mm \<Rightarrow> int \<Rightarrow> int \<Rightarrow> int \<Rightarrow> (int \<times> int) option" where
  "free_loop s sz last_ptr cur =
     (if cur = 0 then Some (cur, last_ptr)
      else case b_free s cur of None \<Rightarrow> None
      | Some fr \<Rightarrow>
          (case (if fr = 0 then Some True else map_option (\<lambda>n. n < sz) (b_size s cur)) of None \<Rightarrow> None
           | Some skip \<Rightarrow>
               if skip
               then (case b_next s cur of None \<Rightarrow> None | Some nx \<Rightarrow> free_loop s sz cur nx)
               else Some (cur, last_ptr)))"

declare free_loop.simps [code]

definition free_block_or_nah :: "mm \<Rightarrow> int \<Rightarrow> int \<Rightarrow> (int \<times> int) option" where
  "free_block_or_nah s last_ptr sz = free_loop s sz last_ptr (global_base s)"

definition set_contents_safe :: "mm \<Rightarrow> int \<Rightarrow> int \<Rightarrow> int \<Rightarrow> int \<Rightarrow> int \<Rightarrow> mm option" where
  "set_contents_safe s b nx pv fr sz = do {
     s1 \<leftarrow> set_next s b nx;
     s2 \<leftarrow> set_prev s1 b pv;
     s3 \<leftarrow> set_free s2 b fr;
     set_size s3 b sz
   }"

definition combine_next :: "mm \<Rightarrow> int \<Rightarrow> mm option" where
  "combine_next s b = do {
     size_just_freed \<leftarrow> b_size s b;
     nx \<leftarrow> b_next s b;
     (if nx \<noteq> 0 then do {
        fr \<leftarrow> b_free s nx;
        (if fr = 1 then do {
           size_in_front \<leftarrow> b_size s nx;
           nn \<leftarrow> b_next s nx;
           pv \<leftarrow> b_prev s b;
           set_contents_safe s b nn pv 1 ((size_just_freed + s_block + size_in_front) mod 2 ^ 64)
         } else Some s)
      } else Some s)
   }"

definition combine_prev :: "mm \<Rightarrow> int \<Rightarrow> (int \<times> mm) option" where
  "combine_prev s b = do {
     pv \<leftarrow> b_prev s b;
     (if pv \<noteq> 0 then do {
        fr \<leftarrow> b_free s pv;
        (if fr = 1 then do {
           nx \<leftarrow> b_next s b;
           pp \<leftarrow> b_prev s pv;
           psz \<leftarrow> b_size s pv;
           sz \<leftarrow> b_size s b;
           s' \<leftarrow> set_contents_safe s pv nx pp 1 ((psz + s_block + sz) mod 2 ^ 64);
           r \<leftarrow> b_prev s' b;
           Some (r, s')
         } else Some (b, s))
      } else Some (b, s))
   }"

definition combine_block :: "mm \<Rightarrow> int \<Rightarrow> (int \<times> mm) option" where
  "combine_block s b = do { s1 \<leftarrow> combine_next s b; combine_prev s1 b }"

definition extend_heap :: "mm \<Rightarrow> int \<Rightarrow> int \<Rightarrow> (int \<times> mm) option" where
  "extend_heap s prev_end sz =
     (let block = fst (sbrk s 0);
          (request, s1) = sbrk s (to_int64 ((s_block + sz) mod 2 ^ 64))
      in if request = -1 then Some (0, s1)
         else do {
           s2 \<leftarrow> (if prev_end \<noteq> 0 then set_next s1 prev_end block else Some s1);
           s3 \<leftarrow> set_contents_safe s2 block 0 prev_end 0 sz;
           s4 \<leftarrow> memset s3 (block + s_block) 0 sz;
           Some (block, s4)
         })"

definition split_block_safe :: "mm \<Rightarrow> int \<Rightarrow> int \<Rightarrow> mm option" where
  "split_block_safe s b first_size = do {
     entireSize \<leftarrow> b_size s b;
     let second_size = (entireSize - first_size - s_block) mod 2 ^ 64;
     entireblocknext \<leftarrow> b_next s b;
     let second_block = (b + s_block + first_size) mod 2 ^ 64;
     pv \<leftarrow> b_prev s b;
     s1 \<leftarrow> set_contents_safe s b second_block pv 0 first_size;
     s2 \<leftarrow> memset s1 (b + s_block) 0 first_size;
     (if second_block \<noteq> 0 then do {
        s3 \<leftarrow> set_free s2 second_block 1;
        s4 \<leftarrow> set_next s3 second_block entireblocknext;
        s5 \<leftarrow> set_prev s4 second_block b;
        set_size s5 second_block second_size
      } else Some s2)
   }"

definition mm_malloc :: "mm \<Rightarrow> int \<Rightarrow> (int \<times> mm) option" where
  "mm_malloc s sz =
     (if sz = 0 then Some (0, s)
      else if global_base s = 0 then do {
        (block, s1) \<leftarrow> extend_heap s 0 sz;
        (if block = 0 then Some (0, s1)
         else Some (block + s_block, s1\<lparr>global_base := block\<rparr>))
      } else do {
        (block, last_ptr) \<leftarrow> free_block_or_nah s (global_base s) sz;
        (if block = 0 then do {
           (block, s1) \<leftarrow> extend_heap s last_ptr sz;
           (if block = 0 then Some (0, s1) else Some (block + s_block, s1))
         } else do {
           bsz \<leftarrow> b_size s block;
           (if bsz < (sz + s_block + 4) mod 2 ^ 64 then do {
              s1 \<leftarrow> memset s (block + s_block) 0 bsz;
              s2 \<leftarrow> set_free s1 block 0;
              Some (block + s_block, s2)
            } else do {
              s1 \<leftarrow> split_block_safe s block sz;
              bsz1 \<leftarrow> b_size s1 block;
              s2 \<leftarrow> memset s1 (block + s_block) 0 bsz1;
              s3 \<leftarrow> set_free s2 block 0;
              Some (block + s_block, s3)
            })
         })
      })"

definition mm_free :: "mm \<Rightarrow> int \<Rightarrow> mm option" where
  "mm_free s ptr =
     (if ptr = 0 then Some s
      else do {
        let block = ptr - s_block;
        s1 \<leftarrow> set_free s block 1;
        (_, s2) \<leftarrow> combine_block s1 block;
        Some s2
      })"

definition mm_realloc :: "mm \<Rightarrow> int \<Rightarrow> int \<Rightarrow> (int \<times> mm) option" where
  "mm_realloc s ptr sz =
     (if ptr = 0 then mm_malloc s sz
      else if sz = 0 then Some (0, s)
      else do {
        let block = ptr - s_block;
        (new_ptr, s1) \<leftarrow> mm_malloc s sz;
        (if new_ptr = 0 then Some (0, s1)
         else do {
           bsz \<leftarrow> b_size s1 block;
           s2 \<leftarrow> (if bsz < sz then do { s' \<leftarrow> memset s1 new_ptr 0 sz; memcpy s' new_ptr ptr bsz } else memcpy s1 new_ptr ptr sz);
           s3 \<leftarrow> mm_free s2 ptr;
           Some (new_ptr, s3)
         })
      })"

section \<open>Loads and stores\<close>

lemma get_le_cong: "\<forall>x. a \<le> x \<and> x < a + int n \<longrightarrow> m' x = m x \<Longrightarrow> get_le m' a n = get_le m a n"
proof (induction n arbitrary: a)
  case (Suc n)
  have "get_le m' (a + 1) n = get_le m (a + 1) n" by (rule Suc.IH) (use Suc.prems in auto)
  with Suc.prems show ?case by simp
qed simp

lemma get_le_bounds: "0 \<le> get_le m a n \<and> get_le m a n < 256 ^ n"
proof (induction n arbitrary: a)
  case (Suc n)
  have "uint (m a) < 256" using uint_lt2p [of "m a"] by simp
  moreover have "256 * get_le m (a + 1) n \<le> 256 * (256 ^ n - 1)" using Suc.IH [of "a + 1"] by simp
  ultimately show ?case using Suc.IH [of "a + 1"] by simp
qed simp

lemma put_le_other: "x < a \<or> a + int n \<le> x \<Longrightarrow> put_le m a n v x = m x"
  by (induction n arbitrary: m a v) auto

lemma get_put: "0 \<le> v \<Longrightarrow> v < 256 ^ n \<Longrightarrow> get_le (put_le m a n v) a n = v"
proof (induction n arbitrary: m a v)
  case (Suc n)
  have "get_le (put_le (m(a := word_of_int v)) (a + 1) n (v div 256)) (a + 1) n = v div 256"
    by (rule Suc.IH) (use Suc.prems in auto)
  then show ?case using Suc.prems by (simp add: put_le_other uint_word_of_int)
qed simp

lemma get_put_other: "a + int k \<le> b \<or> b + int n \<le> a \<Longrightarrow> get_le (put_le m b n v) a k = get_le m a k"
  by (rule get_le_cong) (auto intro: put_le_other)

text \<open>The header at an address.\<close>

definition header :: "(int \<Rightarrow> u8) \<Rightarrow> int \<Rightarrow> int \<times> int \<times> int \<times> int" where
  "header m b = (get_le m b 8, get_le m (b + 8) 8, get_le m (b + 16) 4, get_le m (b + 24) 8)"

lemma header_cong: "\<forall>x. b \<le> x \<and> x < b + 32 \<longrightarrow> m' x = m x \<Longrightarrow> header m' b = header m b"
  by (simp add: header_def get_le_cong)

lemma header_fields:
  assumes "in_heap s b 32" "header (mem s) b = (pv, nx, fr, sz)"
  shows "b_prev s b = Some pv" "b_next s b = Some nx" "b_free s b = Some fr" "b_size s b = Some sz"
  using assms by (auto simp: header_def b_prev_def b_next_def b_free_def b_size_def mload_def in_heap_def)

text \<open>Writing a header, or a field of one, in a state whose memory is all that changes.\<close>

definition word_ok :: "int \<Rightarrow> bool" where
  "word_ok v \<longleftrightarrow> 0 \<le> v \<and> v < 2 ^ 64"

lemma set_field:
  assumes "in_heap s b 32" "header (mem s) b = (pv, nx, fr, sz)"
  shows "word_ok v \<Longrightarrow> \<exists>m. set_next s b v = Some (s\<lparr>mem := m\<rparr>) \<and> header m b = (pv, v, fr, sz) \<and> (\<forall>x. x < b \<or> b + 32 \<le> x \<longrightarrow> m x = mem s x)"
    and "word_ok v \<Longrightarrow> \<exists>m. set_prev s b v = Some (s\<lparr>mem := m\<rparr>) \<and> header m b = (v, nx, fr, sz) \<and> (\<forall>x. x < b \<or> b + 32 \<le> x \<longrightarrow> m x = mem s x)"
    and "v \<in> {0, 1} \<Longrightarrow> \<exists>m. set_free s b v = Some (s\<lparr>mem := m\<rparr>) \<and> header m b = (pv, nx, v, sz) \<and> (\<forall>x. x < b \<or> b + 32 \<le> x \<longrightarrow> m x = mem s x)"
    and "word_ok v \<Longrightarrow> \<exists>m. set_size s b v = Some (s\<lparr>mem := m\<rparr>) \<and> header m b = (pv, nx, fr, v) \<and> (\<forall>x. x < b \<or> b + 32 \<le> x \<longrightarrow> m x = mem s x)"
  using assms
  by (auto simp: set_next_def set_prev_def set_free_def set_size_def mstore_def in_heap_def header_def get_put_other get_put put_le_other word_ok_def)

lemma set_contents:
  assumes "in_heap s b 32" "word_ok nx" "word_ok pv" "fr \<in> {0, 1}" "word_ok sz"
  shows "\<exists>m. set_contents_safe s b nx pv fr sz = Some (s\<lparr>mem := m\<rparr>) \<and> header m b = (pv, nx, fr, sz) \<and>
    (\<forall>x. x < b \<or> b + 32 \<le> x \<longrightarrow> m x = mem s x)"
proof -
  obtain pv0 nx0 fr0 sz0 where h: "header (mem s) b = (pv0, nx0, fr0, sz0)" by (cases "header (mem s) b")
  obtain m1 where m1: "set_next s b nx = Some (s\<lparr>mem := m1\<rparr>)" "header m1 b = (pv0, nx, fr0, sz0)" "\<forall>x. x < b \<or> b + 32 \<le> x \<longrightarrow> m1 x = mem s x"
    using set_field(1) [OF assms(1) h assms(2)] by blast
  have in1: "in_heap (s\<lparr>mem := m\<rparr>) b 32" for m using assms(1) by (simp add: in_heap_def)
  obtain m2 where m2: "set_prev (s\<lparr>mem := m1\<rparr>) b pv = Some (s\<lparr>mem := m2\<rparr>)" "header m2 b = (pv, nx, fr0, sz0)" "\<forall>x. x < b \<or> b + 32 \<le> x \<longrightarrow> m2 x = m1 x"
    using set_field(2) [OF in1 [of m1], of pv0 nx fr0 sz0 pv] m1(2) assms(3) by auto
  obtain m3 where m3: "set_free (s\<lparr>mem := m2\<rparr>) b fr = Some (s\<lparr>mem := m3\<rparr>)" "header m3 b = (pv, nx, fr, sz0)" "\<forall>x. x < b \<or> b + 32 \<le> x \<longrightarrow> m3 x = m2 x"
    using set_field(3) [OF in1 [of m2], of pv nx fr0 sz0 fr] m2(2) assms(4) by auto
  obtain m4 where m4: "set_size (s\<lparr>mem := m3\<rparr>) b sz = Some (s\<lparr>mem := m4\<rparr>)" "header m4 b = (pv, nx, fr, sz)" "\<forall>x. x < b \<or> b + 32 \<le> x \<longrightarrow> m4 x = m3 x"
    using set_field(4) [OF in1 [of m3], of pv nx fr sz0 sz] m3(2) assms(5) by auto
  from m1 m2 m3 m4 show ?thesis by (intro exI [of _ m4]) (simp add: set_contents_safe_def)
qed

section \<open>Blocks\<close>

text \<open>The blocks from \<open>a\<close> to \<open>e\<close> in a heap that ends at \<open>tp\<close>: sizes and whether they are free; the
  links to the blocks behind are right, those to the blocks before are left open.\<close>

fun seg :: "(int \<Rightarrow> u8) \<Rightarrow> int \<Rightarrow> int \<Rightarrow> (int \<times> bool) list \<Rightarrow> int \<Rightarrow> bool" where
  "seg m tp a [] e \<longleftrightarrow> a = e"
| "seg m tp a ((sz, fr) # bs) e \<longleftrightarrow> 0 \<le> sz \<and>
     (\<exists>pv. header m a = (pv, if a + 32 + sz = tp then 0 else a + 32 + sz, if fr then 1 else 0, sz)) \<and> seg m tp (a + 32 + sz) bs e"

definition span :: "(int \<times> bool) list \<Rightarrow> int" where
  "span bs = sum_list (map (\<lambda>b. 32 + fst b) bs)"

lemma span_simps [simp]: "span [] = 0" "span (b # bs) = 32 + fst b + span bs" "span (xs @ ys) = span xs + span ys"
  by (simp_all add: span_def)

lemma seg_append: "seg m tp a (xs @ ys) e \<longleftrightarrow> seg m tp a xs (a + span xs) \<and> seg m tp (a + span xs) ys e"
  by (induction xs arbitrary: a) (auto simp: add.assoc)

lemma seg_end: "seg m tp a bs e \<Longrightarrow> e = a + span bs \<and> 0 \<le> span bs"
  by (induction bs arbitrary: a) force+

lemma seg_frame: "seg m tp a bs e \<Longrightarrow> \<forall>x. a \<le> x \<and> x < e \<longrightarrow> m' x = m x \<Longrightarrow> seg m' tp a bs e"
proof (induction bs arbitrary: a)
  case (Cons b bs)
  obtain sz fr where b: "b = (sz, fr)" by (cases b)
  have rest: "seg m tp (a + 32 + sz) bs e" "0 \<le> sz" using Cons.prems(1) by (auto simp: b)
  then have e: "a + 32 + sz \<le> e" using seg_end by fastforce
  have "header m' a = header m a" by (rule header_cong) (use Cons.prems(2) e rest(2) in auto)
  moreover have "seg m' tp (a + 32 + sz) bs e" by (rule Cons.IH [OF rest(1)]) (use Cons.prems(2) rest(2) in auto)
  ultimately show ?case using Cons.prems(1) by (simp add: b)
qed simp

text \<open>The end of the heap matters only where a block reaches it.\<close>

lemma seg_top: "seg m tp a bs e \<Longrightarrow> e < tp \<Longrightarrow> e < tp' \<Longrightarrow> seg m tp' a bs e"
proof (induction bs arbitrary: a)
  case (Cons b bs)
  obtain sz fr where b: "b = (sz, fr)" by (cases b)
  have "a + 32 + sz \<le> e" using Cons.prems(1) seg_end [of m tp "a + 32 + sz" bs e] by (simp add: b)
  with Cons show ?case by (auto simp: b)
qed simp

text \<open>A heap whose blocks are \<open>bs\<close>, with no block before the first allocation.\<close>

definition heap_ok :: "mm \<Rightarrow> (int \<times> bool) list \<Rightarrow> bool" where
  "heap_ok s bs \<longleftrightarrow> 0 < heap_start s \<and> brk s \<le> heap_limit s \<and> heap_limit s < 2 ^ 63 \<and>
     global_base s = (if bs = [] then 0 else heap_start s) \<and> seg (mem s) (brk s) (heap_start s) bs (brk s)"

text \<open>The data ranges of the blocks in use.\<close>

fun used :: "int \<Rightarrow> (int \<times> bool) list \<Rightarrow> (int \<times> int) set" where
  "used a [] = {}"
| "used a ((sz, fr) # bs) = (if fr then {} else {(a + 32, sz)}) \<union> used (a + 32 + sz) bs"

lemma used_append: "used a (xs @ ys) = used a xs \<union> used (a + span xs) ys"
  by (induction a xs rule: used.induct) (auto simp: add.assoc)

lemma used_bounds: "seg m tp a bs e \<Longrightarrow> (p, n) \<in> used a bs \<Longrightarrow> a + 32 \<le> p \<and> p + n \<le> e \<and> 0 \<le> n"
proof (induction a bs rule: used.induct)
  case (2 a sz fr bs)
  have "a + 32 + sz \<le> e" using 2(2) seg_end [of m tp "a + 32 + sz" bs e] by simp
  with 2 show ?case by (auto split: if_splits)
qed simp

lemma used_disjoint:
  "seg m tp a bs e \<Longrightarrow> (p, n) \<in> used a bs \<Longrightarrow> (q, k) \<in> used a bs \<Longrightarrow> (p, n) = (q, k) \<or> p + n + 32 \<le> q \<or> q + k + 32 \<le> p"
proof (induction a bs rule: used.induct)
  case (2 a sz fr bs)
  then show ?case using used_bounds [of m tp "a + 32 + sz" bs e] by (fastforce split: if_splits)
qed simp

section \<open>The search for a free block\<close>

lemma seg_nonempty: "seg m tp a bs e \<Longrightarrow> bs \<noteq> [] \<Longrightarrow> a + 32 \<le> e"
proof -
  assume s: "seg m tp a bs e" "bs \<noteq> []"
  then obtain n fr bs' where bs: "bs = (n, fr) # bs'" by (metis list.exhaust surj_pair)
  then show ?thesis using s(1) seg_end [of m tp "a + 32 + n" bs' e] by simp
qed

lemma seg_empty: "seg m tp a bs e \<Longrightarrow> a = e \<longleftrightarrow> bs = []"
  using seg_nonempty [of m tp a bs e] by (cases bs) auto

lemma seg_head:
  assumes "seg m tp a ((n, fr) # bs) tp"
  shows "0 \<le> n" "a + 32 + n \<le> tp" "a + 32 + n = tp \<longleftrightarrow> bs = []" "seg m tp (a + 32 + n) bs tp"
    "\<exists>pv. header m a = (pv, if bs = [] then 0 else a + 32 + n, if fr then 1 else 0, n)"
proof -
  show s: "seg m tp (a + 32 + n) bs tp" and "0 \<le> n" using assms by simp_all
  show "a + 32 + n \<le> tp" using seg_end [OF s] by simp
  show e: "a + 32 + n = tp \<longleftrightarrow> bs = []" using seg_empty [OF s] .
  show "\<exists>pv. header m a = (pv, if bs = [] then 0 else a + 32 + n, if fr then 1 else 0, n)" using assms e by auto
qed

definition start_of :: "int \<Rightarrow> (int \<times> bool) list \<Rightarrow> int" where
  "start_of a bs = (if bs = [] then 0 else a)"

definition too_small :: "int \<Rightarrow> int \<times> bool \<Rightarrow> bool" where
  "too_small sz b \<longleftrightarrow> \<not> snd b \<or> fst b < sz"

lemma free_loop_skips:
  assumes "seg (mem s) (brk s) a (pre @ rest) (brk s)" "heap_start s \<le> a" "0 < heap_start s" "list_all (too_small sz) pre"
  shows "free_loop s sz l (start_of a (pre @ rest)) = free_loop s sz (if pre = [] then l else a + span (butlast pre)) (start_of (a + span pre) rest)"
  using assms
proof (induction pre arbitrary: a l)
  case (Cons b pre)
  obtain n fr where b: "b = (n, fr)" by (cases b)
  note h = seg_head [OF Cons.prems(1) [unfolded b append_Cons]]
  obtain pv where hd: "header (mem s) a = (pv, start_of (a + 32 + n) (pre @ rest), if fr then 1 else 0, n)"
    using h(5) by (auto simp: start_of_def)
  have inh: "in_heap s a 32" using h(1,2) Cons.prems(2) by (simp add: in_heap_def)
  have a0: "a \<noteq> 0" using Cons.prems(2,3) by simp
  have skip: "free_loop s sz l a = free_loop s sz a (start_of (a + 32 + n) (pre @ rest))"
    using a0 header_fields [OF inh hd] Cons.prems(4) b by (subst free_loop.simps) (auto simp: too_small_def)
  have "free_loop s sz a (start_of (a + 32 + n) (pre @ rest)) =
      free_loop s sz (if pre = [] then a else a + 32 + n + span (butlast pre)) (start_of (a + 32 + n + span pre) rest)"
    by (rule Cons.IH) (use h(1,4) Cons.prems in auto)
  with skip show ?case by (auto simp: start_of_def b add.assoc)
qed simp

lemma free_loop_none: "free_loop s sz l 0 = Some (0, l)"
  by (simp add: free_loop.simps)

lemma free_loop_hit:
  assumes "seg (mem s) (brk s) a ((n, True) # rest) (brk s)" "heap_start s \<le> a" "0 < heap_start s" "sz \<le> n"
  shows "free_loop s sz l a = Some (a, l)"
proof -
  obtain pv nx where hd: "header (mem s) a = (pv, nx, 1, n)" using assms(1) by auto
  have "in_heap s a 32" using seg_head(1,2) [OF assms(1)] assms(2) by (simp add: in_heap_def)
  from header_fields [OF this hd] assms(2-4) show ?thesis by (subst free_loop.simps) auto
qed

text \<open>The search finds the first block that is free and large enough.\<close>

lemma free_block_found:
  assumes "heap_ok s (pre @ (n, True) # post)" "list_all (too_small sz) pre" "sz \<le> n"
  shows "\<exists>l. free_block_or_nah s (global_base s) sz = Some (heap_start s + span pre, l)"
proof -
  let ?a = "heap_start s"
  have g: "global_base s = ?a" "0 < ?a" and sg: "seg (mem s) (brk s) ?a (pre @ (n, True) # post) (brk s)"
    using assms(1) by (simp_all add: heap_ok_def)
  have "0 \<le> span pre" using sg seg_append seg_end by blast
  then show ?thesis
    using free_loop_skips [OF sg order_refl g(2) assms(2), of ?a] free_loop_hit [of s "?a + span pre" n post sz] sg g assms(3)
    by (auto simp: free_block_or_nah_def start_of_def seg_append)
qed

lemma free_block_missing:
  assumes "heap_ok s bs" "bs \<noteq> []" "list_all (too_small sz) bs"
  shows "free_block_or_nah s (global_base s) sz = Some (0, heap_start s + span (butlast bs))"
  using free_loop_skips [of s "heap_start s" bs "[]" sz "heap_start s"] assms
  by (simp add: heap_ok_def free_block_or_nah_def start_of_def free_loop_none)

lemma first_fit: "list_all (too_small sz) bs \<or> (\<exists>pre n post. bs = pre @ (n, True) # post \<and> list_all (too_small sz) pre \<and> sz \<le> n)"
proof (induction bs)
  case (Cons b bs)
  show ?case
  proof (cases "too_small sz b")
    case True
    with Cons.IH show ?thesis by (metis append_Cons list.pred_inject(2))
  next
    case False
    then have "b = (fst b, True)" "sz \<le> fst b" by (auto simp: too_small_def prod_eq_iff)
    then show ?thesis by (metis append_Nil list.pred_inject(1))
  qed
qed simp

section \<open>Replacing blocks\<close>

lemma replace_blocks:
  assumes "heap_ok s (pre @ old @ post)" "old \<noteq> []" "mid \<noteq> []"
    and "seg m (brk s) (heap_start s + span pre) mid (heap_start s + span pre + span old)"
    and "\<forall>x. x < heap_start s + span pre \<or> heap_start s + span pre + span old \<le> x \<longrightarrow> m x = mem s x"
  shows "heap_ok (s\<lparr>mem := m\<rparr>) (pre @ mid @ post)"
proof -
  let ?b = "heap_start s + span pre"
  have sg: "seg (mem s) (brk s) (heap_start s) pre ?b" "seg (mem s) (brk s) (?b + span old) post (brk s)"
    using assms(1) by (simp_all add: heap_ok_def seg_append)
  have "seg m (brk s) (heap_start s) pre ?b" by (rule seg_frame [OF sg(1)]) (use assms(5) in auto)
  moreover have "seg m (brk s) (?b + span old) post (brk s)" by (rule seg_frame [OF sg(2)]) (use assms(5) in auto)
  moreover have "span mid = span old" using seg_end [OF assms(4)] by simp
  ultimately show ?thesis using assms(1-4) by (simp add: heap_ok_def seg_append)
qed

text \<open>The blocks in use outside the replaced ones keep their data.\<close>

lemma used_outside:
  assumes "heap_ok s (pre @ old @ post)" "(p, k) \<in> used (heap_start s) pre \<union> used (heap_start s + span pre + span old) post"
  shows "p + k \<le> heap_start s + span pre \<or> heap_start s + span pre + span old + 32 \<le> p"
proof -
  have "seg (mem s) (brk s) (heap_start s) pre (heap_start s + span pre)"
    "seg (mem s) (brk s) (heap_start s + span pre + span old) post (brk s)"
    using assms(1) by (simp_all add: heap_ok_def seg_append)
  with used_bounds assms(2) show ?thesis by blast
qed

lemma memset_in:
  assumes "heap_start s \<le> p" "p + n \<le> brk s"
  shows "memset s p 0 n = Some (s\<lparr>mem := (\<lambda>a. if p \<le> a \<and> a < p + n then 0 else mem s a)\<rparr>)"
  using assms by (simp add: memset_def in_heap_def cong: if_cong)

lemma memset_mem:
  assumes "heap_start s \<le> p" "p + n \<le> brk s"
  shows "memset (s\<lparr>mem := m\<rparr>) p 0 n = Some (s\<lparr>mem := (\<lambda>a. if p \<le> a \<and> a < p + n then 0 else m a)\<rparr>)"
  using assms by (simp add: memset_def in_heap_def cong: if_cong)

lemma seg_block_size:
  assumes "seg (mem s) (brk s) b ((n, fr) # post) (brk s)" "heap_start s \<le> b"
  shows "b_size s b = Some n"
proof -
  have "in_heap s b 32" using seg_head(1,2) [OF assms(1)] assms(2) by (simp add: in_heap_def)
  with seg_head(5) [OF assms(1)] header_fields(4) show ?thesis by blast
qed

section \<open>Allocation\<close>

text \<open>A block of at least \<open>sz\<close> zero bytes has been added at \<open>ptr\<close> to the ones in use, apart from all of
  them, and their data and backward links are as before.\<close>

definition new_block :: "mm \<Rightarrow> (int \<times> bool) list \<Rightarrow> int \<Rightarrow> int \<Rightarrow> mm \<Rightarrow> (int \<times> bool) list \<Rightarrow> bool" where
  "new_block s bs sz ptr s' bs' \<longleftrightarrow> heap_ok s' bs' \<and> heap_start s' = heap_start s \<and>
     (\<exists>n \<ge> sz. used (heap_start s) bs' = insert (ptr, n) (used (heap_start s) bs) \<and>
        (\<forall>x. ptr \<le> x \<and> x < ptr + n \<longrightarrow> mem s' x = 0) \<and>
        (\<forall>(p, k) \<in> used (heap_start s) bs. (p + k \<le> ptr \<or> ptr + n \<le> p) \<and> (\<forall>x. p \<le> x \<and> x < p + k \<longrightarrow> mem s' x = mem s x) \<and>
           fst (header (mem s') (p - 32)) = fst (header (mem s) (p - 32))))"

lemma new_block_inside:
  assumes "heap_ok s (pre @ (n, True) # post)" "sz \<le> k" "list_all snd rem"
    and "seg m (brk s) (heap_start s + span pre) ((k, False) # rem) (heap_start s + span pre + 32 + n)"
    and frame: "\<forall>x. x < heap_start s + span pre \<or> heap_start s + span pre + 32 + n \<le> x \<longrightarrow> m x = mem s x"
    and "\<forall>x. heap_start s + span pre + 32 \<le> x \<and> x < heap_start s + span pre + 32 + k \<longrightarrow> m x = 0"
  shows "new_block s (pre @ (n, True) # post) sz (heap_start s + span pre + 32) (s\<lparr>mem := m\<rparr>) (pre @ ((k, False) # rem) @ post)"
proof -
  let ?b = "heap_start s + span pre"
  have h: "heap_ok s (pre @ [(n, True)] @ post)" using assms(1) by simp
  have ok: "heap_ok (s\<lparr>mem := m\<rparr>) (pre @ ((k, False) # rem) @ post)"
    by (rule replace_blocks [OF h]) (use assms(4) frame in \<open>auto simp: add.assoc\<close>)
  have none: "used a rem = {}" for a using assms(3) by (induction a rem rule: used.induct) auto
  have sp: "32 + k + span rem = 32 + n" "0 \<le> span rem" using seg_end [OF assms(4)] seg_end [of m "brk s" "?b + 32 + k" rem] assms(4) by auto
  have u: "used (heap_start s) (pre @ ((k, False) # rem) @ post) = insert (?b + 32, k) (used (heap_start s) (pre @ (n, True) # post))"
    using none sp by (simp add: used_append add.assoc)
  have out: "p + q \<le> ?b \<or> ?b + 32 + n + 32 \<le> p" if "(p, q) \<in> used (heap_start s) (pre @ (n, True) # post)" for p q
    using used_outside [OF h, of p q] that by (auto simp: used_append add.assoc)
  have "k \<le> n" using sp by simp
  moreover have "0 \<le> q" if "(p, q) \<in> used (heap_start s) (pre @ (n, True) # post)" for p q
    using used_bounds that assms(1) unfolding heap_ok_def by blast
  ultimately have "(p + q \<le> ?b + 32 \<or> ?b + 32 + k \<le> p) \<and> (\<forall>x. p \<le> x \<and> x < p + q \<longrightarrow> m x = mem s x) \<and>
      header m (p - 32) = header (mem s) (p - 32)"
    if "(p, q) \<in> used (heap_start s) (pre @ (n, True) # post)" for p q
    using out [OF that] frame that by (fastforce intro: header_cong)
  then have "\<forall>(p, q) \<in> used (heap_start s) (pre @ (n, True) # post).
      (p + q \<le> ?b + 32 \<or> ?b + 32 + k \<le> p) \<and> (\<forall>x. p \<le> x \<and> x < p + q \<longrightarrow> m x = mem s x) \<and>
      fst (header m (p - 32)) = fst (header (mem s) (p - 32))" by fastforce
  with ok u assms(2,6) show ?thesis unfolding new_block_def by (intro conjI exI [of _ k]) simp_all
qed

lemma malloc_reuse:
  assumes "heap_ok s (pre @ (n, True) # post)" "sz \<le> n"
  defines "b \<equiv> heap_start s + span pre"
  shows "\<exists>s1 s2. memset s (b + s_block) 0 n = Some s1 \<and> set_free s1 b 0 = Some s2 \<and>
    new_block s (pre @ (n, True) # post) sz (b + s_block) s2 (pre @ [(n, False)] @ post)"
proof -
  have sg: "seg (mem s) (brk s) b ((n, True) # post) (brk s)" "0 \<le> span pre"
    using assms(1) seg_end unfolding b_def heap_ok_def seg_append by blast+
  note hd = seg_head [OF sg(1)]
  then obtain pv where pv: "header (mem s) b = (pv, if post = [] then 0 else b + 32 + n, 1, n)" by auto
  define m1 where "m1 = (\<lambda>a. if b + 32 \<le> a \<and> a < b + 32 + n then 0 else mem s a)"
  have set: "memset s (b + s_block) 0 n = Some (s\<lparr>mem := m1\<rparr>)"
    using memset_in [of s "b + 32" n] hd(2) sg(2) by (simp add: s_block_def m1_def b_def)
  have "header m1 b = (pv, if post = [] then 0 else b + 32 + n, 1, n)"
    using header_cong [of b m1 "mem s"] pv by (simp add: m1_def)
  moreover have "in_heap (s\<lparr>mem := m1\<rparr>) b 32" using hd(1,2) sg(2) by (simp add: in_heap_def b_def)
  ultimately obtain m2 where m2: "set_free (s\<lparr>mem := m1\<rparr>) b 0 = Some (s\<lparr>mem := m2\<rparr>)"
    "header m2 b = (pv, if post = [] then 0 else b + 32 + n, 0, n)" "\<forall>x. x < b \<or> b + 32 \<le> x \<longrightarrow> m2 x = m1 x"
    using set_field(3) [of "s\<lparr>mem := m1\<rparr>" b _ _ _ _ 0] by auto
  have "new_block s (pre @ (n, True) # post) sz (b + 32) (s\<lparr>mem := m2\<rparr>) (pre @ ((n, False) # []) @ post)"
    unfolding b_def by (rule new_block_inside [OF assms(1,2)]) (use m2(2,3) hd(1,3) in \<open>auto simp: b_def [symmetric] m1_def\<close>)
  with set m2(1) show ?thesis by (auto simp: s_block_def)
qed

text \<open>The four assignments to the header of the second block.\<close>

lemma set_second:
  assumes "in_heap s b 32" "word_ok nx" "word_ok pv" "fr \<in> {0, 1}" "word_ok sz"
  shows "\<exists>m. do { s3 \<leftarrow> set_free s b fr; s4 \<leftarrow> set_next s3 b nx; s5 \<leftarrow> set_prev s4 b pv; set_size s5 b sz } = Some (s\<lparr>mem := m\<rparr>) \<and>
    header m b = (pv, nx, fr, sz) \<and> (\<forall>x. x < b \<or> b + 32 \<le> x \<longrightarrow> m x = mem s x)"
proof -
  obtain pv0 nx0 fr0 sz0 where h: "header (mem s) b = (pv0, nx0, fr0, sz0)" by (cases "header (mem s) b")
  have in1: "in_heap (s\<lparr>mem := m\<rparr>) b 32" for m using assms(1) by (simp add: in_heap_def)
  obtain m1 where m1: "set_free s b fr = Some (s\<lparr>mem := m1\<rparr>)" "header m1 b = (pv0, nx0, fr, sz0)" "\<forall>x. x < b \<or> b + 32 \<le> x \<longrightarrow> m1 x = mem s x"
    using set_field(3) [OF assms(1) h assms(4)] by blast
  obtain m2 where m2: "set_next (s\<lparr>mem := m1\<rparr>) b nx = Some (s\<lparr>mem := m2\<rparr>)" "header m2 b = (pv0, nx, fr, sz0)" "\<forall>x. x < b \<or> b + 32 \<le> x \<longrightarrow> m2 x = m1 x"
    using set_field(1) [OF in1 [of m1], of pv0 nx0 fr sz0 nx] m1(2) assms(2) by auto
  obtain m3 where m3: "set_prev (s\<lparr>mem := m2\<rparr>) b pv = Some (s\<lparr>mem := m3\<rparr>)" "header m3 b = (pv, nx, fr, sz0)" "\<forall>x. x < b \<or> b + 32 \<le> x \<longrightarrow> m3 x = m2 x"
    using set_field(2) [OF in1 [of m2], of pv0 nx fr sz0 pv] m2(2) assms(3) by auto
  obtain m4 where m4: "set_size (s\<lparr>mem := m3\<rparr>) b sz = Some (s\<lparr>mem := m4\<rparr>)" "header m4 b = (pv, nx, fr, sz)" "\<forall>x. x < b \<or> b + 32 \<le> x \<longrightarrow> m4 x = m3 x"
    using set_field(4) [OF in1 [of m3], of pv nx fr sz0 sz] m3(2) assms(5) by auto
  from m1 m2 m3 m4 show ?thesis by (intro exI [of _ m4]) simp
qed

lemma split_block:
  assumes "in_heap s b (32 + n)" "0 < b" "brk s < 2 ^ 63" "header (mem s) b = (pv, nx, fr, n)" "word_ok nx" "0 < sz" "sz + 36 \<le> n"
  shows "\<exists>m. split_block_safe s b sz = Some (s\<lparr>mem := m\<rparr>) \<and> header m b = (pv, b + 32 + sz, 0, sz) \<and>
    header m (b + 32 + sz) = (b, nx, 1, n - sz - 32) \<and> (\<forall>x. x < b \<or> b + 32 + sz + 32 \<le> x \<longrightarrow> m x = mem s x)"
proof -
  have "word_ok pv" using assms(4) get_le_bounds [of "mem s" b 8] by (simp add: header_def word_ok_def)
  have b: "heap_start s \<le> b" "b + 32 + n \<le> brk s" using assms(1,6,7) by (auto simp: in_heap_def)
  then have w: "word_ok (b + 32 + sz)" "word_ok sz" "word_ok b" "word_ok (n - sz - 32)"
    using assms(2,3,6,7) by (auto simp: word_ok_def)
  have ins: "in_heap s b 32" "in_heap (s\<lparr>mem := m\<rparr>) (b + 32 + sz) 32" for m using b assms(6,7) by (auto simp: in_heap_def)
  obtain m1 where m1: "set_contents_safe s b (b + 32 + sz) pv 0 sz = Some (s\<lparr>mem := m1\<rparr>)" "header m1 b = (pv, b + 32 + sz, 0, sz)"
    "\<forall>x. x < b \<or> b + 32 \<le> x \<longrightarrow> m1 x = mem s x"
    using set_contents [OF ins(1) w(1) \<open>word_ok pv\<close> _ w(2), of 0] by auto
  define m2 where "m2 = (\<lambda>a. if b + 32 \<le> a \<and> a < b + 32 + sz then 0 else m1 a)"
  have set2: "memset (s\<lparr>mem := m1\<rparr>) (b + 32) 0 sz = Some (s\<lparr>mem := m2\<rparr>)"
    using memset_mem [of s "b + 32" sz m1] b assms(6,7) by (simp add: m2_def)
  have h2: "header m2 b = (pv, b + 32 + sz, 0, sz)" using header_cong [of b m2 m1] m1(2) by (simp add: m2_def)
  obtain m3 where m3: "do { s3 \<leftarrow> set_free (s\<lparr>mem := m2\<rparr>) (b + 32 + sz) 1; s4 \<leftarrow> set_next s3 (b + 32 + sz) nx; s5 \<leftarrow> set_prev s4 (b + 32 + sz) b;
      set_size s5 (b + 32 + sz) (n - sz - 32) } = Some (s\<lparr>mem := m3\<rparr>)" "header m3 (b + 32 + sz) = (b, nx, 1, n - sz - 32)"
    "\<forall>x. x < b + 32 + sz \<or> b + 32 + sz + 32 \<le> x \<longrightarrow> m3 x = m2 x"
    using set_second [OF ins(2) [of m2] assms(5) w(3) _ w(4), of 1] by auto
  have mods: "(n - sz - 32) mod 2 ^ 64 = n - sz - 32" "(b + 32 + sz) mod 2 ^ 64 = b + 32 + sz" using w(1,4) by (simp_all add: word_ok_def)
  have "split_block_safe s b sz = Some (s\<lparr>mem := m3\<rparr>)"
    using header_fields [OF ins(1) assms(4)] m1(1) set2 m3(1) assms(2,6)
    by (simp add: split_block_safe_def s_block_def mods [simplified])
  moreover have "header m3 b = (pv, b + 32 + sz, 0, sz)" using header_cong [of b m3 m2] m3(3) h2 assms(6) by simp
  ultimately show ?thesis using m3(2,3) m1(3) assms(6) by (intro exI [of _ m3]) (simp add: m2_def)
qed

lemma malloc_split:
  assumes "heap_ok s (pre @ (n, True) # post)" "0 < sz" "sz + 36 \<le> n"
  defines "b \<equiv> heap_start s + span pre"
  shows "\<exists>s1 s2 s3. split_block_safe s b sz = Some s1 \<and> b_size s1 b = Some sz \<and> memset s1 (b + s_block) 0 sz = Some s2 \<and> set_free s2 b 0 = Some s3 \<and>
    new_block s (pre @ (n, True) # post) sz (b + s_block) s3 (pre @ [(sz, False), (n - sz - 32, True)] @ post)"
proof -
  have sg: "seg (mem s) (brk s) b ((n, True) # post) (brk s)" "0 \<le> span pre"
    using assms(1) seg_end unfolding b_def heap_ok_def seg_append by blast+
  note hd = seg_head [OF sg(1)]
  define nx where "nx = (if post = [] then 0 else b + 32 + n)"
  obtain pv where pv: "header (mem s) b = (pv, nx, 1, n)" using hd(5) by (auto simp: nx_def)
  have lim: "0 < heap_start s" "brk s < 2 ^ 63" using assms(1) by (auto simp: heap_ok_def)
  have b: "0 < b" "heap_start s \<le> b" "b + 32 + n \<le> brk s" using lim sg(2) hd(2) by (simp_all add: b_def)
  have nx: "word_ok nx" using b lim hd(1) by (auto simp: word_ok_def nx_def)
  have inb: "in_heap (s\<lparr>mem := m\<rparr>) b 32" "in_heap s b (32 + n)" for m using b hd(1) by (auto simp: in_heap_def)
  obtain m3 where m3: "split_block_safe s b sz = Some (s\<lparr>mem := m3\<rparr>)" "header m3 b = (pv, b + 32 + sz, 0, sz)"
    "header m3 (b + 32 + sz) = (b, nx, 1, n - sz - 32)" "\<forall>x. x < b \<or> b + 32 + sz + 32 \<le> x \<longrightarrow> m3 x = mem s x"
    using split_block [OF inb(2) b(1) lim(2) pv nx assms(2,3)] by blast
  have size3: "b_size (s\<lparr>mem := m3\<rparr>) b = Some sz" by (rule header_fields(4) [OF inb(1)]) (simp add: m3(2))
  define m4 where "m4 = (\<lambda>a. if b + 32 \<le> a \<and> a < b + 32 + sz then 0 else m3 a)"
  have set4: "memset (s\<lparr>mem := m3\<rparr>) (b + 32) 0 sz = Some (s\<lparr>mem := m4\<rparr>)"
    using memset_mem [of s "b + 32" sz m3] b assms(3) by (simp add: m4_def)
  have h4: "header m4 b = (pv, b + 32 + sz, 0, sz)" using header_cong [of b m4 m3] m3(2) by (simp add: m4_def)
  obtain m5 where m5: "set_free (s\<lparr>mem := m4\<rparr>) b 0 = Some (s\<lparr>mem := m5\<rparr>)" "header m5 b = (pv, b + 32 + sz, 0, sz)"
    "\<forall>x. x < b \<or> b + 32 \<le> x \<longrightarrow> m5 x = m4 x"
    using set_field(3) [OF inb(1) [of m4], of pv "b + 32 + sz" 0 sz 0] h4 by auto
  have "header m5 (b + 32 + sz) = header m3 (b + 32 + sz)" using assms(2) m5(3) by (intro header_cong) (auto simp: m4_def)
  then have h5: "header m5 (b + 32 + sz) = (b, nx, 1, n - sz - 32)" by (simp add: m3(3))
  have "new_block s (pre @ (n, True) # post) sz (b + 32) (s\<lparr>mem := m5\<rparr>) (pre @ ((sz, False) # [(n - sz - 32, True)]) @ post)"
    unfolding b_def
  proof (rule new_block_inside [OF assms(1) order_refl])
    show "seg m5 (brk s) (heap_start s + span pre) ((sz, False) # [(n - sz - 32, True)]) (heap_start s + span pre + 32 + n)"
      using m5(2) h5 assms(2,3) b(3) hd(3) by (auto simp: b_def [symmetric] nx_def)
  qed (use m5(3) m3(4) assms(2,3) in \<open>auto simp: b_def [symmetric] m4_def\<close>)
  with m3(1) size3 set4 m5(1) show ?thesis by (auto simp: s_block_def)
qed

text \<open>A new block behind the last one.\<close>

lemma extend_none:
  assumes "heap_ok s bs" "0 < sz" "sz < 2 ^ 62" "brk s + 32 + sz > heap_limit s"
  shows "extend_heap s l sz = Some (0, s)"
proof -
  have "(32 + sz) mod 2 ^ 64 = 32 + sz" "to_int64 (32 + sz) = 32 + sz" using assms(2,3) by (simp_all add: to_int64_def)
  with assms(4) show ?thesis by (simp add: extend_heap_def sbrk_def s_block_def Let_def)
qed

lemma link_last:
  assumes "heap_ok s bs" "s1 = s\<lparr>brk := tp\<rparr>" "brk s < tp" "tp \<le> heap_limit s"
  defines "l \<equiv> (if bs = [] then 0 else heap_start s + span (butlast bs))"
  shows "\<exists>m. (if l \<noteq> 0 then set_next s1 l (brk s) else Some s1) = Some (s1\<lparr>mem := m\<rparr>) \<and> seg m tp (heap_start s) bs (brk s) \<and> word_ok l \<and>
    (\<forall>(p, k) \<in> used (heap_start s) bs. (\<forall>x. p \<le> x \<and> x < p + k \<longrightarrow> m x = mem s x) \<and> fst (header m (p - 32)) = fst (header (mem s) (p - 32)))"
proof (cases bs rule: rev_cases)
  case Nil
  then show ?thesis using assms(1,2) by (intro exI [of _ "mem s"]) (simp add: l_def heap_ok_def word_ok_def)
next
  case (snoc pre b)
  obtain n fr where b: "b = (n, fr)" by (cases b)
  have l: "l = heap_start s + span pre" by (simp add: l_def snoc)
  have ok: "0 < heap_start s" "heap_limit s < 2 ^ 63" "seg (mem s) (brk s) (heap_start s) pre l" "seg (mem s) (brk s) l [(n, fr)] (brk s)"
    using assms(1) unfolding heap_ok_def snoc b seg_append l by blast+
  note hd = seg_head [OF ok(4)]
  have n: "l + 32 + n = brk s" "0 \<le> n" "heap_start s \<le> l" using hd(1,3) seg_end [OF ok(3)] by simp_all
  obtain pv where pv: "header (mem s) l = (pv, 0, if fr then 1 else 0, n)" using hd(5) by auto
  have "in_heap s1 l 32" "word_ok (brk s)" "word_ok l" "mem s1 = mem s" using n ok(1,2) assms(2-4) by (auto simp: in_heap_def word_ok_def)
  then obtain m where m: "set_next s1 l (brk s) = Some (s1\<lparr>mem := m\<rparr>)" "header m l = (pv, brk s, if fr then 1 else 0, n)"
    "\<forall>x. x < l \<or> l + 32 \<le> x \<longrightarrow> m x = mem s x"
    using set_field(1) [of s1 l pv 0 "if fr then 1 else 0" n "brk s"] pv by auto
  have "seg m (brk s) (heap_start s) pre l" by (rule seg_frame [OF ok(3)]) (use m(3) in simp)
  then have "seg m tp (heap_start s) pre l" by (rule seg_top) (use n assms(3) in simp_all)
  then have "seg m tp (heap_start s) bs (brk s)" using m(2) n assms(3) by (simp add: snoc b seg_append l)
  moreover have "(\<forall>x. p \<le> x \<and> x < p + k \<longrightarrow> m x = mem s x) \<and> fst (header m (p - 32)) = fst (header (mem s) (p - 32))"
    if "(p, k) \<in> used (heap_start s) bs" for p k
  proof -
    have "(p, k) \<in> used (heap_start s) pre \<or> p = l + 32" using that by (auto simp: snoc b used_append l split: if_splits)
    then show ?thesis
    proof
      assume "(p, k) \<in> used (heap_start s) pre"
      then have "p + k \<le> l" "0 \<le> k" using used_bounds [OF ok(3)] by blast+
      then have "header m (p - 32) = header (mem s) (p - 32)" using m(3) by (intro header_cong) auto
      with \<open>p + k \<le> l\<close> m(3) show ?thesis by auto
    qed (use m(2,3) pv in auto)
  qed
  ultimately show ?thesis using m(1) \<open>word_ok l\<close> ok(1) n(3) by (intro exI [of _ m]) auto
qed

lemma extend_block:
  assumes "heap_ok s bs" "0 < sz" "sz < 2 ^ 62" "brk s + 32 + sz \<le> heap_limit s"
  defines "l \<equiv> (if bs = [] then 0 else heap_start s + span (butlast bs))"
  shows "\<exists>s'. extend_heap s l sz = Some (brk s, s') \<and> new_block s bs sz (brk s + 32) (s'\<lparr>global_base := heap_start s\<rparr>) (bs @ [(sz, False)]) \<and>
    global_base s' = global_base s"
proof -
  define s1 where "s1 = s\<lparr>brk := brk s + 32 + sz\<rparr>"
  have ok: "0 < heap_start s" "heap_limit s < 2 ^ 63" "seg (mem s) (brk s) (heap_start s) bs (brk s)"
    using assms(1) by (simp_all add: heap_ok_def)
  have brk: "heap_start s \<le> brk s" using seg_end [OF ok(3)] by simp
  have "(32 + sz) mod 2 ^ 64 = 32 + sz" "to_int64 (32 + sz) = 32 + sz" using assms(2,3) by (simp_all add: to_int64_def)
  then have sb: "sbrk s (to_int64 ((s_block + sz) mod 2 ^ 64)) = (brk s, s1)"
    using assms(2,4) brk by (simp add: sbrk_def s_block_def s1_def)
  have sb0: "sbrk s 0 = (brk s, s)" using brk assms(1) by (simp add: sbrk_def heap_ok_def)
  obtain m2 where m2: "(if l \<noteq> 0 then set_next s1 l (brk s) else Some s1) = Some (s1\<lparr>mem := m2\<rparr>)"
    "seg m2 (brk s + 32 + sz) (heap_start s) bs (brk s)" "word_ok l"
    "\<forall>(p, k) \<in> used (heap_start s) bs. (\<forall>x. p \<le> x \<and> x < p + k \<longrightarrow> m2 x = mem s x) \<and> fst (header m2 (p - 32)) = fst (header (mem s) (p - 32))"
    using link_last [OF assms(1), of s1 "brk s + 32 + sz"] assms(2,4) unfolding l_def [symmetric] by (auto simp: s1_def)
  obtain m3 where m3: "set_contents_safe (s1\<lparr>mem := m2\<rparr>) (brk s) 0 l 0 sz = Some (s1\<lparr>mem := m3\<rparr>)" "header m3 (brk s) = (l, 0, 0, sz)"
    "\<forall>x. x < brk s \<or> brk s + 32 \<le> x \<longrightarrow> m3 x = m2 x"
    using set_contents [of "s1\<lparr>mem := m2\<rparr>" "brk s" 0 l 0 sz] assms(2,3) brk m2(3) by (auto simp: in_heap_def word_ok_def s1_def)
  define m4 where "m4 = (\<lambda>a. if brk s + 32 \<le> a \<and> a < brk s + 32 + sz then 0 else m3 a)"
  have set4: "memset (s1\<lparr>mem := m3\<rparr>) (brk s + 32) 0 sz = Some (s1\<lparr>mem := m4\<rparr>)"
    using memset_mem [of s1 "brk s + 32" sz m3] brk assms(2) by (simp add: m4_def s1_def)
  have run: "extend_heap s l sz = Some (brk s, s1\<lparr>mem := m4\<rparr>)"
    using sb sb0 m2(1) m3(1) set4 brk ok(1) by (simp add: extend_heap_def s_block_def Let_def)
  have h4: "header m4 (brk s) = (l, 0, 0, sz)" using header_cong [of "brk s" m4 m3] m3(2) by (simp add: m4_def)
  have "seg m4 (brk s + 32 + sz) (heap_start s) bs (brk s)"
    by (rule seg_frame [OF m2(2)]) (use m3(3) in \<open>auto simp: m4_def\<close>)
  then have "heap_ok (s1\<lparr>mem := m4, global_base := heap_start s\<rparr>) (bs @ [(sz, False)])"
    using h4 assms(2,4) ok seg_end [OF ok(3)] by (auto simp: heap_ok_def seg_append s1_def)
  moreover have "(p + k \<le> brk s + 32 \<or> brk s + 32 + sz \<le> p) \<and> (\<forall>x. p \<le> x \<and> x < p + k \<longrightarrow> m4 x = mem s x) \<and>
      fst (header m4 (p - 32)) = fst (header (mem s) (p - 32))" if u: "(p, k) \<in> used (heap_start s) bs" for p k
  proof -
    have "p + k \<le> brk s" "0 \<le> k" using used_bounds [OF ok(3) u] by simp_all
    moreover have "header m4 (p - 32) = header m2 (p - 32)" using calculation m3(3) by (intro header_cong) (auto simp: m4_def)
    ultimately show ?thesis using m2(4) m3(3) u by (fastforce simp: m4_def)
  qed
  then have "\<forall>(p, k) \<in> used (heap_start s) bs. (p + k \<le> brk s + 32 \<or> brk s + 32 + sz \<le> p) \<and> (\<forall>x. p \<le> x \<and> x < p + k \<longrightarrow> m4 x = mem s x) \<and>
      fst (header m4 (p - 32)) = fst (header (mem s) (p - 32))" by blast
  moreover have "used (heap_start s) (bs @ [(sz, False)]) = insert (brk s + 32, sz) (used (heap_start s) bs)"
    using seg_end [OF ok(3)] by (simp add: used_append)
  ultimately have "new_block s bs sz (brk s + 32) (s1\<lparr>mem := m4, global_base := heap_start s\<rparr>) (bs @ [(sz, False)])"
    unfolding new_block_def by (intro conjI exI [of _ sz]) (simp_all add: s1_def, simp add: m4_def)
  then show ?thesis using run by (intro exI [of _ "s1\<lparr>mem := m4\<rparr>"]) (simp add: s1_def)
qed

text \<open>How the list of blocks grows.\<close>

definition grown :: "(int \<times> bool) list \<Rightarrow> (int \<times> bool) list \<Rightarrow> bool" where
  "grown bs bs' \<longleftrightarrow> (\<exists>n. bs' = bs @ [(n, False)]) \<or>
     (\<exists>pre n post k rem. bs = pre @ (n, True) # post \<and> bs' = pre @ ((k, False) # rem) @ post \<and> span ((k, False) # rem) = 32 + n)"

lemma malloc_hit:
  assumes "heap_ok s (pre @ (n, True) # post)" "list_all (too_small sz) pre" "0 < sz" "sz \<le> n" "sz < 2 ^ 62"
  shows "\<exists>ptr s' bs'. mm_malloc s sz = Some (ptr, s') \<and> ptr \<noteq> 0 \<and> new_block s (pre @ (n, True) # post) sz ptr s' bs' \<and> grown (pre @ (n, True) # post) bs'"
proof -
  let ?b = "heap_start s + span pre"
  have ok: "0 < heap_start s" "global_base s = heap_start s" using assms(1) by (simp_all add: heap_ok_def)
  have sg: "seg (mem s) (brk s) (heap_start s) pre ?b" "seg (mem s) (brk s) ?b ((n, True) # post) (brk s)"
    using assms(1) by (simp_all only: heap_ok_def seg_append)
  have b: "0 < ?b" "b_size s ?b = Some n" using seg_block_size [OF sg(2)] seg_end [OF sg(1)] ok(1) by auto
  obtain l where found: "free_block_or_nah s (global_base s) sz = Some (?b, l)" using free_block_found [OF assms(1,2,4)] by blast
  have g: "grown (pre @ (n, True) # post) (pre @ ((k, False) # rem) @ post)" if "span ((k, False) # rem) = 32 + n" for k rem
    using that unfolding grown_def by blast
  show ?thesis
  proof (cases "n < sz + 36")
    case True
    obtain s1 s2 where s1: "memset s (?b + s_block) 0 n = Some s1" "set_free s1 ?b 0 = Some s2"
      "new_block s (pre @ (n, True) # post) sz (?b + s_block) s2 (pre @ [(n, False)] @ post)"
      using malloc_reuse [OF assms(1,4)] by auto
    have "mm_malloc s sz = Some (?b + s_block, s2)" using True b s1(1,2) found assms(3,5) ok by (simp add: mm_malloc_def s_block_def)
    moreover have "grown (pre @ (n, True) # post) (pre @ [(n, False)] @ post)" by (rule g) simp
    moreover have "?b + s_block \<noteq> 0" using b(1) by (simp add: s_block_def)
    ultimately show ?thesis using s1(3) by blast
  next
    case False
    then have le: "sz + 36 \<le> n" by simp
    obtain s1 s2 s3 where s1: "split_block_safe s ?b sz = Some s1" "b_size s1 ?b = Some sz" "memset s1 (?b + s_block) 0 sz = Some s2"
      "set_free s2 ?b 0 = Some s3" "new_block s (pre @ (n, True) # post) sz (?b + s_block) s3 (pre @ [(sz, False), (n - sz - 32, True)] @ post)"
      using malloc_split [OF assms(1,3) le] by auto
    have "mm_malloc s sz = Some (?b + s_block, s3)" using le b s1(1-4) found assms(3,5) ok by (simp add: mm_malloc_def s_block_def)
    moreover have "grown (pre @ (n, True) # post) (pre @ [(sz, False), (n - sz - 32, True)] @ post)" by (rule g) simp
    moreover have "?b + s_block \<noteq> 0" using b(1) by (simp add: s_block_def)
    ultimately show ?thesis using s1(5) by blast
  qed
qed

lemma malloc_extends:
  assumes "heap_ok s bs" "list_all (too_small sz) bs" "0 < sz" "sz < 2 ^ 62" "brk s + 32 + sz \<le> heap_limit s"
  shows "\<exists>s'. mm_malloc s sz = Some (brk s + 32, s') \<and> new_block s bs sz (brk s + 32) s' (bs @ [(sz, False)])"
proof -
  have ok: "0 < heap_start s" "global_base s = (if bs = [] then 0 else heap_start s)" "seg (mem s) (brk s) (heap_start s) bs (brk s)"
    using assms(1) by (simp_all add: heap_ok_def)
  have pos: "0 < brk s" using seg_end [OF ok(3)] ok(1) by simp
  define l where "l = (if bs = [] then 0 else heap_start s + span (butlast bs))"
  obtain s' where s': "extend_heap s l sz = Some (brk s, s')"
    "new_block s bs sz (brk s + 32) (s'\<lparr>global_base := heap_start s\<rparr>) (bs @ [(sz, False)])" "global_base s' = global_base s"
    using extend_block [OF assms(1,3-5)] unfolding l_def by blast
  have "mm_malloc s sz = Some (brk s + 32, s'\<lparr>global_base := heap_start s\<rparr>)"
  proof (cases "bs = []")
    case True
    then have "brk s = heap_start s" using ok(3) by simp
    with True s'(1) ok(2) pos assms(3) show ?thesis by (simp add: mm_malloc_def l_def s_block_def)
  next
    case False
    then have "s'\<lparr>global_base := heap_start s\<rparr> = s'" using s'(3) ok(2) by simp
    with False s'(1) ok(1,2) pos assms(3) free_block_missing [OF assms(1) False assms(2)] show ?thesis
      by (simp add: mm_malloc_def l_def s_block_def)
  qed
  with s'(2) show ?thesis by blast
qed

lemma malloc_cases:
  assumes "heap_ok s bs" "0 < sz" "sz < 2 ^ 62"
  shows "\<exists>ptr s'. mm_malloc s sz = Some (ptr, s') \<and>
    (ptr = 0 \<and> s' = s \<and> list_all (too_small sz) bs \<and> heap_limit s < brk s + 32 + sz \<or>
     ptr \<noteq> 0 \<and> (\<exists>bs'. new_block s bs sz ptr s' bs' \<and> grown bs bs'))"
proof (cases "list_all (too_small sz) bs")
  case True
  have ok: "0 < heap_start s" "global_base s = (if bs = [] then 0 else heap_start s)" "seg (mem s) (brk s) (heap_start s) bs (brk s)"
    using assms(1) by (simp_all add: heap_ok_def)
  show ?thesis
  proof (cases "heap_limit s < brk s + 32 + sz")
    case full: True
    then have "mm_malloc s sz = Some (0, s)"
      using extend_none [OF assms full] free_block_missing [OF assms(1) _ True] assms(2) ok(1,2) by (auto simp: mm_malloc_def)
    with True full show ?thesis by simp
  next
    case False
    then have "brk s + 32 + sz \<le> heap_limit s" by simp
    moreover have "grown bs (bs @ [(sz, False)])" by (auto simp: grown_def)
    moreover have "0 < brk s" using seg_end [OF ok(3)] ok(1) by simp
    ultimately show ?thesis using malloc_extends [OF assms(1) True assms(2,3)] by force
  qed
next
  case False
  then obtain pre n post where "bs = pre @ (n, True) # post" "list_all (too_small sz) pre" "sz \<le> n" using first_fit [of sz bs] by blast
  with malloc_hit [of s pre n post sz] assms show ?thesis by blast
qed

section \<open>Release\<close>

text \<open>The blocks after a block of \<open>n\<close> bytes has been freed and joined with a free block behind it, and
  with the one before it if that is free and \<open>joins\<close> holds.\<close>

fun join_next :: "int \<Rightarrow> (int \<times> bool) list \<Rightarrow> int \<times> (int \<times> bool) list" where
  "join_next n ((k, True) # post) = (n + 32 + k, post)"
| "join_next n post = (n, post)"

definition join_prev :: "bool \<Rightarrow> (int \<times> bool) list \<Rightarrow> int \<Rightarrow> (int \<times> bool) list \<Rightarrow> (int \<times> bool) list" where
  "join_prev joins pre n post =
     (if joins \<and> pre \<noteq> [] \<and> snd (last pre) then butlast pre @ (fst (last pre) + 32 + n, True) # post else pre @ (n, True) # post)"

text \<open>The backward link of the block behind \<open>pre\<close> can be followed: it is NULL, or leads to the block right
  before, or to a block in use.\<close>

definition back_ok :: "int \<Rightarrow> (int \<times> bool) list \<Rightarrow> int \<Rightarrow> bool" where
  "back_ok a pre pv \<longleftrightarrow> pv = 0 \<or> pre \<noteq> [] \<and> pv = a + span (butlast pre) \<or> (\<exists>k. (pv + 32, k) \<in> used a pre)"

lemma used_split: "(p, n) \<in> used a bs \<Longrightarrow> \<exists>pre post. bs = pre @ (n, False) # post \<and> p = a + span pre + 32"
proof (induction a bs rule: used.induct)
  case (2 a sz fr bs)
  show ?case
  proof (cases "(p, n) \<in> used (a + 32 + sz) bs")
    case True
    then obtain pre post where "bs = pre @ (n, False) # post" "p = a + 32 + sz + span pre + 32" using 2(1) by blast
    then show ?thesis by (intro exI [of _ "(sz, fr) # pre"] exI [of _ post]) simp
  next
    case False
    with 2(2) have "fr = False" "p = a + 32" "n = sz" by (auto split: if_splits)
    then show ?thesis by (intro exI [of _ "[]"] exI [of _ bs]) simp
  qed
qed simp

lemma block_header:
  assumes "heap_ok s (pre @ (n, fr) # post)"
  defines "b \<equiv> heap_start s + span pre"
  shows "\<exists>pv. header (mem s) b = (pv, if post = [] then 0 else b + 32 + n, if fr then 1 else 0, n)"
    and "0 \<le> n" "heap_start s \<le> b" "b + 32 + n \<le> brk s" "in_heap (s\<lparr>mem := m\<rparr>) b 32" "0 < b" "brk s < 2 ^ 63"
    "seg (mem s) (brk s) (heap_start s) pre b" "seg (mem s) (brk s) (b + 32 + n) post (brk s)"
proof -
  have sg: "seg (mem s) (brk s) (heap_start s) pre b" "seg (mem s) (brk s) b ((n, fr) # post) (brk s)" and st: "0 < heap_start s" "brk s < 2 ^ 63"
    using assms(1) by (auto simp only: b_def heap_ok_def seg_append)
  show "\<exists>pv. header (mem s) b = (pv, if post = [] then 0 else b + 32 + n, if fr then 1 else 0, n)" "0 \<le> n" "b + 32 + n \<le> brk s"
    "seg (mem s) (brk s) (heap_start s) pre b" "seg (mem s) (brk s) (b + 32 + n) post (brk s)"
    using seg_head [OF sg(2)] sg(1) by auto
  show "heap_start s \<le> b" "brk s < 2 ^ 63" "0 < b" using seg_end [OF sg(1)] st by simp_all
  then show "in_heap (s\<lparr>mem := m\<rparr>) b 32" using seg_head(1,2) [OF sg(2)] by (simp add: in_heap_def)
qed

lemma header_prev_ok: "header m b = (pv, nx, fr, n) \<Longrightarrow> word_ok pv \<and> word_ok nx"
  using get_le_bounds [of m b 8] get_le_bounds [of m "b + 8" 8] by (auto simp: header_def word_ok_def)

text \<open>Rewriting the header of one block, with the blocks behind it taken in.\<close>

lemma set_block:
  assumes "heap_ok s (pre @ ((n, fr) # gone) @ post)" "f \<in> {0, 1}" "word_ok pv"
  defines "b \<equiv> heap_start s + span pre" and "k \<equiv> n + span gone"
  shows "\<exists>m. set_contents_safe s b (if post = [] then 0 else b + 32 + k) pv f k = Some (s\<lparr>mem := m\<rparr>) \<and>
    heap_ok (s\<lparr>mem := m\<rparr>) (pre @ (k, f = 1) # post) \<and> fst (header m b) = pv \<and> (\<forall>x. x < b \<or> b + 32 \<le> x \<longrightarrow> m x = mem s x)"
proof -
  have h: "heap_ok s (pre @ (n, fr) # (gone @ post))" using assms(1) by simp
  note bh = block_header [OF h, folded b_def]
  have sg: "seg (mem s) (brk s) (b + 32 + n) gone (b + 32 + k)" "seg (mem s) (brk s) (b + 32 + k) post (brk s)"
    using bh(9) by (simp_all add: seg_append k_def add.assoc)
  have k: "n \<le> k" "b + 32 + k \<le> brk s" "0 \<le> span gone" using seg_end [OF sg(1)] seg_end [OF sg(2)] by (simp_all add: k_def)
  have e: "b + 32 + k = brk s \<longleftrightarrow> post = []"
    using seg_empty [OF sg(2)] .
  have "word_ok (if post = [] then 0 else b + 32 + k)" "word_ok k" using bh(2,6,7) k by (auto simp: word_ok_def)
  moreover have "in_heap s b 32" using bh(5) by (simp add: in_heap_def)
  ultimately obtain m where m: "set_contents_safe s b (if post = [] then 0 else b + 32 + k) pv f k = Some (s\<lparr>mem := m\<rparr>)"
    "header m b = (pv, if post = [] then 0 else b + 32 + k, f, k)" "\<forall>x. x < b \<or> b + 32 \<le> x \<longrightarrow> m x = mem s x"
    using set_contents [of s b _ pv f k] assms(2,3) by blast
  have "heap_ok (s\<lparr>mem := m\<rparr>) (pre @ [(k, f = 1)] @ post)"
    by (rule replace_blocks [OF assms(1)]) (use m(2,3) k bh(2) e assms(2) in \<open>auto simp: b_def [symmetric] k_def [symmetric] add.assoc [symmetric]\<close>)
  with m show ?thesis by (intro exI [of _ m]) simp
qed

lemma combine_next_ok:
  assumes "heap_ok s (pre @ (n, True) # post)"
  defines "b \<equiv> heap_start s + span pre"
  shows "\<exists>m. combine_next s b = Some (s\<lparr>mem := m\<rparr>) \<and> heap_ok (s\<lparr>mem := m\<rparr>) (pre @ (fst (join_next n post), True) # snd (join_next n post)) \<and>
    fst (header m b) = fst (header (mem s) b) \<and> (\<forall>x. x < b \<or> b + 32 \<le> x \<longrightarrow> m x = mem s x)"
proof -
  note bh = block_header [OF assms(1), folded b_def]
  obtain pv where pv: "header (mem s) b = (pv, if post = [] then 0 else b + 32 + n, 1, n)" using bh(1) by auto
  have inb: "in_heap s b 32" using bh(5) by (simp add: in_heap_def)
  note fields = header_fields [OF inb pv]
  show ?thesis
  proof (cases post)
    case Nil
    then show ?thesis using fields assms(1) by (intro exI [of _ "mem s"]) (simp add: combine_next_def)
  next
    case (Cons c post2)
    obtain k fr where c: "c = (k, fr)" by (cases c)
    have h2: "heap_ok s ((pre @ [(n, True)]) @ (k, fr) # post2)" using assms(1) by (simp add: Cons c)
    have nb: "heap_start s + span (pre @ [(n, True)]) = b + 32 + n" by (simp add: b_def)
    note ch = block_header [OF h2, unfolded nb]
    obtain pv2 where pv2: "header (mem s) (b + 32 + n) = (pv2, if post2 = [] then 0 else b + 32 + n + 32 + k, if fr then 1 else 0, k)"
      using ch(1) by auto
    have inc: "in_heap s (b + 32 + n) 32" using ch(5) by (simp add: in_heap_def)
    note fields2 = header_fields [OF inc pv2]
    show ?thesis
    proof (cases fr)
      case False
      then show ?thesis using fields fields2 ch(6) assms(1)
        by (intro exI [of _ "mem s"]) (simp add: combine_next_def Cons c)
    next
      case True
      have h3: "heap_ok s (pre @ ((n, True) # [(k, True)]) @ post2)" using assms(1) True by (simp add: Cons c)
      have wp: "word_ok pv" using header_prev_ok [OF pv] by simp
      obtain m where m: "set_contents_safe s b (if post2 = [] then 0 else b + 32 + (n + span [(k, True)])) pv 1 (n + span [(k, True)]) = Some (s\<lparr>mem := m\<rparr>)"
        "heap_ok (s\<lparr>mem := m\<rparr>) (pre @ (n + span [(k, True)], (1 :: int) = 1) # post2)" "fst (header m b) = pv" "\<forall>x. x < b \<or> b + 32 \<le> x \<longrightarrow> m x = mem s x"
        using set_block [OF h3 insertI2 [OF singletonI] wp, folded b_def] by blast
      have sum: "(n + s_block + k) mod 2 ^ 64 = n + span [(k, True)]" "n + 32 + k = n + span [(k, True)]"
        using ch(2,4,6,7) bh(2,6) mod_pos_pos_trivial [of "n + 32 + k" "2 ^ 64"] by (simp_all add: s_block_def)
      have "b_next s (b + 32 + n) = Some (if post2 = [] then 0 else b + 32 + (n + span [(k, True)]))" using fields2(2) by simp
      with True fields fields2 ch(6) m(1) have "combine_next s b = Some (s\<lparr>mem := m\<rparr>)"
        unfolding combine_next_def sum(1) [symmetric] by (simp add: Cons)
      with True m(2-4) sum(2) show ?thesis by (intro exI [of _ m]) (simp add: Cons c pv add.assoc)
    qed
  qed
qed


lemma combine_prev_joins:
  assumes "heap_ok s (qs @ (j, True) # (n, True) # post)"
  defines "pv \<equiv> heap_start s + span qs" and "b \<equiv> heap_start s + span qs + 32 + j"
  assumes "header (mem s) b = (pv, nx, fr, k)"
  shows "\<exists>m. combine_prev s b = Some (pv, s\<lparr>mem := m\<rparr>) \<and> heap_ok (s\<lparr>mem := m\<rparr>) (qs @ (j + 32 + n, True) # post) \<and>
    (\<forall>x. x < pv \<or> pv + 32 \<le> x \<longrightarrow> m x = mem s x)"
proof -
  have h: "heap_ok s ((qs @ [(j, True)]) @ (n, True) # post)" using assms(1) by simp
  have nb: "heap_start s + span (qs @ [(j, True)]) = b" by (simp add: b_def)
  note bh = block_header [OF h, unfolded nb] and ph = block_header [OF assms(1), folded pv_def]
  have b: "b = pv + 32 + j" by (simp add: b_def pv_def)
  have hd: "header (mem s) b = (pv, if post = [] then 0 else b + 32 + n, 1, n)" using bh(1) assms(4) by auto
  obtain pp where pp: "header (mem s) pv = (pp, b, 1, j)" using ph(1) by (auto simp: b)
  have inb: "in_heap s b 32" "in_heap s pv 32" using bh(5) ph(5) by (simp_all add: in_heap_def)
  note fields = header_fields [OF inb(1) hd] header_fields [OF inb(2) pp]
  have h3: "heap_ok s (qs @ ((j, True) # [(n, True)]) @ post)" using assms(1) by simp
  have wp: "word_ok pp" using header_prev_ok [OF pp] by simp
  obtain m where m: "set_contents_safe s pv (if post = [] then 0 else pv + 32 + (j + span [(n, True)])) pp 1 (j + span [(n, True)]) = Some (s\<lparr>mem := m\<rparr>)"
    "heap_ok (s\<lparr>mem := m\<rparr>) (qs @ (j + span [(n, True)], (1 :: int) = 1) # post)" "\<forall>x. x < pv \<or> pv + 32 \<le> x \<longrightarrow> m x = mem s x"
    using set_block [OF h3 insertI2 [OF singletonI] wp, folded pv_def] by blast
  have sum: "(j + s_block + n) mod 2 ^ 64 = j + span [(n, True)]"
    using bh(2,4,6,7) ph(2,6) b mod_pos_pos_trivial [of "j + 32 + n" "2 ^ 64"] by (simp add: s_block_def)
  have "header m b = header (mem s) b" using m(3) ph(2) b by (intro header_cong) auto
  then have "b_prev (s\<lparr>mem := m\<rparr>) b = Some pv" using header_fields(1) [OF bh(5) [of m]] hd by simp
  moreover have "b_next s b = Some (if post = [] then 0 else pv + 32 + (j + span [(n, True)]))" using fields(2) b by simp
  ultimately have "combine_prev s b = Some (pv, s\<lparr>mem := m\<rparr>)"
    using fields ph(6) m(1) unfolding combine_prev_def sum(1) [symmetric] by simp
  with m(2,3) show ?thesis by (intro exI [of _ m]) (simp add: add.assoc)
qed

lemma block_free:
  assumes "heap_ok s (pre @ (n, fr) # post)"
  shows "b_free s (heap_start s + span pre) = Some (if fr then 1 else 0)"
proof -
  have "in_heap s (heap_start s + span pre) 32" using block_header(5) [OF assms, of "mem s"] by (simp add: in_heap_def)
  with block_header(1) [OF assms] header_fields(3) show ?thesis by blast
qed

lemma combine_prev_ok:
  assumes "heap_ok s (pre @ (n, True) # post)" "header (mem s) (heap_start s + span pre) = (pv, nx, fr, k)" "back_ok (heap_start s) pre pv"
  defines "b \<equiv> heap_start s + span pre"
  shows "\<exists>r m. combine_prev s b = Some (r, s\<lparr>mem := m\<rparr>) \<and>
    heap_ok (s\<lparr>mem := m\<rparr>) (join_prev (pre \<noteq> [] \<and> pv = heap_start s + span (butlast pre)) pre n post) \<and>
    (\<forall>x. m x \<noteq> mem s x \<longrightarrow> pre \<noteq> [] \<and> snd (last pre) \<and> heap_start s + span (butlast pre) \<le> x \<and> x < heap_start s + span (butlast pre) + 32)"
proof -
  have "in_heap s b 32" using block_header(5) [OF assms(1), of "mem s"] by (simp add: b_def in_heap_def)
  note prev = header_fields(1) [OF this assms(2) [folded b_def]]
  have same: "combine_prev s b = Some (b, s)" if "pv = 0 \<or> b_free s pv = Some 0" using that prev by (auto simp: combine_prev_def)
  show ?thesis
  proof (cases "pre \<noteq> [] \<and> pv = heap_start s + span (butlast pre)")
    case True
    then obtain j f where pre: "pre = butlast pre @ [(j, f)]" by (metis append_butlast_last_id surj_pair)
    define qs where "qs = butlast pre"
    have pre: "pre = qs @ [(j, f)]" using pre by (simp add: qs_def)
    have h: "heap_ok s (qs @ (j, f) # (n, True) # post)" using assms(1) by (simp add: pre)
    show ?thesis
    proof (cases f)
      case free: True
      obtain m where "combine_prev s b = Some (pv, s\<lparr>mem := m\<rparr>)" "heap_ok (s\<lparr>mem := m\<rparr>) (qs @ (j + 32 + n, True) # post)"
        "\<forall>x. x < pv \<or> pv + 32 \<le> x \<longrightarrow> m x = mem s x"
        using combine_prev_joins [of s qs j n post] h free True assms(2) by (auto simp: b_def pre add.assoc)
      with True free show ?thesis
        by (intro exI [of _ pv] exI [of _ m]) (auto simp: join_prev_def pre not_less [symmetric])
    next
      case False
      then have "combine_prev s b = Some (b, s)" using same block_free [OF h] True by (simp add: pre)
      with False assms(1) show ?thesis by (intro exI [of _ b] exI [of _ "mem s"]) (simp add: join_prev_def pre)
    qed
  next
    case False
    have "pv = 0 \<or> b_free s pv = Some 0"
    proof (cases "pv = 0")
      case nz: False
      then obtain i where "(pv + 32, i) \<in> used (heap_start s) pre" using assms(3) False by (auto simp: back_ok_def)
      then obtain qs rs where qs: "pre = qs @ (i, False) # rs" "pv = heap_start s + span qs" using used_split by fastforce
      have "heap_ok s (qs @ (i, False) # (rs @ (n, True) # post))" using assms(1) by (simp add: qs(1))
      from block_free [OF this] show ?thesis by (simp add: qs(2))
    qed simp
    then have "combine_prev s b = Some (b, s)" by (rule same)
    with False assms(1) show ?thesis by (intro exI [of _ b] exI [of _ "mem s"]) (auto simp: join_prev_def)
  qed
qed

lemma used_join:
  "used a (join_prev joins pre (fst (join_next n post)) (snd (join_next n post))) = used a pre \<union> used (a + span pre + 32 + n) post"
proof -
  have shift: "used (c + 32 + fst (join_next n post)) (snd (join_next n post)) = used (c + 32 + n) post" for c
    by (cases "(n, post)" rule: join_next.cases) (auto simp: add.assoc)
  show ?thesis
  proof (cases "joins \<and> pre \<noteq> [] \<and> snd (last pre)")
    case True
    then obtain j where "pre = butlast pre @ [(j, True)]" by (metis append_butlast_last_id prod.collapse)
    then obtain qs where pre: "pre = qs @ [(j, True)]" by blast
    with True shift [of "a + span pre"] show ?thesis by (auto simp: join_prev_def used_append add.assoc)
  qed (use shift [of "a + span pre"] in \<open>auto simp: join_prev_def used_append\<close>)
qed

lemma span_last: "seg m tp a pre b \<Longrightarrow> pre \<noteq> [] \<Longrightarrow> a + span (butlast pre) + 32 \<le> b"
proof -
  assume s: "seg m tp a pre b" "pre \<noteq> []"
  then have "seg m tp (a + span (butlast pre)) [last pre] b" by (metis append_butlast_last_id seg_append)
  then show ?thesis using seg_nonempty by blast
qed

lemma used_last_free:
  assumes "seg m tp a pre b" "(p, k) \<in> used a pre" "pre \<noteq> []" "snd (last pre)"
  shows "p + k \<le> a + span (butlast pre)"
proof -
  obtain j where pre: "pre = butlast pre @ [(j, True)]" using assms(3,4) by (metis append_butlast_last_id prod.collapse)
  then have "seg m tp a (butlast pre) (a + span (butlast pre))" using assms(1) by (metis seg_append)
  moreover have "used a pre = used a (butlast pre)" by (subst pre) (simp add: used_append)
  ultimately show ?thesis using used_bounds assms(2) by blast
qed

lemma free_ok:
  assumes "heap_ok s (pre @ (n, False) # post)" "back_ok (heap_start s) pre pv"
    and "fst (header (mem s) (heap_start s + span pre)) = pv"
  defines "bs' \<equiv> join_prev (pre \<noteq> [] \<and> pv = heap_start s + span (butlast pre)) pre (fst (join_next n post)) (snd (join_next n post))"
  shows "\<exists>m. mm_free s (heap_start s + span pre + 32) = Some (s\<lparr>mem := m\<rparr>) \<and> heap_ok (s\<lparr>mem := m\<rparr>) bs' \<and>
    (\<forall>(p, k) \<in> used (heap_start s) bs'. \<forall>x. p \<le> x \<and> x < p + k \<longrightarrow> m x = mem s x)"
proof -
  define b where "b = heap_start s + span pre"
  note bh = block_header [OF assms(1), folded b_def]
  have inb: "in_heap s b 32" using bh(5) by (simp add: in_heap_def)
  obtain nx where hd: "header (mem s) b = (pv, nx, 0, n)" using bh(1) assms(3) by (auto simp: b_def)
  obtain m1 where m1: "set_free s b 1 = Some (s\<lparr>mem := m1\<rparr>)" "header m1 b = (pv, nx, 1, n)" "\<forall>x. x < b \<or> b + 32 \<le> x \<longrightarrow> m1 x = mem s x"
    using set_field(3) [OF inb hd, of 1] by auto
  have h1: "heap_ok (s\<lparr>mem := m1\<rparr>) (pre @ (n, True) # post)"
    using replace_blocks [of s pre "[(n, False)]" post "[(n, True)]" m1] assms(1) m1(2,3) bh(1,2) hd seg_empty [OF bh(9)]
    by (auto simp: b_def [symmetric])
  obtain m2 where m2: "combine_next (s\<lparr>mem := m1\<rparr>) b = Some (s\<lparr>mem := m2\<rparr>)"
    "heap_ok (s\<lparr>mem := m2\<rparr>) (pre @ (fst (join_next n post), True) # snd (join_next n post))" "fst (header m2 b) = pv"
    "\<forall>x. x < b \<or> b + 32 \<le> x \<longrightarrow> m2 x = m1 x"
    using combine_next_ok [OF h1] m1(2) by (auto simp: b_def)
  obtain nx2 fr2 k2 where hd2: "header m2 b = (pv, nx2, fr2, k2)" using m2(3) by (cases "header m2 b") auto
  obtain r m3 where m3: "combine_prev (s\<lparr>mem := m2\<rparr>) b = Some (r, s\<lparr>mem := m3\<rparr>)" "heap_ok (s\<lparr>mem := m3\<rparr>) bs'"
    "\<forall>x. m3 x \<noteq> m2 x \<longrightarrow> pre \<noteq> [] \<and> snd (last pre) \<and> heap_start s + span (butlast pre) \<le> x \<and> x < heap_start s + span (butlast pre) + 32"
    using combine_prev_ok [OF m2(2), of pv nx2 fr2 k2] hd2 assms(2) by (auto simp: b_def bs'_def)
  have run: "mm_free s (b + 32) = Some (s\<lparr>mem := m3\<rparr>)"
    using m1(1) m2(1) m3(1) bh(6) by (simp add: mm_free_def combine_block_def s_block_def)
  have "m3 x = mem s x" if u: "(p, k) \<in> used (heap_start s) bs'" and x: "p \<le> x" "x < p + k" for p k x
  proof -
    have u': "(p, k) \<in> used (heap_start s) pre \<or> (p, k) \<in> used (b + 32 + n) post" using u by (auto simp: bs'_def used_join b_def)
    have out: "x < b \<or> b + 32 \<le> x" using u' used_bounds [OF bh(8), of p k] used_bounds [OF bh(9), of p k] x bh(2) by auto
    have "m3 x = m2 x"
      using m3(3) u' used_last_free [OF bh(8), of p k] used_bounds [OF bh(8)] used_bounds [OF bh(9), of p k] seg_end [OF bh(8)] x bh(2) span_last [OF bh(8)]
      by fastforce
    with m2(4) m1(3) out show ?thesis by auto
  qed
  with run m3(2) show ?thesis unfolding b_def by (intro exI [of _ m3]) auto
qed

section \<open>Reallocation\<close>

lemma append_Cons_eq_cases:
  assumes "pre @ x # post = pre' @ y # post'"
  obtains (before) rs where "pre = pre' @ y # rs" "post' = rs @ x # post" | (same) "pre = pre'" "x = y" "post = post'"
    | (after) rs where "pre' = pre @ x # rs" "post = rs @ y # post'"
  using assms by (auto simp: append_eq_append_conv2 append_eq_Cons_conv Cons_eq_append_conv)

lemma grown_back_ok:
  assumes "grown (pre @ (n, False) # post) bs'" "back_ok a pre pv"
  shows "\<exists>pre' post'. bs' = pre' @ (n, False) # post' \<and> span pre' = span pre \<and> back_ok a pre' pv"
  using assms(1) unfolding grown_def
proof (elim disjE exE conjE)
  fix k assume "bs' = (pre @ (n, False) # post) @ [(k, False)]"
  with assms(2) show ?thesis by (intro exI [of _ pre] exI [of _ "post @ [(k, False)]"]) simp
next
  fix P m Q k rem
  assume bs: "pre @ (n, False) # post = P @ (m, True) # Q" and bs': "bs' = P @ ((k, False) # rem) @ Q" and sp: "span ((k, False) # rem) = 32 + m"
  from bs show ?thesis
  proof (cases rule: append_Cons_eq_cases)
    case (before rs)
    define pre' where "pre' = P @ ((k, False) # rem) @ rs"
    have span: "span pre' = span pre" "\<And>us. span (P @ ((k, False) # rem) @ us) = span (P @ (m, True) # us)" using sp by (simp_all add: pre'_def before(1))
    have used: "used a pre \<subseteq> used a pre'" "(a + span P + 32, k) \<in> used a pre'"
      using sp by (auto simp: before(1) pre'_def used_append add.assoc)
    have "back_ok a pre' pv"
    proof (cases "pre \<noteq> [] \<and> pv = a + span (butlast pre)")
      case adj: True
      show ?thesis
      proof (cases "rs = []")
        case True
        then have "pv = a + span P" using adj by (simp add: before(1))
        with used(2) show ?thesis unfolding back_ok_def by blast
      next
        case False
        then have "butlast pre' = P @ ((k, False) # rem) @ butlast rs" "butlast pre = P @ (m, True) # butlast rs"
          by (simp_all add: pre'_def before(1) butlast_append)
        with adj span(2) [of "butlast rs"] show ?thesis by (simp add: back_ok_def pre'_def)
      qed
    qed (use assms(2) used(1) in \<open>auto simp: back_ok_def\<close>)
    moreover have "bs' = pre' @ (n, False) # post" by (simp add: bs' before(2) pre'_def)
    ultimately show ?thesis using span(1) by blast
  next
    case (after rs)
    then show ?thesis using bs' assms(2) by (intro exI [of _ pre] exI [of _ "rs @ ((k, False) # rem) @ Q"]) simp
  qed simp
qed

lemma data_write:
  assumes "heap_ok s bs" "(p, k) \<in> used (heap_start s) bs" "\<forall>x. x < p \<or> p + k \<le> x \<longrightarrow> m x = mem s x"
  shows "heap_ok (s\<lparr>mem := m\<rparr>) bs"
proof -
  obtain pre post where bs: "bs = pre @ (k, False) # post" and p: "p = heap_start s + span pre + 32" using used_split [OF assms(2)] by blast
  have h: "heap_ok s (pre @ [(k, False)] @ post)" using assms(1) by (simp add: bs)
  note bh = block_header [OF assms(1) [unfolded bs]]
  have "header m (p - 32) = header (mem s) (p - 32)" using assms(3) by (intro header_cong) auto
  then have "seg m (brk s) (heap_start s + span pre) [(k, False)] (heap_start s + span pre + span [(k, False)])"
    using bh(1,2) seg_empty [OF bh(9)] by (auto simp: p)
  then have "heap_ok (s\<lparr>mem := m\<rparr>) (pre @ [(k, False)] @ post)"
    by (rule replace_blocks [OF h, rotated 2]) (use assms(3) bh(2) in \<open>auto simp: p\<close>)
  then show ?thesis by (simp add: bs)
qed

text \<open>The copy: as much of the old data as fits, zeros behind it.\<close>

lemma realloc_copy:
  assumes "heap_start s \<le> np" "np + k \<le> brk s" "0 < sz" "sz \<le> k" "heap_start s \<le> ptr" "ptr + n \<le> brk s" "0 \<le> n" "ptr + n \<le> np \<or> np + k \<le> ptr"
    and "\<forall>x. np \<le> x \<and> x < np + k \<longrightarrow> mem s x = 0"
  shows "\<exists>m. (if n < sz then do { s' \<leftarrow> memset s np 0 sz; memcpy s' np ptr n } else memcpy s np ptr sz) = Some (s\<lparr>mem := m\<rparr>) \<and>
    (\<forall>i. 0 \<le> i \<and> i < k \<longrightarrow> m (np + i) = (if i < n \<and> i < sz then mem s (ptr + i) else 0)) \<and> (\<forall>x. x < np \<or> np + k \<le> x \<longrightarrow> m x = mem s x)"
proof (cases "n < sz")
  case True
  define m1 where "m1 = (\<lambda>a. if np \<le> a \<and> a < np + sz then 0 else mem s a)"
  have "memset s np 0 sz = Some (s\<lparr>mem := m1\<rparr>)" using memset_in [of s np sz] assms by (simp add: m1_def)
  moreover have "memcpy (s\<lparr>mem := m1\<rparr>) np ptr n = Some (s\<lparr>mem := (\<lambda>a. if np \<le> a \<and> a < np + n then m1 (ptr + (a - np)) else m1 a)\<rparr>)"
    using assms(1,2,4,5,6,8) True by (auto simp: memcpy_def in_heap_def cong: if_cong)
  ultimately show ?thesis using True assms
    by (intro exI [of _ "\<lambda>a. if np \<le> a \<and> a < np + n then m1 (ptr + (a - np)) else m1 a"]) (auto simp: m1_def)
next
  case False
  have "memcpy s np ptr sz = Some (s\<lparr>mem := (\<lambda>a. if np \<le> a \<and> a < np + sz then mem s (ptr + (a - np)) else mem s a)\<rparr>)"
    using assms(1-6,8) False by (auto simp: memcpy_def in_heap_def)
  with False assms show ?thesis
    by (intro exI [of _ "\<lambda>a. if np \<le> a \<and> a < np + sz then mem s (ptr + (a - np)) else mem s a"]) auto
qed

text \<open>The heap after the data of a block has been moved to a new one and the block has been freed.\<close>

definition moved_block :: "mm \<Rightarrow> (int \<times> bool) list \<Rightarrow> int \<Rightarrow> int \<Rightarrow> int \<Rightarrow> int \<Rightarrow> mm \<Rightarrow> bool" where
  "moved_block s bs ptr n sz np s' \<longleftrightarrow> (\<exists>bs' k. heap_ok s' bs' \<and> heap_start s' = heap_start s \<and> sz \<le> k \<and> (np, k) \<notin> used (heap_start s) bs \<and>
     used (heap_start s) bs' = insert (np, k) (used (heap_start s) bs - {(ptr, n)}) \<and>
     (\<forall>i. 0 \<le> i \<and> i < k \<longrightarrow> mem s' (np + i) = (if i < n \<and> i < sz then mem s (ptr + i) else 0)) \<and>
     (\<forall>(p, j) \<in> used (heap_start s) bs - {(ptr, n)}. \<forall>x. p \<le> x \<and> x < p + j \<longrightarrow> mem s' x = mem s x))"

lemma moved_blockI:
  assumes "heap_ok s' bs'" "sz \<le> k" "(np, k) \<notin> used (heap_start s) bs" "used (heap_start s) bs' = insert (np, k) (used (heap_start s) bs - {(ptr, n)})"
    and "\<forall>i. 0 \<le> i \<and> i < k \<longrightarrow> m (np + i) = (if i < n \<and> i < sz then m1 (ptr + i) else 0)" "\<forall>x. x < np \<or> np + k \<le> x \<longrightarrow> m x = m1 x"
    and "\<forall>(p, j) \<in> used (heap_start s) bs'. \<forall>x. p \<le> x \<and> x < p + j \<longrightarrow> mem s' x = m x"
    and "\<forall>(p, j) \<in> used (heap_start s) bs. (p + j \<le> np \<or> np + k \<le> p) \<and> (\<forall>x. p \<le> x \<and> x < p + j \<longrightarrow> m1 x = mem s x)"
    and "(ptr, n) \<in> used (heap_start s) bs" "heap_start s' = heap_start s"
  shows "moved_block s bs ptr n sz np s'"
proof -
  have "mem s' (np + i) = (if i < n \<and> i < sz then mem s (ptr + i) else 0)" if i: "0 \<le> i" "i < k" for i
  proof -
    have "mem s' (np + i) = m (np + i)" using assms(4,7) i by auto
    moreover have "m1 (ptr + i) = mem s (ptr + i)" if "i < n" using assms(8,9) i that by auto
    ultimately show ?thesis using assms(5) i by auto
  qed
  moreover have "mem s' x = mem s x" if "(p, j) \<in> used (heap_start s) bs - {(ptr, n)}" "p \<le> x" "x < p + j" for p j x
  proof -
    have "mem s' x = m x" using assms(4,7) that by blast
    also have "\<dots> = m1 x" using assms(6,8) that by fastforce
    finally show ?thesis using assms(8) that by auto
  qed
  ultimately show ?thesis using assms(1-4,10) unfolding moved_block_def by blast
qed

lemma realloc_moves:
  assumes "new_block s bs sz np s1 bs1" "grown bs bs1" "heap_ok s bs" "bs = pre @ (n, False) # post"
    and "back_ok (heap_start s) pre (fst (header (mem s) (heap_start s + span pre)))" "0 < sz" "ptr = heap_start s + span pre + 32"
  shows "\<exists>s2 s3. b_size s1 (ptr - s_block) = Some n \<and>
    (if n < sz then do { s' \<leftarrow> memset s1 np 0 sz; memcpy s' np ptr n } else memcpy s1 np ptr sz) = Some s2 \<and>
    mm_free s2 ptr = Some s3 \<and> moved_block s bs ptr n sz np s3"
proof -
  let ?a = "heap_start s"
  obtain k where h1: "heap_ok s1 bs1" "heap_start s1 = ?a" and k: "sz \<le> k" "used ?a bs1 = insert (np, k) (used ?a bs)"
    "\<forall>x. np \<le> x \<and> x < np + k \<longrightarrow> mem s1 x = 0"
    and old: "\<forall>(p, j) \<in> used ?a bs. (p + j \<le> np \<or> np + k \<le> p) \<and> (\<forall>x. p \<le> x \<and> x < p + j \<longrightarrow> mem s1 x = mem s x) \<and>
       fst (header (mem s1) (p - 32)) = fst (header (mem s) (p - 32))"
    using assms(1) unfolding new_block_def by blast
  have u: "(ptr, n) \<in> used ?a bs" by (simp add: assms(4,7) used_append)
  obtain pre1 post1 where bs1: "bs1 = pre1 @ (n, False) # post1" "span pre1 = span pre" "back_ok ?a pre1 (fst (header (mem s) (ptr - 32)))"
    using grown_back_ok [OF assms(2) [unfolded assms(4)] assms(5)] assms(7) by auto
  have h1': "heap_ok s1 (pre1 @ (n, False) # post1)" using h1 bs1(1) by simp
  note bh = block_header [OF h1', unfolded h1(2) bs1(2)]
  have "in_heap s1 (?a + span pre) 32" using bh(5) [of "mem s1"] by (simp add: in_heap_def)
  then have size: "b_size s1 (ptr - s_block) = Some n" using bh(1) header_fields(4) by (fastforce simp: assms(7) s_block_def)
  have seg1: "seg (mem s1) (brk s1) ?a bs1 (brk s1)" using h1 by (simp add: heap_ok_def)
  have np: "?a + 32 \<le> np" "np + k \<le> brk s1" "ptr + n \<le> np \<or> np + k \<le> ptr" using used_bounds [OF seg1, of np k] k(2) old u by auto
  obtain m where m: "(if n < sz then do { s' \<leftarrow> memset s1 np 0 sz; memcpy s' np ptr n } else memcpy s1 np ptr sz) = Some (s1\<lparr>mem := m\<rparr>)"
    "\<forall>i. 0 \<le> i \<and> i < k \<longrightarrow> m (np + i) = (if i < n \<and> i < sz then mem s1 (ptr + i) else 0)" "\<forall>x. x < np \<or> np + k \<le> x \<longrightarrow> m x = mem s1 x"
    using realloc_copy [of s1 np k sz ptr n] np assms(6,7) bh(2-4) k(1,3) h1(2) by auto
  have h2: "heap_ok (s1\<lparr>mem := m\<rparr>) (pre1 @ (n, False) # post1)"
    using data_write [OF h1(1), of np k m] k(2) m(3) h1(2) bs1(1) by simp
  have kn: "0 \<le> k" "0 \<le> n" using k(1) assms(6) bh(2) by simp_all
  have "header m (ptr - 32) = header (mem s1) (ptr - 32)"
    using m(3) used_disjoint [OF seg1, of np k ptr n] k(2) u np(3) kn assms(6) k(1) by (intro header_cong) auto
  then have hd: "fst (header m (?a + span pre)) = fst (header (mem s) (ptr - 32))" using old u by (fastforce simp: assms(7))
  obtain m3 bs3 where m3: "mm_free (s1\<lparr>mem := m\<rparr>) ptr = Some (s1\<lparr>mem := m3\<rparr>)" "heap_ok (s1\<lparr>mem := m3\<rparr>) bs3"
    "used ?a bs3 = used ?a pre1 \<union> used (ptr + n) post1" "\<forall>(p, j) \<in> used ?a bs3. \<forall>x. p \<le> x \<and> x < p + j \<longrightarrow> m3 x = m x"
    using free_ok [OF h2, of "fst (header (mem s) (ptr - 32))"] bs1(2,3) hd h1(2) by (auto simp: used_join assms(7))
  have "used ?a bs3 = used ?a bs1 - {(ptr, n)}"
    using used_bounds [OF bh(8), of ptr n] used_bounds [OF bh(9), of ptr n] kn by (auto simp: m3(3) bs1(1,2) used_append assms(7) algebra_simps)
  moreover have "(np, k) \<noteq> (ptr, n)" "(np, k) \<notin> used ?a bs" using old u np(3) kn assms(6) k(1) by auto
  ultimately have "moved_block s bs ptr n sz np (s1\<lparr>mem := m3\<rparr>)"
    by (intro moved_blockI [of _ bs3 sz k np s bs ptr n m "mem s1"]) (use m3(2,4) k(1,2) m(2,3) old u h1(2) in auto)
  with size m(1) m3(1) show ?thesis by blast
qed

lemma realloc_ok:
  assumes "heap_ok s (pre @ (n, False) # post)" "back_ok (heap_start s) pre (fst (header (mem s) (heap_start s + span pre)))"
    and "0 < sz" "sz < 2 ^ 62"
  defines "ptr \<equiv> heap_start s + span pre + 32" and "bs \<equiv> pre @ (n, False) # post"
  shows "\<exists>np s'. mm_realloc s ptr sz = Some (np, s') \<and>
    (np = 0 \<and> s' = s \<and> list_all (too_small sz) bs \<and> heap_limit s < brk s + 32 + sz \<or> np \<noteq> 0 \<and> moved_block s bs ptr n sz np s')"
proof -
  have p0: "ptr \<noteq> 0" using block_header(6) [OF assms(1)] by (simp add: ptr_def)
  have h: "heap_ok s bs" using assms(1) by (simp add: bs_def)
  obtain np s1 where run1: "mm_malloc s sz = Some (np, s1)"
    and c: "np = 0 \<and> s1 = s \<and> list_all (too_small sz) bs \<and> heap_limit s < brk s + 32 + sz \<or>
       np \<noteq> 0 \<and> (\<exists>bs1. new_block s bs sz np s1 bs1 \<and> grown bs bs1)"
    using malloc_cases [OF h assms(3,4)] by blast
  show ?thesis
  proof (cases "np = 0")
    case True
    with c run1 p0 assms(3) show ?thesis by (auto simp: mm_realloc_def)
  next
    case False
    then obtain bs1 where nb: "new_block s bs sz np s1 bs1" "grown bs bs1" using c by blast
    obtain s2 s3 where "b_size s1 (ptr - s_block) = Some n"
      "(if n < sz then do { s' \<leftarrow> memset s1 np 0 sz; memcpy s' np ptr n } else memcpy s1 np ptr sz) = Some s2"
      "mm_free s2 ptr = Some s3" "moved_block s bs ptr n sz np s3"
      using realloc_moves [OF nb h bs_def [THEN meta_eq_to_obj_eq] assms(2,3) ptr_def [THEN meta_eq_to_obj_eq]] by blast
    then show ?thesis using False run1 p0 assms(3) by (intro exI [of _ np] exI [of _ s3]) (simp add: mm_realloc_def)
  qed
qed

section \<open>Properties\<close>

definition fresh_heap :: mm where
  "fresh_heap = \<lparr>mem = (\<lambda>_. 255), heap_start = 64, brk = 64, heap_limit = 4096, global_base = 0\<rparr>"

text \<open>A heap with one block of ten bytes in use.\<close>

definition one_block :: mm where
  "one_block = \<lparr>mem = (\<lambda>a. if a = 88 then 10 else if a = 96 then 7 else 0), heap_start = 64, brk = 106, heap_limit = 4096, global_base = 64\<rparr>"

lemma fresh_heap_ok: "heap_ok fresh_heap []"
  by (simp add: heap_ok_def fresh_heap_def)

lemma one_block_header: "header (mem one_block) 64 = (0, 0, 0, 10)"
  by code_simp

lemma one_block_fields [simp]: "heap_start one_block = 64" "brk one_block = 106" "heap_limit one_block = 4096" "global_base one_block = 64"
  "mem one_block 96 = 7"
  by (simp_all add: one_block_def)

lemma one_block_ok: "heap_ok one_block [(10, False)]"
  by (simp add: heap_ok_def one_block_header)

lemma used_removed:
  assumes "heap_ok s (pre @ (n, False) # post)"
  shows "used (heap_start s) pre \<union> used (heap_start s + span pre + 32 + n) post =
    used (heap_start s) (pre @ (n, False) # post) - {(heap_start s + span pre + 32, n)}"
  using used_bounds [OF block_header(8) [OF assms], of "heap_start s + span pre + 32" n]
    used_bounds [OF block_header(9) [OF assms], of "heap_start s + span pre + 32" n] block_header(2) [OF assms]
  by (auto simp: used_append)

text \<open>C14. \<open>mm_malloc\<close> is correct on every heap whose forward links are right: it returns, with NULL and the heap
  unchanged only if no free block is large enough and the break cannot be moved; otherwise with a block of at least
  the size asked for, all zero, that overlaps no block in use; the blocks in use before are still in use with their
  data, and the forward links are right again.\<close>

theorem mm_malloc_correct:
  assumes "heap_ok s bs" and "0 < sz" and "sz < 2 ^ 62"
  shows "\<exists>ptr s'. mm_malloc s sz = Some (ptr, s') \<and>
    (if ptr = 0 then s' = s \<and> (\<forall>(n, fr) \<in> set bs. fr \<longrightarrow> n < sz) \<and> heap_limit s < brk s + 32 + sz
     else \<exists>bs' n. heap_ok s' bs' \<and> heap_start s' = heap_start s \<and> sz \<le> n \<and>
       used (heap_start s) bs' = insert (ptr, n) (used (heap_start s) bs) \<and> (\<forall>x. ptr \<le> x \<and> x < ptr + n \<longrightarrow> mem s' x = 0) \<and>
       (\<forall>(p, k) \<in> used (heap_start s) bs. (p + k \<le> ptr \<or> ptr + n \<le> p) \<and> (\<forall>x. p \<le> x \<and> x < p + k \<longrightarrow> mem s' x = mem s x)))"
proof -
  obtain ptr s' where run: "mm_malloc s sz = Some (ptr, s')" and c: "ptr = 0 \<and> s' = s \<and> list_all (too_small sz) bs \<and> heap_limit s < brk s + 32 + sz \<or>
     ptr \<noteq> 0 \<and> (\<exists>bs'. new_block s bs sz ptr s' bs' \<and> grown bs bs')"
    using malloc_cases [OF assms] by blast
  show ?thesis
  proof (cases "ptr = 0")
    case True
    with c have "s' = s" "heap_limit s < brk s + 32 + sz" "\<forall>(n, fr) \<in> set bs. fr \<longrightarrow> n < sz" by (auto simp: list_all_iff too_small_def)
    with True run show ?thesis by (intro exI [of _ 0] exI [of _ s]) simp
  next
    case False
    with c obtain bs' where "new_block s bs sz ptr s' bs'" by blast
    then obtain n where n: "heap_ok s' bs'" "heap_start s' = heap_start s" "sz \<le> n"
      "used (heap_start s) bs' = insert (ptr, n) (used (heap_start s) bs)" "\<forall>x. ptr \<le> x \<and> x < ptr + n \<longrightarrow> mem s' x = 0"
      "\<forall>(p, k) \<in> used (heap_start s) bs. (p + k \<le> ptr \<or> ptr + n \<le> p) \<and> (\<forall>x. p \<le> x \<and> x < p + k \<longrightarrow> mem s' x = mem s x) \<and>
         fst (header (mem s') (p - 32)) = fst (header (mem s) (p - 32))"
      unfolding new_block_def by blast
    have "\<forall>(p, k) \<in> used (heap_start s) bs. (p + k \<le> ptr \<or> ptr + n \<le> p) \<and> (\<forall>x. p \<le> x \<and> x < p + k \<longrightarrow> mem s' x = mem s x)"
      using n(6) by blast
    with False run n(1-5) show ?thesis by auto
  qed
qed

theorem mm_malloc_correct_witness:
  "\<exists>ptr s'. mm_malloc fresh_heap 100 = Some (ptr, s') \<and> ptr \<noteq> 0 \<and> (\<exists>bs' n. heap_ok s' bs' \<and> 100 \<le> n \<and> used 64 bs' = {(ptr, n)})"
  using mm_malloc_correct [OF fresh_heap_ok, of 100] by (auto simp: fresh_heap_def split: if_splits)

text \<open>C15. \<open>mm_free\<close> of a block in use whose backward link is NULL or leads to the block right before it or to a block
  in use: it returns, exactly that block is no longer in use, its space has been joined with a free block behind it
  and with a free block the link leads to, and the other blocks keep their data.\<close>

theorem mm_free_correct:
  assumes "heap_ok s (pre @ (n, False) # post)"
    and "header (mem s) (heap_start s + span pre) = (pv, nx, fr, sz)" and "back_ok (heap_start s) pre pv"
  shows "\<exists>s'. mm_free s (heap_start s + span pre + 32) = Some s' \<and>
    (let bs' = join_prev (pre \<noteq> [] \<and> pv = heap_start s + span (butlast pre)) pre (fst (join_next n post)) (snd (join_next n post)) in
     heap_ok s' bs' \<and> heap_start s' = heap_start s \<and> used (heap_start s) bs' = used (heap_start s) (pre @ (n, False) # post) - {(heap_start s + span pre + 32, n)} \<and>
     (\<forall>(p, k) \<in> used (heap_start s) bs'. \<forall>x. p \<le> x \<and> x < p + k \<longrightarrow> mem s' x = mem s x))"
proof -
  obtain m where "mm_free s (heap_start s + span pre + 32) = Some (s\<lparr>mem := m\<rparr>)"
    "heap_ok (s\<lparr>mem := m\<rparr>) (join_prev (pre \<noteq> [] \<and> pv = heap_start s + span (butlast pre)) pre (fst (join_next n post)) (snd (join_next n post)))"
    "\<forall>(p, k) \<in> used (heap_start s) (join_prev (pre \<noteq> [] \<and> pv = heap_start s + span (butlast pre)) pre (fst (join_next n post)) (snd (join_next n post))).
       \<forall>x. p \<le> x \<and> x < p + k \<longrightarrow> m x = mem s x"
    using free_ok [OF assms(1,3)] assms(2) by auto
  with used_removed [OF assms(1)] show ?thesis unfolding Let_def used_join by (intro exI [of _ "s\<lparr>mem := m\<rparr>"]) simp
qed

theorem mm_free_correct_witness:
  "\<exists>s'. mm_free one_block 96 = Some s' \<and> heap_ok s' [(10, True)]"
  using mm_free_correct [of one_block "[]" 10 "[]" 0 0 0 10] one_block_ok one_block_header
  by (auto simp: back_ok_def Let_def join_prev_def)

text \<open>C16. \<open>mm_realloc\<close> of a block in use, on a heap whose forward links are right, keeps its contents, provided that the
  backward link of the block can be followed: it is NULL, or leads to the block right before, or to a block in use
  (\<open>mm_blocks_overlap\<close> reaches a heap where it does not). It returns NULL with the heap unchanged only if nothing
  of the new size can be allocated; otherwise the result is a block of at least that size that holds as many bytes of
  the old data as fit, zeros behind them, the old block is no longer in use and all other blocks keep their data.\<close>

theorem mm_realloc_correct:
  assumes "heap_ok s (pre @ (n, False) # post)" and "header (mem s) (heap_start s + span pre) = (pv, nx, fr, n')"
    and "back_ok (heap_start s) pre pv" and "0 < sz" and "sz < 2 ^ 62" and "ptr = heap_start s + span pre + 32"
    and "old = used (heap_start s) (pre @ (n, False) # post)"
  shows "\<exists>np s'. mm_realloc s ptr sz = Some (np, s') \<and>
    (if np = 0 then s' = s \<and> heap_limit s < brk s + 32 + sz
     else \<exists>bs' k. heap_ok s' bs' \<and> heap_start s' = heap_start s \<and> sz \<le> k \<and> (np, k) \<notin> old \<and> used (heap_start s) bs' = insert (np, k) (old - {(ptr, n)}) \<and>
       (\<forall>i. 0 \<le> i \<and> i < k \<longrightarrow> mem s' (np + i) = (if i < n \<and> i < sz then mem s (ptr + i) else 0)) \<and>
       (\<forall>(p, j) \<in> old - {(ptr, n)}. \<forall>x. p \<le> x \<and> x < p + j \<longrightarrow> mem s' x = mem s x))"
proof -
  have "back_ok (heap_start s) pre (fst (header (mem s) (heap_start s + span pre)))" using assms(2,3) by simp
  from realloc_ok [OF assms(1) this assms(4,5)] obtain np s' where "mm_realloc s ptr sz = Some (np, s')"
    "np = 0 \<and> s' = s \<and> heap_limit s < brk s + 32 + sz \<or> np \<noteq> 0 \<and> moved_block s (pre @ (n, False) # post) ptr n sz np s'"
    unfolding assms(6) by blast
  then show ?thesis unfolding moved_block_def assms(7) by (cases "np = 0") auto
qed

theorem mm_realloc_correct_witness:
  "\<exists>np s'. mm_realloc one_block 96 200 = Some (np, s') \<and> np \<noteq> 0 \<and> mem s' np = 7"
proof -
  obtain np s' where r: "mm_realloc one_block 96 200 = Some (np, s')"
    and c: "if np = 0 then s' = one_block \<and> (4096 :: int) < 106 + 32 + 200
     else \<exists>bs' k. heap_ok s' bs' \<and> heap_start s' = 64 \<and> 200 \<le> k \<and> (np, k) \<notin> {(96, 10)} \<and> used 64 bs' = insert (np, k) ({(96, 10)} - {(96, 10)}) \<and>
       (\<forall>i. 0 \<le> i \<and> i < k \<longrightarrow> mem s' (np + i) = (if i < 10 \<and> i < 200 then mem one_block (96 + i) else 0)) \<and>
       (\<forall>(p, j) \<in> {(96, 10)} - {(96, 10)}. \<forall>x. p \<le> x \<and> x < p + j \<longrightarrow> mem s' x = mem one_block x)"
    using mm_realloc_correct [of one_block "[]" 10 "[]" 0 0 0 10 200 96 "{(96, 10)}"] one_block_ok one_block_header
    by (auto simp: back_ok_def cong: if_cong)
  then obtain k where k: "np \<noteq> 0" "200 \<le> k" "\<forall>i. 0 \<le> i \<and> i < k \<longrightarrow> mem s' (np + i) = (if i < 10 \<and> i < 200 then mem one_block (96 + i) else 0)"
    by (cases "np = 0") auto
  have "mem s' (np + 0) = mem one_block (96 + 0)" using k(2) spec [OF k(3), of 0] by simp
  with r k(1) show ?thesis by auto
qed

text \<open>Two blocks in use can overlap: splitting a block leaves the backward link of the block behind it on the first
  part, so a later \<open>mm_free\<close> of that block joins it with the first part although the second part, between them, is in
  use. After this sequence of calls the block of 48 bytes at \<open>u\<close> reaches into the block of 60 bytes at \<open>t\<close>, which was
  never freed.\<close>

theorem mm_blocks_overlap:
  "do { (p, s) \<leftarrow> mm_malloc fresh_heap 100; (q, s) \<leftarrow> mm_malloc s 8; s \<leftarrow> mm_free s p; (r, s) \<leftarrow> mm_malloc s 8; (t, s) \<leftarrow> mm_malloc s 60;
        s \<leftarrow> mm_free s r; s \<leftarrow> mm_free s q; (u, s) \<leftarrow> mm_malloc s 48; Some (t, u) } = Some (136, 96) \<and> (96 :: int) + 48 > 136"
  by code_simp

text \<open>The size is not checked for wrap-around, and \<open>mm_realloc\<close> to size 0 leaves the block in use.\<close>

lemma mm_malloc_huge_crashes: "mm_malloc fresh_heap (2 ^ 64 - 16) = None"
  by code_simp

lemma mm_realloc_zero_keeps: "ptr \<noteq> 0 \<Longrightarrow> mm_realloc s ptr 0 = Some (0, s)"
  by (simp add: mm_realloc_def)

end
