(* ===== verification/MmTest.thy ===== *)
theory MmTest
  imports MmAlloc
begin

text \<open>
  The test program of the allocator, \<open>hw3/mm_test.c\<close>: it writes into a block, has it made larger, and prints the first bytes. The result
  is what it prints itself.
\<close>

section \<open>The program\<close>

definition print_elem :: "char \<Rightarrow> u8 \<Rightarrow> string" where
  "print_elem i c = ''q['' @ [i] @ '']: '' @ [char_of (unat c)] @ [CHR 0x0A]"

definition mm_test_main :: "mm \<Rightarrow> (string \<times> mm) option" where
  "mm_test_main s = do {
     (p, s1) \<leftarrow> mm_malloc s (1 * (100 + 1));
     s2 \<leftarrow> mstore s1 p 1 101;
     s3 \<leftarrow> mstore s2 (p + 1) 1 1;
     s4 \<leftarrow> mstore s3 (p + 2) 1 2;
     s5 \<leftarrow> mstore s4 (p + 3) 1 3;
     (q, s6) \<leftarrow> mm_realloc s5 p (1 * (200 + 1));
     q0 \<leftarrow> mload s6 q 1;
     q1 \<leftarrow> mload s6 (q + 1) 1;
     q2 \<leftarrow> mload s6 (q + 2) 1;
     Some (''Begin Own Test'' @ [CHR 0x0A, CHR 0x0A] @ print_elem CHR ''0'' (word_of_int q0) @ print_elem CHR ''1'' (word_of_int q1)
       @ print_elem CHR ''2'' (word_of_int q2), s6)
   }"

section \<open>What it prints\<close>

lemma store_byte: "heap_start s \<le> a \<Longrightarrow> a < brk s \<Longrightarrow> mstore s a 1 v = Some (s\<lparr>mem := (mem s)(a := word_of_int v)\<rparr>)"
  by (simp add: mstore_def in_heap_def)

lemma load_byte: "heap_start s \<le> a \<Longrightarrow> a < brk s \<Longrightarrow> mload s a 1 = Some (uint (mem s a))"
  by (simp add: mload_def in_heap_def)

text \<open>The first block of all, whatever is then written into it.\<close>

definition first_block :: "mm \<Rightarrow> int \<Rightarrow> (int \<Rightarrow> u8) \<Rightarrow> mm" where
  "first_block s n m = s\<lparr>mem := m, brk := brk s + 32 + n, global_base := brk s\<rparr>"

lemma first_malloc:
  assumes "heap_ok s []" "0 < n" "n < 2 ^ 62" "brk s + 32 + n \<le> heap_limit s"
  shows "\<exists>m. mm_malloc s n = Some (brk s + 32, first_block s n m) \<and> header m (brk s) = (0, 0, 0, n)"
proof -
  have ok: "0 < heap_start s" "heap_start s = brk s" "global_base s = 0" using assms(1) by (simp_all add: heap_ok_def)
  define s1 where "s1 = s\<lparr>brk := brk s + 32 + n\<rparr>"
  have b: "sbrk s (to_int64 ((s_block + n) mod 2 ^ 64)) = (brk s, s1)"
    using assms(2-4) ok by (simp add: sbrk_def to_int64_def s_block_def s1_def)
  have "in_heap s1 (brk s) 32" using ok assms(2) by (simp add: in_heap_def s1_def)
  then obtain m where m: "set_contents_safe s1 (brk s) 0 0 0 n = Some (s1\<lparr>mem := m\<rparr>)" "header m (brk s) = (0, 0, 0, n)"
    using set_contents [of s1 "brk s" 0 0 0 n] assms(2,3) by (auto simp: word_ok_def)
  define m' where "m' a = (if brk s + 32 \<le> a \<and> a < brk s + 32 + n then word_of_int 0 else m a)" for a
  have "memset (s1\<lparr>mem := m\<rparr>) (brk s + s_block) 0 n = Some (s1\<lparr>mem := m'\<rparr>)"
    using ok assms(2) by (auto simp: memset_def in_heap_def s1_def s_block_def m'_def [abs_def] cong: if_cong)
  then have "extend_heap s 0 n = Some (brk s, s1\<lparr>mem := m'\<rparr>)"
    using b m(1) ok assms(1,2,4) unfolding extend_heap_def b by (simp add: sbrk_def)
  moreover have "header m' (brk s) = header m (brk s)" by (rule header_cong) (simp add: m'_def)
  ultimately show ?thesis using ok m(2) assms(2) by (intro exI [of _ m']) (simp add: mm_malloc_def s_block_def first_block_def s1_def)
qed

lemma first_block_ok:
  assumes "heap_ok s []" "0 < n" "brk s + 32 + n \<le> heap_limit s" "header m (brk s) = (0, 0, 0, n)"
  shows "heap_ok (first_block s n m) ([] @ (n, False) # [])"
  using assms by (auto simp: heap_ok_def first_block_def)

lemma first_realloc:
  assumes "heap_ok s []" "0 < n" "n \<le> k" "k < 2 ^ 62" "brk s + 32 + n + 32 + k \<le> heap_limit s" "header m (brk s) = (0, 0, 0, n)"
  shows "\<exists>q s'. mm_realloc (first_block s n m) (brk s + 32) k = Some (q, s') \<and>
    (\<forall>i. 0 \<le> i \<and> i < n \<longrightarrow> heap_start s' \<le> q + i \<and> q + i < brk s' \<and> mem s' (q + i) = m (brk s + 32 + i))"
proof -
  let ?s = "first_block s n m"
  have h: "heap_ok ?s ([] @ (n, False) # [])" by (rule first_block_ok) (use assms in auto)
  have e: "heap_start s = brk s" "heap_start ?s = brk s" using assms(1) by (auto simp: heap_ok_def first_block_def)
  have "back_ok (heap_start ?s) [] (fst (header (mem ?s) (heap_start ?s + span [])))" using assms(6) e by (simp add: back_ok_def first_block_def)
  from realloc_ok [OF h this, of k] obtain q s' where q: "mm_realloc ?s (brk s + 32) k = Some (q, s')"
    "moved_block ?s ([] @ (n, False) # []) (brk s + 32) n k q s'" using assms e by (auto simp: first_block_def)
  then obtain bs' j where j: "heap_ok s' bs'" "heap_start s' = brk s" "k \<le> j" "used (brk s) bs' = {(q, j)}"
    "\<forall>i. 0 \<le> i \<and> i < j \<longrightarrow> mem s' (q + i) = (if i < n \<and> i < k then m (brk s + 32 + i) else 0)"
    unfolding moved_block_def using e by (auto simp: first_block_def)
  have "seg (mem s') (brk s') (heap_start s') bs' (brk s')" using j(1) by (simp add: heap_ok_def)
  then have "heap_start s' + 32 \<le> q \<and> q + j \<le> brk s'" using used_bounds [of _ _ _ bs' _ q j] j(2,4) by simp
  with q(1) j assms(3) show ?thesis by (intro exI [of _ q] exI [of _ s']) auto
qed

text \<open>On an empty heap with room for both blocks, the bytes come out of the larger block as they went into the smaller one.\<close>

lemma mm_test_prints:
  assumes "heap_ok s []" "brk s + 32 + 101 + 32 + 201 \<le> heap_limit s"
  shows "\<exists>s'. mm_test_main s = Some (''Begin Own Test'' @ [CHR 0x0A, CHR 0x0A] @ ''q[0]: e'' @ [CHR 0x0A] @ ''q[1]: '' @ [CHR 0x01, CHR 0x0A]
    @ ''q[2]: '' @ [CHR 0x02, CHR 0x0A], s')"
proof -
  let ?p = "brk s + 32"
  obtain m where m: "mm_malloc s 101 = Some (?p, first_block s 101 m)" "header m (brk s) = (0, 0, 0, 101)"
    using first_malloc [OF assms(1), of 101] assms(2) by auto
  define m' where "m' = m(?p := 101, ?p + 1 := 1, ?p + 2 := 2, ?p + 3 := 3)"
  have "header m' (brk s) = header m (brk s)" by (rule header_cong) (simp add: m'_def)
  then obtain q s' where q: "mm_realloc (first_block s 101 m') ?p 201 = Some (q, s')"
    and c: "\<forall>i. 0 \<le> i \<and> i < 101 \<longrightarrow> heap_start s' \<le> q + i \<and> q + i < brk s' \<and> mem s' (q + i) = m' (?p + i)"
    using first_realloc [OF assms(1), of 101 201 m'] assms(2) m(2) by auto
  have w: "mstore (first_block s 101 g) (?p + i) 1 v = Some (first_block s 101 (g(?p + i := word_of_int v)))" if "0 \<le> i" "i < 101" for g i v
    using that assms(1) by (subst store_byte) (auto simp: first_block_def heap_ok_def)
  have r: "mload s' (q + i) 1 = Some (uint (m' (?p + i)))" if "0 \<le> i" "i < 101" for i using c that by (subst load_byte) auto
  show ?thesis
    using m(1) q w [of 0] w [of 1] w [of 2] w [of 3] r [of 0] r [of 1] r [of 2]
    by (simp add: mm_test_main_def print_elem_def m'_def char_of_def bit_0)
qed

text \<open>Where there is room for the first block only, the program reads through NULL.\<close>

lemma mm_test_crashes: "mm_test_main (fresh_heap\<lparr>heap_limit := 300\<rparr>) = None"
  by code_simp

end
