(* ===== verification/Spec2Isabelle.thy ===== *)
theory Spec2Isabelle
  imports Programs Interleaving WordCount JobControl FileServer MsgMemory UtBloom UtHashKeys MmTest
begin

text \<open>
  A verification development for the C programs of this repository: the replicated key-value store of
  \<open>hw4\<close> (a leader that runs two-phase commit over its followers, each with a store and a log on disk), the
  allocator of \<open>hw3\<close>, the file and proxy server of \<open>hw2\<close>, the shell of \<open>hw1\<close> and the word counter of \<open>hw0\<close>.

  \<^bold>\<open>How the parts interact.\<close> A client sends an HTTP request to the leader. A worker thread of
  \<open>socket_server.c\<close> takes the connection from the work queue (\<open>wq.c\<close>) and calls \<open>tpcleader_handle\<close>, which decodes
  the request (\<open>libhttp.c\<close>, \<open>liburl.c\<close>, \<open>kvmessage.c\<close>), chooses the replicas of the key on a ring sorted by the hash of
  the followers' addresses (\<open>md5.c\<close>, \<open>strhash64\<close>) and forwards the request. A follower's \<open>kvserver_handle\<close> logs the
  request (\<open>tpclog.c\<close>), votes, and applies it to its store (\<open>kvstore.c\<close>) on a commit; after a restart it rebuilds its
  state from the log.

  \<^bold>\<open>Theories and the code they model\<close> (paths below \<open>src/\<close>; definitions have the names of the C functions).
  \<^item> \<open>Prelude\<close>: types, strings of C, decimal numbers, \<open>strtol\<close>, lemmas and collections of facts that the others share.
  \<^item> \<open>Md5\<close>: \<open>hw4/src/md5.c\<close> and \<open>strhash64\<close> of \<open>kvconstants.h\<close> on 32-bit words, equal to the digest of RFC 1321 for every
    split of the message into updates; the reference has its own reading and writing of words, and two digests are
    computed.
  \<^item> \<open>Fsys\<close>: the file system the store and the log use, as a state: directories, files, permissions.
  \<^item> \<open>KvConstants\<close>: limits, messages and codes of \<open>kvconstants.h\<close>.
  \<^item> \<open>KvStore\<close>: \<open>kvstore.c\<close>, entries chained by hash in files; refines a finite map, collisions included.
  \<^item> \<open>TpcLog\<close>: \<open>tpclog.c\<close>, numbered log files; what is appended is iterated, and a log is continued after a restart.
  \<^item> \<open>LibUrl\<close>, \<open>LibHttp\<close>, \<open>KvMessage\<close>: \<open>liburl.c\<close>, \<open>libhttp.c\<close>, \<open>kvmessage.c\<close>; round trips of messages through the
    contract \<open>wire_codec\<close>, safety of the parsers on every input, and the inputs on which buffers overflow.
  \<^item> \<open>MsgMemory\<close>: what receiving a message allocates and frees in \<open>kvmessage.c\<close>, \<open>libhttp.c\<close> and \<open>liburl.c\<close>, over a heap of
    blocks; nothing is freed twice or used behind its release, and only repeated parameters are lost.
  \<^item> \<open>KvServer\<close>: \<open>kvserver.c\<close>; the handler refines an abstract participant (contract \<open>tpc_participant\<close>), recovery, and
    what the log misses.
  \<^item> \<open>TpcLeader\<close>: \<open>tpcleader.c\<close>; followers are cells of a heap linked to a ring (contract \<open>ring_walk\<close>), registration, choice
    of the primary, both phases over an arbitrary network: agreement, and when a transaction ends. \<open>tpcleader_register\<close>
    prints the address into an array that is always too short, so it never has a defined outcome while a place is left;
    insertion into the ring (\<open>register_follower\<close>) is a definition of its own, and proved for every identifier.
  \<^item> \<open>Cluster\<close>: the leader over a network whose hosts run \<open>kvserver_handle\<close>, byte for byte.
  \<^item> \<open>Interleaving\<close>: \<open>tpcleader_handle_tpc\<close> as a machine that may be interrupted between two calls of a follower, and schedules of
    several such threads (contract \<open>interleaved\<close>); transactions on different followers are atomic, and two on the same
    follower may lose a write.
  \<^item> \<open>WorkQueue\<close>: \<open>wq.c\<close> with \<open>DL_APPEND\<close> and \<open>DL_DELETE\<close> of \<open>utlist.h\<close> over explicit cells; a first-in-first-out queue
    (contract \<open>fifo_queue\<close>).
  \<^item> \<open>UtList\<close>, \<open>UtSort\<close>: the other macros of \<open>utlist.h\<close>: singly linked, doubly linked and circular lists (contract
    \<open>pointer_list\<close>, one interpretation for each kind) refine lists of elements, and their merge sorts end and are stable sorts.
  \<^item> \<open>UtHash\<close>, \<open>UtHashSort\<close>: the hash table and the hash functions of \<open>uthash.h\<close>; the table refines an association list through
    any number of doublings of its buckets, its sort is stable, and what a selection into another table leaves wrong.
  \<^item> \<open>UtBloom\<close>: the table with a Bloom filter (\<open>HASH_BLOOM\<close>) answers as without one, except behind \<open>HASH_SELECT\<close>.
  \<^item> \<open>UtPortable\<close>: the replacements of \<open>utlist.h\<close> for compilers without \<open>decltype\<close> do the same as the macros they replace;
    \<open>DL_FOREACH_SAFE\<close> and \<open>CDL_FOREACH_SAFE\<close>; unaligned keys and the emission of keys in \<open>uthash.h\<close>.
  \<^item> \<open>UtHashKeys\<close>: the forms of the macros for strings, integers and pointers as keys (contract \<open>typed_keys\<close>).
  \<^item> \<open>SocketServer\<close>: \<open>socket_server.c\<close>, threads as program counters and an \<^theory_text>\<open>inductive\<close> step relation, with the
    sleep on the condition variable of \<open>wq.c\<close>, its broadcast and spurious wake-ups, and calls of a handler that may
    never return (the parameter \<open>returns\<close>); every connection is served at most once and in order, no wake-up is lost, and
    all connections can be served as long as one worker is not held by a call for ever.
  \<^item> \<open>WordCount\<close>: \<open>hw0/wc.c\<close>; both loops equal a reference count.
  \<^item> \<open>MmAlloc\<close>: \<open>hw3/mm_alloc.c\<close> over the bytes of the heap; allocation, release and reallocation are correct as long as the
    backward links are, and a sequence of calls that makes two blocks overlap.
  \<^item> \<open>MmTest\<close>: \<open>hw3/mm_test.c\<close>; what it prints where memory is enough.
  \<^item> \<open>Shell\<close>: \<open>hw1/shell.c\<close>, \<open>parse.c\<close>, \<open>io.c\<close>; tokens are the fields of a line, and what a line runs: built-in commands,
    the search along \<open>PATH\<close>, redirection, background, and a \<open>fork\<close> that fails.
  \<^item> \<open>JobControl\<close>: signals and the terminal in \<open>hw1/shell.c\<close> and \<open>process.c\<close>, as runs in which the steps of the shell, its
    children, the programs and what these leave behind interleave; behind a program in the foreground the shell has the
    terminal, and a program in the background can take it.
  \<^item> \<open>FileServer\<close>: \<open>hw2/libhttp.c\<close> and \<open>httpserver.c\<close>; what the parser accepts, what is served (against a
    specification with its own table of media types and its own texts), what the proxy relays.
  \<^item> \<open>Programs\<close>: \<open>hw4/src/main\<close>, the command lines and the start of follower and leader, and what comes of a
    follower's registration.

  \<^bold>\<open>Conventions.\<close> A function that may have no defined outcome (a NULL or freed pointer, a write outside a buffer, a
  failed assertion, a loop that does not end) returns an option, with \<open>None\<close> for that case; error codes and NULL
  results are ordinary values. Machine integers are words, or integers with the wrap-around written out. A loop
  without a bound in the code is a \<^theory_text>\<open>partial_function (option)\<close>, so no fuel is used; that such a loop returns is
  proved as such. A loop over system calls takes the list of their results, which bounds it. Code outside the repository is a parameter: the network, the results of system calls and of
  short writes, \<open>fopen\<close>, whether \<open>fork\<close> succeeds, what the programs run by the shell do. Operations that hold a lock are one step, as is a call of a follower.

  \<^bold>\<open>Properties.\<close> This theory has those that span the components: a PUT or DELETE through the leader is all or nothing
  across the replicas, and what was put is read back. Those of one component are in its theory, behind its lemmas.
  The bounds in their hypotheses are those of the code: at most \<open>2 ^ 31\<close> entries or queued connections (counters of
  type \<open>int\<close>), \<open>2 ^ 30\<close> elements of a list that is sorted, 100 characters of arguments (the URL buffer of 128 bytes), block sizes below \<open>2 ^ 62\<close> (beyond that
  \<open>mm_malloc\<close> wraps around).

  \<^bold>\<open>Not modelled.\<close> Running out of memory and of disk space; the length of file-name buffers; memory outside the
  messages of the key-value servers; data races inside a follower, whose calls are one step each; the
  moves of the program break by the C library; the page of \<open>index.S\<close>; the words of \<open>uthash.h\<close> for processors with the high
  byte first; the signal handler of the file server; signals that stop or end the shell or its programs from outside; the programs \<open>main.c\<close> and \<open>map.c\<close> of \<open>hw0\<close>, which print addresses of
  their own segments.
\<close>

section \<open>The leader and its followers\<close>

text \<open>C1. A transaction is all or nothing across the replicas: when a client sends the bytes of a PUT or DELETE to
  the leader, all followers are registered and the replicas of the key run, the leader answers, and either every
  replica accepts the request, the answer is SUCCESS and each replica's map has changed as asked, or the answer
  is an error and no map has changed; followers that are no replicas of the key keep what they have, and no
  replica is left waiting for a decision. The request passes through the leader's handler, the bytes of both
  phases and the followers' handlers.\<close>

theorem cluster_transaction_atomic:
  assumes "cluster_ready L ps key c A" and "kvrequest_ok req" and "req_type req \<in> {PUTREQ, DELREQ}" and "req_key req = Some key"
    and "kvrequest_wire req = Some bs" and "S = addr ` set (replicas L ps key)" and "all_accept = (\<forall>a \<in> S. accepts (fst (A a)) (tpc_op req))"
  shows "\<exists>reply c'. tpcleader_handle all_written follower_net L bs c = Some (Reply_bytes reply, L, c') \<and>
    kvresponse_recieve reply = Some (Some \<lparr>res_type = (if all_accept then SUCCESS else ERROR), res_body = Some (if all_accept then '''' else ERRMSG_GENERIC_ERROR)\<rparr>) \<and>
    cluster_holds c' (\<lambda>a. if a \<in> S then (if all_accept then kv_commit (fst (A a)) (Some (tpc_op req)) else fst (A a), None) else A a)"
proof -
  define res where "res = (if all_accept then \<lparr>res_type = SUCCESS, res_body = None\<rparr> else \<lparr>res_type = ERROR, res_body = Some ERRMSG_GENERIC_ERROR\<rparr>)"
  obtain c' where c': "tpcleader_handle_tpc follower_net L req c = Some (res, c')" "cluster_holds c' (tpc_outcome A S (tpc_op req))"
    using ready_tpc [OF assms(1-4)] unfolding assms(6,7) res_def by blast
  have ok: "kvresponse_ok res" by (simp add: res_def kvresponse_ok_def opt_len_def ERRMSG_GENERIC_ERROR_def)
  have t: "req_type req \<noteq> REGISTER" "req_type req \<noteq> GETREQ" using assms(3) by auto
  obtain reply where "tpcleader_handle all_written follower_net L bs c = Some (Reply_bytes reply, L, c')"
    "kvresponse_recieve reply = Some (Some (with_body res))"
    using leader_handle_wire [OF assms(2,5) ok t(1), of follower_net L c c'] c'(1) t(2) by auto
  moreover have "tpc_outcome A S (tpc_op req) = (\<lambda>a. if a \<in> S then (if all_accept then kv_commit (fst (A a)) (Some (tpc_op req)) else fst (A a), None) else A a)"
    unfolding tpc_outcome_def assms(7) by (rule refl)
  ultimately show ?thesis using c'(2)
    by (intro exI [of _ reply] exI [of _ c']) (simp add: with_body_def res_def)
qed

theorem cluster_transaction_atomic_witness:
  "\<exists>bs reply c'. kvrequest_wire (del_request ''k'') = Some bs \<and>
    tpcleader_handle all_written follower_net one_leader bs [(''h'', 1) \<mapsto> (start_server, empty_fs)] = Some (Reply_bytes reply, one_leader, c') \<and>
    kvresponse_recieve reply = Some (Some \<lparr>res_type = ERROR, res_body = Some ERRMSG_GENERIC_ERROR\<rparr>)"
proof -
  have ok: "kvrequest_ok (del_request ''k'')" by (simp add: del_request_def kvrequest_ok_def arg_ok_def opt_len_def)
  obtain bs where bs: "kvrequest_wire (del_request ''k'') = Some bs" using req_codec.encodes [OF ok] by blast
  have "replicas one_leader [0] ''k'' \<noteq> []"
    using replicas_length [of one_leader "[0]" "''k''"] one_leader_ready by (auto simp: cluster_ready_def)
  then obtain f where f: "f \<in> set (replicas one_leader [0] ''k'')" by (cases "replicas one_leader [0] ''k''") auto
  have no: "\<not> (\<forall>a \<in> addr ` set (replicas one_leader [0] ''k''). accepts (fst ((\<lambda>_. (Map.empty, None)) a)) (tpc_op (del_request ''k'')))"
    using imageI [OF f, of addr] by (auto simp: tpc_op_def del_request_def)
  show ?thesis
    using cluster_transaction_atomic [OF one_leader_ready ok _ _ bs refl refl] no bs by (auto simp: del_request_def)
qed

text \<open>C9. What was put is read back: after a client's PUT of an entry within the limits to the leader, answered
  with SUCCESS, a client's GET of the key to the leader is answered with the value.\<close>

theorem cluster_put_then_get:
  assumes "cluster_ready L ps key c A" and "kvrequest_ok (put_request key v)" and "key \<noteq> []" and "entry_ok key v"
    and "kvrequest_wire (put_request key v) = Some put" and "kvrequest_wire (get_request key) = Some get"
    and "\<forall>f \<in> set (replicas L ps key). card (dom (fst (A (addr f)))) + 2 < 2 ^ 31"
  shows "\<exists>reply1 reply2 c1 c2. tpcleader_handle all_written follower_net L put c = Some (Reply_bytes reply1, L, c1) \<and>
    kvresponse_recieve reply1 = Some (Some \<lparr>res_type = SUCCESS, res_body = Some ''''\<rparr>) \<and>
    tpcleader_handle all_written follower_net L get c1 = Some (Reply_bytes reply2, L, c2) \<and>
    kvresponse_recieve reply2 = Some (Some \<lparr>res_type = GETRESP, res_body = Some v\<rparr>)"
proof -
  have op: "tpc_op (put_request key v) = Put key v" "req_type (put_request key v) = PUTREQ" "req_key (put_request key v) = Some key"
    by (simp_all add: tpc_op_def put_request_def)
  define S where "S = addr ` set (replicas L ps key)"
  define A1 where "A1 = tpc_outcome A S (Put key v)"
  obtain c1 where c1: "tpcleader_handle_tpc follower_net L (put_request key v) c = Some (\<lparr>res_type = SUCCESS, res_body = None\<rparr>, c1)"
    "cluster_holds c1 A1" "dom c1 = dom c"
    using ready_tpc [OF assms(1,2)] op by (auto simp: A1_def S_def)
  have A1: "A1 a = ((fst (A a))(key \<mapsto> v), None)" if "a \<in> S" for a using that assms(3,4) by (simp add: A1_def tpc_outcome_def)
  have "card (dom (fst (A1 (addr f)))) + 1 < 2 ^ 31" if f: "f \<in> set (replicas L ps key)" for f
  proof -
    have "card (dom (fst (A1 (addr f)))) \<le> card (dom (fst (A (addr f)))) + 1"
      using A1 [of "addr f"] f by (cases "finite (dom (fst (A (addr f))))") (simp_all add: S_def card_insert_if)
    with assms(7) f show ?thesis by fastforce
  qed
  then have ready: "cluster_ready L ps key c1 A1" using assms(1) c1(2,3) by (simp add: cluster_ready_def)
  have get: "kvrequest_ok (get_request key)" using assms(2) by (auto simp: kvrequest_ok_def put_request_def get_request_def opt_len_def)
  obtain c2 where c2: "tpcleader_handle_get follower_net L (get_request key) c1 = Some (\<lparr>res_type = GETRESP, res_body = Some v\<rparr>, c2)"
    using ready_get [OF ready get, of v] A1 by (auto simp: S_def)
  have ok: "kvresponse_ok \<lparr>res_type = SUCCESS, res_body = None\<rparr>" "kvresponse_ok \<lparr>res_type = GETRESP, res_body = Some v\<rparr>"
    using assms(4) by (simp_all add: kvresponse_ok_def opt_len_def entry_ok_def limits)
  have "\<exists>reply. tpcleader_handle all_written follower_net L put c = Some (Reply_bytes reply, L, c1) \<and>
      kvresponse_recieve reply = Some (Some (with_body \<lparr>res_type = SUCCESS, res_body = None\<rparr>))"
    by (rule leader_handle_wire [OF assms(2,5) ok(1)]) (simp_all add: op c1(1))
  moreover have "\<exists>reply. tpcleader_handle all_written follower_net L get c1 = Some (Reply_bytes reply, L, c2) \<and>
      kvresponse_recieve reply = Some (Some (with_body \<lparr>res_type = GETRESP, res_body = Some v\<rparr>))"
    by (rule leader_handle_wire [OF get assms(6) ok(2)]) (use c2 in \<open>simp_all add: get_request_def\<close>)
  ultimately show ?thesis by (auto simp: with_body_def)
qed

theorem cluster_put_then_get_witness:
  "\<exists>put get reply1 reply2 c1 c2. kvrequest_wire (put_request ''k'' ''v'') = Some put \<and> kvrequest_wire (get_request ''k'') = Some get \<and>
    tpcleader_handle all_written follower_net one_leader put [(''h'', 1) \<mapsto> (start_server, empty_fs)] = Some (Reply_bytes reply1, one_leader, c1) \<and>
    tpcleader_handle all_written follower_net one_leader get c1 = Some (Reply_bytes reply2, one_leader, c2) \<and>
    kvresponse_recieve reply2 = Some (Some \<lparr>res_type = GETRESP, res_body = Some ''v''\<rparr>)"
proof -
  have ok: "kvrequest_ok (put_request ''k'' ''v'')" "kvrequest_ok (get_request ''k'')"
    by (simp_all add: put_request_def get_request_def kvrequest_ok_def arg_ok_def opt_len_def)
  obtain put get where b: "kvrequest_wire (put_request ''k'' ''v'') = Some put" "kvrequest_wire (get_request ''k'') = Some get"
    using req_codec.encodes [OF ok(1)] req_codec.encodes [OF ok(2)] by blast
  have e: "entry_ok ''k'' ''v''" by (simp add: entry_ok_def limits)
  show ?thesis using cluster_put_then_get [OF one_leader_ready ok(1) _ e b] b by auto
qed

end
